(* ===== verification/Prelude.thy ===== *)
theory Prelude
  imports Main "HOL-Library.Word" "HOL-Library.Monad_Syntax" "HOL-Library.Multiset"
begin

text \<open>
  Shared vocabulary of the development: the types every component uses, the
  standard-library routines the sources call (\<open>std::bit_ceil\<close>, the
  \<open>std::string_view\<close> searches), and the generic lemmas on lists, options and bit masks
  that carry the component proofs.

  Two layers of failure are kept apart everywhere. A value of
  \<open>'a result\<close> is what the source calls \<open>Result<T>\<close>, that is
  \<open>std::expected<T, std::string>\<close>. A surrounding \<open>option\<close> is the model's own:
  \<open>None\<close> stands for a run that never returns or that would access memory out of range,
  and the lemmas of each component show when it cannot occur.
\<close>

unbundle bit_operations_syntax

section \<open>Types and collections\<close>

type_synonym u64 = "64 word"
type_synonym u32 = "32 word"
type_synonym u8 = "8 word"

text \<open>\<open>Result<T> = std::expected<T, std::string>\<close> (include/cob/utility.hpp).\<close>

type_synonym 'a result = "string + 'a"

abbreviation unexpected :: "string \<Rightarrow> 'a result" where
  "unexpected e \<equiv> Inl e"

abbreviation expected :: "'a \<Rightarrow> 'a result" where
  "expected x \<equiv> Inr x"

named_theorems mask_simps \<open>bit masks by powers of two as remainders\<close>
named_theorems inv_intros \<open>introduction rules for component invariants\<close>

section \<open>Characters\<close>

abbreviation (input) LF :: char where "LF \<equiv> CHR 0x0A"
abbreviation (input) CR :: char where "CR \<equiv> CHR 0x0D"
abbreviation (input) TAB :: char where "TAB \<equiv> CHR 0x09"
abbreviation (input) BACKSLASH :: char where "BACKSLASH \<equiv> CHR 0x5C"

section \<open>\<open>std::bit_ceil\<close>\<close>

text \<open>The least power of two that is not below the argument (1 for 0).\<close>

fun bit_ceil :: "nat \<Rightarrow> nat" where
  "bit_ceil n = (if n \<le> 1 then 1 else 2 * bit_ceil ((n + 1) div 2))"

declare bit_ceil.simps [simp del]

lemma bit_ceil_ge: "n \<le> bit_ceil n"
proof (induction n rule: bit_ceil.induct)
  case (1 n)
  show ?case
  proof (cases "n \<le> 1")
    case True
    then show ?thesis by (simp add: bit_ceil.simps)
  next
    case False
    with 1 have "(n + 1) div 2 \<le> bit_ceil ((n + 1) div 2)" by simp
    with False show ?thesis by (subst bit_ceil.simps) simp
  qed
qed

lemma bit_ceil_power: "\<exists>b. bit_ceil n = 2 ^ b"
proof (induction n rule: bit_ceil.induct)
  case (1 n)
  show ?case
  proof (cases "n \<le> 1")
    case True
    then have "bit_ceil n = 2 ^ 0" by (simp add: bit_ceil.simps)
    then show ?thesis by blast
  next
    case False
    with 1 obtain b where "bit_ceil ((n + 1) div 2) = 2 ^ b" by auto
    with False have "bit_ceil n = 2 ^ Suc b" by (subst bit_ceil.simps) simp
    then show ?thesis by blast
  qed
qed

lemma bit_ceil_pos [simp]: "0 < bit_ceil n"
  using bit_ceil_power [of n] by auto

lemma bit_ceil_less_double: "1 \<le> n \<Longrightarrow> bit_ceil n < 2 * n"
proof (induction n rule: bit_ceil.induct)
  case (1 n)
  show ?case
  proof (cases "n \<le> 1")
    case True
    with 1 show ?thesis by (simp add: bit_ceil.simps)
  next
    case False
    obtain b where b: "bit_ceil ((n + 1) div 2) = 2 ^ b" using bit_ceil_power by blast
    from 1 False have lt: "bit_ceil ((n + 1) div 2) < 2 * ((n + 1) div 2)" by simp
    show ?thesis
    proof (cases b)
      case 0
      with b lt False show ?thesis by (subst bit_ceil.simps) simp
    next
      case (Suc c)
      with b have "even (bit_ceil ((n + 1) div 2))" by simp
      with lt have "bit_ceil ((n + 1) div 2) + 2 \<le> 2 * ((n + 1) div 2)" by presburger
      with False show ?thesis by (subst bit_ceil.simps) simp
    qed
  qed
qed

section \<open>Masks\<close>

lemma nat_and_mask [mask_simps]: "(n::nat) AND (2 ^ b - 1) = n mod 2 ^ b"
  by (simp only: take_bit_eq_mask mask_eq_exp_minus_1 flip: take_bit_eq_mod)

lemma nat_and_pred_less:
  assumes "0 < m"
  shows "(n::nat) AND (m - 1) < m"
proof -
  have "int (n AND (m - 1)) = int n AND int (m - 1)" by (rule of_nat_and_eq)
  also have "\<dots> \<le> int (m - 1)" by (rule AND_upper2) simp
  finally show ?thesis using assms by linarith
qed

section \<open>Searching in \<open>std::string_view\<close>\<close>

text \<open>
  \<open>find_char c s\<close> is \<open>s.find(c)\<close> and \<open>find_from c s p\<close> is \<open>s.find(c, p)\<close>, with
  \<open>None\<close> for \<open>npos\<close>; \<open>substr s p n\<close> is \<open>s.substr(p, n)\<close> and \<open>substr_from s p\<close> is
  \<open>s.substr(p)\<close>, for \<open>p \<le> s.size()\<close> (the sources never go past the end).
\<close>

fun find_char :: "char \<Rightarrow> string \<Rightarrow> nat option" where
  "find_char c [] = None"
| "find_char c (x # xs) = (if x = c then Some 0 else map_option Suc (find_char c xs))"

definition find_from :: "char \<Rightarrow> string \<Rightarrow> nat \<Rightarrow> nat option" where
  "find_from c s p = map_option (\<lambda>i. p + i) (find_char c (drop p s))"

definition substr :: "string \<Rightarrow> nat \<Rightarrow> nat \<Rightarrow> string" where
  "substr s p n = take n (drop p s)"

definition substr_from :: "string \<Rightarrow> nat \<Rightarrow> string" where
  "substr_from s p = drop p s"

definition starts_with :: "string \<Rightarrow> string \<Rightarrow> bool" where
  "starts_with s p \<longleftrightarrow> take (length p) s = p"

definition ends_with :: "string \<Rightarrow> string \<Rightarrow> bool" where
  "ends_with s p \<longleftrightarrow> length p \<le> length s \<and> drop (length s - length p) s = p"

lemma find_char_None [simp]: "find_char c s = None \<longleftrightarrow> c \<notin> set s"
  by (induction s) auto

lemma find_char_Some:
  "find_char c s = Some i \<longleftrightarrow> i < length s \<and> s ! i = c \<and> c \<notin> set (take i s)"
proof (induction s arbitrary: i)
  case (Cons x xs)
  then show ?case by (cases i) auto
qed simp

lemma find_char_append: "c \<notin> set xs \<Longrightarrow> find_char c (xs @ c # ys) = Some (length xs)"
  by (induction xs) auto

lemma find_char_less: "find_char c s = Some i \<Longrightarrow> i < length s"
  by (simp add: find_char_Some)

lemma find_from_append [simp]:
  "find_from c (xs @ ys) (length xs) = map_option (\<lambda>i. length xs + i) (find_char c ys)"
  by (simp add: find_from_def)

text \<open>The segments between the separators, empty ones included.\<close>

fun split_on :: "char \<Rightarrow> string \<Rightarrow> string list" where
  "split_on d [] = [[]]"
| "split_on d (c # r) =
     (case split_on d r of
        [] \<Rightarrow> []
      | s # ss \<Rightarrow> if c = d then [] # s # ss else (c # s) # ss)"

lemma split_on_nonempty [simp]: "split_on d s \<noteq> []"
  by (induction s) (auto split: list.splits)

lemma split_on_plain: "d \<notin> set s \<Longrightarrow> split_on d s = [s]"
  by (induction s) auto

lemma split_on_append: "d \<notin> set a \<Longrightarrow> split_on d (a @ d # r) = a # split_on d r"
  by (induction a) (auto split: list.splits)

section \<open>Lists and options\<close>

lemma list_update_decomp: "i < length xs \<Longrightarrow> xs[i := y] = take i xs @ y # drop (Suc i) xs"
  by (simp add: upd_conv_take_nth_drop)

lemma length_filter_update:
  "i < length xs \<Longrightarrow> \<not> P (xs ! i) \<Longrightarrow> P y \<Longrightarrow>
   length (filter P (xs[i := y])) = Suc (length (filter P xs))"
  by (subst (2) id_take_nth_drop [of i xs]) (simp_all add: upd_conv_take_nth_drop)

lemma mod_length_less: "i < length xs \<Longrightarrow> j mod length xs < length xs"
  by (rule mod_less_divisor) linarith

lemma bind_eq_Some: "(m \<bind> f) = Some y \<longleftrightarrow> (\<exists>x. m = Some x \<and> f x = Some y)"
  by (cases m) auto

text \<open>
  Total correctness of a computation that may not return: it returns, and the result satisfies
  the postcondition.
\<close>

definition returns :: "'a option \<Rightarrow> ('a \<Rightarrow> bool) \<Rightarrow> bool" where
  "returns m P \<longleftrightarrow> (\<exists>x. m = Some x \<and> P x)"

lemma returns_case [code]: "returns m P \<longleftrightarrow> (case m of None \<Rightarrow> False | Some x \<Rightarrow> P x)"
  by (auto simp: returns_def split: option.split)

lemma returns_Some [simp]: "returns (Some x) P \<longleftrightarrow> P x"
  by (simp add: returns_def)

lemma returns_None [simp]: "\<not> returns None P"
  by (simp add: returns_def)

lemma returns_bind: "returns m (\<lambda>x. returns (f x) P) \<Longrightarrow> returns (m \<bind> f) P"
  by (cases m) auto

lemma returns_mono: "returns m P \<Longrightarrow> (\<And>x. m = Some x \<Longrightarrow> P x \<Longrightarrow> Q x) \<Longrightarrow> returns m Q"
  by (auto simp: returns_def)

lemma returnsE: "returns m P \<Longrightarrow> (\<And>x. m = Some x \<Longrightarrow> P x \<Longrightarrow> thesis) \<Longrightarrow> thesis"
  by (auto simp: returns_def)

text \<open>A loop over a list whose body may not return.\<close>

fun foldM :: "('s \<Rightarrow> 'a \<Rightarrow> 's option) \<Rightarrow> 's \<Rightarrow> 'a list \<Rightarrow> 's option" where
  "foldM f s [] = Some s"
| "foldM f s (x # xs) = f s x \<bind> (\<lambda>s'. foldM f s' xs)"

lemma foldM_append: "foldM f s (xs @ ys) = foldM f s xs \<bind> (\<lambda>s'. foldM f s' ys)"
  by (induction xs arbitrary: s) (auto simp: Option.bind_assoc)

text \<open>An invariant of the body carries over to the whole loop, which then returns.\<close>

lemma foldM_invariant:
  assumes "I [] s"
    and step: "\<And>done x rest s. xs = done @ x # rest \<Longrightarrow> I done s \<Longrightarrow> returns (f s x) (I (done @ [x]))"
  shows "returns (foldM f s xs) (I xs)"
proof -
  have "returns (foldM f s rest) (I xs)" if "xs = done @ rest" "I done s" for "done" rest s
    using that
  proof (induction rest arbitrary: "done" s)
    case (Cons x rest)
    from step [OF Cons.prems] obtain s' where s': "f s x = Some s'" "I (done @ [x]) s'"
      by (rule returnsE)
    with Cons.IH [of "done @ [x]" s'] Cons.prems show ?case by simp
  qed simp
  from this [of "[]" xs s] assms(1) show ?thesis by simp
qed

end
