(* ===== verification/Bytes.thy ===== *)
theory Bytes
  imports Prelude
begin

text \<open>
  Little-endian byte access, as \<open>memcpy\<close> between a \<open>uint64_t\<close> and a \<open>char\<close> buffer does it
  on the supported targets: \<open>le_word\<close> reads the bytes of a buffer as a word, \<open>le_bytes\<close>
  writes the low bytes of a word. Used by the depfile scanner, the hash and the binary cache.
\<close>

section \<open>Characters as bytes\<close>

text \<open>A \<open>char\<close> read as \<open>unsigned char\<close>, and back.\<close>

definition byte_of :: "char \<Rightarrow> u8" where
  "byte_of c = of_nat (of_char c)"

definition char_of_byte :: "u8 \<Rightarrow> char" where
  "char_of_byte w = char_of (unat w)"

lemma of_char_less [simp]: "(of_char c :: nat) < 256"
  by (metis of_char_mod_256 mod_less_divisor zero_less_numeral)

lemma unat_byte_of [simp]: "unat (byte_of c) = of_char c"
  by (simp add: byte_of_def unat_of_nat)

lemma char_of_byte_of [simp]: "char_of_byte (byte_of c) = c"
  by (simp add: char_of_byte_def)

lemma byte_of_char_of [simp]: "byte_of (char_of_byte w) = w"
proof -
  have "unat w < 2 ^ LENGTH(8)" by (rule unsigned_less)
  then have "unat w < 256" by simp
  then show ?thesis by (simp add: char_of_byte_def byte_of_def)
qed

lemma byte_of_inj [simp]: "byte_of c = byte_of d \<longleftrightarrow> c = d"
  by (metis char_of_byte_of)

section \<open>Words and their bytes\<close>

fun le_word :: "string \<Rightarrow> u64" where
  "le_word [] = 0"
| "le_word (c # cs) = ucast (byte_of c) OR push_bit 8 (le_word cs)"

fun le_bytes :: "nat \<Rightarrow> u64 \<Rightarrow> string" where
  "le_bytes 0 w = []"
| "le_bytes (Suc n) w = char_of_byte (ucast w) # le_bytes n (drop_bit 8 w)"

lemma length_le_bytes [simp]: "length (le_bytes n w) = n"
  by (induction n arbitrary: w) auto

lemma bit_le_word:
  "bit (le_word cs) i \<longleftrightarrow> i < 64 \<and> i div 8 < length cs \<and> bit (byte_of (cs ! (i div 8))) (i mod 8)"
proof (induction cs arbitrary: i)
  case Nil
  then show ?case by simp
next
  case (Cons c cs)
  show ?case
  proof (cases "i < 8")
    case True
    then show ?thesis by (simp add: bit_or_iff bit_push_bit_iff bit_ucast_iff)
  next
    case False
    then obtain j where j: "i = j + 8" by (metis add.commute le_Suc_ex not_less)
    have "\<not> bit (byte_of c) i" using False bit_imp_le_length [of "byte_of c" i] by auto
    moreover have "(j + 8) div 8 = Suc (j div 8)" by simp
    ultimately show ?thesis using j Cons.IH [of j]
      by (auto simp: bit_or_iff bit_push_bit_iff bit_ucast_iff)
  qed
qed

lemma nth_le_bytes: "i < n \<Longrightarrow> le_bytes n w ! i = char_of_byte (ucast (drop_bit (8 * i) w))"
proof (induction n arbitrary: i w)
  case (Suc n)
  then show ?case by (cases i) (simp_all add: drop_bit_drop_bit add.commute)
qed simp

lemma le_word_le_bytes [simp]: "le_word (le_bytes 8 w) = w"
proof (rule bit_word_eqI)
  fix i assume "i < LENGTH(64)"
  then have "i div 8 < 8" by simp
  with \<open>i < LENGTH(64)\<close> show "bit (le_word (le_bytes 8 w)) i = bit w i"
    by (simp add: bit_le_word nth_le_bytes bit_ucast_iff bit_drop_bit_eq)
qed

lemma le_bytes_le_word: "length cs = 8 \<Longrightarrow> le_bytes 8 (le_word cs) = cs"
proof (rule nth_equalityI)
  fix i assume len: "length cs = 8" and i: "i < length (le_bytes 8 (le_word cs))"
  have "ucast (drop_bit (8 * i) (le_word cs)) = byte_of (cs ! i)"
  proof (rule bit_word_eqI)
    fix j assume "j < LENGTH(8)"
    with i len show "bit (ucast (drop_bit (8 * i) (le_word cs)) :: u8) j = bit (byte_of (cs ! i)) j"
      by (simp add: bit_ucast_iff bit_drop_bit_eq bit_le_word)
  qed
  with i len show "le_bytes 8 (le_word cs) ! i = cs ! i" by (simp add: nth_le_bytes)
qed simp

end
