(* ===== verification/Depfile.thy ===== *)
theory Depfile
  imports Bytes
begin

text \<open>
  The scanner of compiler-generated dependency files (src/graph.cpp, lines 37 to 245). A pair of
  pointers \<open>ptr, end\<close> into the mapping is the list of the characters from \<open>ptr\<close> to \<open>end\<close>:
  \<open>ptr < end\<close> is non-emptiness, \<open>*ptr\<close> the head, \<open>++ptr\<close> the tail. A token cut out by two
  pointers is the difference of the two suffixes.

  The lemmas show that the word-at-a-time scan finds the same byte as the plain loop, that every
  token is non-empty (so the main loop ends on every file), and that names quoted by the rules of
  Make are read back, whatever follows the first rule.
\<close>

section \<open>Character classes\<close>

text \<open>\<open>c <= ' '\<close> on \<open>unsigned char\<close>.\<close>

definition blank :: "char \<Rightarrow> bool" where
  "blank c \<longleftrightarrow> (of_char c :: nat) \<le> 32"

definition newline :: "char \<Rightarrow> bool" where
  "newline c \<longleftrightarrow> c = LF \<or> c = CR"

text \<open>The bytes \<open>findTokenSpecial\<close> stops at.\<close>

definition special :: "char \<Rightarrow> bool" where
  "special c \<longleftrightarrow> blank c \<or> c = BACKSLASH \<or> c = CHR ''#'' \<or> c = CHR ''$''"

section \<open>\<open>skipWhitespace\<close>\<close>

definition skip_if :: "char \<Rightarrow> string \<Rightarrow> string" where
  "skip_if c p = (case p of [] \<Rightarrow> [] | x # r \<Rightarrow> if x = c then r else p)"

lemma length_skip_if: "length (skip_if c p) \<le> length p"
  by (simp add: skip_if_def split: list.split)

function skipWhitespace :: "string \<Rightarrow> string" where
  "skipWhitespace [] = []"
| "skipWhitespace (c # r) =
     (if \<not> blank c \<and> c \<noteq> BACKSLASH then c # r
      else if newline c then c # r
      else if blank c then skipWhitespace r
      else if r \<noteq> [] \<and> newline (hd r) then skipWhitespace (skip_if LF (skip_if CR r))
      else c # r)"
  by pat_completeness auto
termination
proof (relation "measure length")
  fix c :: char and r :: string
  have "length (skip_if LF (skip_if CR r)) \<le> length r"
    using length_skip_if [of LF "skip_if CR r"] length_skip_if [of CR r] by simp
  then show "(skip_if LF (skip_if CR r), c # r) \<in> measure length" by simp
qed simp_all

section \<open>\<open>findTokenSpecial\<close>\<close>

definition ONES :: u64 where "ONES = 0x0101010101010101"
definition HIGHS :: u64 where "HIGHS = 0x8080808080808080"

text \<open>\<open>(word - ONES * n) & ~word & HIGHS\<close>: the test for bytes below \<open>n\<close>; \<open>zero_bytes\<close> is \<open>n = 1\<close>.\<close>

definition below_bytes :: "u64 \<Rightarrow> u64 \<Rightarrow> u64" where
  "below_bytes n word = (word - ONES * n) AND (NOT word) AND HIGHS"

definition zero_bytes :: "u64 \<Rightarrow> u64" where
  "zero_bytes word = (word - ONES) AND (NOT word) AND HIGHS"

definition hits :: "u64 \<Rightarrow> u64" where
  "hits word = below_bytes 33 word OR zero_bytes (word XOR (ONES * 0x5C)) OR
     zero_bytes (word XOR (ONES * 0x23)) OR zero_bytes (word XOR (ONES * 0x24))"

text \<open>\<open>std::countr_zero\<close>.\<close>

fun first_bit :: "nat \<Rightarrow> u64 \<Rightarrow> nat" where
  "first_bit 0 w = 0"
| "first_bit (Suc n) w = (if bit w 0 then 0 else Suc (first_bit n (drop_bit 1 w)))"

definition countr_zero :: "u64 \<Rightarrow> nat" where
  "countr_zero w = first_bit 64 w"

fun scan_bytes :: "string \<Rightarrow> string" where
  "scan_bytes [] = []"
| "scan_bytes (c # r) =
     (if blank c \<or> c = BACKSLASH \<or> c = CHR ''#'' \<or> c = CHR ''$'' then c # r else scan_bytes r)"

function findTokenSpecial :: "string \<Rightarrow> string" where
  "findTokenSpecial p =
     (if 8 \<le> length p then
        let h = hits (le_word (take 8 p))
        in if h \<noteq> 0 then drop (countr_zero h div 8) p else findTokenSpecial (drop 8 p)
      else scan_bytes p)"
  by pat_completeness auto
termination
  by (relation "measure length") auto

declare findTokenSpecial.simps [simp del]

section \<open>The word-at-a-time scan is exact\<close>

text \<open>
  Bytes below the first special byte cause no borrow, so the difference of the two words, shifted
  down past them, is the difference of the remaining bytes. The integers below keep the borrow as
  a sign.
\<close>

fun le_int :: "string \<Rightarrow> int" where
  "le_int [] = 0"
| "le_int (c # cs) = of_char c + 256 * le_int cs"

fun ones_int :: "nat \<Rightarrow> int" where
  "ones_int 0 = 0"
| "ones_int (Suc k) = 1 + 256 * ones_int k"

lemma le_word_int: "le_word cs = word_of_int (le_int cs)"
proof (induction cs)
  case (Cons c cs)
  have 1: "ucast (byte_of c) OR push_bit 8 (le_word cs) = (ucast (byte_of c) + push_bit 8 (le_word cs) :: u64)"
  proof (rule disjunctive_add_eq_or [symmetric], rule bit_eqI)
    fix i
    show "bit (ucast (byte_of c) AND push_bit 8 (le_word cs) :: u64) i = bit (0 :: u64) i"
      using bit_imp_le_length [of "byte_of c" i] by (auto simp: bit_and_iff bit_ucast_iff bit_push_bit_iff)
  qed
  have "(ucast (byte_of c) :: u64) = of_nat (unat (byte_of c))"
    by (simp only: of_nat_unat)
  then have "(ucast (byte_of c) :: u64) = word_of_int (of_char c)"
    by (simp only: unat_byte_of of_nat_of_char of_int_of_char)
  then show ?case unfolding le_word.simps 1 by (simp add: Cons.IH push_bit_eq_mult)
qed simp

lemma of_char_int: "0 \<le> (of_char c :: int)" "(of_char c :: int) < 256"
proof -
  have "(of_char c :: int) = int (of_char c)" by (simp only: of_nat_of_char)
  then show "0 \<le> (of_char c :: int)" "(of_char c :: int) < 256" using of_char_less [of c] by simp_all
qed

lemma drop_diff:
  assumes "\<forall>c \<in> set (take i cs). n \<le> of_char c" "i \<le> length cs" "0 \<le> n"
  shows "drop_bit (8 * i) (le_int cs - n * ones_int (length cs)) =
    le_int (drop i cs) - n * ones_int (length cs - i)"
  using assms
proof (induction i arbitrary: cs)
  case (Suc i)
  then obtain c r where cs: "cs = c # r" by (cases cs) auto
  have c: "n \<le> of_char c" using Suc.prems by (simp add: cs)
  have "le_int cs - n * ones_int (length cs) =
      (of_char c - n) + 256 * (le_int r - n * ones_int (length r))"
    by (simp add: cs algebra_simps)
  moreover have "(of_char c - n) div 256 = 0"
    using c of_char_int [of c] Suc.prems(3) by (intro div_pos_pos_trivial) linarith+
  ultimately have "drop_bit 8 (le_int cs - n * ones_int (length cs)) = le_int r - n * ones_int (length r)"
    by (simp add: drop_bit_eq_div)
  moreover have "drop_bit (8 * Suc i) x = drop_bit (8 * i) (drop_bit 8 x)" for x :: int
    by (simp add: drop_bit_drop_bit add.commute)
  ultimately have "drop_bit (8 * Suc i) (le_int cs - n * ones_int (length cs)) =
      drop_bit (8 * i) (le_int r - n * ones_int (length r))" by (simp only:)
  also have "\<dots> = le_int (drop i r) - n * ones_int (length r - i)"
    using Suc.prems by (intro Suc.IH) (simp_all add: cs)
  finally show ?case by (simp add: cs)
qed simp

lemma bit7_diff:
  assumes "0 \<le> n" "n \<le> 128"
  shows "bit (of_char c - n + 256 * z) 7 \<and> \<not> bit (of_char c :: int) 7 \<longleftrightarrow> (of_char c :: int) < n"
proof -
  have "(of_char c - n + 256 * z) div 128 = (of_char c - n) div 128 + 2 * z"
    using div_mult_self2 [of 128 "of_char c - n" "2 * z"] by (simp add: algebra_simps)
  then have 1: "bit (of_char c - n + 256 * z) 7 \<longleftrightarrow> odd ((of_char c - n) div 128)"
    by (simp add: bit_iff_odd)
  have 2: "bit (of_char c :: int) 7 \<longleftrightarrow> odd ((of_char c :: int) div 128)" by (simp add: bit_iff_odd)
  consider "(of_char c :: int) < n" | "n \<le> (of_char c :: int)" "(of_char c :: int) < 128"
    | "128 \<le> (of_char c :: int)" by linarith
  then show ?thesis
  proof cases
    case 1
    then have "(of_char c - n) div 128 = -1" "(of_char c :: int) div 128 = 0"
      using assms of_char_int [of c] by linarith+
    with 1 show ?thesis unfolding \<open>bit (of_char c - n + 256 * z) 7 = _\<close> 2 by simp
  next
    case 2
    then have "(of_char c - n) div 128 = 0" using assms by linarith
    with 2 show ?thesis unfolding \<open>bit (of_char c - n + 256 * z) 7 = _\<close> by simp
  next
    case 3
    then have "(of_char c :: int) div 128 = 1" using of_char_int [of c] by linarith
    with 3 show ?thesis using assms unfolding 2 by simp
  qed
qed

lemma bit_byte_of: "bit (byte_of c) i \<longleftrightarrow> bit (of_char c :: int) i"
proof -
  have "bit (byte_of c) i \<longleftrightarrow> bit (unat (byte_of c)) i"
    by (simp add: bit_unsigned_iff del: unat_byte_of)
  also have "\<dots> \<longleftrightarrow> bit (of_char c :: int) i"
    by (simp only: unat_byte_of bit_of_nat_iff_bit flip: of_nat_of_char [where 'a = int])
  finally show ?thesis .
qed

lemma ONES_int: "ONES = word_of_int (ones_int 8)"
  by (simp add: ONES_def numeral_eq_Suc)

lemma repeated: "le_word (replicate 8 d) = ONES * word_of_int (of_char d)"
proof -
  have "le_int (replicate n d) = ones_int n * of_char d" for n
    by (induction n) (simp_all add: algebra_simps)
  then show ?thesis by (simp only: le_word_int ONES_int of_int_mult)
qed

lemma bit_HIGHS: "bit HIGHS i \<longleftrightarrow> i < 64 \<and> i mod 8 = 7"
proof -
  have "HIGHS = le_word (replicate 8 (CHR 0x80))"
    unfolding repeated by (simp add: HIGHS_def ONES_def)
  then have "bit HIGHS i \<longleftrightarrow> i < 64 \<and> i div 8 < 8 \<and> bit (byte_of (CHR 0x80)) (i mod 8)"
    unfolding \<open>HIGHS = _\<close> bit_le_word length_replicate by (metis nth_replicate)
  moreover have 1: "byte_of (CHR 0x80) = push_bit 7 1" by (simp add: byte_of_def)
  have "bit (byte_of (CHR 0x80)) k \<longleftrightarrow> k = 7" for k
    unfolding 1 bit_push_bit_iff bit_1_iff by auto
  ultimately show ?thesis by (auto simp: less_mult_imp_div_less)
qed

lemma below_bytes_first:
  assumes "length cs = 8" "i < 8" "0 \<le> n" "n \<le> 128"
    and plain: "\<forall>c \<in> set (take i cs). n \<le> of_char c"
  shows "bit (below_bytes (word_of_int n) (le_word cs)) (8 * i + 7) \<longleftrightarrow> of_char (cs ! i) < n"
proof -
  let ?d = "le_int cs - n * ones_int 8"
  have w: "le_word cs - ONES * word_of_int n = word_of_int ?d"
    by (simp add: le_word_int ONES_int mult.commute)
  have dr: "drop i cs = cs ! i # drop (Suc i) cs" using assms(1,2) by (simp add: Cons_nth_drop_Suc)
  have "bit ?d (8 * i + 7) \<longleftrightarrow> bit (drop_bit (8 * i) ?d) 7" by (simp add: bit_drop_bit_eq)
  also have "drop_bit (8 * i) ?d = le_int (drop i cs) - n * ones_int (8 - i)"
    using drop_diff [OF plain _ assms(3)] assms(1,2) by simp
  also have "\<dots> = of_char (cs ! i) - n + 256 * (le_int (drop (Suc i) cs) - n * ones_int (7 - i))"
    using assms(2) by (simp add: dr Suc_diff_Suc [of i 8] algebra_simps numeral_eq_Suc Suc_diff_le)
  finally have d: "bit (le_word cs - ONES * word_of_int n) (8 * i + 7) \<longleftrightarrow> bit
      (of_char (cs ! i) - n + 256 * (le_int (drop (Suc i) cs) - n * ones_int (7 - i))) 7"
    using assms(2) unfolding w by (simp only: bit_word_of_int_iff) simp
  have nt: "bit (NOT (le_word cs)) (8 * i + 7) \<longleftrightarrow> \<not> bit (of_char (cs ! i) :: int) 7"
    using assms(1,2) by (simp add: bit_not_iff bit_le_word bit_byte_of)
  have hi: "bit HIGHS (8 * i + 7)"
    using assms(2) by (simp add: bit_HIGHS)
  show ?thesis
    unfolding below_bytes_def bit_and_iff d nt using bit7_diff [OF assms(3,4)] hi by blast
qed

lemma below_bytes_other: "i mod 8 \<noteq> 7 \<Longrightarrow> \<not> bit (below_bytes n w) i"
  by (simp add: below_bytes_def bit_and_iff bit_HIGHS)

lemma zero_bytes_below: "zero_bytes w = below_bytes (word_of_int 1) w"
  by (simp add: zero_bytes_def below_bytes_def)

text \<open>Exclusive or with a repeated byte.\<close>

definition xor_char :: "char \<Rightarrow> char \<Rightarrow> char" where
  "xor_char d c = char_of_byte (byte_of c XOR byte_of d)"

lemma xor_char_zero: "of_char (xor_char d c) < (1 :: int) \<longleftrightarrow> c = d"
proof -
  have "of_char (xor_char d c) < (1 :: int) \<longleftrightarrow> unat (byte_of (xor_char d c)) = 0"
    using of_char_int [of "xor_char d c"]
    by (simp only: unat_byte_of flip: of_nat_of_char [where 'a = int]) linarith
  also have "\<dots> \<longleftrightarrow> byte_of c XOR byte_of d = 0"
    by (simp only: xor_char_def byte_of_char_of unat_eq_0)
  also have "\<dots> \<longleftrightarrow> c = d"
    by (metis byte_of_inj xor.left_commute xor.right_neutral xor_self_eq)
  finally show ?thesis .
qed

lemma xor_repeat:
  assumes "length cs = 8"
  shows "le_word cs XOR le_word (replicate 8 d) = le_word (map (xor_char d) cs)"
proof (rule bit_word_eqI)
  fix i assume "i < LENGTH(64)"
  then have "i div 8 < 8" by simp
  with assms show "bit (le_word cs XOR le_word (replicate 8 d)) i = bit (le_word (map (xor_char d) cs)) i"
    by (auto simp: bit_xor_iff bit_le_word xor_char_def)
qed

lemma zero_bytes_first:
  assumes "length cs = 8" "i < 8" "\<forall>c \<in> set (take i cs). c \<noteq> d"
  shows "bit (zero_bytes (le_word cs XOR le_word (replicate 8 d))) (8 * i + 7) \<longleftrightarrow> cs ! i = d"
proof -
  have "1 \<le> (of_char (xor_char d c) :: int)" if "c \<noteq> d" for c
    using xor_char_zero [of d c] that by linarith
  then have "\<forall>c \<in> set (take i (map (xor_char d) cs)). 1 \<le> (of_char c :: int)"
    using assms(3) by (auto simp: take_map)
  from below_bytes_first [of "map (xor_char d) cs" i 1, OF _ assms(2) _ _ this] assms(1,2)
  show ?thesis unfolding zero_bytes_below xor_repeat [OF assms(1)] by (simp add: xor_char_zero)
qed

lemma hits_repeated:
  "hits w = below_bytes (word_of_int 33) w OR zero_bytes (w XOR le_word (replicate 8 BACKSLASH)) OR
     zero_bytes (w XOR le_word (replicate 8 (CHR ''#''))) OR
     zero_bytes (w XOR le_word (replicate 8 (CHR ''$'')))"
  unfolding hits_def repeated by simp

text \<open>The lowest flagged byte is exact: a byte whose predecessors are plain is flagged iff it is special.\<close>

lemma hits_first:
  assumes "length cs = 8" "i < 8" "\<forall>c \<in> set (take i cs). \<not> special c"
  shows "bit (hits (le_word cs)) (8 * i + 7) \<longleftrightarrow> special (cs ! i)"
proof -
  have blank: "blank c \<longleftrightarrow> (of_char c :: int) < 33" for c
    unfolding blank_def of_nat_of_char [where 'a = int, symmetric] by linarith
  have "\<forall>c \<in> set (take i cs). (33 :: int) \<le> of_char c"
    using assms(3) by (auto simp: special_def blank not_less)
  from below_bytes_first [OF assms(1,2) _ _ this]
  have 1: "bit (below_bytes (word_of_int 33) (le_word cs)) (8 * i + 7) \<longleftrightarrow> blank (cs ! i)"
    by (simp add: blank)
  have 2: "bit (zero_bytes (le_word cs XOR le_word (replicate 8 d))) (8 * i + 7) \<longleftrightarrow> cs ! i = d"
    if "special d" for d
    using assms that by (intro zero_bytes_first) auto
  have s: "special BACKSLASH" "special (CHR ''#'')" "special (CHR ''$'')"
    by (simp_all add: special_def)
  show ?thesis
    unfolding hits_repeated bit_or_iff 1 2 [OF s(1)] 2 [OF s(2)] 2 [OF s(3)]
    by (simp only: special_def)
qed

lemma hits_other: "i mod 8 \<noteq> 7 \<Longrightarrow> \<not> bit (hits w) i"
  by (simp add: hits_def bit_or_iff zero_bytes_below below_bytes_other)

lemma first_bit_least:
  "bit w k \<Longrightarrow> k < n \<Longrightarrow> \<forall>j < k. \<not> bit w j \<Longrightarrow> first_bit n w = k"
proof (induction n arbitrary: w k)
  case (Suc n)
  show ?case
  proof (cases k)
    case (Suc k')
    have "\<not> bit w 0" using Suc.prems(3) Suc by blast
    moreover have "first_bit n (drop_bit 1 w) = k'"
      using Suc.prems Suc by (intro Suc.IH) (auto simp: bit_drop_bit_eq)
    ultimately show ?thesis using Suc by simp
  qed (use Suc in simp)
qed simp

lemma scan_bytes_dropWhile: "scan_bytes p = dropWhile (\<lambda>c. \<not> special c) p"
  by (induction p) (auto simp: special_def)

lemma hits_window:
  assumes "length cs = 8"
  shows "hits (le_word cs) = 0 \<longleftrightarrow> (\<forall>c \<in> set cs. \<not> special c)"
    and "hits (le_word cs) \<noteq> 0 \<Longrightarrow>
      countr_zero (hits (le_word cs)) div 8 = length (takeWhile (\<lambda>c. \<not> special c) cs)"
proof -
  let ?i = "length (takeWhile (\<lambda>c. \<not> special c) cs)" and ?h = "hits (le_word cs)"
  have plain: "\<forall>c \<in> set (take j cs). \<not> special c" if "j \<le> ?i" for j
    using that by (metis set_take_subset_set_take set_takeWhileD subsetD takeWhile_eq_take)
  have low: "\<not> bit ?h j" if "j < 8 * ?i + 7" "j < 64" for j
  proof (cases "j mod 8 = 7")
    case True
    then have j: "j = 8 * (j div 8) + 7" by presburger
    then have "j div 8 < ?i" "j div 8 < 8" using that by linarith+
    moreover from this have "\<not> special (cs ! (j div 8))"
      using nth_mem [of "j div 8" "takeWhile (\<lambda>c. \<not> special c) cs"] set_takeWhileD
      by (metis takeWhile_nth)
    ultimately have "\<not> bit ?h (8 * (j div 8) + 7)"
      using hits_first [OF assms, of "j div 8"] plain [of "j div 8"] by simp
    then show ?thesis by (subst j)
  qed (rule hits_other)
  have flag: "bit ?h (8 * ?i + 7)" if "?i < 8"
  proof -
    have "special (cs ! ?i)" using nth_length_takeWhile [of "\<lambda>c. \<not> special c" cs] that
      unfolding assms by blast
    with hits_first [OF assms that plain [OF order_refl]] show ?thesis by blast
  qed
  show zero: "?h = 0 \<longleftrightarrow> (\<forall>c \<in> set cs. \<not> special c)"
  proof
    assume "\<forall>c \<in> set cs. \<not> special c"
    then have "?i = 8" using assms by (simp add: takeWhile_eq_all_conv [THEN iffD2])
    show "?h = 0" by (rule bit_word_eqI) (use low \<open>?i = 8\<close> in simp)
  next
    assume h: "?h = 0"
    have "?i = 8"
    proof (rule ccontr)
      assume "?i \<noteq> 8"
      then have "?i < length cs" using length_takeWhile_le [of _ cs] assms by (metis le_neq_implies_less)
      then have "bit ?h (8 * ?i + 7)" using flag assms by (simp only:)
      then show False unfolding h by simp
    qed
    then show "\<forall>c \<in> set cs. \<not> special c" using plain [of 8] assms by simp
  qed
  assume "?h \<noteq> 0"
  then have "\<not> (\<forall>c \<in> set cs. \<not> special c)" using zero by simp
  moreover have "\<forall>c \<in> set cs. \<not> special c" if "?i = length cs"
    using plain [OF order_refl] unfolding that by simp
  ultimately have "?i \<noteq> length cs" by blast
  then have i: "?i < 8" using length_takeWhile_le [of _ cs] assms by (metis le_neq_implies_less)
  then have "bit ?h (8 * ?i + 7)" by (rule flag)
  then have "countr_zero ?h = 8 * ?i + 7"
    unfolding countr_zero_def by (rule first_bit_least) (use i low in auto)
  then show "countr_zero ?h div 8 = ?i" by simp
qed

lemma findTokenSpecial_dropWhile: "findTokenSpecial p = dropWhile (\<lambda>c. \<not> special c) p"
proof (induction p rule: findTokenSpecial.induct)
  case (1 p)
  let ?plain = "\<lambda>c. \<not> special c"
  show ?case
  proof (cases "8 \<le> length p")
    case False
    then show ?thesis by (subst findTokenSpecial.simps) (simp add: scan_bytes_dropWhile)
  next
    case True
    let ?cs = "take 8 p"
    have len: "length ?cs = 8" using True by simp
    have p: "p = ?cs @ drop 8 p" by simp
    show ?thesis
    proof (cases "hits (le_word ?cs) = 0")
      case z: True
      then have "\<forall>c \<in> set ?cs. ?plain c" using hits_window(1) [OF len] by blast
      then have "dropWhile ?plain p = dropWhile ?plain (drop 8 p)"
        by (subst p) (rule dropWhile_append2, blast)
      moreover have "findTokenSpecial p = findTokenSpecial (drop 8 p)"
        using True z by (subst findTokenSpecial.simps) simp
      ultimately show ?thesis using "1.IH" [OF True refl] z by simp
    next
      case False
      then obtain c where c: "c \<in> set ?cs" "special c" using hits_window(1) [OF len] by blast
      then have tw: "takeWhile ?plain p = takeWhile ?plain ?cs"
        by (subst p) (rule takeWhile_append1 [where x = c], auto)
      have "findTokenSpecial p = drop (countr_zero (hits (le_word ?cs)) div 8) p"
        using True False by (subst findTokenSpecial.simps) (simp add: Let_def)
      also have "\<dots> = dropWhile ?plain p"
        unfolding hits_window(2) [OF len False] by (simp only: tw [symmetric] dropWhile_eq_drop)
      finally show ?thesis .
    qed
  qed
qed

lemma length_findTokenSpecial: "length (findTokenSpecial p) \<le> length p"
  by (simp add: findTokenSpecial_dropWhile length_dropWhile_le)

section \<open>\<open>extractToken\<close>\<close>

function dollar_loop :: "string \<Rightarrow> bool \<Rightarrow> string \<times> bool" where
  "dollar_loop p nd =
     (if p \<noteq> [] \<and> hd p = CHR ''$'' then dollar_loop (findTokenSpecial (tl p)) True else (p, nd))"
  by pat_completeness auto
termination
proof (relation "measure (\<lambda>(p, nd). length p)")
  fix p :: string and nd :: bool
  assume "p \<noteq> [] \<and> hd p = CHR ''$''"
  then show "((findTokenSpecial (tl p), True), p, nd) \<in> measure (\<lambda>(p, nd). length p)"
    using length_findTokenSpecial [of "tl p"] by (cases p) auto
qed simp

declare dollar_loop.simps [simp del]

text \<open>
  The loop over a token with escapes. A run of backslashes before a continuation gives its last
  one back (\<open>--ptr\<close>) for \<open>skipWhitespace\<close>.
\<close>

function escape_loop :: "string \<Rightarrow> string" where
  "escape_loop [] = []"
| "escape_loop (c # r) =
     (if c = BACKSLASH then
        let slashes = takeWhile (\<lambda>x. x = BACKSLASH) (c # r);
            q = dropWhile (\<lambda>x. x = BACKSLASH) (c # r);
            odd_slashes = odd (length slashes)
        in case q of
             [] \<Rightarrow> []
           | x # q' \<Rightarrow>
               if newline x then (if odd_slashes then BACKSLASH # q else q)
               else if x = CHR ''#'' \<or> (odd_slashes \<and> (x = CHR '' '' \<or> x = TAB)) then escape_loop q'
               else escape_loop q
      else if blank c \<or> c = CHR ''#'' then c # r
      else escape_loop r)"
  by pat_completeness auto
termination
proof (relation "measure length")
  fix c :: char and r q' q :: string and x
  assume *: "c = BACKSLASH" "q = dropWhile (\<lambda>x. x = BACKSLASH) (c # r)" "q = x # q'"
  then have "length q \<le> length r"
    by (simp add: length_dropWhile_le)
  with *(3) show "(q', c # r) \<in> measure length" "(q, c # r) \<in> measure length" by simp_all
qed simp_all

text \<open>The token, whether it needs decoding, and the suffix after it.\<close>

definition extractToken :: "string \<Rightarrow> string \<times> bool \<times> string" where
  "extractToken start =
     (let (p, nd) = dollar_loop (findTokenSpecial start) False;
          (p, nd) = (if p \<noteq> [] \<and> hd p = BACKSLASH then (escape_loop p, True) else (p, nd))
      in (take (length start - length p) start, nd, p))"

section \<open>\<open>decodeDepfileToken\<close>\<close>

text \<open>The loop over the token. The decoded copy is a resource of the graph; here it is the value.\<close>

function decode_loop :: "string \<Rightarrow> string" where
  "decode_loop [] = []"
| "decode_loop (c # r) =
     (if c = CHR ''$'' \<and> r \<noteq> [] \<and> hd r = CHR ''$'' then CHR ''$'' # decode_loop (tl r)
      else if c = BACKSLASH then
        let count = length (takeWhile (\<lambda>x. x = BACKSLASH) (c # r));
            q = dropWhile (\<lambda>x. x = BACKSLASH) (c # r)
        in if q \<noteq> [] \<and> hd q = CHR ''#'' then
             replicate (count - 1) BACKSLASH @ hd q # decode_loop (tl q)
           else if q \<noteq> [] \<and> (hd q = CHR '' '' \<or> hd q = TAB) then
             replicate (count div 2) BACKSLASH @ hd q # decode_loop (tl q)
           else replicate count BACKSLASH @ decode_loop q
      else c # decode_loop r)"
  by pat_completeness auto
termination
proof (relation "measure length")
  fix c :: char and r q :: string
  assume *: "c = BACKSLASH" "q = dropWhile (\<lambda>x. x = BACKSLASH) (c # r)"
  have "length (dropWhile (\<lambda>x. x = BACKSLASH) (c # r)) \<le> length r"
    using * by (simp add: length_dropWhile_le)
  with * show "(q, c # r) \<in> measure length" "(tl q, c # r) \<in> measure length"
    "(tl q, c # r) \<in> measure length" by simp_all
qed auto

definition decodeDepfileToken :: "string \<Rightarrow> bool \<Rightarrow> string" where
  "decodeDepfileToken token needs_decode =
     (if \<not> needs_decode \<or> BACKSLASH \<notin> set token \<and> CHR ''$'' \<notin> set token then token
      else decode_loop token)"

section \<open>What a token is\<close>

definition stop :: "char \<Rightarrow> bool" where
  "stop c \<longleftrightarrow> blank c \<or> c = BACKSLASH \<or> c = CHR ''#''"

lemma stop_special: "special c \<longleftrightarrow> stop c \<or> c = CHR ''$''"
  by (auto simp: special_def stop_def)

lemma not_blank [simp]: "\<not> blank BACKSLASH" "\<not> blank (CHR ''#'')" "\<not> blank (CHR ''$'')" "\<not> blank (CHR '':'')"
  and blank_space [simp]: "blank (CHR '' '')" "blank TAB"
  by (simp_all add: blank_def)

lemma blank_newline: "newline c \<Longrightarrow> blank c"
  by (auto simp: newline_def blank_def)

lemma not_newline [simp]: "\<not> newline BACKSLASH" "\<not> newline (CHR ''#'')" "\<not> newline (CHR '' '')" "\<not> newline TAB"
    "\<not> newline (CHR '':'')"
  by (simp_all add: newline_def)

lemma dropWhile_stop:
  "dropWhile (\<lambda>c. \<not> stop c) s =
    (let p = findTokenSpecial s
     in if p \<noteq> [] \<and> hd p = CHR ''$'' then dropWhile (\<lambda>c. \<not> stop c) (tl p) else p)"
  unfolding findTokenSpecial_dropWhile
  by (induction s) (auto simp: stop_special stop_def Let_def)

lemma takeWhile_stop_dollar:
  "CHR ''$'' \<in> set (takeWhile (\<lambda>c. \<not> stop c) s) \<longleftrightarrow>
    (findTokenSpecial s \<noteq> [] \<and> hd (findTokenSpecial s) = CHR ''$'')"
  unfolding findTokenSpecial_dropWhile
proof (induction s)
  case (Cons c s)
  then show ?case
    by (cases "c = CHR ''$''"; cases "stop c") (auto simp: stop_special stop_def simp del: dropWhile_eq_Nil_conv)
qed simp

lemma dollar_loop_stop:
  "dollar_loop (findTokenSpecial s) nd =
    (dropWhile (\<lambda>c. \<not> stop c) s, nd \<or> CHR ''$'' \<in> set (takeWhile (\<lambda>c. \<not> stop c) s))"
proof (induction "length s" arbitrary: s nd rule: less_induct)
  case less
  let ?p = "findTokenSpecial s"
  show ?case
  proof (cases "?p \<noteq> [] \<and> hd ?p = CHR ''$''")
    case True
    have "length (tl ?p) < length s" using True length_findTokenSpecial [of s] by (cases ?p) auto
    from less [OF this, of True] True show ?thesis
      by (subst dollar_loop.simps) (simp add: takeWhile_stop_dollar dropWhile_stop [of s] Let_def)
  next
    case False
    then show ?thesis
      by (subst dollar_loop.simps) (auto simp: takeWhile_stop_dollar dropWhile_stop [of s] Let_def)
  qed
qed

lemma escape_loop_dropWhile: "escape_loop (dropWhile (\<lambda>c. \<not> stop c) s) = escape_loop s"
  by (induction s) (auto simp: stop_def)

lemma decode_plain: "BACKSLASH \<notin> set s \<Longrightarrow> CHR ''$'' \<notin> set s \<Longrightarrow> decode_loop s = s"
  by (induction s) auto

text \<open>A maximal run of backslashes.\<close>

definition slash_run :: "nat \<Rightarrow> string \<Rightarrow> bool" where
  "slash_run n q \<longleftrightarrow> 0 < n \<and> (q = [] \<or> hd q \<noteq> BACKSLASH)"

lemma run_split:
  assumes "slash_run n q"
  shows "takeWhile (\<lambda>x. x = BACKSLASH) (replicate n BACKSLASH @ q) = replicate n BACKSLASH"
    and "dropWhile (\<lambda>x. x = BACKSLASH) (replicate n BACKSLASH @ q) = q"
  using assms
  by (cases q; auto simp: slash_run_def takeWhile_append dropWhile_append)+

lemma run_exists:
  obtains n q where "BACKSLASH # r = replicate n BACKSLASH @ q" "slash_run n q"
proof -
  let ?b = "\<lambda>x. x = BACKSLASH"
  let ?t = "takeWhile ?b (BACKSLASH # r)" and ?q = "dropWhile ?b (BACKSLASH # r)"
  have "replicate (length ?t) BACKSLASH = ?t"
    by (rule replicate_length_same) (use set_takeWhileD in fast)
  then have "BACKSLASH # r = replicate (length ?t) BACKSLASH @ ?q"
    by (metis takeWhile_dropWhile_id)
  moreover have "slash_run (length ?t) ?q"
    unfolding slash_run_def using hd_dropWhile [of ?b "BACKSLASH # r"] by auto
  ultimately show ?thesis by (rule that)
qed

lemma escape_loop_run:
  assumes "slash_run n q"
  shows "escape_loop (replicate n BACKSLASH @ q) =
    (case q of [] \<Rightarrow> []
     | x # q' \<Rightarrow>
         if newline x then (if odd n then BACKSLASH # q else q)
         else if x = CHR ''#'' \<or> (odd n \<and> (x = CHR '' '' \<or> x = TAB)) then escape_loop q'
         else escape_loop q)"
proof -
  obtain m where m: "n = Suc m" using assms by (cases n) (auto simp: slash_run_def)
  have *: "replicate n BACKSLASH @ q = BACKSLASH # replicate m BACKSLASH @ q" by (simp add: m)
  show ?thesis
    unfolding * escape_loop.simps Let_def unfolding * [symmetric] run_split [OF assms]
    by (simp only: length_replicate if_True simp_thms)
qed

lemma decode_loop_run:
  assumes "slash_run n q"
  shows "decode_loop (replicate n BACKSLASH @ q) =
    (if q \<noteq> [] \<and> hd q = CHR ''#'' then replicate (n - 1) BACKSLASH @ hd q # decode_loop (tl q)
     else if q \<noteq> [] \<and> (hd q = CHR '' '' \<or> hd q = TAB) then
       replicate (n div 2) BACKSLASH @ hd q # decode_loop (tl q)
     else replicate n BACKSLASH @ decode_loop q)"
proof -
  obtain m where m: "n = Suc m" using assms by (cases n) (auto simp: slash_run_def)
  have *: "replicate n BACKSLASH @ q = BACKSLASH # replicate m BACKSLASH @ q" by (simp add: m)
  show ?thesis
    unfolding * decode_loop.simps Let_def unfolding * [symmetric] run_split [OF assms]
    by (simp only: length_replicate if_True simp_thms char.inject bool_simps if_False)
qed

lemma escape_loop_suffix: "\<exists>t. s = t @ escape_loop s"
proof (induction "length s" arbitrary: s rule: less_induct)
  case less
  show ?case
  proof (cases s)
    case (Cons c r)
    show ?thesis
    proof (cases "c = BACKSLASH")
      case True
      with Cons obtain n q where s: "s = replicate n BACKSLASH @ q" and run: "slash_run n q"
        using run_exists [of r] by metis
      have n: "0 < n" using run by (simp add: slash_run_def)
      have sfx: "\<exists>t. s = t @ escape_loop s" if "escape_loop s = escape_loop p" "s = u @ p" "u \<noteq> []" for u p
        using less [of p] that by (metis append_assoc length_append length_greater_0_conv less_add_same_cancel2)
      have run1: "replicate n BACKSLASH = replicate (n - 1) BACKSLASH @ [BACKSLASH]"
        using n by (metis Suc_pred' replicate_Suc replicate_append_same)
      show ?thesis
      proof (cases q)
        case Nil
        then show ?thesis using escape_loop_run [OF run] s by simp
      next
        case (Cons x q')
        show ?thesis
        proof (cases "newline x")
          case True
          then show ?thesis
            using escape_loop_run [OF run] s Cons run1
            by (cases "odd n") (auto intro: exI [of _ "replicate (n - 1) BACKSLASH"])
        next
          case False
          then have "escape_loop s = escape_loop q' \<or> escape_loop s = escape_loop q"
            unfolding s escape_loop_run [OF run] using Cons by simp
          then show ?thesis
            using sfx [of q "replicate n BACKSLASH"] sfx [of q' "replicate n BACKSLASH @ [x]"] s Cons n
            by auto
        qed
      qed
    next
      case False
      then show ?thesis
        using less [of r] Cons by (auto intro: exI [of _ "c # _"] exI [of _ "[]"])
    qed
  qed simp
qed

text \<open>Where a token may start: \<open>skipWhitespace\<close> stops there, and a token cut there is not empty.\<close>

definition token_start :: "string \<Rightarrow> bool" where
  "token_start p \<longleftrightarrow> p \<noteq> [] \<and> \<not> blank (hd p) \<and> hd p \<noteq> CHR ''#'' \<and>
     \<not> (hd p = BACKSLASH \<and> tl p \<noteq> [] \<and> newline (hd (tl p)))"

lemma escape_loop_progress:
  assumes "token_start p"
  shows "length (escape_loop p) < length p"
proof -
  obtain c r where p: "p = c # r" using assms by (cases p) (auto simp: token_start_def)
  have le: "length (escape_loop s) \<le> length s" for s
    using escape_loop_suffix [of s] by (metis length_append le_add2)
  show ?thesis
  proof (cases "c = BACKSLASH")
    case False
    with assms p le [of r] show ?thesis by (simp add: token_start_def)
  next
    case True
    with p obtain n q where s: "p = replicate n BACKSLASH @ q" and run: "slash_run n q"
      using run_exists [of r] by metis
    then have n: "0 < n" by (simp add: slash_run_def)
    show ?thesis
    proof (cases q)
      case Nil
      then show ?thesis using n s escape_loop_run [OF run] by simp
    next
      case (Cons x q')
      have "n \<noteq> 1" if "newline x"
      proof
        assume "n = 1"
        then have "p = BACKSLASH # x # q'" using s Cons by simp
        with assms that show False by (simp add: token_start_def)
      qed
      with n have "1 < n" if "newline x" using that by linarith
      then show ?thesis
        using le [of q] le [of q'] n Cons unfolding s escape_loop_run [OF run] by auto
    qed
  qed
qed

lemma skipWhitespace_stops:
  "skipWhitespace s = [] \<or> newline (hd (skipWhitespace s)) \<or> hd (skipWhitespace s) = CHR ''#'' \<or>
   token_start (skipWhitespace s)"
  by (induction s rule: skipWhitespace.induct) (auto simp: token_start_def)

lemma length_skipWhitespace: "length (skipWhitespace s) \<le> length s"
proof (induction s rule: skipWhitespace.induct)
  case (2 c r)
  then show ?case
    using length_skip_if [of LF "skip_if CR r"] length_skip_if [of CR r] by auto
qed simp

lemma escape_loop_id: "p = [] \<or> (stop (hd p) \<and> hd p \<noteq> BACKSLASH) \<Longrightarrow> escape_loop p = p"
  by (cases p) (auto simp: stop_def)

lemma extractToken_simp:
  obtains tok nd where
    "extractToken s = (tok, nd, escape_loop s)" "s = tok @ escape_loop s"
    "decodeDepfileToken tok nd = decode_loop tok"
proof -
  let ?p = "dropWhile (\<lambda>c. \<not> stop c) s" and ?pre = "takeWhile (\<lambda>c. \<not> stop c) s"
  obtain tok where tok: "s = tok @ escape_loop s" using escape_loop_suffix by blast
  then have take: "take (length s - length (escape_loop s)) s = tok"
    by (metis append_eq_conv_conj length_append add_diff_cancel_right')
  have ex: "extractToken s = (tok, CHR ''$'' \<in> set ?pre \<or> ?p \<noteq> [] \<and> hd ?p = BACKSLASH, escape_loop s)"
  proof (cases "?p \<noteq> [] \<and> hd ?p = BACKSLASH")
    case True
    then show ?thesis
      using take by (simp add: extractToken_def dollar_loop_stop escape_loop_dropWhile Let_def)
  next
    case False
    have "stop (hd ?p)" if "?p \<noteq> []" using hd_dropWhile [OF that] by blast
    with False have "escape_loop ?p = ?p" by (intro escape_loop_id) blast
    then have p: "escape_loop s = ?p" by (simp add: escape_loop_dropWhile)
    have *: "take (length s - length ?p) s = tok" using take unfolding p .
    show ?thesis
      unfolding extractToken_def dollar_loop_stop Let_def prod.case if_not_P [OF False] p *
      using False by blast
  qed
  have "decodeDepfileToken tok nd = decode_loop tok"
    if nd: "nd \<longleftrightarrow> CHR ''$'' \<in> set ?pre \<or> ?p \<noteq> [] \<and> hd ?p = BACKSLASH" for nd
  proof (cases nd)
    case False
    have "stop (hd ?p)" if "?p \<noteq> []" using hd_dropWhile [OF that] by blast
    with False nd have "escape_loop ?p = ?p" by (intro escape_loop_id) blast
    then have "tok = ?pre" using tok escape_loop_dropWhile [of s]
      by (metis append_same_eq takeWhile_dropWhile_id)
    then have "BACKSLASH \<notin> set tok" using set_takeWhileD by (fastforce simp: stop_def)
    with False nd \<open>tok = ?pre\<close> show ?thesis
      by (simp add: decodeDepfileToken_def decode_plain)
  qed (auto simp: decodeDepfileToken_def decode_plain)
  with ex tok show ?thesis using that by blast
qed

section \<open>\<open>parseDepfile\<close>\<close>

text \<open>
  The search for the target separator; \<open>k\<close> is \<open>ptr - target_start\<close>. \<open>None\<close> is the early
  return, \<open>Some p\<close> the position the main loop starts from.
\<close>

function scan_target :: "string \<Rightarrow> nat \<Rightarrow> string option" where
  "scan_target [] k = Some []"
| "scan_target (c # r) k =
     (if newline c \<or> c = CHR ''#'' then None
      else if c = BACKSLASH \<and> r \<noteq> [] then
        (if hd r = CR \<and> tl r \<noteq> [] \<and> hd (tl r) = LF then scan_target (tl (tl r)) (k + 3)
         else scan_target (tl r) (k + 2))
      else if c = CHR '':'' then
        (let drive_prefix = (k = 1 \<and> r \<noteq> [] \<and> (hd r = CHR ''/'' \<or> hd r = BACKSLASH))
         in if \<not> drive_prefix then Some r else scan_target r (k + 1))
      else scan_target r (if c = CHR '' '' \<or> c = TAB then 0 else k + 1))"
  by pat_completeness auto
termination
  by (relation "measure (\<lambda>(p, k). length p)") auto

function parse_tokens :: "string \<Rightarrow> string list" where
  "parse_tokens p =
     (if p = [] then []
      else let p = skipWhitespace p
           in if p = [] \<or> newline (hd p) \<or> hd p = CHR ''#'' then []
              else let (token, needs_decode, rest) = extractToken p
                   in (if token = [] then [] else [decodeDepfileToken token needs_decode]) @
                      parse_tokens rest)"
  by pat_completeness auto
termination
proof (relation "measure length")
  fix p q token tnr nr :: "string" and x y and needs_decode rest
  assume *: "p \<noteq> []" "q = skipWhitespace p"
    "\<not> (q = [] \<or> newline (hd q) \<or> hd q = CHR ''#'')" "x = extractToken q"
    "(token, y) = x" "(needs_decode, rest) = y"
  then have "token_start q" using skipWhitespace_stops [of p] by auto
  moreover have "rest = escape_loop q"
  proof -
    obtain tok nd where "extractToken q = (tok, nd, escape_loop q)" by (rule extractToken_simp)
    with *(4-6) show ?thesis by simp
  qed
  ultimately have "length rest < length q" using escape_loop_progress [of q] by (simp only:)
  also have "length q \<le> length p" unfolding *(2) by (rule length_skipWhitespace)
  finally show "(rest, p) \<in> measure length" by (simp only: in_measure)
qed (rule wf_measure)

declare parse_tokens.simps [simp del]

text \<open>
  \<open>parseDepfile\<close>: \<open>content\<close> is \<open>None\<close> when the file does not exist; the result lists the arguments
  of the calls of \<open>callback\<close>.
\<close>

definition parseDepfile :: "string option \<Rightarrow> string list" where
  "parseDepfile content =
     (case content of
        None \<Rightarrow> []
      | Some c \<Rightarrow>
          if c = [] then []
          else (case scan_target c 0 of None \<Rightarrow> [] | Some p \<Rightarrow> parse_tokens p))"

lemma parse_tokens_token:
  assumes "skipWhitespace p = tok @ escape_loop (skipWhitespace p)" "token_start (skipWhitespace p)"
  shows "parse_tokens p = decode_loop tok # parse_tokens (escape_loop (skipWhitespace p))"
proof -
  let ?q = "skipWhitespace p"
  obtain tok' nd where x: "extractToken ?q = (tok', nd, escape_loop ?q)" "?q = tok' @ escape_loop ?q"
    "decodeDepfileToken tok' nd = decode_loop tok'" by (rule extractToken_simp)
  have "tok' = tok" using x(2) assms(1) by (metis append_same_eq)
  moreover have "tok' \<noteq> []" using escape_loop_progress [OF assms(2)] x(2) by (metis append_Nil less_irrefl)
  moreover have "\<not> (?q = [] \<or> newline (hd ?q) \<or> hd ?q = CHR ''#'')"
    using assms(2) blank_newline by (auto simp: token_start_def)
  moreover from this have "p \<noteq> []" by auto
  ultimately show ?thesis
    using x by (subst parse_tokens.simps) (simp only: Let_def if_False prod.case append_Cons append_Nil)
qed

lemma parse_tokens_end:
  assumes "rest = [] \<or> newline (hd rest)"
  shows "parse_tokens rest = []"
  using assms by (cases rest; subst parse_tokens.simps) (auto simp: Let_def blank_newline newline_def)

section \<open>Make quoting is read back\<close>

text \<open>
  The quoting compilers apply to a file name: a space or tab is escaped by a backslash after
  doubling the backslashes before it, a hash by one backslash, a dollar by a dollar. The first
  argument counts the backslashes just before the position.
\<close>

fun quote :: "nat \<Rightarrow> string \<Rightarrow> string" where
  "quote n [] = []"
| "quote n (c # r) =
     (if c = CHR '' '' \<or> c = TAB then replicate n BACKSLASH @ BACKSLASH # c # quote 0 r
      else if c = CHR ''#'' then BACKSLASH # c # quote 0 r
      else if c = CHR ''$'' then CHR ''$'' # CHR ''$'' # quote 0 r
      else if c = BACKSLASH then BACKSLASH # quote (Suc n) r
      else c # quote 0 r)"

definition file_name :: "string \<Rightarrow> bool" where
  "file_name s \<longleftrightarrow> s \<noteq> [] \<and> last s \<noteq> BACKSLASH \<and>
     (\<forall>c \<in> set s. blank c \<longrightarrow> c = CHR '' '' \<or> c = TAB)"

text \<open>Gaps between names: blanks and line continuations.\<close>

definition gap_units :: "string set" where
  "gap_units = {[CHR '' ''], [TAB], [BACKSLASH, LF], [BACKSLASH, CR, LF]}"

fun depfile_text :: "(string list \<times> string) list \<Rightarrow> string" where
  "depfile_text [] = []"
| "depfile_text ((gap, name) # deps) = concat gap @ quote 0 name @ depfile_text deps"

lemma decode_run_other:
  assumes "q = [] \<or> \<not> (hd q = BACKSLASH \<or> hd q = CHR ''#'' \<or> hd q = CHR '' '' \<or> hd q = TAB)"
  shows "decode_loop (replicate n BACKSLASH @ q) = replicate n BACKSLASH @ decode_loop q"
proof (cases n)
  case (Suc m)
  with assms have "slash_run n q" by (auto simp: slash_run_def)
  then show ?thesis using assms by (subst decode_loop_run) auto
qed simp

lemma decode_quote: "decode_loop (replicate n BACKSLASH @ quote n s) = replicate n BACKSLASH @ s"
proof (induction s arbitrary: n)
  case Nil
  show ?case using decode_run_other [of "[]" n] by simp
next
  case (Cons c r)
  have run: "slash_run (Suc m) (c # q)" if "c \<noteq> BACKSLASH" for m q
    using that by (simp add: slash_run_def)
  have 0: "decode_loop (quote 0 r) = r" using Cons [of 0] by simp
  consider "c = CHR '' '' \<or> c = TAB" | "c = CHR ''#''" | "c = CHR ''$''" | "c = BACKSLASH"
    | "\<not> (c = CHR '' '' \<or> c = TAB \<or> c = CHR ''#'' \<or> c = CHR ''$'' \<or> c = BACKSLASH)" by blast
  then show ?case
  proof cases
    case 1
    then have e: "replicate n BACKSLASH @ quote n (c # r) = replicate (Suc (2 * n)) BACKSLASH @ c # quote 0 r"
      by (auto simp: replicate_add mult_2 replicate_app_Cons_same)
    have c: "c \<noteq> BACKSLASH" using 1 by auto
    show ?thesis
      unfolding e decode_loop_run [OF run [OF c], of "2 * n" "quote 0 r"] using 1 0 by auto
  next
    case 2
    then have e: "replicate n BACKSLASH @ quote n (c # r) = replicate (Suc n) BACKSLASH @ c # quote 0 r"
      by (simp add: replicate_app_Cons_same)
    have c: "c \<noteq> BACKSLASH" using 2 by auto
    show ?thesis
      unfolding e decode_loop_run [OF run [OF c], of n "quote 0 r"] using 2 0 by simp
  next
    case 3
    then show ?thesis using decode_run_other [of "CHR ''$'' # CHR ''$'' # quote 0 r" n] 0 by simp
  next
    case 4
    then have "replicate n BACKSLASH @ quote n (c # r) = replicate (Suc n) BACKSLASH @ quote (Suc n) r"
      by (simp add: replicate_app_Cons_same)
    with Cons [of "Suc n"] 4 show ?thesis by (simp add: replicate_app_Cons_same)
  next
    case 5
    then show ?thesis using decode_run_other [of "c # quote 0 r" n] 0 by simp
  qed
qed

lemma escape_run_other:
  assumes "q \<noteq> []" "\<not> (hd q = BACKSLASH \<or> hd q = CHR ''#'' \<or> blank (hd q))"
  shows "escape_loop (replicate n BACKSLASH @ q) = escape_loop (tl q)"
proof -
  obtain x q' where q: "q = x # q'" using assms(1) by (cases q) auto
  then have x: "x \<noteq> BACKSLASH" "x \<noteq> CHR ''#''" "\<not> blank x" "\<not> newline x"
    using assms(2) blank_newline by auto
  show ?thesis
  proof (cases n)
    case (Suc m)
    with x q have "slash_run n q" by (auto simp: slash_run_def)
    from escape_loop_run [OF this] show ?thesis using x q by auto
  qed (use x q in simp)
qed

definition token_end :: "string \<Rightarrow> bool" where
  "token_end t \<longleftrightarrow> t = [] \<or> blank (hd t) \<or> (hd t = BACKSLASH \<and> tl t \<noteq> [] \<and> newline (hd (tl t)))"

lemma escape_loop_end: "token_end t \<Longrightarrow> escape_loop t = t"
proof (cases t)
  case (Cons x r)
  assume t: "token_end t"
  show ?thesis
  proof (cases "x = BACKSLASH")
    case True
    with t Cons obtain y r' where r: "r = y # r'" "newline y" by (cases r) (auto simp: token_end_def)
    then have "slash_run 1 r" by (auto simp: slash_run_def)
    from escape_loop_run [OF this] r Cons True show ?thesis by simp
  qed (use t Cons in \<open>auto simp: token_end_def\<close>)
qed simp

lemma escape_quote:
  assumes "token_end t" "s = [] \<longrightarrow> n = 0" "s \<noteq> [] \<longrightarrow> last s \<noteq> BACKSLASH"
    "\<forall>c \<in> set s. blank c \<longrightarrow> c = CHR '' '' \<or> c = TAB"
  shows "escape_loop (replicate n BACKSLASH @ quote n s @ t) = t"
  using assms(2-)
proof (induction s arbitrary: n)
  case Nil
  then show ?case using escape_loop_end [OF assms(1)] by simp
next
  case (Cons c r)
  have run: "slash_run (Suc m) (c # q)" if "c \<noteq> BACKSLASH" for m q
    using that by (simp add: slash_run_def)
  have 0: "escape_loop (quote 0 r @ t) = t" using Cons.IH [of 0] Cons.prems by (auto split: if_splits)
  consider "c = CHR '' '' \<or> c = TAB" | "c = CHR ''#''" | "c = CHR ''$''" | "c = BACKSLASH"
    | "\<not> (c = CHR '' '' \<or> c = TAB \<or> c = CHR ''#'' \<or> c = CHR ''$'' \<or> c = BACKSLASH)" by blast
  then show ?case
  proof cases
    case 1
    then have e: "replicate n BACKSLASH @ quote n (c # r) @ t =
        replicate (Suc (2 * n)) BACKSLASH @ c # quote 0 r @ t"
      by (auto simp: replicate_add mult_2 replicate_app_Cons_same)
    have c: "c \<noteq> BACKSLASH" using 1 by auto
    show ?thesis
      unfolding e escape_loop_run [OF run [OF c], of "2 * n" "quote 0 r @ t"] using 1 0 by auto
  next
    case 2
    then have e: "replicate n BACKSLASH @ quote n (c # r) @ t =
        replicate (Suc n) BACKSLASH @ c # quote 0 r @ t"
      by (simp add: replicate_app_Cons_same)
    have c: "c \<noteq> BACKSLASH" using 2 by auto
    show ?thesis
      unfolding e escape_loop_run [OF run [OF c], of n "quote 0 r @ t"] using 2 0 by simp
  next
    case 3
    then show ?thesis using escape_run_other [of "CHR ''$'' # CHR ''$'' # quote 0 r @ t" n] 0 by simp
  next
    case 4
    then have e: "replicate n BACKSLASH @ quote n (c # r) @ t =
        replicate (Suc n) BACKSLASH @ quote (Suc n) r @ t"
      by (simp add: replicate_app_Cons_same)
    have "r \<noteq> []" using 4 Cons.prems by auto
    then show ?thesis unfolding e by (intro Cons.IH) (use Cons.prems in auto)
  next
    case 5
    then have "\<not> blank c" using Cons.prems by auto
    then show ?thesis using escape_run_other [of "c # quote 0 r @ t" n] 0 5 by simp
  qed
qed

lemma skip_unit:
  assumes "u \<in> gap_units"
  shows "skipWhitespace (u @ x) = skipWhitespace x"
  using assms by (auto simp: gap_units_def skip_if_def newline_def blank_def)

lemma skip_gap: "set gap \<subseteq> gap_units \<Longrightarrow> skipWhitespace (concat gap @ x) = skipWhitespace x"
  by (induction gap) (auto simp: skip_unit)

lemma skip_token_start: "token_start p \<Longrightarrow> skipWhitespace p = p"
  by (cases p) (auto simp: token_start_def)

lemma quote_start:
  assumes "file_name s"
  shows "token_start (quote 0 s @ t)"
proof -
  obtain c r where s: "s = c # r" using assms by (cases s) (auto simp: file_name_def)
  show ?thesis
  proof (cases "c = BACKSLASH")
    case True
    with assms s obtain d r' where r: "r = d # r'" by (cases r) (auto simp: file_name_def)
    then have "\<not> newline d \<or> d = CHR '' '' \<or> d = TAB"
      using assms s blank_newline by (auto simp: file_name_def)
    then show ?thesis using s True r by (auto simp: token_start_def)
  next
    case False
    with assms s show ?thesis by (auto simp: token_start_def file_name_def)
  qed
qed

lemma gap_end: "set gap \<subseteq> gap_units \<Longrightarrow> gap \<noteq> [] \<Longrightarrow> token_end (concat gap @ x)"
  by (cases gap) (auto simp: gap_units_def token_end_def newline_def)

lemma parse_tokens_text:
  assumes "\<forall>(gap, name) \<in> set deps. gap \<noteq> [] \<and> set gap \<subseteq> gap_units \<and> file_name name"
    and rest: "rest = [] \<or> newline (hd rest)"
  shows "parse_tokens (depfile_text deps @ rest) = map snd deps \<and> token_end (depfile_text deps @ rest)"
  using assms(1)
proof (induction deps)
  case Nil
  then show ?case using rest by (auto simp: parse_tokens_end token_end_def blank_newline)
next
  case (Cons d deps)
  obtain gap name where d: "d = (gap, name)" by (cases d)
  then have g: "gap \<noteq> []" "set gap \<subseteq> gap_units" and name: "file_name name" using Cons.prems by auto
  let ?t = "depfile_text deps @ rest"
  have IH: "parse_tokens ?t = map snd deps" "token_end ?t" using Cons by auto
  let ?p = "concat gap @ quote 0 name @ ?t"
  have q: "skipWhitespace ?p = quote 0 name @ ?t"
    by (simp only: skip_gap [OF g(2)] skip_token_start [OF quote_start [OF name]])
  have "escape_loop (quote 0 name @ ?t) = ?t"
    using escape_quote [OF IH(2), of name 0] name by (auto simp: file_name_def)
  then have "parse_tokens ?p = decode_loop (quote 0 name) # parse_tokens ?t"
    using parse_tokens_token [of ?p "quote 0 name"] quote_start [OF name] by (simp only: q)
  then show ?case using IH decode_quote [of 0 name] gap_end [OF g(2,1)] d by simp
qed

text \<open>
  Targets: ordinary characters, a backslash with the character it escapes, and continuations; before them
  possibly a drive letter with its colon.
\<close>

definition target_char :: "char \<Rightarrow> bool" where
  "target_char c \<longleftrightarrow> \<not> newline c \<and> c \<noteq> CHR ''#'' \<and> c \<noteq> BACKSLASH \<and> c \<noteq> CHR '':''"

definition target_units :: "string set" where
  "target_units = {[c] | c. target_char c} \<union> {[BACKSLASH, c] | c. c \<noteq> CR} \<union> {[BACKSLASH, CR, LF]}"

definition drive_ok :: "string \<Rightarrow> string \<Rightarrow> bool" where
  "drive_ok drive rest \<longleftrightarrow> drive = [] \<or>
     (\<exists>d. drive = [d, CHR '':''] \<and> target_char d \<and> d \<noteq> CHR '' '' \<and> d \<noteq> TAB \<and> rest \<noteq> [] \<and> (hd rest = CHR ''/'' \<or> hd rest = BACKSLASH))"

lemma scan_units:
  assumes "set units \<subseteq> target_units"
  shows "scan_target (concat units @ '': '' @ x) k = Some (CHR '' '' # x)"
  using assms
proof (induction units arbitrary: k)
  case (Cons u units)
  have IH: "scan_target (concat units @ '': '' @ x) j = Some (CHR '' '' # x)" for j using Cons by simp
  have "u \<in> target_units" using Cons.prems by simp
  then consider (plain) c where "u = [c]" "target_char c" | (escape) c where "u = [BACKSLASH, c]" "c \<noteq> CR"
    | (continuation) "u = [BACKSLASH, CR, LF]"
    by (auto simp: target_units_def)
  then show ?case
    by cases (use IH in \<open>auto simp: target_char_def newline_def\<close>)
qed simp

lemma scan_drive:
  assumes "set units \<subseteq> target_units" "drive_ok drive (concat units)"
  shows "scan_target (drive @ concat units @ '': '' @ x) 0 = Some (CHR '' '' # x)"
proof (cases "drive = []")
  case True
  with scan_units [OF assms(1)] show ?thesis by simp
next
  case False
  with assms(2) obtain d where d: "drive = [d, CHR '':'']" "target_char d" "d \<noteq> CHR '' ''" "d \<noteq> TAB" "concat units \<noteq> []"
    "hd (concat units) = CHR ''/'' \<or> hd (concat units) = BACKSLASH" by (auto simp: drive_ok_def)
  let ?r = "concat units @ '': '' @ x"
  have "?r \<noteq> []" "hd ?r = CHR ''/'' \<or> hd ?r = BACKSLASH" using d(5,6) by simp_all
  then have "scan_target (d # CHR '':'' # ?r) 0 = scan_target ?r (Suc (Suc 0))"
    using d(2-4) by (simp add: target_char_def newline_def)
  with d(1) scan_units [OF assms(1)] show ?thesis by simp
qed

text \<open>C23: Reading back. Take a rule whose target is made of ordinary characters, backslash escapes and
  continuations, perhaps after a drive prefix (a letter and a colon before a slash or backslash), followed by
  a colon and a blank, and whose prerequisites are names (not empty, not ending in a backslash, without
  control characters other than tab) written with Make quoting, each after one or more blanks or line
  continuations (LF or CRLF). Then \<open>parseDepfile\<close> reports exactly those names, in order, and nothing of
  the text after the end of the rule's line. A rule without the blank after its colon is not covered.\<close>

theorem depfile_roundtrip:
  assumes "set units \<subseteq> target_units" "drive_ok drive (concat units)"
    and "\<forall>(gap, name) \<in> set deps. gap \<noteq> [] \<and> set gap \<subseteq> gap_units \<and> file_name name"
    and "rest = [] \<or> newline (hd rest)"
  shows "parseDepfile (Some (drive @ concat units @ '': '' @ depfile_text deps @ rest)) = map snd deps"
proof -
  have "skipWhitespace (CHR '' '' # x) = skipWhitespace x" for x by simp
  then have "parse_tokens (CHR '' '' # x) = parse_tokens x" for x
    by (subst (1 2) parse_tokens.simps) (auto simp: Let_def)
  with scan_drive [OF assms(1,2)] parse_tokens_text [OF assms(3,4)] show ?thesis by (simp add: parseDepfile_def)
qed

lemma depfile_roundtrip_witness:
  "parseDepfile (Some ((''C:'' @ [BACKSLASH] @ ''o'' @ [BACKSLASH] @ ''#'' @ [BACKSLASH] @ '' a.o'') @ '': '' @
      depfile_text [([[CHR '' '']], ''src/a b.c''), ([[CHR '' ''], [BACKSLASH, LF], [TAB]], ''x$#.h'')] @
      [LF] @ ''x.h:''))
    = [''src/a b.c'', ''x$#.h'']"
proof -
  let ?units = "[[BACKSLASH, CHR ''o''], [BACKSLASH, CHR ''#''], [BACKSLASH, CHR '' ''], ''a'', ''.'', ''o'']"
  have "set ?units \<subseteq> target_units" by (simp add: target_units_def target_char_def newline_def)
  moreover have "drive_ok ''C:'' (concat ?units)" by (simp add: drive_ok_def target_char_def newline_def)
  ultimately have "parseDepfile (Some (''C:'' @ concat ?units @ '': '' @
      depfile_text [([[CHR '' '']], ''src/a b.c''), ([[CHR '' ''], [BACKSLASH, LF], [TAB]], ''x$#.h'')] @
      [LF] @ ''x.h:'')) = map snd [([[CHR '' '']], ''src/a b.c''), ([[CHR '' ''], [BACKSLASH, LF], [TAB]], ''x$#.h'')]"
    by (rule depfile_roundtrip) (simp_all add: newline_def gap_units_def file_name_def blank_def)
  then show ?thesis by simp
qed

text \<open>C30: The word-at-a-time scan. \<open>findTokenSpecial\<close>, which tests eight bytes at once with
  subtract-and-mask arithmetic, stops exactly where the byte loop would: at the first blank,
  control character, backslash, hash or dollar.\<close>

theorem findTokenSpecial_exact: "findTokenSpecial p = dropWhile (\<lambda>c. \<not> special c) p"
  by (rule findTokenSpecial_dropWhile)

text \<open>C31: Progress of the scanner. Where \<open>skipWhitespace\<close> stops in front of a token, the call of
  \<open>extractToken\<close> consumes a non-empty token, so the main loop of \<open>parseDepfile\<close> ends on every
  input and skips no byte.\<close>

theorem extractToken_progress:
  assumes "q = skipWhitespace p" "q \<noteq> []" "\<not> newline (hd q)" "hd q \<noteq> CHR ''#''"
    and "extractToken q = (tok, nd, rest)"
  shows "q = tok @ rest \<and> tok \<noteq> [] \<and> length rest < length p"
proof -
  obtain tok' nd' where x: "extractToken q = (tok', nd', escape_loop q)" "q = tok' @ escape_loop q"
    by (rule extractToken_simp)
  have "token_start q" using skipWhitespace_stops [of p] assms(1-4) by auto
  then have less: "length (escape_loop q) < length q" by (rule escape_loop_progress)
  have r: "rest = escape_loop q" "tok = tok'" using x(1) assms(5) by simp_all
  have "length rest < length p" using less length_skipWhitespace [of p] unfolding r assms(1) by simp
  moreover have "tok \<noteq> []" using less x(2) r by (metis append_Nil less_irrefl)
  ultimately show ?thesis using x(2) r by simp
qed

lemma extractToken_progress_witness:
  "skipWhitespace '' a b'' = ''a b'' \<and> extractToken ''a b'' = (''a'', False, '' b'') \<and>
   ''a b'' = ''a'' @ '' b''"
proof -
  have f: "findTokenSpecial ''a b'' = '' b''"
    by (simp add: findTokenSpecial_dropWhile special_def blank_def)
  have s: "skipWhitespace '' a b'' = ''a b''" by (simp add: blank_def newline_def)
  have e: "extractToken ''a b'' = (''a'', False, '' b'')"
    by (simp add: extractToken_def f dollar_loop.simps)
  show ?thesis
    using extractToken_progress [OF s [symmetric] _ _ _ e] s e by (simp add: newline_def)
qed

text \<open>
  A target of one letter followed at once by a continuation is taken for a drive prefix
  (\<open>ptr[1] == '\\'\<close>), so the rule is not read.
\<close>

lemma drive_prefix_continuation:
  "parseDepfile (Some (''a:'' @ [BACKSLASH, LF] @ '' b.c'' @ [LF])) = []"
  by (simp add: parseDepfile_def newline_def)

end
