(* ===== verification/Map_Interface.thy ===== *)
theory Map_Interface
  imports Prelude
begin

text \<open>
  The contract of the hash index, as its clients (the build graph, the string pool of the
  binary cache) rely on it: \<open>emplace\<close> always returns, keeps the representation invariant and
  changes exactly the given key; \<open>find\<close> answers the last value emplaced. The flat map of
  include/cob/flat_map.hpp provides it (theory FlatMap).
\<close>

locale hash_index =
  fixes empty_m :: "'m"
    and emplace :: "'m \<Rightarrow> 'k \<Rightarrow> 'v \<Rightarrow> 'm option"
    and find :: "'m \<Rightarrow> 'k \<Rightarrow> 'v option"
    and invar :: "'m \<Rightarrow> bool"
  assumes invar_empty: "invar empty_m"
    and find_empty: "find empty_m k = None"
    and emplace_ok: "invar m \<Longrightarrow>
      \<exists>m'. emplace m k v = Some m' \<and> invar m' \<and> find m' = (find m)(k \<mapsto> v)"
begin

lemma emplace_returns: "invar m \<Longrightarrow> \<exists>m'. emplace m k v = Some m'"
  using emplace_ok by blast

lemma emplace_SomeD:
  assumes "invar m" "emplace m k v = Some m'"
  shows "invar m'" "find m' = (find m)(k \<mapsto> v)"
  using emplace_ok [OF assms(1), of k v] assms(2) by auto

text \<open>Loading many entries: the loop returns, and the index holds the entries as a map.\<close>

lemma emplace_many:
  assumes "invar m"
  shows "\<exists>m'. foldM (\<lambda>m (k, v). emplace m k v) m kvs = Some m' \<and> invar m' \<and>
    find m' = find m ++ map_of (rev kvs)"
  using assms
proof (induction kvs arbitrary: m)
  case Nil
  then show ?case by simp
next
  case (Cons kv kvs)
  obtain k v where kv: "kv = (k, v)" by (cases kv)
  obtain m1 where m1: "emplace m k v = Some m1" "invar m1" "find m1 = (find m)(k \<mapsto> v)"
    using emplace_ok [OF Cons.prems] by blast
  from Cons.IH [OF m1(2)] obtain m' where
    "foldM (\<lambda>m (k, v). emplace m k v) m1 kvs = Some m'" "invar m'"
    "find m' = find m1 ++ map_of (rev kvs)" by blast
  with m1 kv show ?case by simp
qed

end

end
