(* ===== verification/FlatMap.thy ===== *)
theory FlatMap
  imports Map_Interface
begin

text \<open>
  \<open>FlatHashMap\<close> (include/cob/flat_map.hpp, src/flat_map.cpp): an open-addressing hash table
  with Robin Hood displacement, a template over key, value and hash. The hash is an argument
  of every operation here, as \<open>Hash_T\<close> is a parameter there. An empty slot is
  \<open>probe_distance == 0\<close>; its key and value are never read, so the model does not store them.
  Probe distances are natural numbers: \<open>probe_bounded\<close> shows that they never exceed the
  number of slots, so the \<open>uint32_t\<close> of the source does not wrap in tables below \<open>2 ^ 32\<close>
  slots.
\<close>

section \<open>The table\<close>

datatype ('k, 'v) slot = Free | Used (slot_key: 'k) (slot_value: 'v) (slot_dist: nat)

fun probe_distance :: "('k, 'v) slot \<Rightarrow> nat" where
  "probe_distance Free = 0"
| "probe_distance (Used k v d) = d"

record ('k, 'v) flat_map =
  slots :: "('k, 'v) slot list"
  size_m :: nat

text \<open>\<open>FlatHashMap(size_t capacity)\<close>.\<close>

definition fm_new :: "nat \<Rightarrow> ('k, 'v) flat_map" where
  "fm_new capacity =
     \<lparr>slots = replicate (bit_ceil (if capacity = 0 then 1 else capacity)) Free, size_m = 0\<rparr>"

text \<open>\<open>h & mask\<close> with \<open>mask = slots.size() - 1\<close>.\<close>

definition home :: "('k \<Rightarrow> u64) \<Rightarrow> nat \<Rightarrow> 'k \<Rightarrow> nat" where
  "home h n k = unat (h k) AND (n - 1)"

definition next_idx :: "nat \<Rightarrow> nat \<Rightarrow> nat" where
  "next_idx n idx = (idx + 1) AND (n - 1)"

section \<open>\<open>find\<close>\<close>

text \<open>
  The probing loop. It ends on every table, even a full one: the distance counts up, and the
  loop stops once it passes the distance stored in the slot. The index is always masked, so the
  guard on it is never false in a run of \<open>fm_find\<close>.
\<close>

definition max_probe :: "('k, 'v) slot list \<Rightarrow> nat" where
  "max_probe ss = foldr (\<lambda>s m. max (probe_distance s) m) ss 0"

lemma max_probe_ge: "s \<in> set ss \<Longrightarrow> probe_distance s \<le> max_probe ss"
  unfolding max_probe_def by (induction ss) (auto simp: le_max_iff_disj)

function find_loop :: "('k, 'v) slot list \<Rightarrow> 'k \<Rightarrow> nat \<Rightarrow> nat \<Rightarrow> 'v option" where
  "find_loop ss key idx dist =
     (if idx < length ss then
        (case ss ! idx of
           Free \<Rightarrow> None
         | Used k v d \<Rightarrow>
             if dist > d then None
             else if k = key then Some v
             else find_loop ss key (next_idx (length ss) idx) (dist + 1))
      else None)"
  by pat_completeness auto
termination
proof (relation "measure (\<lambda>(ss, key, idx, dist). Suc (max_probe ss) - dist)", simp, clarsimp)
  fix ss :: "('k, 'v) slot list" and idx dist k v d
  assume "idx < length ss" "ss ! idx = Used k v d" "\<not> d < dist"
  then have "dist \<le> max_probe ss"
    using max_probe_ge [OF nth_mem, of idx ss] by simp
  then show "max_probe ss - dist < Suc (max_probe ss) - dist" by simp
qed

declare find_loop.simps [simp del]

definition fm_find :: "('k \<Rightarrow> u64) \<Rightarrow> ('k, 'v) flat_map \<Rightarrow> 'k \<Rightarrow> 'v option" where
  "fm_find h m key =
     (if slots m = [] then None
      else find_loop (slots m) key (home h (length (slots m)) key) 1)"

section \<open>\<open>insertHelper\<close>, \<open>rehash\<close>, \<open>insert\<close>, \<open>emplace\<close>, \<open>reserve\<close>\<close>

text \<open>
  The insertion loop (\<open>while (true)\<close>): \<open>None\<close> is a run that does not return, which happens on
  a full table without the key. The result is the table, the size and the index of the slot
  whose value the returned pointer refers to (\<open>inserted_ptr\<close>).
\<close>

definition inserted_at :: "nat option \<Rightarrow> nat \<Rightarrow> nat" where
  "inserted_at inserted idx = (case inserted of None \<Rightarrow> idx | Some p \<Rightarrow> p)"

partial_function (option) insert_loop ::
  "('k, 'v) slot list \<Rightarrow> nat \<Rightarrow> nat option \<Rightarrow> nat \<Rightarrow> 'k \<Rightarrow> 'v \<Rightarrow> nat
    \<Rightarrow> (('k, 'v) slot list \<times> nat \<times> nat) option" where
  "insert_loop ss sz inserted idx key val dist =
     (case ss ! idx of
        Free \<Rightarrow> Some (ss[idx := Used key val dist], sz + 1, inserted_at inserted idx)
      | Used k v d \<Rightarrow>
          if k = key then Some (ss[idx := Used k val d], sz, inserted_at inserted idx)
          else if dist > d then
            insert_loop (ss[idx := Used key val dist]) sz (Some (inserted_at inserted idx))
              (next_idx (length ss) idx) k v (d + 1)
          else insert_loop ss sz inserted (next_idx (length ss) idx) key val (dist + 1))"

declare insert_loop.simps [code]

definition insertHelper ::
  "('k \<Rightarrow> u64) \<Rightarrow> ('k, 'v) flat_map \<Rightarrow> 'k \<Rightarrow> 'v \<Rightarrow> (('k, 'v) flat_map \<times> nat) option" where
  "insertHelper h m key val =
     (if slots m = [] then None
      else insert_loop (slots m) (size_m m) None (home h (length (slots m)) key) key val 1 \<bind>
        (\<lambda>(ss, sz, p). Some (\<lparr>slots = ss, size_m = sz\<rparr>, p)))"

fun reinsert :: "('k \<Rightarrow> u64) \<Rightarrow> ('k, 'v) flat_map \<Rightarrow> ('k, 'v) slot \<Rightarrow> ('k, 'v) flat_map option" where
  "reinsert h m Free = Some m"
| "reinsert h m (Used k v d) = map_option fst (insertHelper h m k v)"

definition rehash :: "('k \<Rightarrow> u64) \<Rightarrow> ('k, 'v) flat_map \<Rightarrow> nat \<Rightarrow> ('k, 'v) flat_map option" where
  "rehash h m new_capacity =
     foldM (reinsert h) \<lparr>slots = replicate new_capacity Free, size_m = 0\<rparr> (slots m)"

text \<open>\<open>size_m >= slots.size() * ROBIN_HOOD_LOAD_FACTOR\<close>, with the factor 0.75 cleared.\<close>

definition needs_growth :: "('k, 'v) flat_map \<Rightarrow> bool" where
  "needs_growth m \<longleftrightarrow> 4 * size_m m \<ge> 3 * length (slots m)"

definition fm_insert ::
  "('k \<Rightarrow> u64) \<Rightarrow> ('k, 'v) flat_map \<Rightarrow> 'k \<Rightarrow> 'v \<Rightarrow> (('k, 'v) flat_map \<times> nat) option" where
  "fm_insert h m key val =
     (if needs_growth m then rehash h m (length (slots m) * 2) else Some m) \<bind>
       (\<lambda>m. insertHelper h m key val)"

text \<open>\<open>emplace\<close> builds the value in place and is otherwise \<open>insert\<close>.\<close>

definition fm_emplace ::
  "('k \<Rightarrow> u64) \<Rightarrow> ('k, 'v) flat_map \<Rightarrow> 'k \<Rightarrow> 'v \<Rightarrow> ('k, 'v) flat_map option" where
  "fm_emplace h m key val =
     (if needs_growth m then rehash h m (length (slots m) * 2) else Some m) \<bind>
       (\<lambda>m. map_option fst (insertHelper h m key val))"

text \<open>
  \<open>static_cast<size_t>(capacity / 0.75) + 1\<close>: the quotient is the exact floor for capacities
  below \<open>2 ^ 49\<close>, where the thirds are resolved by a \<open>double\<close>.
\<close>

definition fm_reserve :: "('k \<Rightarrow> u64) \<Rightarrow> ('k, 'v) flat_map \<Rightarrow> nat \<Rightarrow> ('k, 'v) flat_map option" where
  "fm_reserve h m capacity =
     (let needed = bit_ceil (4 * capacity div 3 + 1)
      in if needed > length (slots m) then rehash h m needed else Some m)"

section \<open>Entries and positions\<close>

text \<open>The content of a table, in slot order.\<close>

fun entries :: "('k, 'v) slot list \<Rightarrow> ('k \<times> 'v) list" where
  "entries [] = []"
| "entries (Free # ss) = entries ss"
| "entries (Used k v d # ss) = (k, v) # entries ss"

abbreviation keys_of :: "('k, 'v) slot list \<Rightarrow> 'k set" where
  "keys_of ss \<equiv> fst ` set (entries ss)"

lemma map_of_mid: "k \<notin> fst ` set A \<Longrightarrow> map_of (A @ (k, v) # C) = (map_of (A @ C))(k \<mapsto> v)"
  by (induction A) (auto simp: fun_upd_twist)

lemma entries_append [simp]: "entries (xs @ ys) = entries xs @ entries ys"
  by (induction xs rule: entries.induct) auto

lemma entries_replicate [simp]: "entries (replicate n Free) = []"
  by (induction n) auto

lemma entries_set: "(k, v) \<in> set (entries ss) \<longleftrightarrow> (\<exists>i < length ss. \<exists>d. ss ! i = Used k v d)"
proof (induction ss rule: entries.induct)
  case (2 ss)
  have "(\<exists>i < length (Free # ss). \<exists>d. (Free # ss) ! i = Used k v d) \<longleftrightarrow>
      (\<exists>i < length ss. \<exists>d. ss ! i = Used k v d)"
    by (simp add: Ex_less_Suc2)
  with 2 show ?case by simp
next
  case (3 k' v' d' ss)
  then show ?case by (auto simp: Ex_less_Suc2)
qed simp

lemma entries_split:
  assumes "i < length ss"
  shows "entries ss = entries (take i ss) @ entries [ss ! i] @ entries (drop (Suc i) ss)"
    and "entries (ss[i := s]) = entries (take i ss) @ entries [s] @ entries (drop (Suc i) ss)"
proof -
  have "entries ss = entries (take i ss @ [ss ! i] @ drop (Suc i) ss)"
    using assms by (simp add: id_take_nth_drop [symmetric])
  then show "entries ss = entries (take i ss) @ entries [ss ! i] @ entries (drop (Suc i) ss)"
    by (simp only: entries_append)
  have "entries (ss[i := s]) = entries (take i ss @ [s] @ drop (Suc i) ss)"
    using assms by (simp add: upd_conv_take_nth_drop)
  then show "entries (ss[i := s]) = entries (take i ss) @ entries [s] @ entries (drop (Suc i) ss)"
    by (simp only: entries_append)
qed

text \<open>The slot a key is looked for at its \<open>o\<close>-th probe.\<close>

definition pos :: "('k \<Rightarrow> u64) \<Rightarrow> nat \<Rightarrow> 'k \<Rightarrow> nat \<Rightarrow> nat" where
  "pos h n k o' = (home h n k + o') mod n"

lemma home_pos:
  assumes "n = 2 ^ b"
  shows "home h n k = pos h n k 0"
proof -
  have "home h n k < n" unfolding home_def using assms by (intro nat_and_pred_less) simp
  then show ?thesis by (simp add: pos_def)
qed

lemma next_idx_mod: "n = 2 ^ b \<Longrightarrow> next_idx n i = (i + 1) mod n"
  unfolding next_idx_def by (simp only: nat_and_mask)

lemma next_idx_pos: "n = 2 ^ b \<Longrightarrow> next_idx n (pos h n k o') = pos h n k (Suc o')"
  by (simp add: next_idx_mod pos_def mod_simps)

lemma pos_less [simp]: "0 < n \<Longrightarrow> pos h n k o' < n"
  by (simp add: pos_def)

lemma pos_surj:
  assumes "p < n"
  shows "\<exists>o' < n. pos h n k o' = p"
proof (intro exI conjI)
  let ?a = "home h n k mod n"
  have a: "?a < n" using assms by simp
  have "(home h n k + (p + n - ?a) mod n) mod n = (?a + (p + n - ?a)) mod n"
    by (simp add: mod_simps)
  also have "?a + (p + n - ?a) = p + n" using a by simp
  finally show "pos h n k ((p + n - ?a) mod n) = p" using assms by (simp add: pos_def)
  show "(p + n - ?a) mod n < n" using assms by simp
qed

lemma walk_distinct:
  assumes "m < n" "0 < (m::nat)"
  shows "(i + m) mod n \<noteq> i mod n"
proof
  assume "(i + m) mod n = i mod n"
  then have "n dvd m" by (simp add: mod_eq_dvd_iff_nat)
  with assms show False by (simp add: nat_dvd_not_less)
qed

section \<open>The Robin Hood invariant\<close>

text \<open>
  Every key sits at the position its stored distance says, keys are distinct, and every slot on
  the way from its home to its position holds an entry that is at least as far from its own
  home (so an unsuccessful search may stop at the first entry that is closer).
\<close>

definition filled :: "('k \<Rightarrow> u64) \<Rightarrow> ('k, 'v) slot list \<Rightarrow> 'k \<Rightarrow> nat \<Rightarrow> bool" where
  "filled h ss k o' \<longleftrightarrow> (\<forall>j < o'. Suc j \<le> probe_distance (ss ! pos h (length ss) k j))"

definition slot_ok :: "('k \<Rightarrow> u64) \<Rightarrow> ('k, 'v) slot list \<Rightarrow> nat \<Rightarrow> bool" where
  "slot_ok h ss i \<longleftrightarrow> (\<forall>k v d. ss ! i = Used k v d \<longrightarrow>
     1 \<le> d \<and> d \<le> length ss \<and> i = pos h (length ss) k (d - 1) \<and> filled h ss k (d - 1))"

definition rh_inv :: "('k \<Rightarrow> u64) \<Rightarrow> ('k, 'v) slot list \<Rightarrow> bool" where
  "rh_inv h ss \<longleftrightarrow> (\<exists>b. length ss = 2 ^ b) \<and> distinct (map fst (entries ss)) \<and>
     (\<forall>i < length ss. slot_ok h ss i)"

definition fm_inv :: "('k \<Rightarrow> u64) \<Rightarrow> ('k, 'v) flat_map \<Rightarrow> bool" where
  "fm_inv h m \<longleftrightarrow> rh_inv h (slots m) \<and> size_m m = length (entries (slots m))"

lemma rh_invD:
  assumes "rh_inv h ss" "i < length ss" "ss ! i = Used k v d"
  shows "1 \<le> d" "d \<le> length ss" "i = pos h (length ss) k (d - 1)" "filled h ss k (d - 1)"
  using assms by (auto simp: rh_inv_def slot_ok_def)

lemma rh_inv_pos: "rh_inv h ss \<Longrightarrow> 0 < length ss"
  by (auto simp: rh_inv_def)

text \<open>What a probe for a stored key meets: the key itself, or an entry at least as far.\<close>

lemma stored_probe:
  assumes "rh_inv h ss" "i < length ss" "ss ! i = Used k v d" "o' < d"
  shows "(d = Suc o' \<and> pos h (length ss) k o' = i) \<or>
         (Suc o' < d \<and> Suc o' \<le> probe_distance (ss ! pos h (length ss) k o'))"
  using rh_invD [OF assms(1-3)] assms(4) by (cases "d = Suc o'") (auto simp: filled_def)

lemma lookup_stored:
  assumes "rh_inv h ss" "i < length ss" "ss ! i = Used k v d"
  shows "map_of (entries ss) k = Some v"
  using assms entries_set [of k v ss] by (auto simp: rh_inv_def)

lemma not_stored: "(\<And>i v d. i < length ss \<Longrightarrow> ss ! i \<noteq> Used k v d) \<Longrightarrow> k \<notin> keys_of ss"
  using entries_set [of k _ ss] by force

section \<open>\<open>find\<close> is the lookup\<close>

lemma find_loop_lookup:
  assumes "rh_inv h ss" "idx = pos h (length ss) key o'" "dist = Suc o'"
    and later: "\<And>i v d. i < length ss \<Longrightarrow> ss ! i = Used key v d \<Longrightarrow> o' < d"
  shows "find_loop ss key idx dist = map_of (entries ss) key"
  using assms
proof (induction ss key idx dist arbitrary: o' rule: find_loop.induct)
  case (1 ss key idx dist)
  let ?n = "length ss"
  obtain b where b: "?n = 2 ^ b" using "1.prems"(1) by (auto simp: rh_inv_def)
  have idx: "idx < ?n" using "1.prems"(2) pos_less [OF rh_inv_pos [OF "1.prems"(1)]] by simp
  have absent: "map_of (entries ss) key = None" if "probe_distance (ss ! idx) < Suc o'"
    unfolding map_of_eq_None_iff
  proof (rule not_stored)
    fix i v d assume i: "i < ?n"
    show "ss ! i \<noteq> Used key v d"
    proof
      assume "ss ! i = Used key v d"
      with stored_probe [OF "1.prems"(1) i this "1.prems"(4)] i that "1.prems"(2)
      show False by auto
    qed
  qed
  show ?case
  proof (cases "ss ! idx")
    case Free
    with idx absent show ?thesis by (subst find_loop.simps) simp
  next
    case (Used k v d)
    consider "d < dist" | "\<not> d < dist" "k = key" | "\<not> d < dist" "k \<noteq> key" by blast
    then show ?thesis
    proof cases
      case 1
      with Used idx absent "1.prems"(3) show ?thesis by (subst find_loop.simps) simp
    next
      case 2
      with Used idx lookup_stored [OF "1.prems"(1) idx Used] show ?thesis
        by (subst find_loop.simps) auto
    next
      case 3
      have "find_loop ss key (next_idx ?n idx) (dist + 1) = map_of (entries ss) key"
      proof (rule "1.IH" [OF idx Used 3 "1.prems"(1)])
        show "next_idx ?n idx = pos h ?n key (Suc o')" using b "1.prems"(2) by (simp add: next_idx_pos)
        show "dist + 1 = Suc (Suc o')" using "1.prems"(3) by simp
        fix i v' d' assume i: "i < ?n" "ss ! i = Used key v' d'"
        from stored_probe [OF "1.prems"(1) i "1.prems"(4) [OF i]] show "Suc o' < d'"
          using i Used 3 "1.prems"(2) by auto
      qed
      with 3 Used idx show ?thesis by (subst find_loop.simps) auto
    qed
  qed
qed

lemma fm_find_lookup:
  assumes "rh_inv h (slots m)"
  shows "fm_find h m = map_of (entries (slots m))"
proof
  fix key
  obtain b where b: "length (slots m) = 2 ^ b" using assms by (auto simp: rh_inv_def)
  have "find_loop (slots m) key (home h (length (slots m)) key) 1 = map_of (entries (slots m)) key"
  proof (rule find_loop_lookup [OF assms home_pos [OF b]])
    fix i v d assume "i < length (slots m)" "slots m ! i = Used key v d"
    with rh_invD(1) [OF assms this] show "0 < d" by simp
  qed simp
  with b show "fm_find h m key = map_of (entries (slots m)) key" by (auto simp: fm_find_def)
qed

section \<open>Insertion keeps the invariant and updates the lookup\<close>

lemma update_value:
  assumes "rh_inv h ss" "i < length ss" "ss ! i = Used k v d"
  shows "rh_inv h (ss[i := Used k v' d])"
    and "map_of (entries (ss[i := Used k v' d])) = (map_of (entries ss))(k \<mapsto> v')"
    and "length (entries (ss[i := Used k v' d])) = length (entries ss)"
proof -
  let ?ss = "ss[i := Used k v' d]"
  note split1 = entries_split(1) [OF assms(2), unfolded assms(3)]
  note split2 = entries_split(2) [OF assms(2), of "Used k v' d"]
  have dist: "distinct (map fst (entries ss))" using assms(1) by (simp add: rh_inv_def)
  have pd: "probe_distance (?ss ! j) = probe_distance (ss ! j)" for j
    using assms(2,3) by (cases "j = i") auto
  have "slot_ok h ?ss j" if "j < length ss" for j
    using assms that unfolding rh_inv_def slot_ok_def filled_def pd
    by (cases "j = i") auto
  with assms(1) dist split1 split2 show "rh_inv h ?ss" by (auto simp: rh_inv_def)
  show "map_of (entries ?ss) = (map_of (entries ss))(k \<mapsto> v')"
    using dist split1 split2 by (simp add: map_of_mid del: map_of_append)
  show "length (entries ?ss) = length (entries ss)" using split1 split2 by simp
qed

lemma place_entry:
  assumes inv: "rh_inv h ss" and i: "i = pos h (length ss) key o'"
    and filled: "filled h ss key o'" and o': "o' < length ss"
    and less: "probe_distance (ss ! i) < Suc o'" and new: "key \<notin> keys_of ss"
  shows "rh_inv h (ss[i := Used key val (Suc o')])"
proof -
  let ?ss = "ss[i := Used key val (Suc o')]"
  have len: "i < length ss" using i pos_less [OF rh_inv_pos [OF inv]] by simp
  have pd: "probe_distance (ss ! j) \<le> probe_distance (?ss ! j)" for j
    using len less by (cases "j = i") auto
  then have mono: "filled h ss k x \<Longrightarrow> filled h ?ss k x" for k x
    unfolding filled_def by (auto intro: order_trans)
  have "slot_ok h ?ss j" if "j < length ss" for j
  proof (cases "j = i")
    case True
    with len i o' mono [OF filled] show ?thesis by (auto simp: slot_ok_def)
  next
    case False
    with inv that mono show ?thesis by (auto simp: rh_inv_def slot_ok_def)
  qed
  moreover have "distinct (map fst (entries ?ss))"
    using inv new entries_split(1) [OF len] entries_split(2) [OF len, of "Used key val (Suc o')"]
    by (cases "ss ! i") (auto simp: rh_inv_def)
  ultimately show ?thesis using inv by (auto simp: rh_inv_def)
qed

text \<open>A carried key whose stored occurrence, if any, is not behind it, meets it or is new.\<close>

lemma carried_new:
  assumes "rh_inv h ss" "idx = pos h (length ss) key o'" "probe_distance (ss ! idx) < Suc o'"
    and "\<And>i v d. i < length ss \<Longrightarrow> ss ! i = Used key v d \<Longrightarrow> o' < d"
  shows "key \<notin> keys_of ss"
proof (rule not_stored)
  fix i v d assume i: "i < length ss"
  show "ss ! i \<noteq> Used key v d"
  proof
    assume u: "ss ! i = Used key v d"
    have "\<not> Suc o' \<le> probe_distance (ss ! idx)" using assms(3) by simp
    with stored_probe [OF assms(1) i u assms(4) [OF i u], folded assms(2)]
    have d: "d = Suc o'" "idx = i" by blast+
    from assms(3) show False unfolding d(2) u by (simp add: d(1))
  qed
qed

lemma free_bound:
  assumes "filled h ss key o'" "p < length ss" "ss ! p = Free"
  shows "o' < length ss"
proof (rule ccontr)
  assume "\<not> o' < length ss"
  moreover obtain x where x: "x < length ss" "pos h (length ss) key x = p"
    using pos_surj [OF assms(2), of h key] by blast
  ultimately have "x < o'" by simp
  with assms(1) have "Suc x \<le> probe_distance (ss ! pos h (length ss) key x)"
    unfolding filled_def by blast
  then show False unfolding x(2) assms(3) by simp
qed

text \<open>
  One round of the insertion loop ends with one of three outcomes: the key or a free slot is
  met, an entry closer to home is displaced, or the probe moves on.
\<close>

lemma insert_loop_ok:
  assumes "rh_inv h ss" "idx = pos h (length ss) key o'" "filled h ss key o'"
    and "\<And>i v d. i < length ss \<Longrightarrow> ss ! i = Used key v d \<Longrightarrow> o' < d"
    and "m < length ss" "ss ! ((idx + m) mod length ss) = Free"
  shows "\<exists>ss' sz' p. insert_loop ss sz ins idx key val (Suc o') = Some (ss', sz', p) \<and>
    rh_inv h ss' \<and> length ss' = length ss \<and>
    map_of (entries ss') = (map_of (entries ss))(key \<mapsto> val) \<and>
    sz' + length (entries ss) = sz + length (entries ss') \<and>
    (\<forall>q < length ss. (\<forall>i \<le> m. q \<noteq> (idx + i) mod length ss) \<longrightarrow> ss' ! q = ss ! q) \<and>
    (case ins of None \<Rightarrow> p < length ss \<and> (\<exists>d. ss' ! p = Used key val d) | Some p0 \<Rightarrow> p = p0)"
  using assms
proof (induction m arbitrary: ss sz ins idx key val o' rule: less_induct)
  case (less m ss sz ins idx key val o')
  let ?n = "length ss"
  note inv = less.prems(1) and later = less.prems(4) and free = less.prems(6)
  obtain b where b: "?n = 2 ^ b" using inv by (auto simp: rh_inv_def)
  have idx: "idx < ?n" using less.prems(2) pos_less [OF rh_inv_pos [OF inv]] by simp
  have bound: "o' < ?n" using free_bound [OF less.prems(3) _ free] rh_inv_pos [OF inv] by simp
  have nxt: "next_idx ?n idx = pos h ?n key (Suc o')" using b less.prems(2) by (simp add: next_idx_pos)
  have nxt': "next_idx ?n idx = (idx + 1) mod ?n" by (rule next_idx_mod [OF b])
  have m_pos: "0 < m" if "ss ! idx \<noteq> Free" using free idx that by (cases m) auto
  have walk: "(next_idx ?n idx + i) mod ?n = (idx + Suc i) mod ?n" for i
    by (simp add: nxt' mod_simps)
  show ?case
  proof (cases "ss ! idx")
    case Free
    let ?ss = "ss[idx := Used key val (Suc o')]"
    have new: "key \<notin> keys_of ss" by (rule carried_new [OF inv less.prems(2) _ later]) (simp_all add: Free)
    have "rh_inv h ?ss" by (rule place_entry [OF inv less.prems(2,3) bound _ new]) (simp add: Free)
    moreover have "map_of (entries ?ss) = (map_of (entries ss))(key \<mapsto> val)"
      using entries_split [OF idx] new Free by (simp add: map_of_mid image_Un del: map_of_append)
    moreover have "length (entries ?ss) = Suc (length (entries ss))"
      using entries_split [OF idx] Free by simp
    moreover have "?ss ! q = ss ! q" if "\<forall>i \<le> m. q \<noteq> (idx + i) mod ?n" for q
      using that idx by (cases "q = idx") auto
    ultimately show ?thesis using Free idx
      by (subst insert_loop.simps) (auto simp: inserted_at_def split: option.splits)
  next
    case (Used k v d)
    consider "k = key" | "k \<noteq> key" "d < Suc o'" | "k \<noteq> key" "\<not> d < Suc o'" by blast
    then show ?thesis
    proof cases
      case 1
      let ?ss = "ss[idx := Used k val d]"
      have "?ss ! q = ss ! q" if "\<forall>i \<le> m. q \<noteq> (idx + i) mod ?n" for q
        using that idx by (cases "q = idx") auto
      with 1 Used idx update_value [OF inv idx Used, of val] show ?thesis
        by (subst insert_loop.simps) (auto simp: inserted_at_def split: option.splits)
    next
      case 2
      let ?ss = "ss[idx := Used key val (Suc o')]"
      obtain m' where m': "m = Suc m'" using m_pos Used by (cases m) auto
      have new: "key \<notin> keys_of ss"
        by (rule carried_new [OF inv less.prems(2) _ later]) (use 2 Used in simp_all)
      have inv': "rh_inv h ?ss"
        by (rule place_entry [OF inv less.prems(2,3) bound _ new]) (use 2 Used in simp)
      have old: "map_of (entries ss) k = Some v" by (rule lookup_stored [OF inv idx Used])
      have dist: "distinct (map fst (entries ss))" using inv by (simp add: rh_inv_def)
      have pd: "probe_distance (ss ! j) \<le> probe_distance (?ss ! j)" for j
        using idx 2 Used by (cases "j = idx") auto
      have gone: "k \<notin> keys_of ?ss"
        using dist 2 Used entries_split [OF idx] by (auto simp: image_Un)
      have free': "?ss ! ((next_idx ?n idx + m') mod ?n) = Free"
        using free walk [of m'] m' walk_distinct [OF less.prems(5), of idx] idx by auto
      note own = rh_invD [OF inv idx Used]
      have "\<exists>ss' sz' p. insert_loop ?ss sz (Some (inserted_at ins idx)) (next_idx ?n idx) k v (Suc d) =
            Some (ss', sz', p) \<and> rh_inv h ss' \<and> length ss' = length ?ss \<and>
          map_of (entries ss') = (map_of (entries ?ss))(k \<mapsto> v) \<and>
          sz' + length (entries ?ss) = sz + length (entries ss') \<and>
          (\<forall>q < length ?ss. (\<forall>i \<le> m'. q \<noteq> (next_idx ?n idx + i) mod length ?ss) \<longrightarrow> ss' ! q = ?ss ! q) \<and>
          (case Some (inserted_at ins idx) of
             None \<Rightarrow> p < length ?ss \<and> (\<exists>d. ss' ! p = Used k v d) | Some p0 \<Rightarrow> p = p0)"
      proof (rule less.IH)
        show "m' < m" using m' by simp
        show "rh_inv h ?ss" by (rule inv')
        show "next_idx ?n idx = pos h (length ?ss) k d"
          using next_idx_pos [OF b, of h k "d - 1"] own by simp
        show "filled h ?ss k d"
          unfolding filled_def
        proof (intro allI impI)
          fix j assume j: "j < d"
          show "Suc j \<le> probe_distance (?ss ! pos h (length ?ss) k j)"
          proof (cases "j = d - 1")
            case True
            with own(1,3) idx 2 show ?thesis by simp
          next
            case False
            with own(4) j have "Suc j \<le> probe_distance (ss ! pos h ?n k j)" by (simp add: filled_def)
            with pd [of "pos h ?n k j"] show ?thesis by simp
          qed
        qed
        show "d < d'" if "i < length ?ss" "?ss ! i = Used k v' d'" for i v' d'
          using gone entries_set [of k v' ?ss] that by force
        show "m' < length ?ss" using m' less.prems(5) by simp
        show "?ss ! ((next_idx ?n idx + m') mod length ?ss) = Free" using free' by simp
      qed
      then obtain ss' sz' p where r:
        "insert_loop ?ss sz (Some (inserted_at ins idx)) (next_idx ?n idx) k v (Suc d) = Some (ss', sz', p)"
        "rh_inv h ss'" "length ss' = ?n" "map_of (entries ss') = (map_of (entries ?ss))(k \<mapsto> v)"
        "sz' + length (entries ?ss) = sz + length (entries ss')"
        "\<And>q. q < ?n \<Longrightarrow> \<forall>i \<le> m'. q \<noteq> (idx + Suc i) mod ?n \<Longrightarrow> ss' ! q = ?ss ! q"
        "p = inserted_at ins idx"
        by (auto simp: walk)
      have "map_of (entries ss') = (map_of (entries ss))(key \<mapsto> val)"
        using r(4) entries_split [OF idx] Used dist new 2
        by (simp add: map_of_mid image_Un fun_upd_twist [of k] del: map_of_append)
      moreover have "length (entries ?ss) = length (entries ss)"
        using entries_split [OF idx] Used by simp
      moreover have "ss' ! q = ss ! q" if "q < ?n" "\<forall>i \<le> m. q \<noteq> (idx + i) mod ?n" for q
      proof -
        from that(2) [rule_format, of 0] idx have "q \<noteq> idx" by simp
        moreover have "q \<noteq> (idx + Suc i) mod ?n" if "i \<le> m'" for i
          using \<open>\<forall>i \<le> m. q \<noteq> (idx + i) mod ?n\<close> that m' by auto
        ultimately show ?thesis using r(6) [OF that(1)] by simp
      qed
      moreover have "ss' ! idx = Used key val (Suc o')"
      proof -
        have "idx \<noteq> (idx + Suc i) mod ?n" if "i \<le> m'" for i
          using walk_distinct [of "Suc i" ?n idx] that m' less.prems(5) idx by auto
        with r(6) [OF idx] idx show ?thesis by simp
      qed
      ultimately show ?thesis using 2 Used idx r
        by (subst insert_loop.simps) (auto simp: inserted_at_def split: option.splits)
    next
      case 3
      obtain m' where m': "m = Suc m'" using m_pos Used by (cases m) auto
      have "\<exists>ss' sz' p. insert_loop ss sz ins (next_idx ?n idx) key val (Suc (Suc o')) =
            Some (ss', sz', p) \<and> rh_inv h ss' \<and> length ss' = ?n \<and>
          map_of (entries ss') = (map_of (entries ss))(key \<mapsto> val) \<and>
          sz' + length (entries ss) = sz + length (entries ss') \<and>
          (\<forall>q < ?n. (\<forall>i \<le> m'. q \<noteq> (next_idx ?n idx + i) mod ?n) \<longrightarrow> ss' ! q = ss ! q) \<and>
          (case ins of None \<Rightarrow> p < ?n \<and> (\<exists>d. ss' ! p = Used key val d) | Some p0 \<Rightarrow> p = p0)"
      proof (rule less.IH)
        show "m' < m" using m' by simp
        show "next_idx ?n idx = pos h ?n key (Suc o')" by (rule nxt)
        show "filled h ss key (Suc o')"
          using less.prems(2,3) 3 Used by (auto simp: filled_def less_Suc_eq)
        show "Suc o' < d'" if "i < ?n" "ss ! i = Used key v' d'" for i v' d'
          using stored_probe [OF inv that later [OF that]] that 3 Used less.prems(2) by auto
        show "m' < ?n" using m' less.prems(5) by simp
        show "ss ! ((next_idx ?n idx + m') mod ?n) = Free" using free walk m' by simp
      qed (rule inv)
      then obtain ss' sz' p where r:
        "insert_loop ss sz ins (next_idx ?n idx) key val (Suc (Suc o')) = Some (ss', sz', p)"
        "rh_inv h ss'" "length ss' = ?n" "map_of (entries ss') = (map_of (entries ss))(key \<mapsto> val)"
        "sz' + length (entries ss) = sz + length (entries ss')"
        "\<And>q. q < ?n \<Longrightarrow> \<forall>i \<le> m'. q \<noteq> (idx + Suc i) mod ?n \<Longrightarrow> ss' ! q = ss ! q"
        "case ins of None \<Rightarrow> p < ?n \<and> (\<exists>d. ss' ! p = Used key val d) | Some p0 \<Rightarrow> p = p0"
        by (auto simp: walk)
      have "ss' ! q = ss ! q" if "q < ?n" "\<forall>i \<le> m. q \<noteq> (idx + i) mod ?n" for q
      proof -
        have "q \<noteq> (idx + Suc i) mod ?n" if "i \<le> m'" for i
          using \<open>\<forall>i \<le> m. q \<noteq> (idx + i) mod ?n\<close> that m' by auto
        then show ?thesis using r(6) [OF that(1)] by simp
      qed
      with 3 Used idx r show ?thesis by (subst insert_loop.simps) auto
    qed
  qed
qed

section \<open>The operations of the map\<close>

lemma length_entries: "length (entries ss) = length (filter (\<lambda>s. s \<noteq> Free) ss)"
  by (induction ss rule: entries.induct) auto

lemma free_slot_exists:
  assumes "length (entries ss) < length ss"
  obtains p where "p < length ss" "ss ! p = Free"
proof -
  have "\<exists>s \<in> set ss. s = Free"
  proof (rule ccontr)
    assume "\<not> (\<exists>s \<in> set ss. s = Free)"
    then have "\<forall>s \<in> set ss. s \<noteq> Free" by blast
    then have "filter (\<lambda>s. s \<noteq> Free) ss = ss" by (rule filter_True)
    with assms show False by (simp add: length_entries)
  qed
  with that show thesis by (auto simp: in_set_conv_nth)
qed

lemma entries_le: "length (entries ss) \<le> length ss"
  by (simp add: length_entries)

lemma card_dom_map_of: "distinct (map fst es) \<Longrightarrow> card (dom (map_of es)) = length es"
  using distinct_card [of "map fst es"] by (simp add: dom_map_of_conv_image_fst)

lemma entries_card: "rh_inv h ss \<Longrightarrow> length (entries ss) = card (dom (map_of (entries ss)))"
  by (simp add: rh_inv_def card_dom_map_of)

lemma fm_inv_size: "fm_inv h m \<Longrightarrow> size_m m = card (dom (fm_find h m))"
  using entries_card [of h "slots m"] by (simp add: fm_inv_def fm_find_lookup)

lemma rh_inv_replicate: "rh_inv h (replicate (2 ^ b) Free)"
  by (auto simp: rh_inv_def slot_ok_def)

lemma insertHelper_ok:
  assumes inv: "fm_inv h m" and room: "length (entries (slots m)) < length (slots m)"
  shows "\<exists>m' p d. insertHelper h m key val = Some (m', p) \<and> fm_inv h m' \<and>
    length (slots m') = length (slots m) \<and>
    map_of (entries (slots m')) = (map_of (entries (slots m)))(key \<mapsto> val) \<and>
    p < length (slots m') \<and> slots m' ! p = Used key val d"
proof -
  let ?ss = "slots m"
  have rh: "rh_inv h ?ss" using inv by (simp add: fm_inv_def)
  obtain b where b: "length ?ss = 2 ^ b" using rh by (auto simp: rh_inv_def)
  obtain p where p: "p < length ?ss" "?ss ! p = Free" using free_slot_exists [OF room] .
  obtain x where x: "x < length ?ss" "pos h (length ?ss) key x = p"
    using pos_surj [OF p(1), of h key] by blast
  let ?i = "home h (length ?ss) key"
  have "\<exists>ss' sz' p. insert_loop ?ss (size_m m) None ?i key val (Suc 0) = Some (ss', sz', p) \<and>
    rh_inv h ss' \<and> length ss' = length ?ss \<and>
    map_of (entries ss') = (map_of (entries ?ss))(key \<mapsto> val) \<and>
    sz' + length (entries ?ss) = size_m m + length (entries ss') \<and>
    (\<forall>q < length ?ss. (\<forall>i \<le> x. q \<noteq> (?i + i) mod length ?ss) \<longrightarrow> ss' ! q = ?ss ! q) \<and>
    (case None of None \<Rightarrow> p < length ?ss \<and> (\<exists>d. ss' ! p = Used key val d) | Some p0 \<Rightarrow> p = p0)"
  proof (rule insert_loop_ok [OF rh home_pos [OF b]])
    show "filled h ?ss key 0" by (simp add: filled_def)
    show "0 < d" if "i < length ?ss" "?ss ! i = Used key v d" for i v d
      using rh_invD(1) [OF rh that] by simp
    show "?ss ! ((?i + x) mod length ?ss) = Free" using x p by (simp add: pos_def)
  qed (rule x(1))
  then show ?thesis using inv b by (auto simp: insertHelper_def fm_inv_def)
qed

lemma rehash_ok:
  assumes inv: "fm_inv h m" and cap: "cap = 2 ^ b" "length (entries (slots m)) \<le> cap"
  shows "\<exists>m'. rehash h m cap = Some m' \<and> fm_inv h m' \<and> length (slots m') = cap \<and>
    map_of (entries (slots m')) = map_of (entries (slots m))"
proof -
  let ?I = "\<lambda>done m'. fm_inv h m' \<and> length (slots m') = cap \<and>
    map_of (entries (slots m')) = map_of (entries done)"
  let ?s0 = "\<lparr>slots = replicate cap Free, size_m = 0\<rparr>"
  have dist: "distinct (map fst (entries (slots m)))" using inv by (simp add: fm_inv_def rh_inv_def)
  have "returns (foldM (reinsert h) ?s0 (slots m)) (?I (slots m))"
  proof (rule foldM_invariant [where I = ?I])
    show "?I [] ?s0" using cap(1) rh_inv_replicate by (simp add: fm_inv_def)
  next
    fix "done" s rest m1
    assume split: "slots m = done @ s # rest" and I: "?I done m1"
    show "returns (reinsert h m1 s) (?I (done @ [s]))"
    proof (cases s)
      case Free
      with I show ?thesis by simp
    next
      case (Used k v d)
      have "length (entries (slots m1)) = card (dom (map_of (entries done)))"
        using I entries_card [of h "slots m1"] by (simp add: fm_inv_def)
      also have "\<dots> = length (entries done)"
        using dist split by (intro card_dom_map_of) simp
      also have "\<dots> < cap" using split Used cap(2) by simp
      finally have "length (entries (slots m1)) < length (slots m1)" using I by simp
      from insertHelper_ok [OF _ this, of h k v] I obtain m2 p where
        m2: "insertHelper h m1 k v = Some (m2, p)" "fm_inv h m2" "length (slots m2) = cap"
          "map_of (entries (slots m2)) = (map_of (entries done))(k \<mapsto> v)" by auto
      have "k \<notin> fst ` set (entries done)" using dist split Used by auto
      then have "map_of (entries (done @ [s])) = (map_of (entries done))(k \<mapsto> v)"
        using Used map_of_mid [of k "entries done" v "[]"] by (simp del: map_of_append)
      with m2 Used show ?thesis by simp
    qed
  qed
  then show ?thesis by (auto simp: rehash_def returns_def)
qed

lemma grow_ok:
  assumes inv: "fm_inv h m"
  shows "\<exists>m'. (if needs_growth m then rehash h m (length (slots m) * 2) else Some m) = Some m' \<and>
    fm_inv h m' \<and> map_of (entries (slots m')) = map_of (entries (slots m)) \<and>
    length (entries (slots m')) < length (slots m')"
proof (cases "needs_growth m")
  case True
  obtain b where b: "length (slots m) = 2 ^ b" using inv by (auto simp: fm_inv_def rh_inv_def)
  then have "length (slots m) * 2 = 2 ^ Suc b" by simp
  from rehash_ok [OF inv this] entries_le [of "slots m"] obtain m' where
    m': "rehash h m (length (slots m) * 2) = Some m'" "fm_inv h m'"
      "length (slots m') = length (slots m) * 2" "map_of (entries (slots m')) = map_of (entries (slots m))"
    by auto
  have "length (entries (slots m')) = length (entries (slots m))"
    using inv m'(2,4) entries_card [of h "slots m"] entries_card [of h "slots m'"]
    by (simp add: fm_inv_def)
  also have "\<dots> < length (slots m) * 2" using rh_inv_pos [of h "slots m"] inv entries_le [of "slots m"] unfolding fm_inv_def by linarith
  finally show ?thesis using m' True by auto
next
  case False
  with inv show ?thesis by (simp add: needs_growth_def fm_inv_def)
qed

lemma fm_insert_ok:
  assumes "fm_inv h m"
  shows "\<exists>m' p d. fm_insert h m key val = Some (m', p) \<and> fm_inv h m' \<and>
    fm_find h m' = (fm_find h m)(key \<mapsto> val) \<and>
    p < length (slots m') \<and> slots m' ! p = Used key val d"
proof -
  obtain m1 where m1: "(if needs_growth m then rehash h m (length (slots m) * 2) else Some m) = Some m1"
    "fm_inv h m1" "map_of (entries (slots m1)) = map_of (entries (slots m))"
    "length (entries (slots m1)) < length (slots m1)"
    using grow_ok [OF assms] by blast
  obtain m' p d where m': "insertHelper h m1 key val = Some (m', p)" "fm_inv h m'"
    "map_of (entries (slots m')) = (map_of (entries (slots m1)))(key \<mapsto> val)"
    "p < length (slots m')" "slots m' ! p = Used key val d"
    using insertHelper_ok [OF m1(2,4)] by blast
  have "fm_insert h m key val = Some (m', p)" unfolding fm_insert_def m1(1) by (simp add: m'(1))
  with m' m1 assms show ?thesis by (auto simp: fm_inv_def fm_find_lookup)
qed

lemma fm_emplace_insert: "fm_emplace h m key val = map_option fst (fm_insert h m key val)"
  by (simp add: fm_emplace_def fm_insert_def map_option_bind split: bind_split)

lemma fm_new_inv: "fm_inv h (fm_new capacity)"
  using bit_ceil_power [of "if capacity = 0 then 1 else capacity"] rh_inv_replicate
  by (auto simp: fm_inv_def fm_new_def)

lemma fm_new_find: "fm_find h (fm_new capacity) k = None"
  by (simp add: fm_find_lookup fm_new_inv [unfolded fm_inv_def, THEN conjunct1])
    (simp add: fm_new_def)

interpretation fm: hash_index "fm_new capacity" "fm_emplace h" "fm_find h" "fm_inv h"
  for capacity :: nat and h :: "'k \<Rightarrow> u64"
proof
  fix m :: "('k, 'v) flat_map" and k v
  assume "fm_inv h m"
  from fm_insert_ok [OF this, of k v]
  show "\<exists>m'. fm_emplace h m k v = Some m' \<and> fm_inv h m' \<and> fm_find h m' = (fm_find h m)(k \<mapsto> v)"
    by (auto simp: fm_emplace_insert)
qed (simp_all add: fm_new_inv fm_new_find)

lemma fm_reserve_ok:
  assumes inv: "fm_inv h m"
  shows "\<exists>m'. fm_reserve h m capacity = Some m' \<and> fm_inv h m' \<and> fm_find h m' = fm_find h m \<and>
    4 * capacity < 3 * length (slots m')"
proof -
  let ?needed = "bit_ceil (4 * capacity div 3 + 1)"
  have big: "4 * capacity < 3 * ?needed" using bit_ceil_ge [of "4 * capacity div 3 + 1"] by linarith
  show ?thesis
  proof (cases "?needed > length (slots m)")
    case True
    obtain b where "?needed = 2 ^ b" using bit_ceil_power by blast
    from rehash_ok [OF inv this] entries_le [of "slots m"] True obtain m' where
      "rehash h m ?needed = Some m'" "fm_inv h m'" "length (slots m') = ?needed"
      "map_of (entries (slots m')) = map_of (entries (slots m))" by auto
    with True big inv show ?thesis by (auto simp: fm_reserve_def fm_inv_def fm_find_lookup)
  next
    case False
    with big inv show ?thesis by (auto simp: fm_reserve_def)
  qed
qed

section \<open>Why the load factor matters: the loop on a full table\<close>

text \<open>With unbounded probe distances, inserting a new key into a table without an empty slot
  displaces entries forever; the growth in \<open>insert\<close> and \<open>emplace\<close> excludes such tables.\<close>

lemma insert_loop_full:
  assumes ret: "insert_loop ss sz ins idx key val dist = Some r"
    and full: "Free \<notin> set ss" "distinct (map fst (entries ss))" "key \<notin> keys_of ss"
      "idx < length ss"
  shows False
proof -
  have "Free \<notin> set ss \<longrightarrow> distinct (map fst (entries ss)) \<longrightarrow> key \<notin> keys_of ss \<longrightarrow> idx < length ss \<longrightarrow> False"
  proof (rule insert_loop.raw_induct [where P = "\<lambda>ss sz ins idx key val dist r.
      Free \<notin> set ss \<longrightarrow> distinct (map fst (entries ss)) \<longrightarrow> key \<notin> keys_of ss \<longrightarrow> idx < length ss \<longrightarrow> False",
      OF _ ret], intro impI)
    fix f :: "('a, 'b) slot list \<Rightarrow> nat \<Rightarrow> nat option \<Rightarrow> nat \<Rightarrow> 'a \<Rightarrow> 'b \<Rightarrow> nat \<Rightarrow> (('a, 'b) slot list \<times> nat \<times> nat) option"
      and ss sz ins idx key val dist r
    assume IH: "\<And>ss sz ins idx key val dist r. f ss sz ins idx key val dist = Some r \<Longrightarrow>
        Free \<notin> set ss \<longrightarrow> distinct (map fst (entries ss)) \<longrightarrow> key \<notin> keys_of ss \<longrightarrow> idx < length ss \<longrightarrow> False"
      and eq: "(case ss ! idx of
        Free \<Rightarrow> Some (ss[idx := Used key val dist], sz + 1, inserted_at ins idx)
      | Used k v d \<Rightarrow>
          if k = key then Some (ss[idx := Used k val d], sz, inserted_at ins idx)
          else if dist > d then
            f (ss[idx := Used key val dist]) sz (Some (inserted_at ins idx))
              (next_idx (length ss) idx) k v (d + 1)
          else f ss sz ins (next_idx (length ss) idx) key val (dist + 1)) = Some r"
      and pre: "Free \<notin> set ss" "distinct (map fst (entries ss))" "key \<notin> keys_of ss" "idx < length ss"
    obtain k v d where u: "ss ! idx = Used k v d"
      using pre(1) nth_mem [OF pre(4)] by (cases "ss ! idx") auto
    have nxt: "next_idx (length ss) idx < length ss"
      unfolding next_idx_def using pre(4) by (intro nat_and_pred_less) auto
    have "k \<in> keys_of ss" using entries_set [of k v ss] u pre(4) by force
    with pre(3) have neq: "k \<noteq> key" by auto
    show False
    proof (cases "dist > d")
      case True
      let ?ss = "ss[idx := Used key val dist]"
      from eq u neq True have "f ?ss sz (Some (inserted_at ins idx)) (next_idx (length ss) idx) k v (d + 1) = Some r"
        by simp
      from IH [OF this] have imp: "Free \<notin> set ?ss \<longrightarrow> distinct (map fst (entries ?ss)) \<longrightarrow> k \<notin> keys_of ?ss \<longrightarrow> False"
        using nxt by simp
      have "Free \<notin> set ?ss" using pre(1) set_update_subset_insert [of ss idx "Used key val dist"] by auto
      with imp pre(2,3) u neq entries_split(1) [OF pre(4)]
        entries_split(2) [OF pre(4), of "Used key val dist"]
      show False by (auto simp: image_Un)
    next
      case False
      with eq u neq have "f ss sz ins (next_idx (length ss) idx) key val (dist + 1) = Some r" by simp
      from IH [OF this] pre nxt show False by simp
    qed
  qed
  with full show False by simp
qed

section \<open>Properties\<close>

text \<open>C28: The table is a map. On every well-formed table \<open>emplace\<close> returns (the displacement loop
  ends, growing first when the load factor asks for it), keeps the Robin Hood invariant, changes
  the given key only, and counts the entries.\<close>

theorem fm_emplace_correct:
  assumes "fm_inv h m"
  shows "returns (fm_emplace h m k v) (\<lambda>m'. fm_inv h m' \<and> fm_find h m' = (fm_find h m)(k \<mapsto> v) \<and>
    size_m m' = card (dom ((fm_find h m)(k \<mapsto> v))))"
proof -
  obtain m' where m': "fm_emplace h m k v = Some m'" using fm.emplace_returns [OF assms] by blast
  note ok = fm.emplace_SomeD [OF assms m']
  have "size_m m' = card (dom (fm_find h m'))" by (rule fm_inv_size [OF ok(1)])
  with m' ok show ?thesis by simp
qed

lemma fm_emplace_correct_witness:
  "returns (fm_emplace (\<lambda>_. 3) (fm_new 2 :: (nat, nat) flat_map) 7 40)
     (\<lambda>m'. fm_find (\<lambda>_. 3) m' 7 = Some 40 \<and> fm_find (\<lambda>_. 3) m' 8 = None \<and> size_m m' = 1)"
  by (rule returns_mono [OF fm_emplace_correct [OF fm_new_inv]]) (simp add: fm_new_find fun_eq_iff dom_def)

text \<open>Growing keeps every entry. \<open>reserve\<close> returns and leaves the lookups unchanged, and
  afterwards the requested number of entries stays below the load factor.\<close>

theorem fm_reserve_correct:
  assumes "fm_inv h m"
  shows "returns (fm_reserve h m capacity) (\<lambda>m'. fm_inv h m' \<and> fm_find h m' = fm_find h m \<and>
    4 * capacity < 3 * length (slots m'))"
  using fm_reserve_ok [OF assms, of capacity] by (auto simp: returns_def)

lemma fm_reserve_correct_witness:
  "returns (fm_reserve (\<lambda>_. 3) (fm_new 2 :: (nat, nat) flat_map) 100) (\<lambda>m'. 133 < length (slots m'))"
  by (rule returns_mono [OF fm_reserve_correct [OF fm_new_inv]]) simp

text \<open>Every stored probe distance is at most the number of slots.\<close>

lemma probe_bounded: "fm_inv h m \<Longrightarrow> s \<in> set (slots m) \<Longrightarrow> probe_distance s \<le> length (slots m)"
  by (cases s) (auto simp: fm_inv_def in_set_conv_nth dest: rh_invD(2))

text \<open>Loading a table. Emplacing a list of pairs into a fresh table, of whatever initial
  capacity and hash, returns, and \<open>find\<close> then answers the last value given for each key and
  nothing else.\<close>

theorem fm_load_correct:
  fixes kvs :: "('k \<times> 'v) list"
  shows "returns (foldM (\<lambda>m (k, v). fm_emplace h m k v) (fm_new capacity) kvs)
     (\<lambda>m. fm_inv h m \<and> fm_find h m = map_of (rev kvs))"
proof -
  have "fm_find h (fm_new capacity :: ('k, 'v) flat_map) = Map.empty" by (rule ext) (rule fm_new_find)
  with fm.emplace_many [OF fm_new_inv, of h capacity kvs] show ?thesis by (auto simp: returns_def)
qed

end
