(* ===== verification/BuildGraph.thy ===== *)
theory BuildGraph
  imports FlatMap Depfile
begin

text \<open>
  The build graph (include/cob/build_step.hpp, include/cob/graph.hpp, src/graph.cpp): nodes for
  file paths, the index from path to node, build steps, and \<open>addStep\<close>, which splits the inputs
  of a step, reads the dependency file of its output and adds one edge per input.

  A \<open>std::string_view\<close> is the string it views. The two lists that may borrow their elements from
  a binary cache keep the borrowed and the owned storage apart, as the code does. The hash of the
  index is the parameter \<open>h\<close>; the file system is the parameter \<open>read\<close> (\<open>None\<close>: no such file).
\<close>

section \<open>\<open>EdgeList\<close>\<close>

record edge_list =
  el_owned :: "nat list"
  el_borrowed :: "nat list option"

definition el_empty :: edge_list where
  "el_empty = \<lparr>el_owned = [], el_borrowed = None\<rparr>"

definition el_borrow :: "nat list \<Rightarrow> edge_list" where
  "el_borrow edges = \<lparr>el_owned = [], el_borrowed = Some edges\<rparr>"

text \<open>\<open>data()\<close> with \<open>size()\<close>: what iteration sees.\<close>

definition el_data :: "edge_list \<Rightarrow> nat list" where
  "el_data e = (case el_borrowed e of Some b \<Rightarrow> b | None \<Rightarrow> el_owned e)"

definition el_push_back :: "edge_list \<Rightarrow> nat \<Rightarrow> edge_list" where
  "el_push_back e edge =
     (let e = (case el_borrowed e of
                 Some b \<Rightarrow> \<lparr>el_owned = b, el_borrowed = None\<rparr>
               | None \<Rightarrow> e)
      in e\<lparr>el_owned := el_owned e @ [edge]\<rparr>)"

lemma el_data_simps [simp]:
  "el_data el_empty = []" "el_data (el_borrow b) = b" "el_data (el_push_back e x) = el_data e @ [x]"
  by (auto simp: el_data_def el_empty_def el_borrow_def el_push_back_def Let_def split: option.split)

section \<open>\<open>DepfileInputs\<close>\<close>

record StringRef =
  ref_offset :: nat
  ref_len :: nat

text \<open>An \<open>optional_vector\<close> is \<open>None\<close> until \<open>emplace\<close>, \<open>reserve\<close> or the first element.\<close>

type_synonym 'a optional_vector = "'a list option"

definition ov_list :: "'a optional_vector \<Rightarrow> 'a list" where
  "ov_list v = (case v of None \<Rightarrow> [] | Some xs \<Rightarrow> xs)"

definition ov_push_back :: "'a optional_vector \<Rightarrow> 'a \<Rightarrow> 'a optional_vector" where
  "ov_push_back v x = Some (ov_list v @ [x])"

definition ov_reserve :: "'a optional_vector \<Rightarrow> 'a optional_vector" where
  "ov_reserve v = Some (ov_list v)"

lemma ov_list_simps [simp]:
  "ov_list None = []" "ov_list (Some xs) = xs"
  "ov_list (ov_push_back v x) = ov_list v @ [x]" "ov_list (ov_reserve v) = ov_list v"
  by (auto simp: ov_list_def ov_push_back_def ov_reserve_def)

record DepfileInputs =
  di_owned :: "string optional_vector"
  di_borrowed :: "(StringRef list \<times> string) option"

definition di_empty :: DepfileInputs where
  "di_empty = \<lparr>di_owned = None, di_borrowed = None\<rparr>"

definition di_borrow :: "StringRef list \<Rightarrow> string \<Rightarrow> DepfileInputs" where
  "di_borrow refs strings = \<lparr>di_owned = None, di_borrowed = Some (refs, strings)\<rparr>"

definition di_has_value :: "DepfileInputs \<Rightarrow> bool" where
  "di_has_value d \<longleftrightarrow> di_borrowed d \<noteq> None \<or> di_owned d \<noteq> None"

text \<open>Decoding a reference on access, and what iteration sees.\<close>

definition ref_view :: "string \<Rightarrow> StringRef \<Rightarrow> string" where
  "ref_view strings r = substr strings (ref_offset r) (ref_len r)"

definition di_list :: "DepfileInputs \<Rightarrow> string list" where
  "di_list d = (case di_borrowed d of
      Some (refs, strings) \<Rightarrow> map (ref_view strings) refs
    | None \<Rightarrow> ov_list (di_owned d))"

definition makeOwned :: "DepfileInputs \<Rightarrow> DepfileInputs" where
  "makeOwned d = (case di_borrowed d of
      None \<Rightarrow> d
    | Some _ \<Rightarrow> \<lparr>di_owned = foldl ov_push_back (ov_reserve None) (di_list d), di_borrowed = None\<rparr>)"

definition di_reserve :: "DepfileInputs \<Rightarrow> DepfileInputs" where
  "di_reserve d = (let d = makeOwned d in d\<lparr>di_owned := ov_reserve (di_owned d)\<rparr>)"

definition di_emplace_back :: "DepfileInputs \<Rightarrow> string \<Rightarrow> DepfileInputs" where
  "di_emplace_back d path =
     (let d = makeOwned d in d\<lparr>di_owned := ov_push_back (di_owned d) path\<rparr>)"

lemma foldl_push: "ov_list (foldl ov_push_back v xs) = ov_list v @ xs"
  by (induction xs arbitrary: v) auto

lemma makeOwned [simp]: "di_borrowed (makeOwned d) = None" "ov_list (di_owned (makeOwned d)) = di_list d"
  by (auto simp: makeOwned_def di_list_def foldl_push split: option.split)

lemma di_list_new [simp]:
  "di_list di_empty = []" "di_list (di_borrow refs strings) = map (ref_view strings) refs"
  by (simp_all add: di_list_def di_empty_def di_borrow_def)

lemma di_list_update [simp]: "di_borrowed d = None \<Longrightarrow> di_list (d\<lparr>di_owned := v\<rparr>) = ov_list v"
  by (simp add: di_list_def)

lemma di_list_push [simp]:
  "di_list (di_reserve d) = di_list d" "di_list (di_emplace_back d p) = di_list d @ [p]"
  by (simp_all add: di_reserve_def di_emplace_back_def Let_def)

section \<open>Steps, nodes and the graph\<close>

record build_step =
  tool :: string
  inputs :: string
  output_path :: string
  opaque_inputs :: "string optional_vector"
  depfile_inputs :: DepfileInputs
  parsed_inputs :: "string list"
  extra_flags :: string
  command_hash :: u64

record node =
  path :: string
  out_edges :: edge_list
  step_id :: "nat option"

record build_graph =
  nodes_m :: "node list"
  steps_m :: "build_step list"
  index :: "(string, nat) flat_map"

definition empty_graph :: "nat \<Rightarrow> build_graph" where
  "empty_graph cap = \<lparr>nodes_m = [], steps_m = [], index = fm_new cap\<rparr>"

definition fresh_node :: "string \<Rightarrow> node" where
  "fresh_node p = \<lparr>path = p, out_edges = el_empty, step_id = None\<rparr>"

definition findNode :: "(string \<Rightarrow> u64) \<Rightarrow> build_graph \<Rightarrow> string \<Rightarrow> nat option" where
  "findNode h g p = fm_find h (index g) p"

definition getOrCreateNode ::
  "(string \<Rightarrow> u64) \<Rightarrow> build_graph \<Rightarrow> string \<Rightarrow> (build_graph \<times> nat) option" where
  "getOrCreateNode h g p =
     (case fm_find h (index g) p of
        Some i \<Rightarrow> Some (g, i)
      | None \<Rightarrow>
          let i = length (nodes_m g)
          in do { idx \<leftarrow> fm_emplace h (index g) p i;
                  Some (g\<lparr>nodes_m := nodes_m g @ [fresh_node p], index := idx\<rparr>, i) })"

section \<open>\<open>addStep\<close>\<close>

text \<open>The loop that splits \<open>step.inputs\<close> at commas; \<open>!\<close> marks an opaque input.\<close>

definition add_input :: "build_step \<Rightarrow> string \<Rightarrow> build_step" where
  "add_input step in_path =
     (if in_path = [] then step
      else if starts_with in_path ''!'' then
        step\<lparr>opaque_inputs := ov_push_back (opaque_inputs step) (substr_from in_path 1)\<rparr>
      else step\<lparr>parsed_inputs := parsed_inputs step @ [in_path]\<rparr>)"

function split_inputs :: "string \<Rightarrow> build_step \<Rightarrow> build_step" where
  "split_inputs remaining step =
     (if remaining = [] then step
      else
        let comma_pos = find_char (CHR '','') remaining;
            (in_path, remaining') =
              (case comma_pos of
                 None \<Rightarrow> (remaining, [])
               | Some p \<Rightarrow> (substr remaining 0 p, substr_from remaining (p + 1)))
        in split_inputs remaining' (add_input step in_path))"
  by pat_completeness auto
termination
  by (relation "measure (\<lambda>(r, s). length r)")
    (auto simp: substr_from_def find_char_Some simp flip: length_greater_0_conv split: option.splits)

declare split_inputs.simps [simp del]

text \<open>\<open>getOrCreateNode(in_path)\<close> and \<open>nodes_m[in_id].out_edges.push_back(out_id)\<close>.\<close>

definition add_edge ::
  "(string \<Rightarrow> u64) \<Rightarrow> nat \<Rightarrow> build_graph \<Rightarrow> string \<Rightarrow> (build_graph \<times> nat) option" where
  "add_edge h out_id g in_path =
     do { (g, in_id) \<leftarrow> getOrCreateNode h g in_path;
          let n = nodes_m g ! in_id
          in Some (g\<lparr>nodes_m := (nodes_m g)[in_id := n\<lparr>out_edges := el_push_back (out_edges n) out_id\<rparr>]\<rparr>,
                   in_id) }"

text \<open>The callback of \<open>parseDepfile\<close>.\<close>

definition depfile_parse_callback ::
  "(string \<Rightarrow> u64) \<Rightarrow> nat \<Rightarrow> nat \<Rightarrow> build_graph \<Rightarrow> string \<Rightarrow> build_graph option" where
  "depfile_parse_callback h out_id sid g fn =
     do { (g, in_id) \<leftarrow> add_edge h out_id g fn;
          let step = steps_m g ! sid
          in Some (g\<lparr>steps_m := (steps_m g)[sid :=
               step\<lparr>depfile_inputs := di_emplace_back (depfile_inputs step) (path (nodes_m g ! in_id))\<rparr>]\<rparr>) }"

definition addStep ::
  "(string \<Rightarrow> u64) \<Rightarrow> (string \<Rightarrow> string option) \<Rightarrow> build_graph \<Rightarrow> build_step
    \<Rightarrow> (build_graph \<times> nat result) option" where
  "addStep h read g step =
     do { (g, out_id) \<leftarrow> getOrCreateNode h g (output_path step);
          if step_id (nodes_m g ! out_id) \<noteq> None
          then Some (g, unexpected (''Duplicate producer for output: '' @ output_path step))
          else
            let step = split_inputs (inputs step) step;
                sid = length (steps_m g);
                g = g\<lparr>steps_m := steps_m g @ [step],
                      nodes_m := (nodes_m g)[out_id := (nodes_m g ! out_id)\<lparr>step_id := Some sid\<rparr>]\<rparr>
            in do { g \<leftarrow> (if tool step = ''cc'' \<or> tool step = ''cxx''
                         then foldM (depfile_parse_callback h out_id sid) g
                                (parseDepfile (read (output_path step @ ''.d'')))
                         else Some g);
                    g \<leftarrow> foldM (\<lambda>g p. map_option fst (add_edge h out_id g p)) g
                           (parsed_inputs (steps_m g ! sid));
                    g \<leftarrow> foldM (\<lambda>g p. map_option fst (add_edge h out_id g p)) g
                           (ov_list (opaque_inputs (steps_m g ! sid)));
                    Some (g, expected sid) } }"

section \<open>The splitting loop\<close>

text \<open>What it computes: the non-empty segments between commas, partitioned by the marker.\<close>

abbreviation segments :: "string \<Rightarrow> string list" where
  "segments \<equiv> split_on (CHR '','')"

definition is_opaque :: "string \<Rightarrow> bool" where
  "is_opaque s \<longleftrightarrow> s \<noteq> [] \<and> hd s = CHR ''!''"

definition plain_segments :: "string \<Rightarrow> string list" where
  "plain_segments s = filter (\<lambda>x. x \<noteq> [] \<and> \<not> is_opaque x) (segments s)"

definition opaque_segments :: "string \<Rightarrow> string list" where
  "opaque_segments s = map tl (filter is_opaque (segments s))"

lemma split_inputs_Nil [simp]: "split_inputs [] step = step"
  by (simp add: split_inputs.simps)

lemma split_inputs_last: "CHR '','' \<notin> set p \<Longrightarrow> split_inputs p step = add_input step p"
  by (cases "p = []"; subst split_inputs.simps) (simp_all add: add_input_def find_char_None [THEN iffD2])

lemma split_inputs_comma:
  "CHR '','' \<notin> set p \<Longrightarrow> split_inputs (p @ CHR '','' # r) step = split_inputs r (add_input step p)"
  by (subst split_inputs.simps) (simp add: find_char_append substr_def substr_from_def)

lemma split_inputs_foldl: "split_inputs r step = foldl add_input step (segments r)"
proof (induction "length r" arbitrary: r step rule: less_induct)
  case less
  show ?case
  proof (cases "CHR '','' \<in> set r")
    case True
    then obtain p r' where r: "r = p @ CHR '','' # r'" "CHR '','' \<notin> set p"
      by (meson split_list_first)
    then show ?thesis using less [of r'] by (simp add: split_inputs_comma split_on_append)
  next
    case False
    then show ?thesis by (simp add: split_inputs_last split_on_plain)
  qed
qed

lemma add_input_frame:
  "(add_input s p)\<lparr>parsed_inputs := [], opaque_inputs := None\<rparr> = s\<lparr>parsed_inputs := [], opaque_inputs := None\<rparr>"
  by (simp add: add_input_def)

lemma split_inputs_segments:
  "parsed_inputs (split_inputs r step) = parsed_inputs step @ plain_segments r"
  "ov_list (opaque_inputs (split_inputs r step)) = ov_list (opaque_inputs step) @ opaque_segments r"
  "(split_inputs r step)\<lparr>parsed_inputs := [], opaque_inputs := None\<rparr> =
     step\<lparr>parsed_inputs := [], opaque_inputs := None\<rparr>"
proof -
  have sw: "starts_with p ''!'' \<longleftrightarrow> is_opaque p" for p
    by (cases p) (auto simp: starts_with_def is_opaque_def)
  have "parsed_inputs (foldl add_input s ss) = parsed_inputs s @ filter (\<lambda>x. x \<noteq> [] \<and> \<not> is_opaque x) ss"
    for s ss by (induction ss arbitrary: s) (auto simp: add_input_def sw)
  then show "parsed_inputs (split_inputs r step) = parsed_inputs step @ plain_segments r"
    by (simp add: split_inputs_foldl plain_segments_def)
  have "ov_list (opaque_inputs (foldl add_input s ss)) =
      ov_list (opaque_inputs s) @ map tl (filter is_opaque ss)"
    for s ss by (induction ss arbitrary: s)
      (auto simp: add_input_def sw substr_from_def drop_Suc is_opaque_def)
  then show "ov_list (opaque_inputs (split_inputs r step)) = ov_list (opaque_inputs step) @ opaque_segments r"
    by (simp add: split_inputs_foldl opaque_segments_def)
  have "(foldl add_input s ss)\<lparr>parsed_inputs := [], opaque_inputs := None\<rparr> =
      s\<lparr>parsed_inputs := [], opaque_inputs := None\<rparr>" for s ss
    by (induction ss arbitrary: s) (simp_all add: add_input_frame)
  then show "(split_inputs r step)\<lparr>parsed_inputs := [], opaque_inputs := None\<rparr> =
     step\<lparr>parsed_inputs := [], opaque_inputs := None\<rparr>"
    by (simp add: split_inputs_foldl)
qed

lemma split_inputs_frame [simp]:
  "tool (split_inputs r step) = tool step"
  "output_path (split_inputs r step) = output_path step"
  "depfile_inputs (split_inputs r step) = depfile_inputs step"
  "inputs (split_inputs r step) = inputs step"
  using split_inputs_segments(3) [of r step] by (cases step; cases "split_inputs r step"; simp)+

text \<open>The inputs of a step are the segments of its input string, as \<open>addStep\<close> makes them.\<close>

definition inputs_split :: "build_step \<Rightarrow> bool" where
  "inputs_split st \<longleftrightarrow> parsed_inputs st = plain_segments (inputs st) \<and>
     ov_list (opaque_inputs st) = opaque_segments (inputs st)"

section \<open>Well-formed graphs\<close>

text \<open>The index is the inverse of the node paths, so paths are unique.\<close>

definition index_ok :: "(string \<Rightarrow> u64) \<Rightarrow> build_graph \<Rightarrow> bool" where
  "index_ok h g \<longleftrightarrow> fm_inv h (index g) \<and>
     (\<forall>p i. fm_find h (index g) p = Some i \<longleftrightarrow> i < length (nodes_m g) \<and> path (nodes_m g ! i) = p)"

definition succs :: "build_graph \<Rightarrow> nat \<Rightarrow> nat list" where
  "succs g u = el_data (out_edges (nodes_m g ! u))"

definition edges_in_range :: "build_graph \<Rightarrow> bool" where
  "edges_in_range g \<longleftrightarrow> (\<forall>u < length (nodes_m g). \<forall>v \<in> set (succs g u). v < length (nodes_m g))"

text \<open>A node and the step it names agree on the output, and every step has its node.\<close>

definition producers_ok :: "build_graph \<Rightarrow> bool" where
  "producers_ok g \<longleftrightarrow>
     (\<forall>i < length (nodes_m g). \<forall>s. step_id (nodes_m g ! i) = Some s \<longrightarrow>
        s < length (steps_m g) \<and> output_path (steps_m g ! s) = path (nodes_m g ! i)) \<and>
     (\<forall>s < length (steps_m g). \<exists>i < length (nodes_m g). step_id (nodes_m g ! i) = Some s)"

definition step_inputs :: "build_step \<Rightarrow> string list" where
  "step_inputs s = di_list (depfile_inputs s) @ parsed_inputs s @ ov_list (opaque_inputs s)"

definition node_inputs :: "build_graph \<Rightarrow> nat \<Rightarrow> string list" where
  "node_inputs g v = (case step_id (nodes_m g ! v) of None \<Rightarrow> [] | Some s \<Rightarrow> step_inputs (steps_m g ! s))"

text \<open>The edges into \<open>v\<close> are the inputs \<open>I v\<close>, one edge per occurrence, and every input has a node.\<close>

definition edges_match :: "build_graph \<Rightarrow> (nat \<Rightarrow> string list) \<Rightarrow> bool" where
  "edges_match g I \<longleftrightarrow> (\<forall>v < length (nodes_m g).
     (\<forall>u < length (nodes_m g). count_list (succs g u) v = count_list (I v) (path (nodes_m g ! u))) \<and>
     (\<forall>p \<in> set (I v). \<exists>u < length (nodes_m g). path (nodes_m g ! u) = p))"

definition graph_ok :: "(string \<Rightarrow> u64) \<Rightarrow> build_graph \<Rightarrow> bool" where
  "graph_ok h g \<longleftrightarrow> index_ok h g \<and> edges_in_range g \<and> producers_ok g \<and> edges_match g (node_inputs g)"

text \<open>In the middle of \<open>addStep\<close>, the edges for \<open>done\<close> lead to \<open>out_id\<close>.\<close>

definition linking :: "(string \<Rightarrow> u64) \<Rightarrow> nat \<Rightarrow> string list \<Rightarrow> build_graph \<Rightarrow> bool" where
  "linking h out_id done g \<longleftrightarrow> index_ok h g \<and> edges_in_range g \<and> producers_ok g \<and>
     out_id < length (nodes_m g) \<and> edges_match g (\<lambda>v. if v = out_id then done else node_inputs g v)"

lemma path_unique:
  "index_ok h g \<Longrightarrow> i < length (nodes_m g) \<Longrightarrow> j < length (nodes_m g) \<Longrightarrow>
   path (nodes_m g ! i) = path (nodes_m g ! j) \<Longrightarrow> i = j"
  unfolding index_ok_def by (metis option.inject)

lemma getOrCreateNode_ok:
  assumes "index_ok h g"
  shows "\<exists>g' i. getOrCreateNode h g p = Some (g', i) \<and> index_ok h g' \<and> steps_m g' = steps_m g \<and>
    i < length (nodes_m g') \<and> path (nodes_m g' ! i) = p \<and>
    (nodes_m g' = nodes_m g \<or>
     nodes_m g' = nodes_m g @ [fresh_node p] \<and> (\<forall>u < length (nodes_m g). path (nodes_m g ! u) \<noteq> p))"
proof (cases "fm_find h (index g) p")
  case (Some i)
  then have "getOrCreateNode h g p = Some (g, i)" by (simp add: getOrCreateNode_def)
  moreover have "i < length (nodes_m g) \<and> path (nodes_m g ! i) = p"
    using assms Some unfolding index_ok_def by blast
  ultimately show ?thesis using assms by blast
next
  case None
  let ?n = "length (nodes_m g)"
  have inv: "fm_inv h (index g)" using assms by (simp add: index_ok_def)
  obtain idx where idx: "fm_emplace h (index g) p ?n = Some idx" "fm_inv h idx"
    "fm_find h idx = (fm_find h (index g))(p \<mapsto> ?n)"
    using fm.emplace_ok [OF inv, of p ?n] by blast
  have new: "path (nodes_m g ! u) \<noteq> p" if "u < ?n" for u
    using assms None that unfolding index_ok_def by (metis option.distinct(1))
  let ?g = "g\<lparr>nodes_m := nodes_m g @ [fresh_node p], index := idx\<rparr>"
  have "index_ok h ?g"
    using assms idx new
    by (auto simp: index_ok_def nth_append fresh_node_def less_Suc_eq split: if_splits)
  moreover have "getOrCreateNode h g p = Some (?g, ?n)"
    using None idx(1) by (simp add: getOrCreateNode_def Let_def)
  ultimately show ?thesis using new by (auto simp: nth_append fresh_node_def)
qed

lemma succs_append:
  "nodes_m g' = nodes_m g @ [fresh_node p] \<Longrightarrow> u < length (nodes_m g') \<Longrightarrow>
   succs g' u = (if u < length (nodes_m g) then succs g u else [])"
  by (auto simp: succs_def nth_append fresh_node_def less_Suc_eq)

lemma count_list_zero: "x \<notin> set xs \<Longrightarrow> count_list xs x = 0"
  by simp

lemma edges_match_fresh:
  assumes "edges_match g I" "edges_in_range g"
    and n: "nodes_m g' = nodes_m g @ [fresh_node p]" "\<forall>u < length (nodes_m g). path (nodes_m g ! u) \<noteq> p"
    and I: "\<And>v. v < length (nodes_m g) \<Longrightarrow> I' v = I v" "I' (length (nodes_m g)) = []"
  shows "edges_match g' I'"
  unfolding edges_match_def
proof (intro allI impI)
  let ?n = "length (nodes_m g)"
  fix v assume "v < length (nodes_m g')"
  then consider "v < ?n" | "v = ?n" using n by (auto simp: less_Suc_eq)
  then show "(\<forall>u < length (nodes_m g'). count_list (succs g' u) v = count_list (I' v) (path (nodes_m g' ! u))) \<and>
     (\<forall>q \<in> set (I' v). \<exists>u < length (nodes_m g'). path (nodes_m g' ! u) = q)"
  proof cases
    case 1
    then have old: "\<forall>u < ?n. count_list (succs g u) v = count_list (I v) (path (nodes_m g ! u))"
      "\<forall>q \<in> set (I v). \<exists>u < ?n. path (nodes_m g ! u) = q"
      using assms(1) by (auto simp: edges_match_def)
    then have "p \<notin> set (I v)" using n(2) by metis
    then have "count_list (I v) p = 0" by simp
    with old show ?thesis
      using succs_append [OF n(1)] I(1) [OF 1] n(1)
      by (auto simp: nth_append fresh_node_def less_Suc_eq intro: exI [of _ "_ :: nat"])
  next
    case 2
    then have "count_list (succs g u) v = 0" if "u < ?n" for u
      using assms(2) that by (intro count_list_zero) (auto simp: edges_in_range_def)
    with 2 show ?thesis using succs_append [OF n(1)] I(2) by simp
  qed
qed

lemma edges_in_range_fresh:
  assumes "edges_in_range g" "nodes_m g' = nodes_m g @ [fresh_node p]"
  shows "edges_in_range g'"
  using assms succs_append [OF assms(2)] by (auto simp: edges_in_range_def less_Suc_eq)

lemma producers_fresh:
  assumes "producers_ok g" "nodes_m g' = nodes_m g @ [fresh_node p]" "steps_m g' = steps_m g"
  shows "producers_ok g'"
  using assms by (auto simp: producers_ok_def nth_append fresh_node_def less_Suc_eq)

lemma node_inputs_fresh:
  assumes "nodes_m g' = nodes_m g @ [fresh_node p]" "steps_m g' = steps_m g"
  shows "v < length (nodes_m g) \<Longrightarrow> node_inputs g' v = node_inputs g v"
    and "node_inputs g' (length (nodes_m g)) = []"
  using assms by (auto simp: node_inputs_def nth_append fresh_node_def split: option.split)

lemma node_inputs_cong:
  "nodes_m g' = nodes_m g \<Longrightarrow> steps_m g' = steps_m g \<Longrightarrow> node_inputs g' = node_inputs g"
  by (simp add: node_inputs_def fun_eq_iff split: option.split)

lemma structure_cong:
  assumes "nodes_m g' = nodes_m g" "steps_m g' = steps_m g"
  shows "edges_in_range g' = edges_in_range g" "producers_ok g' = producers_ok g"
    "edges_match g' = edges_match g" "succs g' = succs g"
  using assms by (simp_all add: edges_in_range_def producers_ok_def edges_match_def succs_def fun_eq_iff)

text \<open>Creating a node, with and without a step under construction.\<close>

lemma getOrCreateNode_graph_ok:
  assumes "graph_ok h g"
  shows "\<exists>g' i. getOrCreateNode h g p = Some (g', i) \<and> graph_ok h g' \<and> steps_m g' = steps_m g \<and>
    i < length (nodes_m g') \<and> path (nodes_m g' ! i) = p \<and>
    (nodes_m g' = nodes_m g \<or> nodes_m g' = nodes_m g @ [fresh_node p])"
proof -
  have ix: "index_ok h g" using assms by (simp add: graph_ok_def)
  obtain g' i where g': "getOrCreateNode h g p = Some (g', i)" "index_ok h g'" "steps_m g' = steps_m g"
    "i < length (nodes_m g')" "path (nodes_m g' ! i) = p"
    "nodes_m g' = nodes_m g \<or>
     nodes_m g' = nodes_m g @ [fresh_node p] \<and> (\<forall>u < length (nodes_m g). path (nodes_m g ! u) \<noteq> p)"
    using getOrCreateNode_ok [OF ix] by blast
  have "graph_ok h g'"
  proof (cases "nodes_m g' = nodes_m g")
    case True
    with assms g' show ?thesis
      by (simp add: graph_ok_def structure_cong [OF True g'(3)] node_inputs_cong [OF True g'(3)])
  next
    case False
    with g'(6) have n: "nodes_m g' = nodes_m g @ [fresh_node p]"
      "\<forall>u < length (nodes_m g). path (nodes_m g ! u) \<noteq> p" by auto
    with assms g' show ?thesis
      by (auto simp: graph_ok_def node_inputs_fresh [OF n(1) g'(3)]
          intro: edges_match_fresh [OF _ _ n] edges_in_range_fresh producers_fresh)
  qed
  with g' show ?thesis by blast
qed

lemma getOrCreateNode_linking:
  assumes "linking h out_id done g"
  shows "\<exists>g' i. getOrCreateNode h g p = Some (g', i) \<and> linking h out_id done g' \<and> steps_m g' = steps_m g \<and>
    i < length (nodes_m g') \<and> path (nodes_m g' ! i) = p \<and>
    step_id (nodes_m g' ! out_id) = step_id (nodes_m g ! out_id)"
proof -
  have ix: "index_ok h g" and out: "out_id < length (nodes_m g)" using assms by (auto simp: linking_def)
  obtain g' i where g': "getOrCreateNode h g p = Some (g', i)" "index_ok h g'" "steps_m g' = steps_m g"
    "i < length (nodes_m g')" "path (nodes_m g' ! i) = p"
    "nodes_m g' = nodes_m g \<or>
     nodes_m g' = nodes_m g @ [fresh_node p] \<and> (\<forall>u < length (nodes_m g). path (nodes_m g ! u) \<noteq> p)"
    using getOrCreateNode_ok [OF ix] by blast
  have "linking h out_id done g'"
  proof (cases "nodes_m g' = nodes_m g")
    case True
    show ?thesis
      using assms g'(2)
      unfolding linking_def structure_cong [OF True g'(3)] node_inputs_cong [OF True g'(3)] True by blast
  next
    case False
    with g'(6) have n: "nodes_m g' = nodes_m g @ [fresh_node p]"
      "\<forall>u < length (nodes_m g). path (nodes_m g ! u) \<noteq> p" by auto
    with assms g' out show ?thesis
      by (auto simp: linking_def node_inputs_fresh [OF n(1) g'(3)]
          intro: edges_match_fresh [OF _ _ n] edges_in_range_fresh producers_fresh)
  qed
  moreover have "step_id (nodes_m g' ! out_id) = step_id (nodes_m g ! out_id)"
    using g'(6) out by (auto simp: nth_append)
  ultimately show ?thesis using g' by blast
qed

lemma push_edge_linking:
  assumes "linking h out_id done g" "i < length (nodes_m g)"
  defines "g' \<equiv> g\<lparr>nodes_m := (nodes_m g)[i :=
      (nodes_m g ! i)\<lparr>out_edges := el_push_back (out_edges (nodes_m g ! i)) out_id\<rparr>]\<rparr>"
  shows "linking h out_id (done @ [path (nodes_m g ! i)]) g'"
    and "step_id (nodes_m g' ! v) = step_id (nodes_m g ! v)" "path (nodes_m g' ! v) = path (nodes_m g ! v)"
proof -
  let ?n = "length (nodes_m g)" and ?p = "path (nodes_m g ! i)"
  have g: "index_ok h g" "edges_in_range g" "producers_ok g" "out_id < ?n"
    "edges_match g (\<lambda>v. if v = out_id then done else node_inputs g v)"
    using assms(1) by (auto simp: linking_def)
  have len: "length (nodes_m g') = ?n" and steps: "steps_m g' = steps_m g" and idx: "index g' = index g"
    by (simp_all add: g'_def)
  show path: "path (nodes_m g' ! v) = path (nodes_m g ! v)" for v
    using assms(2) by (cases "v = i") (simp_all add: g'_def)
  show sid: "step_id (nodes_m g' ! v) = step_id (nodes_m g ! v)" for v
    using assms(2) by (cases "v = i") (simp_all add: g'_def)
  have succs: "succs g' u = (if u = i then succs g u @ [out_id] else succs g u)" for u
    using assms(2) by (simp add: g'_def succs_def)
  have ni: "node_inputs g' = node_inputs g"
    by (simp add: node_inputs_def sid steps fun_eq_iff split: option.split)
  have "index_ok h g'" using g(1) by (simp add: index_ok_def idx len path)
  moreover have "edges_in_range g'" using g(2,4) by (auto simp: edges_in_range_def succs len)
  moreover have "producers_ok g'" using g(3) by (simp add: producers_ok_def len steps sid path)
  moreover have "edges_match g' (\<lambda>v. if v = out_id then done @ [?p] else node_inputs g v)"
    unfolding edges_match_def len path
  proof (intro allI impI conjI ballI)
    fix u v assume uv: "u < ?n" "v < ?n"
    then have old: "count_list (succs g u) v =
        count_list (if v = out_id then done else node_inputs g v) (path (nodes_m g ! u))"
      using g(5) by (auto simp: edges_match_def)
    have pu: "path (nodes_m g ! u) = ?p \<longleftrightarrow> u = i"
      using path_unique [OF g(1) uv(1) assms(2)] by blast
    show "count_list (succs g' u) v =
        count_list (if v = out_id then done @ [?p] else node_inputs g v) (path (nodes_m g ! u))"
      using old pu by (cases "v = out_id"; cases "u = i") (simp_all add: succs)
  next
    fix v p assume "v < ?n" "p \<in> set (if v = out_id then done @ [?p] else node_inputs g v)"
    then show "\<exists>u < ?n. path (nodes_m g ! u) = p"
      using g(5) assms(2) by (auto simp: edges_match_def split: if_splits)
  qed
  ultimately show "linking h out_id (done @ [?p]) g'" using g(4) unfolding linking_def len ni by blast
qed

section \<open>\<open>addStep\<close> keeps graphs well-formed\<close>

lemma add_edge_linking:
  assumes "linking h out_id done g"
  shows "\<exists>g' i. add_edge h out_id g p = Some (g', i) \<and> linking h out_id (done @ [p]) g' \<and>
    steps_m g' = steps_m g \<and> path (nodes_m g' ! i) = p \<and>
    step_id (nodes_m g' ! out_id) = step_id (nodes_m g ! out_id)"
proof -
  obtain g1 i where g1: "getOrCreateNode h g p = Some (g1, i)" "linking h out_id done g1"
    "steps_m g1 = steps_m g" "i < length (nodes_m g1)" "path (nodes_m g1 ! i) = p"
    "step_id (nodes_m g1 ! out_id) = step_id (nodes_m g ! out_id)"
    using getOrCreateNode_linking [OF assms, of p] by blast
  let ?g = "g1\<lparr>nodes_m := (nodes_m g1)[i :=
      (nodes_m g1 ! i)\<lparr>out_edges := el_push_back (out_edges (nodes_m g1 ! i)) out_id\<rparr>]\<rparr>"
  have "add_edge h out_id g p = Some (?g, i)" using g1(1) by (simp add: add_edge_def Let_def)
  moreover have "linking h out_id (done @ [p]) ?g"
    using push_edge_linking(1) [OF g1(2,4)] unfolding g1(5) .
  moreover have "path (nodes_m ?g ! i) = p" using push_edge_linking(3) [OF g1(2,4), of i] g1(5) by simp
  moreover have "step_id (nodes_m ?g ! out_id) = step_id (nodes_m g ! out_id)"
    using push_edge_linking(2) [OF g1(2,4), of out_id] g1(6) by simp
  moreover have "steps_m ?g = steps_m g" using g1(3) by simp
  ultimately show ?thesis by blast
qed

text \<open>What one loop over inputs does: it adds their edges and leaves the steps alone.\<close>

lemma add_edges_linking:
  assumes "linking h out_id done g"
  shows "\<exists>g'. foldM (\<lambda>g p. map_option fst (add_edge h out_id g p)) g ps = Some g' \<and>
    linking h out_id (done @ ps) g' \<and> steps_m g' = steps_m g \<and>
    step_id (nodes_m g' ! out_id) = step_id (nodes_m g ! out_id)"
  using assms
proof (induction ps arbitrary: g "done")
  case (Cons p ps)
  obtain g1 i where g1: "add_edge h out_id g p = Some (g1, i)" "linking h out_id (done @ [p]) g1"
    "steps_m g1 = steps_m g" "step_id (nodes_m g1 ! out_id) = step_id (nodes_m g ! out_id)"
    using add_edge_linking [OF Cons.prems] by blast
  from Cons.IH [OF g1(2)] g1 show ?case by simp
qed simp

lemma set_depfile_linking:
  fixes d :: DepfileInputs
  assumes "linking h out_id done g" "step_id (nodes_m g ! out_id) = Some s"
  defines "g' \<equiv> g\<lparr>steps_m := (steps_m g)[s := (steps_m g ! s)\<lparr>depfile_inputs := d\<rparr>]\<rparr>"
  shows "linking h out_id done g'"
proof -
  have g: "index_ok h g" "edges_in_range g" "producers_ok g" "out_id < length (nodes_m g)"
    "edges_match g (\<lambda>v. if v = out_id then done else node_inputs g v)"
    using assms(1) by (auto simp: linking_def)
  have s: "s < length (steps_m g)" "output_path (steps_m g ! s) = path (nodes_m g ! out_id)"
    using g(3,4) assms(2) by (auto simp: producers_ok_def)
  have nodes: "nodes_m g' = nodes_m g" by (simp add: g'_def)
  have other: "step_id (nodes_m g ! v) \<noteq> Some s" if "v < length (nodes_m g)" "v \<noteq> out_id" for v
    using g(3) that s(2) path_unique [OF g(1) that(1) g(4)] by (auto simp: producers_ok_def)
  have out: "output_path (steps_m g' ! k) = output_path (steps_m g ! k)" for k
    using s(1) by (cases "k = s") (simp_all add: g'_def)
  have "edges_match g' (\<lambda>v. if v = out_id then done else node_inputs g' v)"
    unfolding edges_match_def
  proof (intro allI impI)
    fix v assume v: "v < length (nodes_m g')"
    have "(if v = out_id then done else node_inputs g' v) = (if v = out_id then done else node_inputs g v)"
      using v other [of v] by (auto simp: node_inputs_def g'_def split: option.split)
    with g(5) v show "(\<forall>u < length (nodes_m g'). count_list (succs g' u) v =
        count_list (if v = out_id then done else node_inputs g' v) (path (nodes_m g' ! u))) \<and>
      (\<forall>p \<in> set (if v = out_id then done else node_inputs g' v).
        \<exists>u < length (nodes_m g'). path (nodes_m g' ! u) = p)"
      by (simp add: edges_match_def nodes succs_def)
  qed
  moreover have "producers_ok g'"
    using g(3) out by (simp add: producers_ok_def nodes) (simp add: g'_def)
  ultimately show ?thesis
    using g(1,2,4) by (simp add: linking_def nodes index_ok_def edges_in_range_def succs_def)
      (simp add: g'_def)
qed

lemma depfile_linking:
  assumes "linking h out_id done g" "step_id (nodes_m g ! out_id) = Some s"
  shows "\<exists>g' d. foldM (depfile_parse_callback h out_id s) g ps = Some g' \<and>
    linking h out_id (done @ ps) g' \<and> step_id (nodes_m g' ! out_id) = Some s \<and>
    steps_m g' = (steps_m g)[s := (steps_m g ! s)\<lparr>depfile_inputs := d\<rparr>] \<and>
    di_list d = di_list (depfile_inputs (steps_m g ! s)) @ ps"
  using assms
proof (induction ps arbitrary: g "done")
  case Nil
  then show ?case by (auto intro: exI [of _ "depfile_inputs (steps_m g ! s)"])
next
  case (Cons p ps)
  have s: "s < length (steps_m g)"
    using Cons.prems by (auto simp: linking_def producers_ok_def)
  obtain g1 i where g1: "add_edge h out_id g p = Some (g1, i)" "linking h out_id (done @ [p]) g1"
    "steps_m g1 = steps_m g" "path (nodes_m g1 ! i) = p" "step_id (nodes_m g1 ! out_id) = Some s"
    using add_edge_linking [OF Cons.prems(1), of p] Cons.prems(2) by auto
  let ?d = "di_emplace_back (depfile_inputs (steps_m g ! s)) p"
  let ?g2 = "g1\<lparr>steps_m := (steps_m g1)[s := (steps_m g1 ! s)\<lparr>depfile_inputs := ?d\<rparr>]\<rparr>"
  have cb: "depfile_parse_callback h out_id s g p = Some ?g2"
    using g1 by (simp add: depfile_parse_callback_def Let_def)
  have "linking h out_id (done @ [p]) ?g2" by (rule set_depfile_linking [OF g1(2,5)])
  from Cons.IH [OF this] g1(5) obtain g' d where g':
    "foldM (depfile_parse_callback h out_id s) ?g2 ps = Some g'"
    "linking h out_id ((done @ [p]) @ ps) g'" "step_id (nodes_m g' ! out_id) = Some s"
    "steps_m g' = (steps_m ?g2)[s := (steps_m ?g2 ! s)\<lparr>depfile_inputs := d\<rparr>]"
    "di_list d = di_list (depfile_inputs (steps_m ?g2 ! s)) @ ps" by auto
  then show ?case
    using cb s g1(3) by (intro exI [of _ g'] exI [of _ d]) simp
qed

text \<open>The step under construction has no edges yet.\<close>

lemma new_step_linking:
  assumes ok: "graph_ok h g" and out: "out_id < length (nodes_m g)" "step_id (nodes_m g ! out_id) = None"
    "output_path st = path (nodes_m g ! out_id)"
  defines "g' \<equiv> g\<lparr>steps_m := steps_m g @ [st],
      nodes_m := (nodes_m g)[out_id := (nodes_m g ! out_id)\<lparr>step_id := Some (length (steps_m g))\<rparr>]\<rparr>"
  shows "linking h out_id [] g'"
proof -
  let ?n = "length (nodes_m g)" and ?s = "length (steps_m g)"
  have g: "index_ok h g" "edges_in_range g" "producers_ok g" "edges_match g (node_inputs g)"
    using ok by (auto simp: graph_ok_def)
  have len: "length (nodes_m g') = ?n" and idx: "index g' = index g" by (simp_all add: g'_def)
  have path: "path (nodes_m g' ! v) = path (nodes_m g ! v)" for v
    using out(1) by (cases "v = out_id") (simp_all add: g'_def)
  have succs: "succs g' v = succs g v" for v
    using out(1) by (cases "v = out_id") (simp_all add: g'_def succs_def)
  have sid: "step_id (nodes_m g' ! v) = (if v = out_id then Some ?s else step_id (nodes_m g ! v))" for v
    using out(1) by (simp add: g'_def)
  have steps: "steps_m g' ! s = steps_m g ! s" if "s < ?s" for s
    using that by (simp add: g'_def nth_append)
  have inp: "(if v = out_id then [] else node_inputs g' v) = node_inputs g v" if "v < ?n" for v
    using out(2) g(3) that steps by (auto simp: node_inputs_def sid producers_ok_def split: option.split)
  have "index_ok h g'" using g(1) by (simp add: index_ok_def idx len path)
  moreover have "edges_in_range g'" using g(2) by (simp add: edges_in_range_def succs len)
  moreover have "producers_ok g'"
    unfolding producers_ok_def
  proof (intro conjI allI impI)
    fix i s assume i: "i < length (nodes_m g')" "step_id (nodes_m g' ! i) = Some s"
    show "s < length (steps_m g')" "output_path (steps_m g' ! s) = path (nodes_m g' ! i)"
      using i out g(3) steps unfolding sid path len
      by (auto simp: producers_ok_def g'_def nth_append split: if_splits)
  next
    fix s assume "s < length (steps_m g')"
    then have "s < ?s \<or> s = ?s" by (auto simp: g'_def)
    moreover have "\<exists>i < ?n. i \<noteq> out_id \<and> step_id (nodes_m g ! i) = Some s" if "s < ?s"
      using g(3) that out(2) unfolding producers_ok_def by (metis option.distinct(1))
    ultimately show "\<exists>i < length (nodes_m g'). step_id (nodes_m g' ! i) = Some s"
      unfolding sid len using out(1) by auto
  qed
  moreover have "edges_match g' (\<lambda>v. if v = out_id then [] else node_inputs g' v)"
    using g(4) unfolding edges_match_def len path succs by (simp add: inp cong: conj_cong)
  ultimately show ?thesis using out(1) by (simp add: linking_def len)
qed

lemma linking_graph_ok:
  assumes "linking h out_id (node_inputs g out_id) g"
  shows "graph_ok h g"
proof -
  have "(\<lambda>v. if v = out_id then node_inputs g out_id else node_inputs g v) = node_inputs g" by auto
  with assms show ?thesis by (simp add: linking_def graph_ok_def)
qed

text \<open>The dependency file of a step is read for compile steps only.\<close>

definition depfile_names :: "(string \<Rightarrow> string option) \<Rightarrow> build_step \<Rightarrow> string list" where
  "depfile_names read step =
     (if tool step = ''cc'' \<or> tool step = ''cxx'' then parseDepfile (read (output_path step @ ''.d'')) else [])"

definition new_step :: "build_step \<Rightarrow> bool" where
  "new_step step \<longleftrightarrow> parsed_inputs step = [] \<and> opaque_inputs step = None \<and> di_list (depfile_inputs step) = []"

lemma producer_node:
  "producers_ok g \<Longrightarrow> s < length (steps_m g) \<Longrightarrow>
   \<exists>i < length (nodes_m g). step_id (nodes_m g ! i) = Some s \<and> path (nodes_m g ! i) = output_path (steps_m g ! s)"
  unfolding producers_ok_def by metis

lemma addStep_ok:
  assumes ok: "graph_ok h g" and new: "new_step step"
  shows "\<exists>g' r. addStep h read g step = Some (g', r) \<and> graph_ok h g' \<and>
    (case r of
       Inl e \<Rightarrow> e = ''Duplicate producer for output: '' @ output_path step \<and> steps_m g' = steps_m g \<and>
         output_path step \<in> output_path ` set (steps_m g)
     | Inr s \<Rightarrow> s = length (steps_m g) \<and> output_path step \<notin> output_path ` set (steps_m g) \<and>
         (\<exists>st. steps_m g' = steps_m g @ [st] \<and>
            st\<lparr>parsed_inputs := [], opaque_inputs := None, depfile_inputs := depfile_inputs step\<rparr> = step \<and>
            di_list (depfile_inputs st) = depfile_names read step \<and>
            parsed_inputs st = plain_segments (inputs step) \<and>
            ov_list (opaque_inputs st) = opaque_segments (inputs step)))"
proof -
  obtain g1 out where g1: "getOrCreateNode h g (output_path step) = Some (g1, out)" "graph_ok h g1"
    "steps_m g1 = steps_m g" "out < length (nodes_m g1)" "path (nodes_m g1 ! out) = output_path step"
    using getOrCreateNode_graph_ok [OF ok] by blast
  have prod: "producers_ok g1" and ix: "index_ok h g1" using g1(2) by (auto simp: graph_ok_def)
  have dup: "step_id (nodes_m g1 ! out) \<noteq> None \<longleftrightarrow> output_path step \<in> output_path ` set (steps_m g)"
  proof
    assume "step_id (nodes_m g1 ! out) \<noteq> None"
    then obtain s where "step_id (nodes_m g1 ! out) = Some s" by blast
    then have "s < length (steps_m g)" "output_path (steps_m g ! s) = output_path step"
      using prod g1(3-5) unfolding producers_ok_def by auto
    then show "output_path step \<in> output_path ` set (steps_m g)" by (metis imageI nth_mem)
  next
    assume "output_path step \<in> output_path ` set (steps_m g)"
    then obtain s where s: "s < length (steps_m g)" "output_path (steps_m g ! s) = output_path step"
      by (auto simp: in_set_conv_nth)
    then obtain i where i: "i < length (nodes_m g1)" "step_id (nodes_m g1 ! i) = Some s"
      "path (nodes_m g1 ! i) = output_path step"
      using producer_node [OF prod, of s] g1(3) by auto
    then have "i = out" using path_unique [OF ix i(1) g1(4)] g1(5) by simp
    with i show "step_id (nodes_m g1 ! out) \<noteq> None" by simp
  qed
  show ?thesis
  proof (cases "step_id (nodes_m g1 ! out)")
    case (Some s)
    then have "addStep h read g step =
        Some (g1, unexpected (''Duplicate producer for output: '' @ output_path step))"
      using g1(1) by (simp add: addStep_def)
    with g1(2,3) dup Some show ?thesis by auto
  next
    case None
    let ?st = "split_inputs (inputs step) step" and ?s = "length (steps_m g)"
    let ?g2 = "g1\<lparr>steps_m := steps_m g1 @ [?st],
      nodes_m := (nodes_m g1)[out := (nodes_m g1 ! out)\<lparr>step_id := Some ?s\<rparr>]\<rparr>"
    have L2: "linking h out [] ?g2"
      using new_step_linking [OF g1(2,4) None, of ?st] g1(3,5) by simp
    have sid2: "step_id (nodes_m ?g2 ! out) = Some ?s" using g1(4) by simp
    have st2: "steps_m ?g2 ! ?s = ?st" using g1(3) by simp
    obtain g3 d where g3: "foldM (depfile_parse_callback h out ?s) ?g2 (depfile_names read step) = Some g3"
      "linking h out (depfile_names read step) g3" "step_id (nodes_m g3 ! out) = Some ?s"
      "steps_m g3 = (steps_m ?g2)[?s := (steps_m ?g2 ! ?s)\<lparr>depfile_inputs := d\<rparr>]"
      "di_list d = di_list (depfile_inputs ?st) @ depfile_names read step"
      using depfile_linking [OF L2 sid2, of "depfile_names read step"] unfolding st2 append_Nil by blast
    have st3: "steps_m g3 = steps_m g @ [?st\<lparr>depfile_inputs := d\<rparr>]"
      using g3(4) g1(3) by simp
    obtain g4 where g4: "foldM (\<lambda>g p. map_option fst (add_edge h out g p)) g3 (parsed_inputs ?st) = Some g4"
      "linking h out (depfile_names read step @ parsed_inputs ?st) g4"
      "steps_m g4 = steps_m g3" "step_id (nodes_m g4 ! out) = Some ?s"
      using add_edges_linking [OF g3(2)] g3(3) by metis
    obtain g5 where g5: "foldM (\<lambda>g p. map_option fst (add_edge h out g p)) g4 (ov_list (opaque_inputs ?st)) = Some g5"
      "linking h out (depfile_names read step @ parsed_inputs ?st @ ov_list (opaque_inputs ?st)) g5"
      "steps_m g5 = steps_m g3" "step_id (nodes_m g5 ! out) = Some ?s"
      using add_edges_linking [OF g4(2)] g4(3,4) by (metis append_assoc)
    have dep: "(if tool ?st = ''cc'' \<or> tool ?st = ''cxx''
        then foldM (depfile_parse_callback h out ?s) ?g2 (parseDepfile (read (output_path ?st @ ''.d'')))
        else Some ?g2) = Some g3"
      using g3(1) unfolding depfile_names_def
      by (cases "tool step = ''cc'' \<or> tool step = ''cxx''") (simp_all only: split_inputs_frame if_True if_False foldM.simps option.inject)
    have run: "addStep h read g step = Some (g5, expected ?s)"
    proof -
      have p3: "parsed_inputs (steps_m g3 ! ?s) = parsed_inputs ?st"
        and o4: "ov_list (opaque_inputs (steps_m g4 ! ?s)) = ov_list (opaque_inputs ?st)"
        by (simp_all add: g4(3) st3)
      have none: "(step_id (nodes_m g1 ! out) \<noteq> None) = False" using None by simp
      show ?thesis
        unfolding addStep_def g1(1) Option.bind.simps(2) prod.case Let_def none if_False
          g1(3) dep [unfolded g1(3)] p3 g4(1) o4 g5(1) ..
    qed
    have "node_inputs g5 out = depfile_names read step @ parsed_inputs ?st @ ov_list (opaque_inputs ?st)"
      using new g3(5) by (simp add: node_inputs_def g5(3,4) st3 step_inputs_def new_step_def)
    then have "graph_ok h g5" using g5(2) by (intro linking_graph_ok [of h out]) (simp only:)
    moreover have "?st\<lparr>depfile_inputs := d, parsed_inputs := [], opaque_inputs := None,
        depfile_inputs := depfile_inputs step\<rparr> = step"
      using split_inputs_segments(3) [of "inputs step" step] new
      by (cases step; cases ?st) (simp add: new_step_def)
    ultimately show ?thesis
      using run dup None g3(5) new split_inputs_segments(1,2) [of "inputs step" step]
      by (intro exI [of _ g5] exI [of _ "Inr ?s"] conjI)
        (auto simp: g5(3) st3 new_step_def)
  qed
qed

text \<open>The inputs of every step stay the segments of its input string.\<close>

lemma addStep_split:
  assumes "graph_ok h g" "new_step step"
  shows "\<exists>g' r. addStep h read g step = Some (g', r) \<and> graph_ok h g' \<and>
    (list_all inputs_split (steps_m g) \<longrightarrow> list_all inputs_split (steps_m g'))"
proof -
  obtain g' r where r: "addStep h read g step = Some (g', r)" "graph_ok h g'"
    and c: "case r of Inl e \<Rightarrow> steps_m g' = steps_m g
      | Inr s \<Rightarrow> \<exists>st. steps_m g' = steps_m g @ [st] \<and>
          st\<lparr>parsed_inputs := [], opaque_inputs := None, depfile_inputs := depfile_inputs step\<rparr> = step \<and>
          parsed_inputs st = plain_segments (inputs step) \<and>
          ov_list (opaque_inputs st) = opaque_segments (inputs step)"
    using addStep_ok [OF assms, of read] by (fastforce split: sum.splits)
  have "list_all inputs_split (steps_m g')" if "list_all inputs_split (steps_m g)"
  proof (cases r)
    case (Inl e)
    with c that show ?thesis by simp
  next
    case (Inr s)
    with c obtain st where st: "steps_m g' = steps_m g @ [st]"
      "st\<lparr>parsed_inputs := [], opaque_inputs := None, depfile_inputs := depfile_inputs step\<rparr> = step"
      "parsed_inputs st = plain_segments (inputs step)" "ov_list (opaque_inputs st) = opaque_segments (inputs step)"
      by auto
    have "inputs st = inputs step" using arg_cong [OF st(2), of inputs] by simp
    with st that show ?thesis by (simp add: inputs_split_def)
  qed
  with r show ?thesis by blast
qed

lemma empty_graph_ok: "graph_ok h (empty_graph cap)"
  by (simp add: graph_ok_def empty_graph_def index_ok_def fm_new_inv fm_new_find
      edges_in_range_def producers_ok_def edges_match_def)

lemma empty_graph_steps [simp]: "steps_m (empty_graph cap) = []"
  by (simp add: empty_graph_def)

definition example_step :: build_step where
  "example_step = \<lparr>tool = ''ld'', inputs = ''a.o,!lib.so,,b.o'', output_path = ''app'',
     opaque_inputs = None, depfile_inputs = di_empty, parsed_inputs = [], extra_flags = [], command_hash = 0\<rparr>"

lemma example_step_new: "new_step example_step"
  by (simp add: new_step_def example_step_def)

text \<open>C1: Well-formedness of the build graph. Whatever the inputs of the step and the contents of
  its dependency file, \<open>addStep\<close> returns, and it keeps the invariant: the index is the inverse of
  the node paths, every edge ends at a node, nodes and steps name each other as producer and
  output, and the edges into a node are the inputs of its step, one edge per occurrence.\<close>

theorem addStep_invariant:
  assumes "graph_ok h g" "new_step step"
  shows "returns (addStep h read g step) (\<lambda>(g', r). graph_ok h g')"
  using addStep_ok [OF assms, of read] by (auto simp: returns_def)

lemma addStep_invariant_witness:
  "returns (addStep (\<lambda>_. 7) (\<lambda>_. None) (empty_graph 4) example_step) (\<lambda>(g', r). graph_ok (\<lambda>_. 7) g')"
  by (rule addStep_invariant [OF empty_graph_ok example_step_new])

text \<open>C29: What \<open>addStep\<close> does on each branch. If a step already produces the output, it is an error
  and no step is added. Otherwise the step is appended with its inputs: the dependency file's
  names (compile steps only), the plain segments of the input string and, apart, the segments
  marked \<open>!\<close>; empty segments are dropped and every other field is kept.\<close>

theorem addStep_result:
  assumes "graph_ok h g" "new_step step"
  shows "returns (addStep h read g step) (\<lambda>(g', r).
    if output_path step \<in> output_path ` set (steps_m g)
    then r = Inl (''Duplicate producer for output: '' @ output_path step) \<and> steps_m g' = steps_m g
    else r = Inr (length (steps_m g)) \<and>
      (\<exists>st. steps_m g' = steps_m g @ [st] \<and>
         st\<lparr>parsed_inputs := [], opaque_inputs := None, depfile_inputs := depfile_inputs step\<rparr> = step \<and>
         di_list (depfile_inputs st) = depfile_names read step \<and>
         parsed_inputs st = plain_segments (inputs step) \<and>
         ov_list (opaque_inputs st) = opaque_segments (inputs step)))"
proof -
  obtain g' r where r: "addStep h read g step = Some (g', r)" and
    ok: "case r of Inl e \<Rightarrow> e = ''Duplicate producer for output: '' @ output_path step \<and> steps_m g' = steps_m g \<and>
         output_path step \<in> output_path ` set (steps_m g)
     | Inr s \<Rightarrow> s = length (steps_m g) \<and> output_path step \<notin> output_path ` set (steps_m g) \<and>
         (\<exists>st. steps_m g' = steps_m g @ [st] \<and>
            st\<lparr>parsed_inputs := [], opaque_inputs := None, depfile_inputs := depfile_inputs step\<rparr> = step \<and>
            di_list (depfile_inputs st) = depfile_names read step \<and>
            parsed_inputs st = plain_segments (inputs step) \<and>
            ov_list (opaque_inputs st) = opaque_segments (inputs step))"
    using addStep_ok [OF assms, of read] by blast
  show ?thesis
  proof (cases r)
    case (Inl e)
    with ok show ?thesis unfolding r by simp
  next
    case (Inr s)
    with ok show ?thesis unfolding r returns_Some prod.case by (simp only: sum.case if_False)
  qed
qed

lemma addStep_result_witness:
  "\<exists>g' st. addStep (\<lambda>_. 7) (\<lambda>_. None) (empty_graph 4) example_step = Some (g', Inr 0) \<and>
     steps_m g' = [st] \<and> parsed_inputs st = [''a.o'', ''b.o''] \<and> ov_list (opaque_inputs st) = [''lib.so'']"
  using addStep_result [OF empty_graph_ok example_step_new, of "\<lambda>_. 7" "\<lambda>_. None" 4]
  by (auto simp: returns_def example_step_def plain_segments_def opaque_segments_def is_opaque_def)

text \<open>The index is consistent. \<open>getOrCreateNode\<close> returns a node with the requested path, which
  \<open>findNode\<close> finds again, it never creates a second node for a path, and existing nodes keep
  their index and contents.\<close>

theorem getOrCreateNode_findNode:
  assumes "graph_ok h g"
  shows "returns (getOrCreateNode h g p) (\<lambda>(g', i). graph_ok h g' \<and>
    findNode h g' p = Some i \<and> i < length (nodes_m g') \<and> path (nodes_m g' ! i) = p \<and>
    (findNode h g p = Some i \<and> nodes_m g' = nodes_m g \<or>
     findNode h g p = None \<and> nodes_m g' = nodes_m g @ [fresh_node p]))"
proof -
  have ix: "index_ok h g" using assms by (simp add: graph_ok_def)
  obtain g' i where g': "getOrCreateNode h g p = Some (g', i)" "graph_ok h g'"
    "i < length (nodes_m g')" "path (nodes_m g' ! i) = p"
    using getOrCreateNode_graph_ok [OF assms, of p] by blast
  have "findNode h g' p = Some i"
    using g' by (auto simp: graph_ok_def index_ok_def findNode_def)
  moreover have "findNode h g p = Some i \<and> nodes_m g' = nodes_m g \<or>
     findNode h g p = None \<and> nodes_m g' = nodes_m g @ [fresh_node p]"
    using g'(1) by (auto simp: getOrCreateNode_def findNode_def Let_def bind_eq_Some split: option.splits)
  ultimately show ?thesis using g' by (simp add: returns_def)
qed

lemma getOrCreateNode_findNode_witness:
  "\<exists>g'. getOrCreateNode (\<lambda>_. 7) (empty_graph 4) ''a.c'' = Some (g', 0) \<and>
     findNode (\<lambda>_. 7) g' ''a.c'' = Some 0 \<and> nodes_m g' = [fresh_node ''a.c'']"
proof -
  have "findNode (\<lambda>_. 7) (empty_graph 4) ''a.c'' = None"
    by (simp add: findNode_def empty_graph_def fm_new_find)
  moreover have "nodes_m (empty_graph 4) = []" by (simp add: empty_graph_def)
  ultimately show ?thesis
    using getOrCreateNode_findNode [OF empty_graph_ok, of "\<lambda>_. 7" 4 "''a.c''"]
    by (auto simp: returns_def)
qed

end
