(* ===== verification/Simulation.thy ===== *)
theory Simulation
  imports Prelude
begin

text \<open>
  Forward simulation between labelled transition systems: the interface between the detailed model
  of a concurrent data structure and the abstract object its clients see.
\<close>

inductive runs :: "('s \<Rightarrow> 'l \<Rightarrow> 's \<Rightarrow> bool) \<Rightarrow> 's \<Rightarrow> 'l list \<Rightarrow> 's \<Rightarrow> bool" for step where
  stop: "runs step s [] s"
| more: "runs step s ls s' \<Longrightarrow> step s' l s'' \<Longrightarrow> runs step s (ls @ [l]) s''"

inductive_cases runs_snocE: "runs step s (ls @ [l]) s''"

lemma runs_invariant:
  assumes "runs step s ls s'" "I s" "\<And>s l s'. I s \<Longrightarrow> step s l s' \<Longrightarrow> I s'"
  shows "I s'"
  using assms by (induction rule: runs.induct) auto

lemma runs_trans: "runs step s' ls' s'' \<Longrightarrow> runs step s ls s' \<Longrightarrow> runs step s (ls @ ls') s''"
proof (induction rule: runs.induct)
  case (more t ls' t' l t'')
  then show ?case using runs.more [of step s "ls @ ls'" t' l t''] by simp
qed simp

lemma runs_single: "step s l s' \<Longrightarrow> runs step s [l] s'"
  using runs.more [OF runs.stop] by fastforce

locale simulation =
  fixes cstep :: "'c \<Rightarrow> 'l \<Rightarrow> 'c \<Rightarrow> bool"
    and astep :: "'a \<Rightarrow> 'l \<Rightarrow> 'a \<Rightarrow> bool"
    and abs_of :: "'c \<Rightarrow> 'a"
    and good :: "'c \<Rightarrow> bool"
  assumes good_step: "good c \<Longrightarrow> cstep c l c' \<Longrightarrow> good c'"
    and simulates: "good c \<Longrightarrow> cstep c l c' \<Longrightarrow> astep (abs_of c) l (abs_of c')"
begin

lemma good_runs: "runs cstep c ls c' \<Longrightarrow> good c \<Longrightarrow> good c'"
  by (induction rule: runs.induct) (auto intro: good_step)

lemma refines: "runs cstep c ls c' \<Longrightarrow> good c \<Longrightarrow> runs astep (abs_of c) ls (abs_of c')"
proof (induction rule: runs.induct)
  case (more c ls c' l c'')
  then show ?case by (blast intro: runs.more simulates good_runs)
qed (rule runs.stop)

end

end
