(* ===== verification/Optional_Vector.thy ===== *)
theory Optional_Vector
  imports BuildGraph Simulation
begin

text \<open>
  \<open>optional_vector\<close> (include/cob/optional_vector.hpp, src/optional_vector.cpp) for elements of 16 bytes
  with alignment 8, as \<open>std::string_view\<close>, its only use: one allocation holds a header of two
  32-bit counters and the cells. BuildGraph uses the container as an optional list; here that list is the
  abstraction of the memory. \<open>None\<close> as the outcome of a call is an access outside the allocation, to
  a cell without an object, or through a reference that realloc has invalidated.
\<close>

section \<open>The memory\<close>

record 'a ov_block =
  hd_capacity :: u32
  hd_size :: u32
  cells :: "'a option list"

type_synonym 'a ov = "'a ov_block option"

definition element_bytes :: u64 where
  "element_bytes = 16"

definition header_size :: u64 where
  "header_size = (8 + 8 - 1) AND NOT (8 - 1)"

definition block_bytes :: "u64 \<Rightarrow> u64" where
  "block_bytes new_cap = header_size + new_cap * element_bytes"

text \<open>The cells an allocation of that many bytes has room for.\<close>

definition room :: "u64 \<Rightarrow> nat" where
  "room bytes = unat (bytes - header_size) div unat element_bytes"

definition ov_size :: "'a ov \<Rightarrow> u64" where
  "ov_size v = (case v of Some b \<Rightarrow> ucast (hd_size b) | None \<Rightarrow> 0)"

definition ov_capacity :: "'a ov \<Rightarrow> u64" where
  "ov_capacity v = (case v of Some b \<Rightarrow> ucast (hd_capacity b) | None \<Rightarrow> 0)"

text \<open>\<open>reserve\<close>; \<open>alloc\<close> says which sizes malloc and realloc grant. realloc keeps the cells that fit.\<close>

definition ov_reserve_to :: "(u64 \<Rightarrow> bool) \<Rightarrow> 'a ov \<Rightarrow> u64 \<Rightarrow> 'a ov result" where
  "ov_reserve_to alloc v new_cap =
     (if v \<noteq> None \<and> new_cap \<le> ov_capacity v then expected v
      else
        let bytes = block_bytes new_cap; n = room bytes
        in if \<not> alloc bytes then unexpected ''std::bad_alloc''
           else case v of
                  Some b \<Rightarrow> expected (Some (b\<lparr>hd_capacity := ucast new_cap,
                    cells := take n (cells b) @ replicate (n - length (cells b)) None\<rparr>))
                | None \<Rightarrow> expected (Some \<lparr>hd_capacity = ucast new_cap, hd_size = 0, cells = replicate n None\<rparr>))"

definition ov_emplace :: "(u64 \<Rightarrow> bool) \<Rightarrow> 'a ov \<Rightarrow> 'a ov result" where
  "ov_emplace alloc v = (if v = None then ov_reserve_to alloc v 4 else expected v)"

definition ov_construct :: "'a ov_block \<Rightarrow> 'a \<Rightarrow> 'a ov_block option" where
  "ov_construct b x =
     (if unat (hd_size b) < length (cells b)
      then Some (b\<lparr>cells := (cells b)[unat (hd_size b) := Some x], hd_size := hd_size b + 1\<rparr>) else None)"

text \<open>The capacity doubles in 32 bits.\<close>

definition ov_grow :: "(u64 \<Rightarrow> bool) \<Rightarrow> 'a ov_block \<Rightarrow> 'a ov result" where
  "ov_grow alloc b =
     (if hd_size b \<ge> hd_capacity b
      then ov_reserve_to alloc (Some b) (if hd_capacity b = 0 then 4 else ucast (hd_capacity b * 2))
      else expected (Some b))"

definition ov_emplace_back :: "(u64 \<Rightarrow> bool) \<Rightarrow> 'a ov \<Rightarrow> 'a \<Rightarrow> 'a ov result option" where
  "ov_emplace_back alloc v x =
     (case ov_emplace alloc v of
        Inl e \<Rightarrow> Some (unexpected e)
      | Inr v \<Rightarrow> do { b \<leftarrow> v;
          case ov_grow alloc b of
            Inl e \<Rightarrow> Some (unexpected e)
          | Inr v \<Rightarrow> do { b \<leftarrow> v; b \<leftarrow> ov_construct b x; Some (expected (Some b)) } })"

text \<open>\<open>push_back\<close> of a reference to an element of the vector itself. The new element is copied from it after
  the growth; if the vector was full, realloc has ended the life of the old block, and the reference
  dangles.\<close>

definition ov_push_own :: "(u64 \<Rightarrow> bool) \<Rightarrow> 'a ov \<Rightarrow> u64 \<Rightarrow> 'a ov result option" where
  "ov_push_own alloc v i =
     do { b \<leftarrow> v;
          x \<leftarrow> (if unat i < length (cells b) then cells b ! unat i else None);
          case ov_grow alloc b of
            Inl e \<Rightarrow> Some (unexpected e)
          | Inr v \<Rightarrow>
              if hd_size b \<ge> hd_capacity b then None
              else do { b \<leftarrow> v; b \<leftarrow> ov_construct b x; Some (expected (Some b)) } }"

definition ov_pop_back :: "'a ov \<Rightarrow> 'a ov" where
  "ov_pop_back v =
     (case v of
        Some b \<Rightarrow>
          if hd_size b > 0
          then Some (b\<lparr>hd_size := hd_size b - 1, cells := (cells b)[unat (hd_size b - 1) := None]\<rparr>) else v
      | None \<Rightarrow> v)"

definition ov_clear :: "'a ov \<Rightarrow> 'a ov" where
  "ov_clear v = None"

definition ov_nth :: "'a ov \<Rightarrow> u64 \<Rightarrow> 'a option" where
  "ov_nth v i = do { b \<leftarrow> v; if unat i < length (cells b) then cells b ! unat i else None }"

definition ov_at :: "'a ov \<Rightarrow> u64 \<Rightarrow> 'a result option" where
  "ov_at v i =
     (if i \<ge> ov_size v then Some (unexpected ''optional_vector index out of range'') else map_option expected (ov_nth v i))"

definition ov_front :: "'a ov \<Rightarrow> 'a option" where
  "ov_front v = ov_nth v 0"

definition ov_back :: "'a ov \<Rightarrow> 'a option" where
  "ov_back v = do { b \<leftarrow> v; ov_nth v (ucast (hd_size b - 1)) }"

section \<open>Histories of calls\<close>

datatype 'a ov_request =
  HasValue | Size | Capacity | Emplace | Reserve u64 | EmplaceBack 'a | PushBackOwn u64 | PopBack | Clear | At u64 | Front | Back

datatype 'a ov_answer = Done | Thrown string | Flag bool | Number nat | Element 'a

definition answered :: "'a ov \<Rightarrow> 'a ov result \<Rightarrow> 'a ov_answer \<times> 'a ov" where
  "answered v r = (case r of Inl e \<Rightarrow> (Thrown e, v) | Inr v' \<Rightarrow> (Done, v'))"

fun ov_call :: "(u64 \<Rightarrow> bool) \<Rightarrow> 'a ov \<Rightarrow> 'a ov_request \<Rightarrow> ('a ov_answer \<times> 'a ov) option" where
  "ov_call alloc v HasValue = Some (Flag (v \<noteq> None), v)"
| "ov_call alloc v Size = Some (Number (unat (ov_size v)), v)"
| "ov_call alloc v Capacity = Some (Number (unat (ov_capacity v)), v)"
| "ov_call alloc v Emplace = Some (answered v (ov_emplace alloc v))"
| "ov_call alloc v (Reserve n) = Some (answered v (ov_reserve_to alloc v n))"
| "ov_call alloc v (EmplaceBack x) = map_option (answered v) (ov_emplace_back alloc v x)"
| "ov_call alloc v (PushBackOwn i) = map_option (answered v) (ov_push_own alloc v i)"
| "ov_call alloc v PopBack = Some (Done, ov_pop_back v)"
| "ov_call alloc v Clear = Some (Done, ov_clear v)"
| "ov_call alloc v (At i) = map_option (case_sum (\<lambda>e. (Thrown e, v)) (\<lambda>x. (Element x, v))) (ov_at v i)"
| "ov_call alloc v Front = map_option (\<lambda>x. (Element x, v)) (ov_front v)"
| "ov_call alloc v Back = map_option (\<lambda>x. (Element x, v)) (ov_back v)"

text \<open>\<open>reserve\<close> takes a size of 64 bits and stores the capacity in 32: requests the counters can hold.\<close>

fun fits :: "'a ov_request \<Rightarrow> bool" where
  "fits (Reserve n) \<longleftrightarrow> unat n < 2 ^ 32"
| "fits call \<longleftrightarrow> True"

definition ov_step :: "(u64 \<Rightarrow> bool) \<Rightarrow> 'a ov \<Rightarrow> 'a ov_request \<times> 'a ov_answer \<Rightarrow> 'a ov \<Rightarrow> bool" where
  "ov_step alloc v l v' \<longleftrightarrow> ov_call alloc v (fst l) = Some (snd l, v')"

text \<open>The same calls on an optional list. Growing may throw, if malloc refuses some size, and then changes
  nothing.\<close>

inductive list_step :: "bool \<Rightarrow> 'a list option \<Rightarrow> 'a ov_request \<times> 'a ov_answer \<Rightarrow> 'a list option \<Rightarrow> bool"
  for refuses where
  "list_step refuses v (HasValue, Flag (v \<noteq> None)) v"
| "list_step refuses v (Size, Number (length (ov_list v))) v"
| "length (ov_list v) \<le> n \<Longrightarrow> list_step refuses v (Capacity, Number n) v"
| "list_step refuses v (Emplace, Done) (ov_reserve v)"
| "list_step refuses v (Reserve n, Done) (ov_reserve v)"
| "list_step refuses v (EmplaceBack x, Done) (ov_push_back v x)"
| "unat i < length (ov_list v) \<Longrightarrow> list_step refuses v (PushBackOwn i, Done) (ov_push_back v (ov_list v ! unat i))"
| "refuses \<Longrightarrow> call \<in> {Emplace, Reserve n, EmplaceBack x, PushBackOwn i} \<Longrightarrow> list_step refuses v (call, Thrown ''std::bad_alloc'') v"
| "list_step refuses v (PopBack, Done) (map_option butlast v)"
| "list_step refuses v (Clear, Done) None"
| "unat i < length (ov_list v) \<Longrightarrow> list_step refuses v (At i, Element (ov_list v ! unat i)) v"
| "length (ov_list v) \<le> unat i \<Longrightarrow> list_step refuses v (At i, Thrown ''optional_vector index out of range'') v"
| "ov_list v \<noteq> [] \<Longrightarrow> list_step refuses v (Front, Element (hd (ov_list v))) v"
| "ov_list v \<noteq> [] \<Longrightarrow> list_step refuses v (Back, Element (last (ov_list v))) v"

inductive_simps list_step_front: "list_step refuses v (Front, answer) v'"
inductive_simps list_step_back: "list_step refuses v (Back, answer) v'"

section \<open>The abstraction\<close>

definition block_ok :: "'a ov_block \<Rightarrow> bool" where
  "block_ok b \<longleftrightarrow> hd_size b \<le> hd_capacity b \<and> length (cells b) = unat (hd_capacity b) \<and>
     (\<forall>i < length (cells b). cells b ! i \<noteq> None \<longleftrightarrow> i < unat (hd_size b))"

definition ov_ok :: "'a ov \<Rightarrow> bool" where
  "ov_ok v \<longleftrightarrow> (case v of None \<Rightarrow> True | Some b \<Rightarrow> block_ok b)"

definition block_list :: "'a ov_block \<Rightarrow> 'a list" where
  "block_list b = map the (take (unat (hd_size b)) (cells b))"

definition ov_abs :: "'a ov \<Rightarrow> 'a list option" where
  "ov_abs v = map_option block_list v"

lemma ov_ok_simps [simp]: "ov_ok None" "ov_ok (Some b) = block_ok b" "ov_abs None = None" "ov_abs (Some b) = Some (block_list b)"
  by (simp_all add: ov_ok_def ov_abs_def)

lemma header_size_eq: "header_size = 8"
  by (simp add: header_size_def)

lemma unat_u32_less: "unat (c :: u32) < 2 ^ 32"
proof -
  have "unat c < 2 ^ LENGTH(32)" by (rule unsigned_less)
  then show ?thesis by simp
qed

lemma unat_ucast_u32 [simp]: "unat (ucast (n :: u32) :: u64) = unat n"
  proof -
  have "unat n < 2 ^ 32" by (rule unat_u32_less)
  then have "unat n < 2 ^ 64" by simp
  then show ?thesis by (simp add: unsigned_ucast_eq take_bit_nat_eq_self)
qed

lemma room_block:
  assumes "unat n < 2 ^ 32"
  shows "room (block_bytes n) = unat n"
proof -
  have "unat n * unat element_bytes < 2 ^ LENGTH(64)" using assms by (simp add: element_bytes_def)
  then have "unat (n * element_bytes) = unat n * unat element_bytes" by (rule unat_mult_lem [THEN iffD1])
  then show ?thesis by (simp add: room_def block_bytes_def element_bytes_def)
qed

lemma block_cell: "block_ok b \<Longrightarrow> i < unat (hd_size b) \<Longrightarrow> \<exists>x. cells b ! i = Some x"
  by (auto simp: block_ok_def word_le_nat_alt)

lemma length_block: "block_ok b \<Longrightarrow> length (block_list b) = unat (hd_size b)"
  by (auto simp: block_ok_def block_list_def word_le_nat_alt)

lemma block_list_nth: "block_ok b \<Longrightarrow> i < unat (hd_size b) \<Longrightarrow> block_list b ! i = the (cells b ! i)"
  by (auto simp: block_ok_def block_list_def word_le_nat_alt)

lemma reserve_ok:
  assumes "ov_ok v" "unat n < 2 ^ 32"
  shows "case ov_reserve_to alloc v n of
      Inl e \<Rightarrow> e = ''std::bad_alloc'' \<and> (\<exists>bytes. \<not> alloc bytes)
    | Inr v' \<Rightarrow> ov_ok v' \<and> ov_abs v' = ov_reserve (ov_abs v) \<and> ov_size v' = ov_size v \<and> v' \<noteq> None \<and> n \<le> ov_capacity v'"
proof (cases "v \<noteq> None \<and> n \<le> ov_capacity v")
  case True
  with assms show ?thesis by (auto simp: ov_reserve_to_def ov_reserve_def ov_list_def)
next
  case False
  have cap: "unat (ucast n :: u32) = unat n"
    using assms(2) by (simp add: unsigned_ucast_eq take_bit_nat_eq_self)
  show ?thesis
  proof (cases v)
    case None
    then show ?thesis
      by (auto simp: ov_reserve_to_def Let_def block_ok_def cap room_block [OF assms(2)] block_list_def ov_reserve_def
          ov_size_def ov_capacity_def word_le_nat_alt)
  next
    case (Some b)
    with assms(1) have ok: "hd_size b \<le> hd_capacity b" "length (cells b) = unat (hd_capacity b)"
      "\<And>i. i < length (cells b) \<Longrightarrow> cells b ! i \<noteq> None \<longleftrightarrow> i < unat (hd_size b)"
      by (auto simp: block_ok_def)
    from False Some have more: "unat (hd_capacity b) < unat n" by (simp add: ov_capacity_def word_le_nat_alt)
    let ?cells = "cells b @ replicate (unat n - length (cells b)) None"
    have "hd_size b \<le> (ucast n :: u32)" using ok(1) more by (simp add: word_le_nat_alt cap)
    moreover have "\<forall>i < length ?cells. ?cells ! i \<noteq> None \<longleftrightarrow> i < unat (hd_size b)"
      using ok by (auto simp: nth_append word_le_nat_alt)
    moreover have "take (unat (hd_size b)) ?cells = take (unat (hd_size b)) (cells b)"
      using ok(1,2) by (simp add: word_le_nat_alt)
    ultimately show ?thesis
      using False Some ok more
      by (auto simp: ov_reserve_to_def Let_def block_ok_def cap room_block [OF assms(2)] block_list_def ov_reserve_def
          ov_size_def ov_capacity_def word_le_nat_alt)
  qed
qed

lemma emplace_ok:
  assumes "ov_ok v"
  shows "case ov_emplace alloc v of
      Inl e \<Rightarrow> e = ''std::bad_alloc'' \<and> (\<exists>bytes. \<not> alloc bytes)
    | Inr v' \<Rightarrow> ov_ok v' \<and> ov_abs v' = ov_reserve (ov_abs v) \<and> ov_size v' = ov_size v \<and> v' \<noteq> None"
  using assms reserve_ok [OF assms, of 4 alloc]
  by (cases "v = None") (auto simp: ov_emplace_def ov_reserve_def ov_list_def split: sum.splits)

lemma construct_ok:
  assumes "block_ok b" "hd_size b < hd_capacity b"
  shows "\<exists>b'. ov_construct b x = Some b' \<and> block_ok b' \<and> block_list b' = block_list b @ [x]"
proof -
  let ?n = "unat (hd_size b)"
  have ok: "length (cells b) = unat (hd_capacity b)"
    "\<And>i. i < length (cells b) \<Longrightarrow> cells b ! i \<noteq> None \<longleftrightarrow> i < ?n"
    using assms(1) by (auto simp: block_ok_def)
  have n: "?n < length (cells b)" using assms(2) ok(1) by (simp add: word_less_nat_alt)
  have "?n + 1 < 2 ^ LENGTH(32)" using n ok(1) unat_u32_less [of "hd_capacity b"] by simp
  then have size: "unat (hd_size b + 1) = ?n + 1" by (simp add: unat_add_lem [THEN iffD1])
  have "block_list (b\<lparr>cells := (cells b)[?n := Some x], hd_size := hd_size b + 1\<rparr>) = block_list b @ [x]"
    using n by (simp add: block_list_def size take_Suc_conv_app_nth)
  moreover have "block_ok (b\<lparr>cells := (cells b)[?n := Some x], hd_size := hd_size b + 1\<rparr>)"
    using n ok by (auto simp: block_ok_def size word_le_nat_alt nth_list_update)
  ultimately show ?thesis using n by (simp add: ov_construct_def)
qed

text \<open>A vector is stuck when it is full and doubling its capacity wraps.\<close>

definition stuck :: "'a ov \<Rightarrow> bool" where
  "stuck v \<longleftrightarrow> (case v of Some b \<Rightarrow> hd_size b = hd_capacity b \<and> 2 ^ 31 \<le> unat (hd_size b) | None \<Rightarrow> False)"

lemma double_capacity:
  "unat (c * 2 :: u32) = (if unat c < 2 ^ 31 then 2 * unat c else 2 * unat c - 2 ^ 32)"
proof -
  have "unat c < 2 ^ 32" using unat_u32_less [of c] by simp
  with mult.commute [of "unat c" 2] show ?thesis by (auto simp: unat_word_ariths(2) le_mod_geq)
qed

lemma ov_grow_ok:
  assumes "block_ok b" "\<not> stuck (Some b)"
  shows "case ov_grow alloc b of
      Inl e \<Rightarrow> e = ''std::bad_alloc'' \<and> (\<exists>bytes. \<not> alloc bytes)
    | Inr v' \<Rightarrow> \<exists>b'. v' = Some b' \<and> block_ok b' \<and> block_list b' = block_list b \<and> hd_size b' < hd_capacity b'"
proof (cases "hd_size b \<ge> hd_capacity b")
  case False
  with assms(1) show ?thesis by (simp add: ov_grow_def)
next
  case True
  with assms have full: "hd_size b = hd_capacity b" "unat (hd_size b) < 2 ^ 31"
    by (auto simp: stuck_def block_ok_def)
  define n :: u64 where "n = (if hd_capacity b = 0 then 4 else ucast (hd_capacity b * 2))"
  have pos: "hd_capacity b \<noteq> 0 \<Longrightarrow> 0 < unat (hd_capacity b)" by (simp add: unat_gt_0)
  have n: "unat n < 2 ^ 32" "unat (hd_capacity b) < unat n"
    using full pos by (auto simp: n_def double_capacity)
  have ok: "ov_ok (Some b)" using assms(1) by simp
  have grow: "ov_grow alloc b = ov_reserve_to alloc (Some b) n" using True by (simp add: ov_grow_def n_def)
  show ?thesis
  proof (cases "ov_reserve_to alloc (Some b) n")
    case (Inl e)
    with reserve_ok [OF ok n(1), of alloc] show ?thesis by (simp add: grow)
  next
    case (Inr v')
    with reserve_ok [OF ok n(1), of alloc] have v': "ov_ok v'" "ov_abs v' = ov_reserve (Some (block_list b))"
      "ov_size v' = ov_size (Some b)" "v' \<noteq> None" "n \<le> ov_capacity v'" by auto
    obtain b' where b': "v' = Some b'" using v'(4) by blast
    with v' n(2) full(1) show ?thesis
      by (auto simp: grow Inr ov_reserve_def ov_size_def ov_capacity_def word_le_nat_alt word_less_nat_alt
          dest!: arg_cong [of _ _ unat])
  qed
qed

lemma emplace_back_ok:
  assumes "ov_ok v" "\<not> stuck v"
  shows "returns (ov_emplace_back alloc v x) (\<lambda>r. case r of
      Inl e \<Rightarrow> e = ''std::bad_alloc'' \<and> (\<exists>bytes. \<not> alloc bytes)
    | Inr v' \<Rightarrow> ov_ok v' \<and> ov_abs v' = ov_push_back (ov_abs v) x)"
proof (cases "ov_emplace alloc v")
  case (Inl e)
  with emplace_ok [OF assms(1), of alloc] show ?thesis by (auto simp: ov_emplace_back_def)
next
  case (Inr v1)
  with emplace_ok [OF assms(1), of alloc] have "ov_ok v1" "ov_abs v1 = ov_reserve (ov_abs v)" "ov_size v1 = ov_size v"
    "v1 \<noteq> None" by auto
  then obtain b where b: "v1 = Some b" "block_ok b" "block_list b = ov_list (ov_abs v)" "ov_size v = ucast (hd_size b)"
    by (cases v1) (auto simp: ov_reserve_def ov_size_def)
  have "\<not> stuck (Some b)"
  proof (cases v)
    case None
    with b(4) show ?thesis by (simp add: ov_size_def stuck_def) (metis unat_0 unat_ucast_u32 not_numeral_le_zero)
  next
    case (Some b0)
    then have "b0 = b" using Inr b(1) by (simp add: ov_emplace_def)
    with Some assms(2) show ?thesis by simp
  qed
  note grow = ov_grow_ok [OF b(2) this, of alloc]
  show ?thesis
  proof (cases "ov_grow alloc b")
    case (Inl e)
    with grow Inr b(1) show ?thesis by (auto simp: ov_emplace_back_def)
  next
    case (Inr v2)
    with grow obtain b2 where b2: "v2 = Some b2" "block_ok b2" "block_list b2 = block_list b" "hd_size b2 < hd_capacity b2"
      by auto
    from construct_ok [OF b2(2,4), of x] obtain b3 where "ov_construct b2 x = Some b3" "block_ok b3"
      "block_list b3 = block_list b2 @ [x]" by blast
    with b2 b \<open>ov_emplace alloc v = Inr v1\<close> Inr show ?thesis
      by (simp add: ov_emplace_back_def ov_push_back_def)
  qed
qed

lemma emplace_back_stuck:
  assumes "ov_ok v" "stuck v"
  shows "ov_emplace_back alloc v x = None"
proof -
  obtain b where b: "v = Some b" "hd_size b = hd_capacity b" "2 ^ 31 \<le> unat (hd_size b)" "block_ok b"
    using assms by (auto simp: stuck_def split: option.splits)
  then have "hd_capacity b \<noteq> 0" by auto
  moreover have "unat (hd_capacity b * 2) \<le> unat (hd_capacity b)"
    using b(2,3) unat_u32_less [of "hd_capacity b"] by (simp add: double_capacity)
  ultimately have "ov_grow alloc b = expected v"
    using b(1,2) by (simp add: ov_grow_def ov_reserve_to_def ov_capacity_def word_le_nat_alt)
  moreover have "ov_construct b x = None" using b by (simp add: ov_construct_def block_ok_def)
  ultimately show ?thesis using b(1) by (simp add: ov_emplace_back_def ov_emplace_def)
qed

lemma pop_back_ok:
  assumes "ov_ok v"
  shows "ov_ok (ov_pop_back v) \<and> ov_abs (ov_pop_back v) = map_option butlast (ov_abs v)"
proof (cases v)
  case (Some b)
  with assms have ok: "block_ok b" by simp
  show ?thesis
  proof (cases "hd_size b > 0")
    case True
    let ?n = "unat (hd_size b) - 1"
    have pos: "0 < unat (hd_size b)" using True by (simp add: word_less_nat_alt)
    then have size: "unat (hd_size b - 1) = ?n" by (simp add: unat_minus_one unat_gt_0)
    have le: "unat (hd_size b) \<le> length (cells b)" using ok by (auto simp: block_ok_def word_le_nat_alt)
    have "block_ok (b\<lparr>hd_size := hd_size b - 1, cells := (cells b)[?n := None]\<rparr>)"
    proof -
      have c: "cells b ! i \<noteq> None \<longleftrightarrow> i < unat (hd_size b)" if "i < length (cells b)" for i
        using ok that by (auto simp: block_ok_def)
      have "(cells b)[?n := None] ! i \<noteq> None \<longleftrightarrow> i < ?n" if "i < length (cells b)" for i
        using c [OF that] pos that by (cases "i = ?n") auto
      moreover have "hd_size b - 1 \<le> hd_capacity b" "length (cells b) = unat (hd_capacity b)"
        using ok by (auto simp: block_ok_def size word_le_nat_alt)
      ultimately show ?thesis by (simp add: block_ok_def size)
    qed
    moreover have "take ?n (cells b) = butlast (take (unat (hd_size b)) (cells b))"
      using le by (simp add: butlast_take)
    then have "block_list (b\<lparr>hd_size := hd_size b - 1, cells := (cells b)[?n := None]\<rparr>) = butlast (block_list b)"
      by (simp add: block_list_def size map_butlast)
    ultimately show ?thesis using Some True size by (simp add: ov_pop_back_def)
  next
    case False
    then have "hd_size b = 0" by (simp add: word_less_nat_alt unat_eq_zero)
    then show ?thesis using Some assms False by (simp add: ov_pop_back_def block_list_def)
  qed
qed (simp add: ov_pop_back_def)

lemma size_ok: "ov_ok v \<Longrightarrow> unat (ov_size v) = length (ov_list (ov_abs v))"
  by (cases v) (simp_all add: ov_size_def length_block)

lemma capacity_ok: "ov_ok v \<Longrightarrow> length (ov_list (ov_abs v)) \<le> unat (ov_capacity v)"
  by (cases v) (auto simp: ov_capacity_def length_block block_ok_def word_le_nat_alt)

lemma nth_ok:
  assumes "ov_ok v" "unat i < length (ov_list (ov_abs v))"
  shows "ov_nth v i = Some (ov_list (ov_abs v) ! unat i)"
proof (cases v)
  case (Some b)
  with assms have b: "block_ok b" "unat i < unat (hd_size b)" by (simp_all add: length_block)
  then have "unat i < length (cells b)" by (auto simp: block_ok_def word_le_nat_alt)
  with b Some block_cell [OF b] show ?thesis by (auto simp: ov_nth_def block_list_nth)
qed (use assms in simp)

text \<open>The element is there, and there is room for the copy, or growing was needed and refused.\<close>

definition own_defined :: "(u64 \<Rightarrow> bool) \<Rightarrow> 'a ov \<Rightarrow> u64 \<Rightarrow> bool" where
  "own_defined alloc v i \<longleftrightarrow> (let n = length (ov_list (ov_abs v)); cap = unat (ov_capacity v)
     in unat i < n \<and> (n < cap \<or> n = cap \<and> n < 2 ^ 31 \<and> \<not> alloc (block_bytes (ov_capacity v * 2))))"

lemma push_own_block:
  assumes "block_ok b"
  shows "ov_push_own alloc (Some b) i =
    (if \<not> unat i < unat (hd_size b) then None
     else if hd_size b < hd_capacity b then map_option (\<lambda>b. expected (Some b)) (ov_construct b (block_list b ! unat i))
     else case ov_grow alloc b of Inl e \<Rightarrow> Some (unexpected e) | Inr v \<Rightarrow> None)"
proof (cases "unat i < unat (hd_size b)")
  case True
  with assms have i: "unat i < length (cells b)" by (auto simp: block_ok_def word_le_nat_alt)
  from block_cell [OF assms True] block_list_nth [OF assms True] have "cells b ! unat i = Some (block_list b ! unat i)" by auto
  with i have push: "ov_push_own alloc (Some b) i =
      (case ov_grow alloc b of
         Inl e \<Rightarrow> Some (unexpected e)
       | Inr v \<Rightarrow> if hd_size b \<ge> hd_capacity b then None
           else do { b' \<leftarrow> v; b' \<leftarrow> ov_construct b' (block_list b ! unat i); Some (expected (Some b')) })"
    by (simp add: ov_push_own_def)
  show ?thesis
  proof (cases "hd_size b < hd_capacity b")
    case less: True
    then have "ov_grow alloc b = expected (Some b)" by (simp add: ov_grow_def not_le [symmetric])
    with push True less show ?thesis by (cases "ov_construct b (block_list b ! unat i)") auto
  next
    case False
    with push True show ?thesis by (auto split: sum.split)
  qed
next
  case False
  with assms show ?thesis by (auto simp: ov_push_own_def block_ok_def)
qed

lemma push_own_ok:
  assumes "ov_ok v" "ov_push_own alloc v i = Some r"
  shows "unat i < length (ov_list (ov_abs v)) \<and> (case r of
      Inl e \<Rightarrow> e = ''std::bad_alloc'' \<and> (\<exists>bytes. \<not> alloc bytes)
    | Inr v' \<Rightarrow> ov_ok v' \<and> ov_abs v' = ov_push_back (ov_abs v) (ov_list (ov_abs v) ! unat i))"
proof -
  obtain b where b: "v = Some b" "block_ok b" using assms by (cases v) (auto simp: ov_push_own_def)
  note push = assms(2) [unfolded b(1) push_own_block [OF b(2)]]
  then have i: "unat i < unat (hd_size b)" by (auto split: if_splits)
  show ?thesis
  proof (cases "hd_size b < hd_capacity b")
    case True
    from construct_ok [OF b(2) True, of "block_list b ! unat i"] push i True b show ?thesis
      by (auto simp: length_block ov_push_back_def)
  next
    case False
    with push i obtain e where e: "ov_grow alloc b = Inl e" "r = Inl e" by (auto split: sum.splits)
    have "\<not> stuck (Some b)"
    proof
      assume "stuck (Some b)"
      then have full: "hd_size b = hd_capacity b" "2 ^ 31 \<le> unat (hd_capacity b)" by (auto simp: stuck_def)
      then have "unat (hd_capacity b * 2) \<le> unat (hd_capacity b)" "hd_capacity b \<noteq> 0"
        using unat_u32_less [of "hd_capacity b"] by (auto simp: double_capacity)
      then have "ov_grow alloc b = expected (Some b)"
        using full(1) by (simp add: ov_grow_def ov_reserve_to_def ov_capacity_def word_le_nat_alt)
      with e(1) show False by simp
    qed
    from ov_grow_ok [OF b(2) this, of alloc] e i b show ?thesis by (simp add: length_block)
  qed
qed

lemma push_own_defined:
  assumes "ov_ok v"
  shows "ov_push_own alloc v i \<noteq> None \<longleftrightarrow> own_defined alloc v i"
proof (cases v)
  case (Some b)
  with assms have b: "block_ok b" by simp
  have le: "unat (hd_size b) \<le> unat (hd_capacity b)" using b by (simp add: block_ok_def word_le_nat_alt)
  have grow: "isl (ov_grow alloc b) \<longleftrightarrow> unat (hd_capacity b) < 2 ^ 31 \<and> \<not> alloc (block_bytes (ucast (hd_capacity b) * 2))"
    if "hd_size b = hd_capacity b" "hd_capacity b \<noteq> 0"
  proof -
    have eq: "(ucast (hd_capacity b * 2) :: u64) = ucast (hd_capacity b) * 2" if "unat (hd_capacity b) < 2 ^ 31"
    proof (rule word_unat_eq_iff [THEN iffD2])
      have "unat (ucast (hd_capacity b) :: u64) * unat (2 :: u64) < 2 ^ LENGTH(64)" using that by simp
      then have "unat ((ucast (hd_capacity b) :: u64) * 2) = unat (hd_capacity b) * 2" by (simp add: unat_mult_lem [THEN iffD1])
      then show "unat (ucast (hd_capacity b * 2) :: u64) = unat ((ucast (hd_capacity b) :: u64) * 2)"
        using that by (simp add: double_capacity)
    qed
    have "0 < unat (hd_capacity b)" using that(2) by (simp add: unat_gt_0)
    then have "\<not> (ucast (hd_capacity b * 2) :: u64) \<le> ucast (hd_capacity b) \<longleftrightarrow> unat (hd_capacity b) < 2 ^ 31"
      using unat_u32_less [of "hd_capacity b"] by (auto simp: word_le_nat_alt double_capacity)
    with that eq show ?thesis by (auto simp: ov_grow_def ov_reserve_to_def ov_capacity_def Let_def)
  qed
  have construct: "hd_size b < hd_capacity b \<Longrightarrow> ov_construct b x \<noteq> None" for x using construct_ok [OF b, of x] by auto
  consider "\<not> unat i < unat (hd_size b)" | "unat i < unat (hd_size b)" "hd_size b < hd_capacity b"
    | "unat i < unat (hd_size b)" "hd_size b = hd_capacity b" "hd_capacity b \<noteq> 0"
    using le by (metis nat_less_le unat_0 not_less_zero word_less_nat_alt word_unat_eq_iff)
  then show ?thesis
  proof cases
    case 2
    with construct Some show ?thesis
      by (auto simp: push_own_block [OF b] own_defined_def Let_def length_block [OF b] ov_capacity_def word_less_nat_alt)
  next
    case 3
    with grow Some show ?thesis
      by (auto simp: push_own_block [OF b] own_defined_def Let_def length_block [OF b] ov_capacity_def split: sum.splits)
  qed (use Some in \<open>simp add: push_own_block [OF b] own_defined_def Let_def length_block [OF b]\<close>)
qed (simp add: ov_push_own_def own_defined_def Let_def)

section \<open>The container is an optional list\<close>

lemma answered_sim:
  assumes "ov_ok v" "answered v r = (ans, v')" "call \<in> {Emplace, Reserve n, EmplaceBack x, PushBackOwn i}"
    and "case r of Inl e \<Rightarrow> e = ''std::bad_alloc'' \<and> refuses | Inr v1 \<Rightarrow> ov_ok v1 \<and> list_step refuses (ov_abs v) (call, Done) (ov_abs v1)"
  shows "ov_ok v' \<and> list_step refuses (ov_abs v) (call, ans) (ov_abs v')"
proof (cases r)
  case (Inl e)
  with assms have "ans = Thrown ''std::bad_alloc''" "v' = v" "refuses" by (simp_all add: answered_def)
  with list_step.intros(8) [OF _ assms(3), of refuses "ov_abs v"] assms(1) show ?thesis by simp
next
  case (Inr v1)
  with assms show ?thesis by (auto simp: answered_def)
qed

lemma ov_simulates:
  assumes ok: "ov_ok v" and call: "ov_call alloc v call = Some (ans, v')" and fits: "fits call"
  shows "ov_ok v' \<and> list_step (\<exists>bytes. \<not> alloc bytes) (ov_abs v) (call, ans) (ov_abs v')"
proof (cases call)
  case HasValue
  have "(v \<noteq> None) = (ov_abs v \<noteq> None)" by (simp add: ov_abs_def)
  with HasValue assms list_step.intros(1) [of _ "ov_abs v"] show ?thesis by auto
next
  case Size
  with assms show ?thesis by (auto simp: size_ok intro: list_step.intros)
next
  case Capacity
  with assms show ?thesis by (auto intro: list_step.intros capacity_ok)
next
  case Emplace
  with call have "answered v (ov_emplace alloc v) = (ans, v')" by simp
  from answered_sim [OF ok this, of Emplace] emplace_ok [OF ok, of alloc] Emplace show ?thesis
    by (auto intro: list_step.intros split: sum.splits)
next
  case (Reserve n)
  with call have r: "answered v (ov_reserve_to alloc v n) = (ans, v')" by simp
  from Reserve fits have "unat n < 2 ^ 32" by simp
  from reserve_ok [OF ok this, of alloc]
  have "case ov_reserve_to alloc v n of
      Inl e \<Rightarrow> e = ''std::bad_alloc'' \<and> (\<exists>bytes. \<not> alloc bytes)
    | Inr v1 \<Rightarrow> ov_ok v1 \<and> list_step (\<exists>bytes. \<not> alloc bytes) (ov_abs v) (Reserve n, Done) (ov_abs v1)"
    by (auto intro: list_step.intros split: sum.splits)
  from answered_sim [OF ok r _ this] show ?thesis unfolding Reserve by blast
next
  case (EmplaceBack x)
  with call obtain r where r: "ov_emplace_back alloc v x = Some r" "answered v r = (ans, v')" by auto
  then have "\<not> stuck v" using emplace_back_stuck [OF ok] by auto
  from answered_sim [OF ok r(2), of "EmplaceBack x"] emplace_back_ok [OF ok this, of alloc x] EmplaceBack r(1) show ?thesis
    by (auto intro: list_step.intros split: sum.splits)
next
  case (PushBackOwn i)
  with call obtain r where r: "ov_push_own alloc v i = Some r" "answered v r = (ans, v')" by auto
  have "case r of
      Inl e \<Rightarrow> e = ''std::bad_alloc'' \<and> (\<exists>bytes. \<not> alloc bytes)
    | Inr v1 \<Rightarrow> ov_ok v1 \<and> list_step (\<exists>bytes. \<not> alloc bytes) (ov_abs v) (PushBackOwn i, Done) (ov_abs v1)"
    using push_own_ok [OF ok r(1)] by (auto intro: list_step.intros split: sum.splits)
  from answered_sim [OF ok r(2) _ this] show ?thesis unfolding PushBackOwn by blast
next
  case PopBack
  with call pop_back_ok [OF ok] show ?thesis by (auto intro: list_step.intros)
next
  case Clear
  with call show ?thesis by (auto simp: ov_clear_def intro: list_step.intros)
next
  case (At i)
  show ?thesis
  proof (cases "i \<ge> ov_size v")
    case True
    with At call have a: "ans = Thrown ''optional_vector index out of range''" "v' = v" by (simp_all add: ov_at_def)
    from True have "length (ov_list (ov_abs v)) \<le> unat i" using size_ok [OF ok] by (simp add: word_le_nat_alt)
    with a At ok show ?thesis by (simp add: list_step.intros)
  next
    case False
    then have i: "unat i < length (ov_list (ov_abs v))" using size_ok [OF ok] by (simp add: word_le_nat_alt)
    from False At call nth_ok [OF ok i] have "ans = Element (ov_list (ov_abs v) ! unat i)" "v' = v"
      by (auto simp: ov_at_def)
    with i At ok show ?thesis by (simp add: list_step.intros)
  qed
next
  case Front
  have "ov_list (ov_abs v) \<noteq> []"
  proof
    assume empty: "ov_list (ov_abs v) = []"
    have "ov_front v = None"
    proof (cases v)
      case (Some b)
      with ok empty have "block_ok b" "unat (hd_size b) = 0" using length_block [of b] by simp_all
      with Some show ?thesis by (auto simp: ov_front_def ov_nth_def block_ok_def)
    qed (simp add: ov_front_def ov_nth_def)
    with Front call show False by simp
  qed
  with nth_ok [OF ok, of 0] Front call ok show ?thesis
    by (auto simp: ov_front_def list_step.intros simp flip: hd_conv_nth)
next
  case Back
  then obtain b x where b: "v = Some b" "ans = Element x" "v' = v" using call by (auto simp: ov_back_def bind_eq_Some)
  have ne: "ov_list (ov_abs v) \<noteq> []"
  proof
    assume "ov_list (ov_abs v) = []"
    then have "hd_size b = 0" using size_ok [OF ok] b(1) by (simp add: ov_size_def unat_eq_zero)
    then have "unat (ucast (hd_size b - 1) :: u64) = 2 ^ 32 - 1"
      by (simp add: unsigned_minus_1_eq_mask mask_eq_exp_minus_1)
    moreover have "length (cells b) < 2 ^ 32" using ok b(1) unat_u32_less by (simp add: block_ok_def)
    ultimately have "ov_back v = None" using b(1) by (simp add: ov_back_def ov_nth_def)
    with Back call show False by simp
  qed
  then have "0 < unat (hd_size b)" using size_ok [OF ok] b(1) by (simp add: ov_size_def)
  then have "unat (ucast (hd_size b - 1) :: u64) = length (ov_list (ov_abs v)) - 1"
    using size_ok [OF ok] b(1) by (simp add: ov_size_def unat_minus_one unat_gt_0)
  with nth_ok [OF ok, of "ucast (hd_size b - 1)"] ne b Back call
  have "ans = Element (last (ov_list (ov_abs v)))" by (auto simp: ov_back_def last_conv_nth)
  with b(3) ok Back ne show ?thesis by (simp add: list_step.intros)
qed

definition fitting_step :: "(u64 \<Rightarrow> bool) \<Rightarrow> 'a ov \<Rightarrow> 'a ov_request \<times> 'a ov_answer \<Rightarrow> 'a ov \<Rightarrow> bool" where
  "fitting_step alloc v l v' \<longleftrightarrow> ov_step alloc v l v' \<and> fits (fst l)"

interpretation ov: simulation "fitting_step alloc" "list_step (\<exists>bytes. \<not> alloc bytes)" ov_abs ov_ok for alloc
  by unfold_locales (auto simp: fitting_step_def ov_step_def dest: ov_simulates)

lemma fitting_runs:
  "runs (ov_step alloc) v history v' \<Longrightarrow> \<forall>l \<in> set history. fits (fst l) \<Longrightarrow> runs (fitting_step alloc) v history v'"
  by (induction rule: runs.induct) (auto simp: fitting_step_def intro: runs.intros)

lemma ov_call_defined:
  assumes "ov_ok v"
  shows "ov_call alloc v call \<noteq> None \<longleftrightarrow>
    (case call of
       EmplaceBack x \<Rightarrow> \<not> (length (ov_list (ov_abs v)) = unat (ov_capacity v) \<and> 2 ^ 31 \<le> length (ov_list (ov_abs v)))
     | PushBackOwn i \<Rightarrow> own_defined alloc v i
     | Front \<Rightarrow> ov_list (ov_abs v) \<noteq> []
     | Back \<Rightarrow> ov_list (ov_abs v) \<noteq> []
     | _ \<Rightarrow> True)"
proof -
  have stuck: "stuck v \<longleftrightarrow> length (ov_list (ov_abs v)) = unat (ov_capacity v) \<and> 2 ^ 31 \<le> length (ov_list (ov_abs v))"
    using assms by (cases v) (auto simp: stuck_def ov_capacity_def length_block word_unat_eq_iff)
  have push: "ov_emplace_back alloc v x \<noteq> None \<longleftrightarrow> \<not> stuck v" for x
    using emplace_back_ok [OF assms, of alloc x] emplace_back_stuck [OF assms, of alloc x] by (auto simp: returns_def)
  have at: "ov_at v i \<noteq> None" for i
    using nth_ok [OF assms, of i] size_ok [OF assms] by (auto simp: ov_at_def word_le_nat_alt)
  have ends: "ov_list (ov_abs v) \<noteq> [] \<Longrightarrow> ov_front v \<noteq> None \<and> ov_back v \<noteq> None"
  proof -
    assume ne: "ov_list (ov_abs v) \<noteq> []"
    then obtain b where b: "v = Some b" by (cases v) auto
    then have "0 < unat (hd_size b)" using size_ok [OF assms] ne by (simp add: ov_size_def)
    then have "unat (ucast (hd_size b - 1) :: u64) = length (ov_list (ov_abs v)) - 1"
      using size_ok [OF assms] b by (simp add: ov_size_def unat_minus_one unat_gt_0)
    with nth_ok [OF assms, of 0] nth_ok [OF assms, of "ucast (hd_size b - 1)"] ne b show ?thesis
      by (simp add: ov_front_def ov_back_def)
  qed
  show ?thesis
  proof (cases call)
    case Front
    with ends ov_simulates [OF assms, of alloc Front] show ?thesis by (auto simp: list_step_front)
  next
    case Back
    with ends ov_simulates [OF assms, of alloc Back] show ?thesis by (auto simp: list_step_back)
  qed (use push at stuck push_own_defined [OF assms, of alloc] in auto)
qed

text \<open>C35: The compact container is an optional list. After any history of the modelled calls on an empty
  optional_vector, in which each size given to reserve is below 2^32, whatever malloc refuses, the answers
  are those of an optional list (a call that throws changes nothing, and throws only std::bad_alloc for a
  refused size or the range error of at). The next call is well-defined unless it is front or back of an
  empty container; or it appends to a full container of 2^31 elements or more, where doubling the 32-bit
  capacity wraps and the element is written behind the allocation; or push_back gets a reference to
  an element that is not there, or to an own element when the container is full and grows, because then
  the reference dangles.\<close>

theorem optional_vector_is_list:
  assumes "runs (ov_step alloc) None history v" "\<forall>l \<in> set history. fits (fst l)"
  shows "runs (list_step (\<exists>bytes. \<not> alloc bytes)) None history (ov_abs v) \<and>
    (ov_call alloc v call \<noteq> None \<longleftrightarrow>
     (case call of
        EmplaceBack x \<Rightarrow> \<not> (length (ov_list (ov_abs v)) = unat (ov_capacity v) \<and> 2 ^ 31 \<le> length (ov_list (ov_abs v)))
      | PushBackOwn i \<Rightarrow> unat i < length (ov_list (ov_abs v)) \<and>
          (length (ov_list (ov_abs v)) < unat (ov_capacity v) \<or>
           length (ov_list (ov_abs v)) < 2 ^ 31 \<and> \<not> alloc (block_bytes (ov_capacity v * 2)))
      | Front \<Rightarrow> ov_list (ov_abs v) \<noteq> []
      | Back \<Rightarrow> ov_list (ov_abs v) \<noteq> []
      | _ \<Rightarrow> True))"
proof -
  note runs = fitting_runs [OF assms]
  have ok: "ov_ok v" using ov.good_runs [OF runs] by simp
  have "own_defined alloc v i \<longleftrightarrow> unat i < length (ov_list (ov_abs v)) \<and>
      (length (ov_list (ov_abs v)) < unat (ov_capacity v) \<or>
       length (ov_list (ov_abs v)) < 2 ^ 31 \<and> \<not> alloc (block_bytes (ov_capacity v * 2)))" for i
    using capacity_ok [OF ok] by (auto simp: own_defined_def Let_def)
  with ov.refines [OF runs] ov_call_defined [OF ok, of alloc call] show ?thesis by (auto split: ov_request.split)
qed

lemma optional_vector_is_list_witness:
  "\<exists>v :: nat ov. ov_abs v = Some [7] \<and> ov_call (\<lambda>_. True) v Back = Some (Element 7, v) \<and>
     runs (list_step False) None [(EmplaceBack 7, Done), (EmplaceBack 8, Done), (PopBack, Done)] (ov_abs v)"
proof -
  define v :: "nat ov" where "v = Some \<lparr>hd_capacity = 4, hd_size = 1, cells = [Some 7, None, None, None]\<rparr>"
  define v1 :: "nat ov" where "v1 = Some \<lparr>hd_capacity = 4, hd_size = 2, cells = [Some 7, Some 8, None, None]\<rparr>"
  let ?yes = "\<lambda>_ :: u64. True"
  have four: "replicate 4 None = [None, None, None, None]" by (simp add: eval_nat_numeral)
  have room4: "room (block_bytes 4) = 4" by (rule trans [OF room_block]) simp_all
  have s1: "ov_step ?yes None (EmplaceBack 7, Done) v"
    by (simp add: ov_step_def ov_emplace_back_def ov_emplace_def ov_reserve_to_def Let_def room4 four ov_grow_def
        ov_construct_def answered_def v_def word_le_nat_alt)
  have s2: "ov_step ?yes v (EmplaceBack 8, Done) v1"
    by (simp add: ov_step_def ov_emplace_back_def ov_emplace_def ov_grow_def ov_construct_def answered_def v_def v1_def
        word_le_nat_alt)
  have s3: "ov_step ?yes v1 (PopBack, Done) v"
    by (simp add: ov_step_def ov_pop_back_def v_def v1_def)
  have "runs (ov_step ?yes) None [(EmplaceBack 7, Done)] v" by (rule runs_single) (rule s1)
  from runs.more [of "ov_step ?yes", OF runs.more [of "ov_step ?yes", OF this s2] s3]
  have "runs (ov_step ?yes) None [(EmplaceBack 7, Done), (EmplaceBack 8, Done), (PopBack, Done)] v" by simp
  from optional_vector_is_list [OF this, of Back] show ?thesis
    by (intro exI [of _ v]) (simp add: v_def block_list_def ov_back_def ov_nth_def)
qed

text \<open>Without the bound on reserve it fails: a capacity of 2^32 is stored as 0. With five elements, the
  next append finds the vector full, reserves four cells, which shrinks it, and writes behind them.\<close>

lemma reserve_truncates:
  "\<exists>v v'. block_list v = [1, 2, 3, 4, 5 :: nat] \<and> block_ok v \<and>
    ov_call (\<lambda>_. True) (Some v) (Reserve 0x100000000) = Some (Done, v') \<and> ov_capacity v' = 0 \<and>
    ov_call (\<lambda>_. True) v' (EmplaceBack 6) = None"
proof -
  let ?five = "map Some [1, 2, 3, 4, 5 :: nat]"
  let ?v = "\<lparr>hd_capacity = 8, hd_size = 5, cells = ?five @ [None, None, None]\<rparr>"
  define n where "n = room (block_bytes 0x100000000)"
  let ?v' = "Some \<lparr>hd_capacity = 0, hd_size = 5, cells = take n (?five @ [None, None, None]) @ replicate (n - 8) None\<rparr>"
  have room4: "room (block_bytes 4) = 4" by (rule trans [OF room_block]) simp_all
  have "block_list ?v = [1, 2, 3, 4, 5]" by (simp add: block_list_def)
  moreover have "(?five @ [None, None, None]) ! i \<noteq> None \<longleftrightarrow> i < 5" if "i < 8" for i
  proof -
    have "i \<in> {0, 1, 2, 3, 4, 5, 6, 7}" using that by auto
    then show ?thesis by auto
  qed
  then have "block_ok ?v" by (simp add: block_ok_def word_le_nat_alt)
  moreover have "ov_call (\<lambda>_. True) (Some ?v) (Reserve 0x100000000) = Some (Done, ?v')"
    by (simp add: ov_reserve_to_def ov_capacity_def Let_def answered_def n_def word_le_nat_alt)
  moreover have "ov_call (\<lambda>_. True) ?v' (EmplaceBack 6) = None"
    by (simp add: ov_emplace_back_def ov_emplace_def ov_grow_def ov_reserve_to_def ov_capacity_def Let_def room4 ov_construct_def)
  moreover have "ov_capacity ?v' = 0" by (simp add: ov_capacity_def)
  ultimately show ?thesis by blast
qed

end
