(* ===== verification/Ring_Queue.thy ===== *)
theory Ring_Queue
  imports Simulation
begin

text \<open>
  \<open>LockFreeMPMCQueue\<close> (include/cob/mpmc_queue.hpp): the bounded ring of cells with sequence numbers.
  Every atomic operation of \<open>enqueue\<close> and \<open>dequeue\<close> is one step of a thread, and threads interleave
  arbitrarily; \<open>compare_exchange_weak\<close> may fail spuriously. Positions are natural numbers, which
  the \<open>size_t\<close> of the source agrees with for the first \<open>2 ^ 63\<close> operations. Memory is sequentially
  consistent.

  The abstract object is the queue the scheduler of the executor works with: a list of elements,
  each of which is either published or only claimed (theory Scheduler, \<open>ready_queue\<close>).
\<close>

section \<open>The queue\<close>

record 'a cell =
  cell_seq :: nat
  cell_data :: 'a

record 'a ring =
  cells :: "'a cell list"
  enqueue_pos :: nat
  dequeue_pos :: nat

definition new_ring :: "'a \<Rightarrow> nat \<Rightarrow> 'a ring" where
  "new_ring dflt capacity =
     \<lparr>cells = map (\<lambda>i. \<lparr>cell_seq = i, cell_data = dflt\<rparr>) [0..<bit_ceil capacity],
      enqueue_pos = 0, dequeue_pos = 0\<rparr>"

text \<open>\<open>buffer_[pos & buffer_mask_]\<close>.\<close>

definition slot_of :: "'a ring \<Rightarrow> nat \<Rightarrow> nat" where
  "slot_of r pos = pos AND (length (cells r) - 1)"

definition seq_at :: "'a ring \<Rightarrow> nat \<Rightarrow> nat" where
  "seq_at r pos = cell_seq (cells r ! slot_of r pos)"

definition data_at :: "'a ring \<Rightarrow> nat \<Rightarrow> 'a" where
  "data_at r pos = cell_data (cells r ! slot_of r pos)"

definition set_seq :: "'a ring \<Rightarrow> nat \<Rightarrow> nat \<Rightarrow> 'a ring" where
  "set_seq r pos n = r\<lparr>cells := (cells r)[slot_of r pos := (cells r ! slot_of r pos)\<lparr>cell_seq := n\<rparr>]\<rparr>"

definition set_data :: "'a ring \<Rightarrow> nat \<Rightarrow> 'a \<Rightarrow> 'a ring" where
  "set_data r pos d = r\<lparr>cells := (cells r)[slot_of r pos := (cells r ! slot_of r pos)\<lparr>cell_data := d\<rparr>]\<rparr>"

text \<open>Where a thread is: idle, in \<open>enqueue\<close>, or in \<open>dequeue\<close>.\<close>

datatype 'a qpc =
  Idle
| EnqLoadPos 'a | EnqLoadSeq 'a nat | EnqCas 'a nat | EnqWrite 'a nat | EnqPublish 'a nat | EnqDone bool
| DeqLoadPos | DeqLoadSeq nat | DeqCas nat | DeqRead nat | DeqFree nat 'a | DeqDone "'a option"

text \<open>The outcomes of the next operation of a thread.\<close>

fun thread_step :: "'a ring \<Rightarrow> 'a qpc \<Rightarrow> ('a ring \<times> 'a qpc) list" where
  "thread_step r Idle = []"
| "thread_step r (EnqLoadPos d) = [(r, EnqLoadSeq d (enqueue_pos r))]"
| "thread_step r (EnqLoadSeq d pos) =
     (let diff = int (seq_at r pos) - int pos
      in [(r, if diff = 0 then EnqCas d pos else if diff < 0 then EnqDone False else EnqLoadPos d)])"
| "thread_step r (EnqCas d pos) =
     (if enqueue_pos r = pos then [(r\<lparr>enqueue_pos := pos + 1\<rparr>, EnqWrite d pos)] else []) @
     [(r, EnqLoadSeq d (enqueue_pos r))]"
| "thread_step r (EnqWrite d pos) = [(set_data r pos d, EnqPublish d pos)]"
| "thread_step r (EnqPublish d pos) = [(set_seq r pos (pos + 1), EnqDone True)]"
| "thread_step r (EnqDone b) = []"
| "thread_step r DeqLoadPos = [(r, DeqLoadSeq (dequeue_pos r))]"
| "thread_step r (DeqLoadSeq pos) =
     (let diff = int (seq_at r pos) - int (pos + 1)
      in [(r, if diff = 0 then DeqCas pos else if diff < 0 then DeqDone None else DeqLoadPos)])"
| "thread_step r (DeqCas pos) =
     (if dequeue_pos r = pos then [(r\<lparr>dequeue_pos := pos + 1\<rparr>, DeqRead pos)] else []) @
     [(r, DeqLoadSeq (dequeue_pos r))]"
| "thread_step r (DeqRead pos) = [(r, DeqFree pos (data_at r pos))]"
| "thread_step r (DeqFree pos d) = [(set_seq r pos (pos + length (cells r)), DeqDone (Some d))]"
| "thread_step r (DeqDone v) = []"

section \<open>Threads\<close>

text \<open>What a step means for a client. \<open>Pop\<close> is the claim of the head of the queue by a consumer,
  \<open>Return\<close> the end of its call with the value it read.\<close>

datatype 'a qlabel = Tau | Push 'a | Publish 'a | Pop 'a | Return 'a | Empty | Full

text \<open>\<open>claims\<close> records the elements in the order in which producers claimed positions; no step looks
  at it.\<close>

record 'a qstate =
  ring :: "'a ring"
  threads :: "'a qpc list"
  claims :: "'a list"

definition label_of :: "'a list \<Rightarrow> 'a qpc \<Rightarrow> 'a qpc \<Rightarrow> 'a qlabel" where
  "label_of cl p p' =
     (case p of
        EnqCas d pos \<Rightarrow> (case p' of EnqWrite _ _ \<Rightarrow> Push d | _ \<Rightarrow> Tau)
      | EnqPublish d pos \<Rightarrow> Publish d
      | EnqLoadSeq d pos \<Rightarrow> (case p' of EnqDone _ \<Rightarrow> Full | _ \<Rightarrow> Tau)
      | DeqCas pos \<Rightarrow> (case p' of DeqRead _ \<Rightarrow> Pop (cl ! pos) | _ \<Rightarrow> Tau)
      | DeqFree pos d \<Rightarrow> Return d
      | DeqLoadSeq pos \<Rightarrow> (case p' of DeqDone _ \<Rightarrow> Empty | _ \<Rightarrow> Tau)
      | _ \<Rightarrow> Tau)"

fun claimed :: "'a qlabel \<Rightarrow> 'a list" where
  "claimed (Push d) = [d]"
| "claimed l = []"

definition resting :: "'a qpc \<Rightarrow> bool" where
  "resting p \<longleftrightarrow> (case p of Idle \<Rightarrow> True | EnqDone b \<Rightarrow> True | DeqDone v \<Rightarrow> True | _ \<Rightarrow> False)"

inductive queue_step :: "'a qstate \<Rightarrow> 'a qlabel \<Rightarrow> 'a qstate \<Rightarrow> bool" where
  op: "t < length (threads s) \<Longrightarrow> (r, p) \<in> set (thread_step (ring s) (threads s ! t)) \<Longrightarrow>
    l = label_of (claims s) (threads s ! t) p \<Longrightarrow>
    queue_step s l \<lparr>ring = r, threads = (threads s)[t := p], claims = claims s @ claimed l\<rparr>"
| call: "t < length (threads s) \<Longrightarrow> resting (threads s ! t) \<Longrightarrow> p \<in> {EnqLoadPos d, DeqLoadPos} \<Longrightarrow>
    queue_step s Tau (s\<lparr>threads := (threads s)[t := p]\<rparr>)"

definition new_queue :: "'a \<Rightarrow> nat \<Rightarrow> nat \<Rightarrow> 'a qstate" where
  "new_queue dflt capacity n = \<lparr>ring = new_ring dflt capacity, threads = replicate n Idle, claims = []\<rparr>"

section \<open>The abstract queue\<close>

record 'a fifo =
  fifo_items :: "('a \<times> bool) list"
  fifo_taken :: "'a multiset"
  fifo_pushed :: nat

definition new_fifo :: "'a fifo" where
  "new_fifo = \<lparr>fifo_items = [], fifo_taken = {#}, fifo_pushed = 0\<rparr>"

fun fifo_step :: "nat \<Rightarrow> 'a fifo \<Rightarrow> 'a qlabel \<Rightarrow> 'a fifo \<Rightarrow> bool" where
  "fifo_step cap f Tau f' \<longleftrightarrow> f' = f"
| "fifo_step cap f (Push d) f' \<longleftrightarrow>
     f' = f\<lparr>fifo_items := fifo_items f @ [(d, False)], fifo_pushed := fifo_pushed f + 1\<rparr>"
| "fifo_step cap f (Publish d) f' \<longleftrightarrow>
     (\<exists>i < length (fifo_items f). fifo_items f ! i = (d, False) \<and> f' = f\<lparr>fifo_items := (fifo_items f)[i := (d, True)]\<rparr>)"
| "fifo_step cap f (Pop d) f' \<longleftrightarrow>
     (\<exists>q. fifo_items f = (d, True) # q \<and> f' = f\<lparr>fifo_items := q, fifo_taken := add_mset d (fifo_taken f)\<rparr>)"
| "fifo_step cap f (Return d) f' \<longleftrightarrow> (\<exists>T. fifo_taken f = add_mset d T \<and> f' = f\<lparr>fifo_taken := T\<rparr>)"
| "fifo_step cap f Empty f' \<longleftrightarrow> f' = f \<and> (fifo_items f = [] \<or> \<not> snd (hd (fifo_items f)))"
| "fifo_step cap f Full f' \<longleftrightarrow> f' = f \<and> cap \<le> fifo_pushed f"

fun pushes :: "'a qlabel list \<Rightarrow> 'a list" where
  "pushes [] = []"
| "pushes (Push d # ls) = d # pushes ls"
| "pushes (l # ls) = pushes ls"

fun pops :: "'a qlabel list \<Rightarrow> 'a list" where
  "pops [] = []"
| "pops (Pop d # ls) = d # pops ls"
| "pops (l # ls) = pops ls"

fun returned :: "'a qlabel list \<Rightarrow> 'a list" where
  "returned [] = []"
| "returned (Return d # ls) = d # returned ls"
| "returned (l # ls) = returned ls"

lemma labels_append [simp]:
  "pushes (xs @ ys) = pushes xs @ pushes ys" "pops (xs @ ys) = pops xs @ pops ys"
  "returned (xs @ ys) = returned xs @ returned ys"
proof -
  show "pushes (xs @ ys) = pushes xs @ pushes ys" by (induction xs rule: pushes.induct) simp_all
  show "pops (xs @ ys) = pops xs @ pops ys" by (induction xs rule: pops.induct) simp_all
  show "returned (xs @ ys) = returned xs @ returned ys" by (induction xs rule: returned.induct) simp_all
qed

text \<open>First in, first out: what was popped, followed by what is in the queue, is what was pushed.\<close>

lemma map_fst_mark: "i < length q \<Longrightarrow> fst (q ! i) = d \<Longrightarrow> map fst (q[i := (d, c)]) = map fst q"
  by (simp add: map_update list_update_same_conv)

lemma fifo_order:
  assumes "runs (fifo_step cap) new_fifo ls f"
  shows "pushes ls = pops ls @ map fst (fifo_items f) \<and> mset (pops ls) = mset (returned ls) + fifo_taken f \<and>
    fifo_pushed f = length (pushes ls) \<and> (Full \<in> set ls \<longrightarrow> cap \<le> fifo_pushed f)"
  using assms
proof (induction "new_fifo :: 'a fifo" ls f rule: runs.induct)
  case stop
  show ?case by (simp add: new_fifo_def)
next
  case (more ls f l f')
  then show ?case by (cases l) (auto simp: map_fst_mark)
qed

section \<open>The ring\<close>

lemma mod_gap: "p mod N = q mod N \<Longrightarrow> p < q \<Longrightarrow> p + N \<le> (q::nat)"
  by (metis dvd_imp_le le_add_diff_inverse less_imp_le_nat mod_eq_dvd_iff_nat nat_add_left_cancel_le zero_less_diff)

definition ring_len :: "'a ring \<Rightarrow> bool" where
  "ring_len r \<longleftrightarrow> (\<exists>b. length (cells r) = 2 ^ b) \<and> 2 \<le> length (cells r)"

lemma slot_of_mod: "ring_len r \<Longrightarrow> slot_of r pos = pos mod length (cells r)"
  unfolding ring_len_def slot_of_def by (metis nat_and_mask)

lemma slot_of_less: "ring_len r \<Longrightarrow> slot_of r pos < length (cells r)"
  by (auto simp: slot_of_mod) (auto simp: ring_len_def)

lemma ring_accesses [simp]:
  "cells (r\<lparr>enqueue_pos := x\<rparr>) = cells r" "cells (r\<lparr>dequeue_pos := x\<rparr>) = cells r"
  "seq_at (r\<lparr>enqueue_pos := x\<rparr>) p = seq_at r p" "seq_at (r\<lparr>dequeue_pos := x\<rparr>) p = seq_at r p"
  "data_at (r\<lparr>enqueue_pos := x\<rparr>) p = data_at r p" "data_at (r\<lparr>dequeue_pos := x\<rparr>) p = data_at r p"
  "length (cells (set_seq r p n)) = length (cells r)" "length (cells (set_data r p d)) = length (cells r)"
  "enqueue_pos (set_seq r p n) = enqueue_pos r" "enqueue_pos (set_data r p d) = enqueue_pos r"
  "dequeue_pos (set_seq r p n) = dequeue_pos r" "dequeue_pos (set_data r p d) = dequeue_pos r"
  by (simp_all add: seq_at_def data_at_def slot_of_def set_seq_def set_data_def)

lemma ring_len_kept [simp]:
  "ring_len (r\<lparr>enqueue_pos := x\<rparr>) = ring_len r" "ring_len (r\<lparr>dequeue_pos := x\<rparr>) = ring_len r"
  "ring_len (set_seq r p n) = ring_len r" "ring_len (set_data r p d) = ring_len r"
  by (simp_all add: ring_len_def)

definition same_slot :: "'a ring \<Rightarrow> nat \<Rightarrow> nat \<Rightarrow> bool" where
  "same_slot r p q \<longleftrightarrow> p mod length (cells r) = q mod length (cells r)"

lemma ring_updates:
  assumes "ring_len r"
  shows "seq_at (set_seq r p n) q = (if same_slot r p q then n else seq_at r q)"
    and "data_at (set_seq r p n) q = data_at r q"
    and "seq_at (set_data r p d) q = seq_at r q"
    and "data_at (set_data r p d) q = (if same_slot r p q then d else data_at r q)"
  using assms slot_of_less [OF assms, of p] slot_of_less [OF assms, of q]
  by (simp_all add: seq_at_def data_at_def set_seq_def set_data_def slot_of_mod same_slot_def nth_list_update ring_len_def)

lemma same_slot_kept [simp]:
  "same_slot (r\<lparr>enqueue_pos := x\<rparr>) = same_slot r" "same_slot (r\<lparr>dequeue_pos := x\<rparr>) = same_slot r"
  "same_slot (set_seq r p n) = same_slot r" "same_slot (set_data r p d) = same_slot r"
  by (simp_all add: same_slot_def fun_eq_iff)

text \<open>The invariant of the ring: every cell belongs to one position, which it is free for, or
  whose element it holds.\<close>

definition ring_ok :: "'a ring \<Rightarrow> 'a list \<Rightarrow> bool" where
  "ring_ok r cl \<longleftrightarrow> ring_len r \<and> enqueue_pos r = length cl \<and>
     dequeue_pos r \<le> enqueue_pos r \<and> enqueue_pos r \<le> dequeue_pos r + length (cells r) \<and>
     (\<forall>q < dequeue_pos r. q < seq_at r q) \<and>
     (\<forall>q. \<exists>p. same_slot r p q \<and> p < dequeue_pos r + length (cells r) \<and>
        (seq_at r q = p \<or> seq_at r q = p + 1 \<and> p < enqueue_pos r \<and> data_at r q = cl ! p))"

lemma same_slot_gap: "same_slot r p q \<Longrightarrow> p < q \<Longrightarrow> p + length (cells r) \<le> q"
  by (simp add: same_slot_def mod_gap)

lemma same_slot_sym: "same_slot r p q \<Longrightarrow> same_slot r q p"
  by (simp add: same_slot_def)

lemma same_slot_trans: "same_slot r p q \<Longrightarrow> same_slot r q s \<Longrightarrow> same_slot r p s"
  by (simp add: same_slot_def)

lemma same_slot_refl [simp]: "same_slot r p p"
  by (simp add: same_slot_def)

lemma same_slot_cong: "ring_len r \<Longrightarrow> same_slot r p q \<Longrightarrow> seq_at r p = seq_at r q \<and> data_at r p = data_at r q"
  by (simp add: seq_at_def data_at_def same_slot_def slot_of_mod)

text \<open>Positions with the same slot and almost the same number are equal.\<close>

lemma same_slot_near:
  assumes "ring_len r" "same_slot r p q" "p \<le> q + 1" "q \<le> p + 1"
  shows "p = q"
proof -
  have "2 \<le> length (cells r)" using assms(1) by (simp add: ring_len_def)
  then show ?thesis
    using same_slot_gap [OF assms(2)] same_slot_gap [OF same_slot_sym [OF assms(2)]] assms(3,4)
    by (cases p q rule: linorder_cases) auto
qed

lemma ring_okD:
  assumes "ring_ok r cl"
  shows "ring_len r" "enqueue_pos r = length cl" "dequeue_pos r \<le> enqueue_pos r"
    "enqueue_pos r \<le> dequeue_pos r + length (cells r)" "q < dequeue_pos r \<Longrightarrow> q < seq_at r q"
    "2 \<le> length (cells r)"
  using assms by (auto simp: ring_ok_def ring_len_def)

lemma ring_ok_cell:
  assumes "ring_ok r cl"
  obtains p where "same_slot r p q" "p < dequeue_pos r + length (cells r)"
    "seq_at r q = p \<or> seq_at r q = p + 1 \<and> p < enqueue_pos r \<and> data_at r q = cl ! p"
  using assms unfolding ring_ok_def by blast

text \<open>A position that is free for the next producer, and one that is full for the next consumer.\<close>

lemma free_cell:
  assumes "ring_ok r cl" "enqueue_pos r \<le> seq_at r (enqueue_pos r)"
  shows "seq_at r (enqueue_pos r) = enqueue_pos r" "enqueue_pos r < dequeue_pos r + length (cells r)"
proof -
  let ?e = "enqueue_pos r"
  obtain p where p: "same_slot r p ?e" "p < dequeue_pos r + length (cells r)"
      "seq_at r ?e = p \<or> seq_at r ?e = p + 1 \<and> p < ?e"
    using ring_ok_cell [OF assms(1), of ?e] by blast
  have "p \<le> ?e"
    using same_slot_gap [OF same_slot_sym [OF p(1)]] p(2) ring_okD(3) [OF assms(1)] by linarith
  with p(3) assms(2) have "p = ?e"
    using same_slot_near [OF ring_okD(1) [OF assms(1)] p(1)] by linarith
  with p show "seq_at r ?e = ?e" "?e < dequeue_pos r + length (cells r)" by auto
qed

lemma full_cell:
  assumes "ring_ok r cl" "q \<le> dequeue_pos r" "q < seq_at r q" "q = dequeue_pos r \<or> seq_at r q = q + 1"
  shows "seq_at r q = q + 1" "q < enqueue_pos r" "data_at r q = cl ! q"
proof -
  obtain p where p: "same_slot r p q" "p < dequeue_pos r + length (cells r)"
      "seq_at r q = p \<or> seq_at r q = p + 1 \<and> p < enqueue_pos r \<and> data_at r q = cl ! p"
    using ring_ok_cell [OF assms(1)] by blast
  have "p \<le> q + 1"
    using same_slot_gap [OF same_slot_sym [OF p(1)]] p(2,3) assms(4) by linarith
  with p(3) assms(3) have "p = q"
    using same_slot_near [OF ring_okD(1) [OF assms(1)] p(1)] by linarith
  with p assms(3) show "seq_at r q = q + 1" "q < enqueue_pos r" "data_at r q = cl ! q" by auto
qed

section \<open>Every step keeps the ring\<close>

lemma ring_ok_claim:
  assumes "ring_ok r cl" "enqueue_pos r \<le> seq_at r (enqueue_pos r)"
  shows "ring_ok (r\<lparr>enqueue_pos := enqueue_pos r + 1\<rparr>) (cl @ [d])"
proof -
  have "\<exists>p. same_slot r p q \<and> p < dequeue_pos r + length (cells r) \<and>
      (seq_at r q = p \<or> seq_at r q = p + 1 \<and> p < enqueue_pos r + 1 \<and> data_at r q = (cl @ [d]) ! p)" for q
  proof -
    obtain p where "same_slot r p q" "p < dequeue_pos r + length (cells r)"
        "seq_at r q = p \<or> seq_at r q = p + 1 \<and> p < enqueue_pos r \<and> data_at r q = cl ! p"
      using ring_ok_cell [OF assms(1)] by blast
    then show ?thesis using ring_okD(2) [OF assms(1)] by (auto simp: nth_append intro!: exI [of _ p])
  qed
  with assms(1) free_cell(2) [OF assms] show ?thesis by (simp add: ring_ok_def)
qed

lemma ring_ok_take:
  assumes "ring_ok r cl" "dequeue_pos r < seq_at r (dequeue_pos r)"
  shows "ring_ok (r\<lparr>dequeue_pos := dequeue_pos r + 1\<rparr>) cl"
proof -
  have "\<exists>p. same_slot r p q \<and> p < dequeue_pos r + 1 + length (cells r) \<and>
      (seq_at r q = p \<or> seq_at r q = p + 1 \<and> p < enqueue_pos r \<and> data_at r q = cl ! p)" for q
  proof -
    obtain p where "same_slot r p q" "p < dequeue_pos r + length (cells r)"
        "seq_at r q = p \<or> seq_at r q = p + 1 \<and> p < enqueue_pos r \<and> data_at r q = cl ! p"
      using ring_ok_cell [OF assms(1)] by blast
    then show ?thesis by (auto intro!: exI [of _ p])
  qed
  with assms full_cell(2) [OF assms(1) order_refl assms(2)] show ?thesis
    by (simp add: ring_ok_def less_Suc_eq)
qed

lemma ring_ok_write:
  assumes "ring_ok r cl" "seq_at r pos = pos"
  shows "ring_ok (set_data r pos d) cl"
proof -
  note len = ring_okD(1) [OF assms(1)]
  have "\<exists>p. same_slot r p q \<and> p < dequeue_pos r + length (cells r) \<and>
      (seq_at r q = p \<or> seq_at r q = p + 1 \<and> p < enqueue_pos r \<and> data_at (set_data r pos d) q = cl ! p)" for q
  proof (cases "same_slot r pos q")
    case True
    obtain p where p: "same_slot r p q" "p < dequeue_pos r + length (cells r)" "seq_at r q = p \<or> seq_at r q = p + 1"
      using ring_ok_cell [OF assms(1)] by blast
    moreover have "p = pos"
      using same_slot_near [OF len same_slot_trans [OF p(1) same_slot_sym [OF True]]] p(3)
        same_slot_cong [OF len True] assms(2) by auto
    ultimately show ?thesis using same_slot_cong [OF len True] assms(2) by auto
  next
    case False
    then show ?thesis using ring_ok_cell [OF assms(1), of q] by (simp add: ring_updates [OF len]) blast
  qed
  with assms(1) show ?thesis by (simp add: ring_ok_def ring_updates)
qed

lemma ring_ok_set_seq:
  assumes "ring_ok r cl" "seq_at r pos \<le> n" "same_slot r p pos" "p < dequeue_pos r + length (cells r)"
    and "n = p \<or> n = p + 1 \<and> p < enqueue_pos r \<and> data_at r pos = cl ! p"
  shows "ring_ok (set_seq r pos n) cl"
proof -
  note len = ring_okD(1) [OF assms(1)]
  have "\<exists>p. same_slot r p q \<and> p < dequeue_pos r + length (cells r) \<and>
      (seq_at (set_seq r pos n) q = p \<or>
       seq_at (set_seq r pos n) q = p + 1 \<and> p < enqueue_pos r \<and> data_at r q = cl ! p)" for q
  proof (cases "same_slot r pos q")
    case True
    then show ?thesis using assms(3-5) same_slot_trans [OF assms(3) True] same_slot_cong [OF len True]
      by (auto simp: ring_updates [OF len])
  next
    case False
    then show ?thesis using ring_ok_cell [OF assms(1), of q] by (simp add: ring_updates [OF len]) blast
  qed
  moreover have "q < seq_at (set_seq r pos n) q" if "q < dequeue_pos r" for q
    using ring_okD(5) [OF assms(1) that] assms(2) same_slot_cong [OF len, of pos q]
    by (auto simp: ring_updates [OF len])
  ultimately show ?thesis using assms(1) by (simp add: ring_ok_def ring_updates)
qed

lemma ring_ok_publish:
  assumes "ring_ok r cl" "seq_at r pos = pos" "pos < enqueue_pos r" "data_at r pos = cl ! pos"
  shows "ring_ok (set_seq r pos (pos + 1)) cl"
proof -
  obtain p where p: "same_slot r p pos" "p < dequeue_pos r + length (cells r)" "seq_at r pos = p \<or> seq_at r pos = p + 1"
    using ring_ok_cell [OF assms(1)] by blast
  moreover have "p = pos"
    using same_slot_near [OF ring_okD(1) [OF assms(1)] p(1)] p(3) assms(2) by auto
  ultimately show ?thesis using ring_ok_set_seq [OF assms(1) _ p(1,2)] assms(2-4) by simp
qed

lemma ring_ok_free:
  assumes "ring_ok r cl" "seq_at r pos = pos + 1" "pos < dequeue_pos r"
  shows "ring_ok (set_seq r pos (pos + length (cells r))) cl"
  by (rule ring_ok_set_seq [OF assms(1), of _ _ "pos + length (cells r)"])
    (use assms ring_okD(6) [OF assms(1)] in \<open>simp_all add: same_slot_def\<close>)

section \<open>Threads\<close>

text \<open>What a thread knows of the ring at each point of its call.\<close>

fun thread_ok :: "'a ring \<Rightarrow> 'a list \<Rightarrow> 'a qpc \<Rightarrow> bool" where
  "thread_ok r cl (EnqLoadSeq d pos) \<longleftrightarrow> pos \<le> enqueue_pos r"
| "thread_ok r cl (EnqCas d pos) \<longleftrightarrow> pos \<le> enqueue_pos r \<and> pos \<le> seq_at r pos"
| "thread_ok r cl (EnqWrite d pos) \<longleftrightarrow> pos < enqueue_pos r \<and> cl ! pos = d \<and> seq_at r pos = pos"
| "thread_ok r cl (EnqPublish d pos) \<longleftrightarrow>
     pos < enqueue_pos r \<and> cl ! pos = d \<and> seq_at r pos = pos \<and> data_at r pos = d"
| "thread_ok r cl (DeqLoadSeq pos) \<longleftrightarrow> pos \<le> dequeue_pos r"
| "thread_ok r cl (DeqCas pos) \<longleftrightarrow> pos \<le> dequeue_pos r \<and> pos < seq_at r pos"
| "thread_ok r cl (DeqRead pos) \<longleftrightarrow> pos < dequeue_pos r \<and> seq_at r pos = pos + 1"
| "thread_ok r cl (DeqFree pos d) \<longleftrightarrow> pos < dequeue_pos r \<and> seq_at r pos = pos + 1 \<and> cl ! pos = d"
| "thread_ok r cl _ \<longleftrightarrow> True"

text \<open>The cell a thread works on alone.\<close>

fun held :: "'a qpc \<Rightarrow> (nat + nat) option" where
  "held (EnqWrite d pos) = Some (Inl pos)"
| "held (EnqPublish d pos) = Some (Inl pos)"
| "held (DeqRead pos) = Some (Inr pos)"
| "held (DeqFree pos d) = Some (Inr pos)"
| "held _ = None"

lemma thread_ok_claim:
  assumes "ring_ok r cl" "thread_ok r cl p"
  shows "thread_ok (r\<lparr>enqueue_pos := enqueue_pos r + 1\<rparr>) (cl @ [d]) p"
  using assms(2) ring_okD(2,3) [OF assms(1)] by (cases p) (simp_all add: nth_append)

lemma thread_ok_take:
  assumes "thread_ok r cl p"
  shows "thread_ok (r\<lparr>dequeue_pos := dequeue_pos r + 1\<rparr>) cl p"
  using assms by (cases p) simp_all

lemma thread_ok_write:
  assumes "ring_len r" "thread_ok r cl p" "seq_at r pos = pos" "held p \<noteq> Some (Inl pos)"
  shows "thread_ok (set_data r pos d) cl p"
  using assms(2-4) same_slot_cong [OF assms(1), of pos] by (cases p) (auto simp: ring_updates [OF assms(1)])

lemma thread_ok_publish:
  assumes "ring_len r" "thread_ok r cl p" "seq_at r pos = pos" "held p \<noteq> Some (Inl pos)"
  shows "thread_ok (set_seq r pos (pos + 1)) cl p"
  using assms(2-4) same_slot_cong [OF assms(1), of pos] same_slot_near [OF assms(1), of pos]
  by (cases p) (fastforce simp: ring_updates [OF assms(1)])+

lemma thread_ok_free:
  assumes "ring_len r" "thread_ok r cl p" "seq_at r pos = pos + 1" "held p \<noteq> Some (Inr pos)"
  shows "thread_ok (set_seq r pos (pos + length (cells r))) cl p"
proof -
  have "2 \<le> length (cells r)" using assms(1) by (simp add: ring_len_def)
  then show ?thesis
    using assms(2-4) same_slot_cong [OF assms(1), of pos] same_slot_near [OF assms(1), of pos]
    by (cases p) (fastforce simp: ring_updates [OF assms(1)])+
qed

definition good_queue :: "'a qstate \<Rightarrow> bool" where
  "good_queue s \<longleftrightarrow>
     ring_ok (ring s) (claims s) \<and>
     (\<forall>t < length (threads s). thread_ok (ring s) (claims s) (threads s ! t)) \<and>
     (\<forall>t < length (threads s). \<forall>u < length (threads s).
        t \<noteq> u \<longrightarrow> held (threads s ! t) \<noteq> None \<longrightarrow> held (threads s ! t) \<noteq> held (threads s ! u))"

lemma good_queueD:
  assumes "good_queue s"
  shows "ring_ok (ring s) (claims s)"
    "t < length (threads s) \<Longrightarrow> thread_ok (ring s) (claims s) (threads s ! t)"
    "t < length (threads s) \<Longrightarrow> u < length (threads s) \<Longrightarrow> u \<noteq> t \<Longrightarrow> held (threads s ! t) = Some h \<Longrightarrow>
      held (threads s ! u) \<noteq> Some h"
  using assms unfolding good_queue_def by (blast, blast, metis option.distinct(1))

text \<open>A step of one thread that leaves what the others know.\<close>

lemma good_queue_update:
  assumes "good_queue s" "t < length (threads s)" "ring_ok r cl" "thread_ok r cl p"
    and "\<And>u. u < length (threads s) \<Longrightarrow> u \<noteq> t \<Longrightarrow>
      thread_ok r cl (threads s ! u) \<and> (held p \<noteq> None \<longrightarrow> held (threads s ! u) \<noteq> held p)"
  shows "good_queue \<lparr>ring = r, threads = (threads s)[t := p], claims = cl\<rparr>"
  using assms unfolding good_queue_def by (simp add: nth_list_update) (metis)

lemma good_queue_same_ring:
  assumes "good_queue s" "t < length (threads s)" "thread_ok (ring s) (claims s) p" "held p = None"
  shows "good_queue \<lparr>ring = ring s, threads = (threads s)[t := p], claims = claims s\<rparr>"
  by (rule good_queue_update) (use assms good_queueD in auto)

lemma thread_held_bound:
  assumes "thread_ok r cl p"
  shows "held p \<noteq> Some (Inl (enqueue_pos r))" "held p \<noteq> Some (Inr (dequeue_pos r))"
  using assms by (cases p; simp)+

lemma good_queue_step:
  assumes "good_queue s" "queue_step s l s'"
  shows "good_queue s'"
  using assms(2)
proof cases
  case (op t r p)
  note ok = good_queueD [OF assms(1)]
  note good = ok(1) and mine = ok(2) [OF op(2)] and others = ok(2) and alone = ok(3) [OF op(2)]
  note len = ring_okD(1) [OF good]
  let ?s = "\<lparr>ring = r, threads = (threads s)[t := p], claims = claims s @ claimed l\<rparr>"
  have stay: "good_queue ?s" if "r = ring s" "thread_ok (ring s) (claims s) p" "held p = None" "claimed l = []"
    using good_queue_same_ring [OF assms(1) op(2) that(2,3)] that(1,4) by simp
  have "good_queue ?s"
  proof (cases "threads s ! t")
    case (EnqCas d pos)
    show ?thesis
    proof (cases "p = EnqWrite d pos")
      case True
      with EnqCas op(3) have r: "enqueue_pos (ring s) = pos" "r = (ring s)\<lparr>enqueue_pos := pos + 1\<rparr>"
        by (auto split: if_splits)
      have l: "claimed l = [d]" using op(4) EnqCas True by (simp add: label_of_def)
      have pos: "seq_at (ring s) pos = pos" "pos = length (claims s)"
        using free_cell(1) [OF good] ring_okD(2) [OF good] mine EnqCas r(1) by auto
      show ?thesis
        by (rule good_queue_update [OF assms(1) op(2)])
          (use ring_ok_claim [OF good] thread_ok_claim [OF good others] thread_held_bound(1) [OF others]
            mine EnqCas True r l pos in \<open>auto simp: nth_append\<close>)
    next
      case False
      with EnqCas op(3,4) stay show ?thesis by (auto simp: label_of_def split: if_splits)
    qed
  next
    case (EnqWrite d pos)
    with op(3,4) have r: "r = set_data (ring s) pos d" "p = EnqPublish d pos" "claimed l = []"
      by (auto simp: label_of_def)
    show ?thesis
      by (rule good_queue_update [OF assms(1) op(2)])
        (use ring_ok_write [OF good] thread_ok_write [OF len others] alone mine EnqWrite r
          in \<open>auto simp: ring_updates [OF len]\<close>)
  next
    case (EnqPublish d pos)
    with op(3,4) have r: "r = set_seq (ring s) pos (pos + 1)" "p = EnqDone True" "claimed l = []"
      by (auto simp: label_of_def)
    show ?thesis
      by (rule good_queue_update [OF assms(1) op(2)])
        (use ring_ok_publish [OF good] thread_ok_publish [OF len others] alone mine EnqPublish r in auto)
  next
    case (DeqCas pos)
    show ?thesis
    proof (cases "p = DeqRead pos")
      case True
      with DeqCas op(3) have r: "dequeue_pos (ring s) = pos" "r = (ring s)\<lparr>dequeue_pos := pos + 1\<rparr>"
        by (auto split: if_splits)
      have l: "claimed l = []" using op(4) DeqCas True by (simp add: label_of_def)
      show ?thesis
        by (rule good_queue_update [OF assms(1) op(2)])
          (use ring_ok_take [OF good] thread_ok_take [OF others] thread_held_bound(2) [OF others]
            full_cell(1) [OF good order_refl] mine DeqCas True r l in auto)
    next
      case False
      with DeqCas op(3,4) stay show ?thesis by (auto simp: label_of_def split: if_splits)
    qed
  next
    case (DeqRead pos)
    with op(3,4) have r: "r = ring s" "p = DeqFree pos (data_at (ring s) pos)" "claimed l = []"
      by (auto simp: label_of_def)
    show ?thesis
      by (rule good_queue_update [OF assms(1) op(2)])
        (use good full_cell(3) [OF good, of pos] others alone mine DeqRead r in auto)
  next
    case (DeqFree pos d)
    with op(3,4) have r: "r = set_seq (ring s) pos (pos + length (cells (ring s)))" "p = DeqDone (Some d)" "claimed l = []"
      by (auto simp: label_of_def)
    show ?thesis
      by (rule good_queue_update [OF assms(1) op(2)])
        (use ring_ok_free [OF good] thread_ok_free [OF len others] alone mine DeqFree r in auto)
  qed (use op(3,4) mine ring_okD(2) [OF good] stay in \<open>auto simp: label_of_def Let_def split: if_splits\<close>)
  with op(1) show ?thesis by simp
next
  case (call t p d)
  have "good_queue \<lparr>ring = ring s, threads = (threads s)[t := p], claims = claims s\<rparr>"
    by (rule good_queue_same_ring [OF assms(1) call(3)]) (use call in auto)
  with call show ?thesis by (cases s) simp
qed

section \<open>The ring implements the abstract queue\<close>

definition item_at :: "'a ring \<Rightarrow> 'a list \<Rightarrow> nat \<Rightarrow> 'a \<times> bool" where
  "item_at r cl p = (cl ! p, seq_at r p = p + 1)"

definition ring_items :: "'a ring \<Rightarrow> 'a list \<Rightarrow> ('a \<times> bool) list" where
  "ring_items r cl = map (item_at r cl) [dequeue_pos r ..< enqueue_pos r]"

fun taken_by :: "'a list \<Rightarrow> 'a qpc \<Rightarrow> 'a multiset" where
  "taken_by cl (DeqRead pos) = {#cl ! pos#}"
| "taken_by cl (DeqFree pos d) = {#d#}"
| "taken_by cl _ = {#}"

definition taken :: "'a list \<Rightarrow> 'a qpc list \<Rightarrow> 'a multiset" where
  "taken cl ths = sum_list (map (taken_by cl) ths)"

definition abs_queue :: "'a qstate \<Rightarrow> 'a fifo" where
  "abs_queue s = \<lparr>fifo_items = ring_items (ring s) (claims s), fifo_taken = taken (claims s) (threads s),
     fifo_pushed = length (claims s)\<rparr>"

lemma taken_update:
  assumes "t < length ths"
  obtains M where "taken cl ths = taken_by cl (ths ! t) + M" "\<And>p. taken cl (ths[t := p]) = taken_by cl p + M"
proof
  let ?M = "taken cl (take t ths) + taken cl (drop (Suc t) ths)"
  show "taken cl ths = taken_by cl (ths ! t) + ?M"
    by (subst (1) id_take_nth_drop [OF assms]) (simp add: taken_def)
  show "taken cl (ths[t := p]) = taken_by cl p + ?M" for p
    using assms by (simp add: taken_def upd_conv_take_nth_drop)
qed

lemma taken_grow:
  assumes "\<And>pos. DeqRead pos \<in> set ths \<Longrightarrow> pos < length cl"
  shows "taken (cl @ xs) ths = taken cl ths"
proof -
  have "taken_by (cl @ xs) p = taken_by cl p" if "p \<in> set ths" for p
    using assms that by (cases p) (simp_all add: nth_append)
  then show ?thesis unfolding taken_def by (simp cong: map_cong)
qed

lemma length_ring_items [simp]: "length (ring_items r cl) = enqueue_pos r - dequeue_pos r"
  by (simp add: ring_items_def)

lemma ring_items_claim:
  assumes "ring_ok r cl" "enqueue_pos r \<le> seq_at r (enqueue_pos r)"
  shows "ring_items (r\<lparr>enqueue_pos := enqueue_pos r + 1\<rparr>) (cl @ [d]) = ring_items r cl @ [(d, False)]"
  using ring_okD(2,3) [OF assms(1)] free_cell(1) [OF assms]
  by (simp add: ring_items_def item_at_def nth_append)

lemma ring_items_take:
  assumes "ring_ok r cl" "dequeue_pos r < seq_at r (dequeue_pos r)"
  shows "ring_items r cl = (cl ! dequeue_pos r, True) # ring_items (r\<lparr>dequeue_pos := dequeue_pos r + 1\<rparr>) cl"
  using full_cell(1,2) [OF assms(1) order_refl assms(2)]
  by (simp add: ring_items_def item_at_def upt_conv_Cons)

lemma ring_items_write: "ring_len r \<Longrightarrow> ring_items (set_data r pos d) cl = ring_items r cl"
  by (simp add: ring_items_def item_at_def ring_updates)

lemma ring_items_publish:
  assumes "ring_ok r cl" "seq_at r pos = pos" "pos < enqueue_pos r"
  shows "dequeue_pos r \<le> pos" "ring_items r cl ! (pos - dequeue_pos r) = (cl ! pos, False)"
    "ring_items (set_seq r pos (pos + 1)) cl = (ring_items r cl)[pos - dequeue_pos r := (cl ! pos, True)]"
proof -
  note len = ring_okD(1) [OF assms(1)]
  show le: "dequeue_pos r \<le> pos" using ring_okD(5) [OF assms(1), of pos] assms(2) by linarith
  then show "ring_items r cl ! (pos - dequeue_pos r) = (cl ! pos, False)"
    using assms(2,3) by (simp add: ring_items_def item_at_def)
  have other: "\<not> same_slot r pos q" if "dequeue_pos r \<le> q" "q < enqueue_pos r" "q \<noteq> pos" for q
    using same_slot_gap [of r pos q] same_slot_gap [of r q pos] same_slot_sym [of r pos q]
      ring_okD(4) [OF assms(1)] that le assms(3) by linarith
  show "ring_items (set_seq r pos (pos + 1)) cl = (ring_items r cl)[pos - dequeue_pos r := (cl ! pos, True)]"
  proof (rule nth_equalityI)
    fix i assume "i < length (ring_items (set_seq r pos (pos + 1)) cl)"
    then have i: "i < enqueue_pos r - dequeue_pos r" by simp
    show "ring_items (set_seq r pos (pos + 1)) cl ! i = (ring_items r cl)[pos - dequeue_pos r := (cl ! pos, True)] ! i"
    proof (cases "dequeue_pos r + i = pos")
      case True
      with i show ?thesis by (auto simp: ring_items_def item_at_def ring_updates [OF len])
    next
      case False
      with i other [of "dequeue_pos r + i"] le show ?thesis
        by (auto simp: ring_items_def item_at_def ring_updates [OF len] nth_list_update)
    qed
  qed simp
qed

lemma ring_items_free:
  assumes "ring_ok r cl" "seq_at r pos = pos + 1" "pos < dequeue_pos r"
  shows "ring_items (set_seq r pos (pos + length (cells r))) cl = ring_items r cl"
proof -
  note len = ring_okD(1) [OF assms(1)]
  have "item_at (set_seq r pos (pos + length (cells r))) cl q = item_at r cl q" if "dequeue_pos r \<le> q" for q
  proof (cases "same_slot r pos q")
    case True
    have "pos + length (cells r) \<noteq> q + 1"
      using same_slot_gap [OF True] that assms(3) by linarith
    with True same_slot_cong [OF len True] assms(2,3) that show ?thesis
      by (simp add: item_at_def ring_updates [OF len])
  qed (simp add: item_at_def ring_updates [OF len])
  then show ?thesis by (simp add: ring_items_def)
qed

lemma queue_step_simulates:
  assumes "good_queue s" "queue_step s l s'"
  shows "fifo_step (length (cells (ring s))) (abs_queue s) l (abs_queue s')"
  using assms(2)
proof cases
  case (op t r p)
  note ok = good_queueD [OF assms(1)]
  note good = ok(1) and mine = ok(2) [OF op(2)]
  note len = ring_okD(1) [OF good] and enq = ring_okD(2) [OF good]
  obtain M where M: "taken (claims s) (threads s) = taken_by (claims s) (threads s ! t) + M"
      "\<And>p. taken (claims s) ((threads s)[t := p]) = taken_by (claims s) p + M"
    by (rule taken_update [OF op(2)]) blast
  note abs = abs_queue_def op(1) M
  show ?thesis
  proof (cases "threads s ! t")
    case (EnqLoadSeq d pos)
    have "length (cells (ring s)) \<le> length (claims s)" if "seq_at (ring s) pos < pos"
    proof -
      obtain c where c: "same_slot (ring s) c pos" "seq_at (ring s) pos = c \<or> seq_at (ring s) pos = c + 1"
        using ring_ok_cell [OF good] by blast
      then have "c + length (cells (ring s)) \<le> pos" using same_slot_gap [OF c(1)] that by linarith
      then show ?thesis using mine EnqLoadSeq enq by simp
    qed
    with EnqLoadSeq op(3,4) show ?thesis
      by (auto simp: abs label_of_def Let_def split: if_splits)
  next
    case (EnqCas d pos)
    show ?thesis
    proof (cases "p = EnqWrite d pos")
      case True
      with EnqCas op(3) have r: "enqueue_pos (ring s) = pos" "r = (ring s)\<lparr>enqueue_pos := pos + 1\<rparr>"
        by (auto split: if_splits)
      have l: "l = Push d" using op(4) EnqCas True by (simp add: label_of_def)
      have "taken (claims s @ [d]) ((threads s)[t := p]) = taken (claims s) ((threads s)[t := p])"
      proof (rule taken_grow)
        fix q assume "DeqRead q \<in> set ((threads s)[t := p])"
        then have "DeqRead q \<in> set (threads s)"
          using set_update_subset_insert [of "threads s" t p] True by auto
        then show "q < length (claims s)"
          using ok(2) enq ring_okD(3) [OF good] by (fastforce simp: in_set_conv_nth)
      qed
      with True EnqCas r l mine ring_items_claim [OF good] show ?thesis
        by (simp add: abs)
    next
      case False
      with EnqCas op(3,4) show ?thesis by (auto simp: abs label_of_def split: if_splits)
    qed
  next
    case (EnqWrite d pos)
    with op(3,4) show ?thesis by (auto simp: abs label_of_def ring_items_write [OF len])
  next
    case (EnqPublish d pos)
    with op(3,4) have r: "r = set_seq (ring s) pos (pos + 1)" "p = EnqDone True" "l = Publish d"
      by (auto simp: label_of_def)
    with ring_items_publish [OF good, of pos] mine EnqPublish show ?thesis
      by (auto simp: abs intro!: exI [of _ "pos - dequeue_pos (ring s)"])
  next
    case (DeqLoadSeq pos)
    have "ring_items (ring s) (claims s) = [] \<or> \<not> snd (hd (ring_items (ring s) (claims s)))"
      if "seq_at (ring s) pos < pos + 1"
    proof -
      have "pos = dequeue_pos (ring s)"
        using mine DeqLoadSeq ring_okD(5) [OF good, of pos] that by fastforce
      with that show ?thesis
        by (cases "dequeue_pos (ring s) < enqueue_pos (ring s)")
          (auto simp: ring_items_def item_at_def upt_conv_Cons)
    qed
    with DeqLoadSeq op(3,4) show ?thesis
      by (auto simp: abs label_of_def Let_def split: if_splits)
  next
    case (DeqCas pos)
    show ?thesis
    proof (cases "p = DeqRead pos")
      case True
      with DeqCas op(3) have r: "dequeue_pos (ring s) = pos" "r = (ring s)\<lparr>dequeue_pos := pos + 1\<rparr>"
        by (auto split: if_splits)
      have l: "l = Pop (claims s ! pos)" using op(4) DeqCas True by (simp add: label_of_def)
      from True DeqCas r l mine ring_items_take [OF good] show ?thesis
        by (simp add: abs)
    next
      case False
      with DeqCas op(3,4) show ?thesis by (auto simp: abs label_of_def split: if_splits)
    qed
  next
    case (DeqRead pos)
    with op(3,4) full_cell(3) [OF good, of pos] mine show ?thesis by (auto simp: abs label_of_def)
  next
    case (DeqFree pos d)
    with op(3,4) ring_items_free [OF good, of pos] mine show ?thesis by (auto simp: abs label_of_def)
  qed (use op(3,4) in \<open>auto simp: abs label_of_def\<close>)
next
  case (call t p d)
  obtain M where M: "taken (claims s) (threads s) = taken_by (claims s) (threads s ! t) + M"
      "\<And>p. taken (claims s) ((threads s)[t := p]) = taken_by (claims s) p + M"
    by (rule taken_update [OF call(3)]) blast
  with call show ?thesis by (auto simp: abs_queue_def resting_def split: qpc.splits)
qed

lemma queue_step_capacity: "queue_step s l s' \<Longrightarrow> length (cells (ring s')) = length (cells (ring s))"
proof (erule queue_step.cases, goal_cases)
  case (1 t s r p l)
  then show ?case by (cases "threads s ! t") (auto simp: Let_def split: if_splits)
qed simp

interpretation mpmc: simulation queue_step "fifo_step cap" abs_queue
    "\<lambda>s. good_queue s \<and> length (cells (ring s)) = cap" for cap
  by unfold_locales (auto intro: good_queue_step simp: queue_step_capacity queue_step_simulates)

lemma no_taken: "sum_list (replicate n ({#} :: 'a multiset)) = {#}"
  by (induction n) simp_all

lemma good_new_queue:
  assumes "2 \<le> capacity"
  shows "good_queue (new_queue dflt capacity n)" "abs_queue (new_queue dflt capacity n) = new_fifo"
proof -
  have len: "ring_len (new_ring dflt capacity)"
    using bit_ceil_ge [of capacity] bit_ceil_power [of capacity] assms by (simp add: ring_len_def new_ring_def)
  then have cap: "slot_of (new_ring dflt capacity) q = q mod bit_ceil capacity" "0 < bit_ceil capacity" for q
    by (simp_all add: slot_of_mod) (simp_all add: new_ring_def ring_len_def)
  have "\<exists>p. same_slot (new_ring dflt capacity) p q \<and> p < bit_ceil capacity \<and> seq_at (new_ring dflt capacity) q = p" for q
    by (rule exI [of _ "q mod bit_ceil capacity"]) (simp add: same_slot_def seq_at_def cap, simp add: new_ring_def cap)
  then have "ring_ok (new_ring dflt capacity) []"
    using len by (auto simp: ring_ok_def) (auto simp: new_ring_def)
  then show "good_queue (new_queue dflt capacity n)" by (simp add: good_queue_def new_queue_def)
  show "abs_queue (new_queue dflt capacity n) = new_fifo"
    by (simp add: abs_queue_def new_queue_def new_fifo_def ring_items_def taken_def new_ring_def
        map_replicate_const no_taken)
qed

text \<open>C20: LockFreeMPMCQueue, made with a capacity of at least 2, which its constructor rounds up
  to a power of two, implements a bounded first-in first-out queue for any number of threads: every
  interleaving of the atomic operations of enqueue and dequeue, with spurious failures of the
  compare-and-swap, is a run of the abstract queue with the same labels, where the claim of a position
  by a producer appends its element, the store of the sequence number publishes it, the claim by a
  consumer takes the published head and nothing else, and dequeue reports empty only when the head is
  absent or not yet published. So the elements taken, followed by those still in the queue, are the
  elements pushed, in order; each value handed to a client is one that was taken, once; and enqueue
  never reports a full queue before the rounded capacity has been pushed. Capacity 1, which the constructor
  accepts too, is not covered.\<close>

theorem mpmc_queue_refines:
  assumes "2 \<le> capacity" "runs queue_step (new_queue dflt capacity n) ls s"
  shows "runs (fifo_step (bit_ceil capacity)) new_fifo ls (abs_queue s) \<and>
    pushes ls = pops ls @ map fst (fifo_items (abs_queue s)) \<and>
    mset (pops ls) = mset (returned ls) + fifo_taken (abs_queue s) \<and>
    (length (pushes ls) < bit_ceil capacity \<longrightarrow> Full \<notin> set ls)"
proof -
  have "length (cells (ring (new_queue dflt capacity n))) = bit_ceil capacity"
    by (simp add: new_queue_def new_ring_def)
  then have "runs (fifo_step (bit_ceil capacity)) new_fifo ls (abs_queue s)"
    using mpmc.refines [OF assms(2)] good_new_queue [OF assms(1), of dflt n] by metis
  then show ?thesis using fifo_order [of "bit_ceil capacity" ls "abs_queue s"] by auto
qed

text \<open>A single thread that runs alone, taking the first outcome of each operation.\<close>

fun solo :: "nat \<Rightarrow> 'a qstate \<Rightarrow> 'a qlabel list \<times> 'a qstate" where
  "solo 0 s = ([], s)"
| "solo (Suc k) s =
     (let (ls, s) = solo k s; (r, p) = hd (thread_step (ring s) (threads s ! 0));
          l = label_of (claims s) (threads s ! 0) p
      in (ls @ [l], \<lparr>ring = r, threads = (threads s)[0 := p], claims = claims s @ claimed l\<rparr>))"

fun solo_busy :: "nat \<Rightarrow> 'a qstate \<Rightarrow> bool" where
  "solo_busy 0 s \<longleftrightarrow> threads s \<noteq> []"
| "solo_busy (Suc k) s \<longleftrightarrow> solo_busy k s \<and>
     (let s = snd (solo k s) in threads s \<noteq> [] \<and> thread_step (ring s) (threads s ! 0) \<noteq> [])"

lemma solo_runs: "solo_busy k s \<Longrightarrow> runs queue_step s (fst (solo k s)) (snd (solo k s))"
proof (induction k)
  case 0
  show ?case by (simp add: runs.stop)
next
  case (Suc k)
  obtain ls s' where s': "solo k s = (ls, s')" by fastforce
  obtain r p where rp: "hd (thread_step (ring s') (threads s' ! 0)) = (r, p)" by fastforce
  have "(r, p) \<in> set (thread_step (ring s') (threads s' ! 0))"
    using Suc.prems hd_in_set rp by (fastforce simp: s')
  then have "queue_step s' (label_of (claims s') (threads s' ! 0) p) (snd (solo (Suc k) s))"
    using Suc.prems queue_step.op [of 0 s' r p] by (simp add: s' rp Let_def)
  with Suc show ?case by (auto simp: s' rp Let_def intro: runs.more)
qed

lemma mpmc_queue_refines_witness:
  "\<exists>ls s. pushes ls = [7 :: nat] \<and> runs (fifo_step 2) new_fifo ls (abs_queue s) \<and>
     pushes ls = pops ls @ map fst (fifo_items (abs_queue s))"
proof -
  let ?s0 = "new_queue (0::nat) 2 1"
  let ?s1 = "?s0\<lparr>threads := (threads ?s0)[0 := EnqLoadPos 7]\<rparr>"
  have call: "queue_step ?s0 Tau ?s1"
    by (rule queue_step.call [of _ _ _ 7]) (simp_all add: new_queue_def resting_def)
  have "runs queue_step ?s1 (fst (solo 3 ?s1)) (snd (solo 3 ?s1))"
    by (rule solo_runs) code_simp
  from runs_trans [OF this runs_single [of queue_step, OF call]]
  have run: "runs queue_step ?s0 ([Tau] @ fst (solo 3 ?s1)) (snd (solo 3 ?s1))" .
  have "pushes ([Tau] @ fst (solo 3 ?s1)) = [7]" "bit_ceil 2 = 2" by code_simp+
  with mpmc_queue_refines [OF _ run] show ?thesis by (metis order_refl)
qed

end
