(* ===== verification/Progress_Queue.thy ===== *)
theory Progress_Queue
  imports Ring_Queue
begin

text \<open>
  \<open>LockFreeMPSCQueue\<close> (include/cob/mpsc_queue.hpp): the queue that carries the progress messages of
  the workers to the one thread that prints them. Its producers are those of the ring of theory
  Ring_Queue; its only consumer advances a position no other thread reads, after it freed the cell.
\<close>

section \<open>Producers and the consumer\<close>

text \<open>\<open>LockFreeMPSCQueue::enqueue\<close> is the code of the other queue.\<close>

definition producer :: "'a qpc \<Rightarrow> bool" where
  "producer p \<longleftrightarrow>
     (case p of Idle \<Rightarrow> True | EnqLoadPos d \<Rightarrow> True | EnqLoadSeq d pos \<Rightarrow> True | EnqCas d pos \<Rightarrow> True
      | EnqWrite d pos \<Rightarrow> True | EnqPublish d pos \<Rightarrow> True | EnqDone b \<Rightarrow> True | _ \<Rightarrow> False)"

definition produce_step :: "'a ring \<Rightarrow> 'a qpc \<Rightarrow> ('a ring \<times> 'a qpc) list" where
  "produce_step r p = (if producer p then thread_step r p else [])"

datatype 'a cpc = CIdle | CLoadSeq | CRead nat | CFree nat 'a | CAdvance nat 'a | CDone "'a option"

fun consume_step :: "'a ring \<Rightarrow> 'a cpc \<Rightarrow> ('a ring \<times> 'a cpc) option" where
  "consume_step r CIdle = None"
| "consume_step r CLoadSeq =
     (let pos = dequeue_pos r; diff = int (seq_at r pos) - int (pos + 1)
      in Some (r, if diff = 0 then CRead pos else CDone None))"
| "consume_step r (CRead pos) = Some (r, CFree pos (data_at r pos))"
| "consume_step r (CFree pos d) = Some (set_seq r pos (pos + length (cells r)), CAdvance pos d)"
| "consume_step r (CAdvance pos d) = Some (r\<lparr>dequeue_pos := pos + 1\<rparr>, CDone (Some d))"
| "consume_step r (CDone v) = None"

fun consume_label :: "'a list \<Rightarrow> 'a cpc \<Rightarrow> 'a cpc \<Rightarrow> 'a qlabel" where
  "consume_label cl CLoadSeq (CRead pos) = Pop (cl ! pos)"
| "consume_label cl CLoadSeq (CDone v) = Empty"
| "consume_label cl (CFree pos d) c = Return d"
| "consume_label cl c c' = Tau"

record 'a pstate =
  p_ring :: "'a ring"
  producers :: "'a qpc list"
  consumer :: "'a cpc"
  p_claims :: "'a list"

inductive progress_step :: "'a pstate \<Rightarrow> 'a qlabel \<Rightarrow> 'a pstate \<Rightarrow> bool" where
  produce: "t < length (producers s) \<Longrightarrow> (r, p) \<in> set (produce_step (p_ring s) (producers s ! t)) \<Longrightarrow>
    l = label_of (p_claims s) (producers s ! t) p \<Longrightarrow>
    progress_step s l
      (s\<lparr>p_ring := r, producers := (producers s)[t := p], p_claims := p_claims s @ claimed l\<rparr>)"
| enqueue_call: "t < length (producers s) \<Longrightarrow> resting (producers s ! t) \<Longrightarrow>
    progress_step s Tau (s\<lparr>producers := (producers s)[t := EnqLoadPos d]\<rparr>)"
| consume: "consume_step (p_ring s) (consumer s) = Some (r, c) \<Longrightarrow>
    l = consume_label (p_claims s) (consumer s) c \<Longrightarrow>
    progress_step s l (s\<lparr>p_ring := r, consumer := c\<rparr>)"
| dequeue_call: "consume_step (p_ring s) (consumer s) = None \<Longrightarrow>
    progress_step s Tau (s\<lparr>consumer := CLoadSeq\<rparr>)"

definition new_progress :: "'a \<Rightarrow> nat \<Rightarrow> nat \<Rightarrow> 'a pstate" where
  "new_progress dflt capacity n =
     \<lparr>p_ring = new_ring dflt capacity, producers = replicate n Idle, consumer = CIdle, p_claims = []\<rparr>"

section \<open>The consumer as a thread of the other queue\<close>

text \<open>A consumer that found its cell full has, for the other queue, claimed it already.\<close>

fun claimed_to :: "'a ring \<Rightarrow> 'a cpc \<Rightarrow> nat" where
  "claimed_to r (CRead pos) = pos + 1"
| "claimed_to r (CFree pos d) = pos + 1"
| "claimed_to r (CAdvance pos d) = pos + 1"
| "claimed_to r c = dequeue_pos r"

fun as_thread :: "'a cpc \<Rightarrow> 'a qpc" where
  "as_thread CIdle = Idle"
| "as_thread CLoadSeq = DeqLoadPos"
| "as_thread (CRead pos) = DeqRead pos"
| "as_thread (CFree pos d) = DeqFree pos d"
| "as_thread (CAdvance pos d) = DeqDone (Some d)"
| "as_thread (CDone v) = DeqDone v"

definition view :: "'a pstate \<Rightarrow> 'a qstate" where
  "view s = \<lparr>ring = (p_ring s)\<lparr>dequeue_pos := claimed_to (p_ring s) (consumer s)\<rparr>,
     threads = producers s @ [as_thread (consumer s)], claims = p_claims s\<rparr>"

definition consumer_ok :: "'a pstate \<Rightarrow> bool" where
  "consumer_ok s \<longleftrightarrow>
     (case consumer s of CRead pos \<Rightarrow> pos = dequeue_pos (p_ring s) | CFree pos d \<Rightarrow> pos = dequeue_pos (p_ring s)
      | CAdvance pos d \<Rightarrow> pos = dequeue_pos (p_ring s) | _ \<Rightarrow> True)"

definition good_progress :: "nat \<Rightarrow> 'a pstate \<Rightarrow> bool" where
  "good_progress cap s \<longleftrightarrow> good_queue (view s) \<and> length (cells (p_ring s)) = cap \<and> consumer_ok s"

text \<open>An enqueue operation neither reads nor writes the position of the consumer.\<close>

lemma produce_view:
  assumes "(r, p) \<in> set (produce_step r0 q)"
  shows "(r\<lparr>dequeue_pos := x\<rparr>, p) \<in> set (thread_step (r0\<lparr>dequeue_pos := x\<rparr>) q)"
    "dequeue_pos r = dequeue_pos r0" "length (cells r) = length (cells r0)"
proof -
  have defs: "(set_seq r0 pos n)\<lparr>dequeue_pos := x\<rparr> = set_seq (r0\<lparr>dequeue_pos := x\<rparr>) pos n"
    "(set_data r0 pos d)\<lparr>dequeue_pos := x\<rparr> = set_data (r0\<lparr>dequeue_pos := x\<rparr>) pos d" for pos n d
    by (simp_all add: set_seq_def set_data_def slot_of_def)
  from assms show "(r\<lparr>dequeue_pos := x\<rparr>, p) \<in> set (thread_step (r0\<lparr>dequeue_pos := x\<rparr>) q)"
    "dequeue_pos r = dequeue_pos r0" "length (cells r) = length (cells r0)"
    by (cases q; auto simp: produce_step_def producer_def Let_def defs split: if_splits)+
qed

lemma fifo_silent:
  assumes "runs (fifo_step cap) f ls f'" "set ls \<subseteq> {Tau}"
  shows "f' = f"
  using assms by (induction rule: runs.induct) auto

lemma fifo_last_step:
  assumes "runs (fifo_step cap) f (ls @ [l]) f'" "set ls \<subseteq> {Tau}"
  shows "fifo_step cap f l f'"
  using assms(1)
proof (rule runs_snocE)
  fix g assume "runs (fifo_step cap) f ls g" "fifo_step cap g l f'"
  with fifo_silent [OF _ assms(2)] show ?thesis by blast
qed

text \<open>A step of the consumer is a few steps of a consumer of the other queue.\<close>

lemma thread_runs:
  assumes "(r, p) \<in> set (thread_step r0 q)" "l = label_of cl q p" "claimed l = []"
  shows "queue_step \<lparr>ring = r0, threads = ths @ [q], claims = cl\<rparr> l \<lparr>ring = r, threads = ths @ [p], claims = cl\<rparr>"
  using queue_step.op [of "length ths" "\<lparr>ring = r0, threads = ths @ [q], claims = cl\<rparr>" r p l] assms by simp

lemma ring_same [simp]: "r\<lparr>dequeue_pos := dequeue_pos r\<rparr> = r"
  by (cases r) simp

lemma view_load:
  assumes "consumer s = CLoadSeq" "good_queue (view s)"
    and "s' = s\<lparr>consumer := c\<rparr>" "c = CRead pos \<or> c = CDone None" "pos = dequeue_pos (p_ring s)"
    and "c = CRead pos \<longleftrightarrow> seq_at (p_ring s) pos = pos + 1"
  shows "\<exists>ls. set ls \<subseteq> {Tau} \<and> runs queue_step (view s) (ls @ [consume_label (p_claims s) CLoadSeq c]) (view s')"
proof -
  let ?at = "\<lambda>q. \<lparr>ring = p_ring s, threads = producers s @ [q], claims = p_claims s\<rparr>"
  have s: "view s = ?at DeqLoadPos" by (simp add: view_def assms(1))
  have "queue_step (?at DeqLoadPos) Tau (?at (DeqLoadSeq pos))"
    by (rule thread_runs) (use assms(5) in \<open>auto simp: label_of_def\<close>)
  then have load: "runs queue_step (view s) [Tau] (?at (DeqLoadSeq pos))" unfolding s by (rule runs_single)
  show ?thesis
  proof (cases "c = CRead pos")
    case True
    with assms(6) have seq: "seq_at (p_ring s) pos = pos + 1" by simp
    have "queue_step (?at (DeqLoadSeq pos)) Tau (?at (DeqCas pos))"
      by (rule thread_runs) (use seq in \<open>auto simp: label_of_def\<close>)
    from runs.more [OF load this] have "runs queue_step (view s) [Tau, Tau] (?at (DeqCas pos))" by simp
    moreover have "queue_step (?at (DeqCas pos)) (Pop (p_claims s ! pos))
        \<lparr>ring = (p_ring s)\<lparr>dequeue_pos := pos + 1\<rparr>, threads = producers s @ [DeqRead pos], claims = p_claims s\<rparr>"
      by (rule thread_runs) (use assms(5) in \<open>auto simp: label_of_def\<close>)
    ultimately show ?thesis
      using runs.more True assms(3,5) by (intro exI [of _ "[Tau, Tau]"]) (fastforce simp: view_def)
  next
    case False
    with assms(4) have c: "c = CDone None" by simp
    have "seq_at (p_ring s) pos \<le> pos"
      using full_cell(1) [OF good_queueD(1) [OF assms(2)], of pos] False assms(5,6)
      by (force simp: view_def assms(1))
    then have "queue_step (?at (DeqLoadSeq pos)) Empty (?at (DeqDone None))"
      by (intro thread_runs) (auto simp: label_of_def)
    from runs.more [OF load this] c assms(3) show ?thesis
      by (intro exI [of _ "[Tau]"]) (simp add: view_def)
  qed
qed

lemma view_single:
  "queue_step s l s' \<Longrightarrow> \<exists>ls. set ls \<subseteq> {Tau} \<and> runs queue_step s (ls @ [l]) s'"
  by (rule exI [of _ "[]"]) (simp add: runs_single)

lemma view_step:
  assumes "good_progress cap s" "progress_step s l s'"
  shows "l = Tau \<and> view s' = view s \<or>
    (\<exists>ls. set ls \<subseteq> {Tau} \<and> runs queue_step (view s) (ls @ [l]) (view s'))"
  using assms(2)
proof cases
  case (produce t r p)
  let ?x = "claimed_to (p_ring s) (consumer s)"
  have t: "threads (view s) ! t = producers s ! t" "t < length (threads (view s))"
    using produce(2) by (simp_all add: view_def nth_append)
  have "(r\<lparr>dequeue_pos := ?x\<rparr>, p) \<in> set (thread_step (ring (view s)) (threads (view s) ! t))"
    using produce_view(1) [OF produce(3)] t by (simp add: view_def)
  from queue_step.op [OF t(2) this refl]
  have "queue_step (view s) l (view s')"
    using produce t produce_view(2) [OF produce(3)]
    by (cases "consumer s") (simp_all add: view_def list_update_append)
  then show ?thesis using view_single by blast
next
  case (enqueue_call t d)
  have "queue_step (view s) Tau (view s')"
    using queue_step.call [of t "view s" "EnqLoadPos d" d] enqueue_call
    by (simp add: view_def nth_append list_update_append)
  then show ?thesis using view_single enqueue_call(1) by blast
next
  case (consume r c)
  have ok: "consumer_ok s" "good_queue (view s)" using assms(1) by (simp_all add: good_progress_def)
  show ?thesis
  proof (cases "consumer s")
    case CLoadSeq
    with consume view_load [OF CLoadSeq ok(2), of s' c "dequeue_pos (p_ring s)"] show ?thesis
      by (cases s) (auto simp: Let_def split: if_splits)
  next
    case (CRead pos)
    with consume have "queue_step (view s) l (view s')"
      by (auto simp: view_def label_of_def data_at_def slot_of_def intro!: thread_runs)
    then show ?thesis using view_single by blast
  next
    case (CFree pos d)
    with consume have "queue_step (view s) l (view s')"
      by (auto simp: view_def label_of_def set_seq_def slot_of_def intro!: thread_runs)
    then show ?thesis using view_single by blast
  next
    case (CAdvance pos d)
    with consume ok(1) show ?thesis by (auto simp: view_def consumer_ok_def)
  qed (use consume in simp_all)
next
  case dequeue_call
  have "queue_step (view s) Tau (view s')"
    using queue_step.call [of "length (producers s)" "view s" DeqLoadPos undefined] dequeue_call
    by (cases "consumer s") (auto simp: view_def resting_def Let_def)
  then show ?thesis using view_single dequeue_call(1) by blast
qed

lemma consumer_kept:
  assumes "consumer_ok s" "progress_step s l s'"
  shows "consumer_ok s'" "length (cells (p_ring s')) = length (cells (p_ring s))"
proof -
  show "consumer_ok s'" using assms(2,1)
  proof cases
    case (produce t r p)
    with assms(1) produce_view(2) [OF produce(3)] show ?thesis by (simp add: consumer_ok_def split: cpc.splits)
  next
    case (consume r c)
    with assms(1) show ?thesis by (cases "consumer s") (auto simp: consumer_ok_def Let_def)
  qed (use assms(1) in \<open>simp_all add: consumer_ok_def split: cpc.splits\<close>)
  show "length (cells (p_ring s')) = length (cells (p_ring s))" using assms(2)
  proof cases
    case (produce t r p)
    with produce_view(3) [OF produce(3)] show ?thesis by simp
  next
    case (consume r c)
    then show ?thesis by (cases "consumer s") (auto simp: Let_def)
  qed simp_all
qed

lemma progress_simulates:
  assumes "good_progress cap s" "progress_step s l s'"
  shows "good_progress cap s'" "fifo_step cap (abs_queue (view s)) l (abs_queue (view s'))"
proof -
  have good: "good_queue (view s)" "length (cells (ring (view s))) = cap"
    using assms(1) by (simp_all add: good_progress_def view_def)
  from view_step [OF assms]
  have "good_queue (view s') \<and> fifo_step cap (abs_queue (view s)) l (abs_queue (view s'))"
  proof (elim disjE exE conjE)
    fix ls assume ls: "set ls \<subseteq> {Tau}" and run: "runs queue_step (view s) (ls @ [l]) (view s')"
    have "runs (fifo_step cap) (abs_queue (view s)) (ls @ [l]) (abs_queue (view s'))"
      by (rule mpmc.refines [OF run]) (use good in simp)
    with mpmc.good_runs [OF run] good fifo_last_step [OF _ ls] show ?thesis by blast
  qed (use good in simp)
  with consumer_kept [OF _ assms(2)] assms(1) show "good_progress cap s'"
    "fifo_step cap (abs_queue (view s)) l (abs_queue (view s'))"
    by (simp_all add: good_progress_def)
qed

interpretation mpsc: simulation progress_step "fifo_step cap" "\<lambda>s. abs_queue (view s)" "good_progress cap" for cap
  by unfold_locales (rule progress_simulates; assumption)+

lemma good_new_progress:
  assumes "2 \<le> capacity"
  shows "good_progress (bit_ceil capacity) (new_progress dflt capacity n)"
    "abs_queue (view (new_progress dflt capacity n)) = new_fifo"
proof -
  have "view (new_progress dflt capacity n) = new_queue dflt capacity (Suc n)"
    by (simp add: view_def new_progress_def new_queue_def replicate_append_same)
  with good_new_queue [OF assms, of dflt "Suc n"]
  show "good_progress (bit_ceil capacity) (new_progress dflt capacity n)"
    "abs_queue (view (new_progress dflt capacity n)) = new_fifo"
    by (simp_all add: good_progress_def consumer_ok_def) (simp_all add: new_progress_def new_ring_def)
qed

text \<open>C21: LockFreeMPSCQueue, made with a capacity of at least 2, implements the same abstract
  first-in first-out queue for any number of producers and one consumer, although its consumer frees a
  cell before it moves its own position: every interleaving of the producers' and the consumer's
  operations is a run of the abstract queue, so the messages read, followed by those still in the queue,
  are the messages written, in order; and a producer never sees a full queue before the rounded capacity
  has been written. Capacity 1, which execute asks for when it starts no progress thread and writes no message, is not covered.\<close>

theorem mpsc_queue_refines:
  assumes "2 \<le> capacity" "runs progress_step (new_progress dflt capacity n) ls s"
  shows "runs (fifo_step (bit_ceil capacity)) new_fifo ls (abs_queue (view s)) \<and>
    pushes ls = pops ls @ map fst (fifo_items (abs_queue (view s))) \<and>
    mset (pops ls) = mset (returned ls) + fifo_taken (abs_queue (view s)) \<and>
    (length (pushes ls) < bit_ceil capacity \<longrightarrow> Full \<notin> set ls)"
proof -
  have "runs (fifo_step (bit_ceil capacity)) new_fifo ls (abs_queue (view s))"
    using mpsc.refines [OF assms(2) good_new_progress(1) [OF assms(1)]] good_new_progress(2) [OF assms(1)] by metis
  then show ?thesis using fifo_order [of "bit_ceil capacity" ls "abs_queue (view s)"] by auto
qed

lemma mpsc_queue_refines_witness:
  "\<exists>ls (s :: nat pstate). Empty \<in> set ls \<and> runs (fifo_step 2) new_fifo ls (abs_queue (view s)) \<and>
     pushes ls = pops ls @ map fst (fifo_items (abs_queue (view s)))"
proof -
  let ?s0 = "new_progress (0::nat) 2 1"
  let ?s1 = "?s0\<lparr>consumer := CLoadSeq\<rparr>" and ?s2 = "?s0\<lparr>consumer := CDone None\<rparr>"
  have "progress_step ?s0 Tau ?s1" by (rule dequeue_call) (simp add: new_progress_def)
  then have one: "runs progress_step ?s0 [Tau] ?s1" by (rule runs_single)
  have "progress_step ?s1 Empty ?s2"
  proof -
    have "consume_step (p_ring ?s1) (consumer ?s1) = Some (p_ring ?s1, CDone None)" by code_simp
    from consume [OF this refl] show ?thesis by (simp add: new_progress_def)
  qed
  from runs.more [OF one this] have run: "runs progress_step ?s0 ([Tau] @ [Empty]) ?s2" .
  have "bit_ceil 2 = 2" by code_simp
  with mpsc_queue_refines [OF order_refl run]
  have "runs (fifo_step 2) new_fifo ([Tau] @ [Empty]) (abs_queue (view ?s2)) \<and>
      pushes ([Tau] @ [Empty]) = pops ([Tau] @ [Empty]) @ map fst (fifo_items (abs_queue (view ?s2)))"
    by (simp only:)
  then show ?thesis by (intro exI [of _ "[Tau] @ [Empty]"] exI [of _ ?s2]) simp
qed

end
