(* ===== verification/Codec.thy ===== *)
theory Codec
  imports Bytes
begin

text \<open>
  Reading and writing fixed layouts at the current position of a byte buffer, as the binary cache
  does with \<open>memcpy\<close> and \<open>reinterpret_cast\<close> (src/binary.cpp). The contract of a record type is the
  locale \<open>codec\<close>: what was written is read back, and the position is right behind it. The codec
  of 64-bit numbers is here, the records of the cache are in Binary_Format.
\<close>

section \<open>The contract\<close>

fun get_list :: "(string \<Rightarrow> ('a \<times> string) option) \<Rightarrow> nat \<Rightarrow> string \<Rightarrow> ('a list \<times> string) option" where
  "get_list get 0 s = Some ([], s)"
| "get_list get (Suc n) s =
     do { (x, s) \<leftarrow> get s;
          (xs, s) \<leftarrow> get_list get n s;
          Some (x # xs, s) }"

locale codec =
  fixes put :: "'a \<Rightarrow> string"
    and get :: "string \<Rightarrow> ('a \<times> string) option"
    and fits :: "'a \<Rightarrow> bool"
  assumes get_put: "fits x \<Longrightarrow> get (put x @ rest) = Some (x, rest)"
begin

lemma get_put_end: "fits x \<Longrightarrow> get (put x) = Some (x, [])"
  using get_put [of x "[]"] by simp

lemma put_unique:
  assumes "fits x" "fits y" "put x @ r = put y @ r'"
  shows "x = y \<and> r = r'"
  using get_put [OF assms(1), of r] get_put [OF assms(2), of r'] unfolding assms(3) by simp

lemma get_list_put:
  "list_all fits xs \<Longrightarrow> get_list get (length xs) (concat (map put xs) @ rest) = Some (xs, rest)"
  by (induction xs) (simp_all add: get_put)

end

text \<open>Records of a fixed size.\<close>

locale fixed_codec = codec put get fits
  for put :: "'a \<Rightarrow> string" and get :: "string \<Rightarrow> ('a \<times> string) option" and fits :: "'a \<Rightarrow> bool" +
  fixes width :: nat
  assumes length_put: "length (put x) = width"
begin

lemma length_put_list: "length (concat (map put xs)) = length xs * width"
  by (induction xs) (simp_all add: length_put)

end

section \<open>64-bit numbers\<close>

definition put_u64 :: "nat \<Rightarrow> string" where
  "put_u64 n = le_bytes 8 (of_nat n)"

definition get_u64 :: "string \<Rightarrow> (nat \<times> string) option" where
  "get_u64 s = (if length s < 8 then None else Some (unat (le_word (take 8 s)), drop 8 s))"

definition u64_fits :: "nat \<Rightarrow> bool" where
  "u64_fits n \<longleftrightarrow> n < 2 ^ 64"

definition UINT64_MAX :: nat where
  "UINT64_MAX = 2 ^ 64 - 1"

interpretation u64_codec: fixed_codec put_u64 get_u64 u64_fits 8
proof
  fix n :: nat and rest
  assume "u64_fits n"
  then have "unat (of_nat n :: u64) = n" by (simp add: u64_fits_def unat_of_nat)
  then show "get_u64 (put_u64 n @ rest) = Some (n, rest)"
    by (simp add: get_u64_def put_u64_def)
qed (simp add: put_u64_def)

text \<open>Words, and numbers that are read from words.\<close>

definition put_word :: "u64 \<Rightarrow> string" where
  "put_word w = le_bytes 8 w"

definition get_word :: "string \<Rightarrow> (u64 \<times> string) option" where
  "get_word s = (if length s < 8 then None else Some (le_word (take 8 s), drop 8 s))"

interpretation word_codec: fixed_codec put_word get_word "\<lambda>_. True" 8
  by standard (simp_all add: get_word_def put_word_def)

lemma unat_u64_fits: "u64_fits (unat (w :: u64))"
proof -
  have "unat w < 2 ^ LENGTH(64)" by (rule unsigned_less)
  then show ?thesis by (simp add: u64_fits_def)
qed

lemma get_u64_bounded: "get_u64 s = Some (n, r) \<Longrightarrow> u64_fits n"
  using unat_u64_fits by (auto simp: get_u64_def split: if_splits)

lemma u64_fits_less: "u64_fits m \<Longrightarrow> n \<le> m \<Longrightarrow> u64_fits n"
  by (simp add: u64_fits_def)

text \<open>An optional number with the largest value as the sentinel for none.\<close>

definition put_opt :: "nat option \<Rightarrow> string" where
  "put_opt v = put_u64 (case v of None \<Rightarrow> UINT64_MAX | Some n \<Rightarrow> n)"

definition get_opt :: "string \<Rightarrow> (nat option \<times> string) option" where
  "get_opt s = do { (n, s) \<leftarrow> get_u64 s; Some (if n = UINT64_MAX then None else Some n, s) }"

definition opt_fits :: "nat option \<Rightarrow> bool" where
  "opt_fits v \<longleftrightarrow> (case v of None \<Rightarrow> True | Some n \<Rightarrow> n < UINT64_MAX)"

interpretation opt_codec: fixed_codec put_opt get_opt opt_fits 8
proof
  fix v :: "nat option" and rest
  assume v: "opt_fits v"
  let ?n = "case v of None \<Rightarrow> UINT64_MAX | Some n \<Rightarrow> n"
  have "u64_fits ?n"
    using v by (auto simp: u64_fits_def opt_fits_def UINT64_MAX_def split: option.splits)
  then have "get_u64 (put_u64 ?n @ rest) = Some (?n, rest)" by (rule u64_codec.get_put)
  moreover have "(if ?n = UINT64_MAX then None else Some ?n) = v"
    using v by (cases v) (auto simp: opt_fits_def)
  ultimately show "get_opt (put_opt v @ rest) = Some (v, rest)"
    by (simp add: get_opt_def put_opt_def)
qed (simp add: put_opt_def u64_codec.length_put)

end
