(* ===== verification/String_Pool.thy ===== *)
theory String_Pool
  imports BuildGraph
begin

text \<open>
  The string pool of the binary cache (src/binary.cpp): \<open>StringBuffer\<close>, which stores every distinct
  string once, and \<open>AddressCache\<close>, which finds the reference of a string again by the address of
  its bytes. Its contract, as the writer of the cache relies on it, is the locale \<open>string_pool\<close>:
  a reference that was handed out denotes its string in every later state of the pool.
\<close>

section \<open>The contract\<close>

definition refers :: "string \<Rightarrow> StringRef \<Rightarrow> string \<Rightarrow> bool" where
  "refers bytes r s \<longleftrightarrow> ref_offset r + ref_len r \<le> length bytes \<and> ref_view bytes r = s"

lemma refers_extend: "refers bytes r s \<Longrightarrow> refers (bytes @ ext) r s"
  by (simp add: refers_def ref_view_def substr_def)

lemma refers_len: "refers bytes r s \<Longrightarrow> ref_len r = length s"
  by (auto simp: refers_def ref_view_def substr_def)

locale string_pool =
  fixes add :: "'p \<Rightarrow> string \<Rightarrow> (StringRef \<times> 'p) option"
    and bytes :: "'p \<Rightarrow> string"
    and pool_ok :: "'p \<Rightarrow> bool"
  assumes add_ok: "pool_ok p \<Longrightarrow> \<exists>r p'. add p s = Some (r, p') \<and> pool_ok p' \<and>
    refers (bytes p') r s \<and> (\<exists>ext. bytes p' = bytes p @ ext)"
begin

text \<open>Adding several strings, in order.\<close>

fun add_all :: "'p \<Rightarrow> string list \<Rightarrow> (StringRef list \<times> 'p) option" where
  "add_all p [] = Some ([], p)"
| "add_all p (s # ss) = do { (r, p) \<leftarrow> add p s; (rs, p) \<leftarrow> add_all p ss; Some (r # rs, p) }"

lemma add_all_ok:
  assumes "pool_ok p"
  shows "\<exists>rs p'. add_all p ss = Some (rs, p') \<and> pool_ok p' \<and> list_all2 (refers (bytes p')) rs ss \<and>
    (\<exists>ext. bytes p' = bytes p @ ext)"
  using assms
proof (induction ss arbitrary: p)
  case Nil
  then show ?case by simp
next
  case (Cons s ss)
  obtain r p1 m1 where 1: "add p s = Some (r, p1)" "pool_ok p1" "refers (bytes p1) r s" "bytes p1 = bytes p @ m1"
    using add_ok [OF Cons.prems] by blast
  obtain rs p2 m2 where 2: "add_all p1 ss = Some (rs, p2)" "pool_ok p2" "list_all2 (refers (bytes p2)) rs ss"
    "bytes p2 = bytes p1 @ m2"
    using Cons.IH [OF 1(2)] by blast
  have "refers (bytes p2) r s" unfolding 2(4) by (rule refers_extend [OF 1(3)])
  with 1 2 show ?case by simp
qed

end

section \<open>\<open>StringBuffer\<close>\<close>

record StringBuffer =
  buffer_data :: string
  buffer_cache :: "(string, StringRef) flat_map"

definition sb_new :: "nat \<Rightarrow> StringBuffer" where
  "sb_new map_capacity = \<lparr>buffer_data = [], buffer_cache = fm_new map_capacity\<rparr>"

definition sb_add :: "(string \<Rightarrow> u64) \<Rightarrow> StringBuffer \<Rightarrow> string \<Rightarrow> (StringRef \<times> StringBuffer) option" where
  "sb_add h sb sv =
     (case fm_find h (buffer_cache sb) sv of
        Some ref \<Rightarrow> Some (ref, sb)
      | None \<Rightarrow>
          let ref = \<lparr>ref_offset = length (buffer_data sb), ref_len = length sv\<rparr>
          in do { cache \<leftarrow> fm_emplace h (buffer_cache sb) sv ref;
                  Some (ref, sb\<lparr>buffer_data := buffer_data sb @ sv, buffer_cache := cache\<rparr>) })"

definition sb_reserve :: "(string \<Rightarrow> u64) \<Rightarrow> StringBuffer \<Rightarrow> nat \<Rightarrow> StringBuffer option" where
  "sb_reserve h sb strings =
     do { cache \<leftarrow> fm_reserve h (buffer_cache sb) strings; Some (sb\<lparr>buffer_cache := cache\<rparr>) }"

definition sb_ok :: "(string \<Rightarrow> u64) \<Rightarrow> StringBuffer \<Rightarrow> bool" where
  "sb_ok h sb \<longleftrightarrow> fm_inv h (buffer_cache sb) \<and>
     (\<forall>s r. fm_find h (buffer_cache sb) s = Some r \<longrightarrow> refers (buffer_data sb) r s)"

lemma refers_last: "refers (bytes @ s) \<lparr>ref_offset = length bytes, ref_len = length s\<rparr> s"
  by (simp add: refers_def ref_view_def substr_def)

lemma sb_add_ok:
  assumes "sb_ok h sb"
  shows "\<exists>r sb'. sb_add h sb s = Some (r, sb') \<and> sb_ok h sb' \<and> refers (buffer_data sb') r s \<and>
    (\<exists>ext. buffer_data sb' = buffer_data sb @ ext)"
proof (cases "fm_find h (buffer_cache sb) s")
  case (Some r)
  with assms have "refers (buffer_data sb) r s" by (auto simp: sb_ok_def)
  with Some assms show ?thesis by (simp add: sb_add_def)
next
  case None
  let ?r = "\<lparr>ref_offset = length (buffer_data sb), ref_len = length s\<rparr>"
  have inv: "fm_inv h (buffer_cache sb)" using assms by (simp add: sb_ok_def)
  obtain c where c: "fm_emplace h (buffer_cache sb) s ?r = Some c" using fm.emplace_returns [OF inv] by blast
  note c' = fm.emplace_SomeD [OF inv c]
  have "refers (buffer_data sb @ s) r k" if "fm_find h c k = Some r" for k r
    using that c'(2) assms refers_last by (auto simp: sb_ok_def split: if_splits intro: refers_extend)
  with c' have "sb_ok h \<lparr>buffer_data = buffer_data sb @ s, buffer_cache = c\<rparr>" by (simp add: sb_ok_def)
  with None c show ?thesis by (cases sb) (auto simp: sb_add_def Let_def refers_last)
qed

interpretation sb: string_pool "sb_add h" buffer_data "sb_ok h" for h
  by standard (rule sb_add_ok)

lemma sb_new_ok: "sb_ok h (sb_new cap)"
  by (simp add: sb_ok_def sb_new_def fm_new_inv fm_new_find)

lemma sb_reserve_ok:
  assumes "sb_ok h sb"
  shows "\<exists>sb'. sb_reserve h sb n = Some sb' \<and> sb_ok h sb' \<and> buffer_data sb' = buffer_data sb"
proof -
  have inv: "fm_inv h (buffer_cache sb)" using assms by (simp add: sb_ok_def)
  obtain c where "fm_reserve h (buffer_cache sb) n = Some c" "fm_inv h c"
    "fm_find h c = fm_find h (buffer_cache sb)"
    using fm_reserve_ok [OF inv] by blast
  with assms show ?thesis by (auto simp: sb_reserve_def sb_ok_def)
qed

text \<open>A string that is in the pool is not stored again.\<close>

lemma sb_add_again:
  assumes "sb_ok h sb" "sb_add h sb s = Some (r, sb')"
  shows "sb_add h sb' s = Some (r, sb')"
proof (cases "fm_find h (buffer_cache sb) s")
  case (Some x)
  with assms show ?thesis by (auto simp: sb_add_def)
next
  case None
  have inv: "fm_inv h (buffer_cache sb)" using assms by (simp add: sb_ok_def)
  obtain c where c: "fm_emplace h (buffer_cache sb) s r = Some c" "sb' = sb\<lparr>buffer_data := buffer_data sb @ s, buffer_cache := c\<rparr>"
    using None assms(2) by (auto simp: sb_add_def Let_def bind_eq_Some)
  from fm.emplace_SomeD(2) [OF inv c(1)] c(2) show ?thesis by (simp add: sb_add_def)
qed

section \<open>\<open>AddressCache\<close>\<close>

record AddressCache =
  ac_slots :: "(u64 \<times> nat \<times> StringRef) option list"
  ac_used :: nat
  ac_shift :: nat

fun countr_zero :: "nat \<Rightarrow> nat" where
  "countr_zero n = (if n = 0 \<or> odd n then 0 else Suc (countr_zero (n div 2)))"

declare countr_zero.simps [simp del]

definition ac_new :: "nat \<Rightarrow> AddressCache" where
  "ac_new capacity =
     (let n = bit_ceil (capacity * 2 + 2)
      in \<lparr>ac_slots = replicate n None, ac_used = 0, ac_shift = 64 - countr_zero n\<rparr>)"

definition FIBONACCI_MULTIPLIER :: u64 where
  "FIBONACCI_MULTIPLIER = 0x9E3779B97F4A7C15"

definition ac_index :: "AddressCache \<Rightarrow> u64 \<Rightarrow> nat" where
  "ac_index c data = unat (drop_bit (ac_shift c) (data * FIBONACCI_MULTIPLIER))"

text \<open>The probing loop of both operations: the first slot that is empty or holds the view. It visits
  the slots in turn, so the number of slots bounds its turns; \<open>None\<close> would be a loop that does not
  end.\<close>

fun ac_probe :: "(u64 \<times> nat \<times> StringRef) option list \<Rightarrow> u64 \<Rightarrow> nat \<Rightarrow> nat \<Rightarrow> nat \<Rightarrow> nat option" where
  "ac_probe ss data sz idx 0 = None"
| "ac_probe ss data sz idx (Suc k) =
     (case ss ! idx of
        None \<Rightarrow> Some idx
      | Some (data', sz', ref) \<Rightarrow>
          if data' = data \<and> sz' = sz then Some idx
          else ac_probe ss data sz (next_idx (length ss) idx) k)"

definition ac_insert :: "AddressCache \<Rightarrow> u64 \<Rightarrow> nat \<Rightarrow> StringRef \<Rightarrow> AddressCache option" where
  "ac_insert c data sz ref =
     (if data = 0 \<or> ac_used c + 1 \<ge> length (ac_slots c) div 2 then Some c
      else
        do { idx \<leftarrow> ac_probe (ac_slots c) data sz (ac_index c data) (length (ac_slots c));
             (case ac_slots c ! idx of
                None \<Rightarrow> Some (c\<lparr>ac_slots := (ac_slots c)[idx := Some (data, sz, ref)], ac_used := ac_used c + 1\<rparr>)
              | Some _ \<Rightarrow> Some c) })"

definition ac_find :: "AddressCache \<Rightarrow> u64 \<Rightarrow> nat \<Rightarrow> StringRef option option" where
  "ac_find c data sz =
     (if data = 0 then Some None
      else
        do { idx \<leftarrow> ac_probe (ac_slots c) data sz (ac_index c data) (length (ac_slots c));
             Some (map_option (\<lambda>(_, _, ref). ref) (ac_slots c ! idx)) })"

text \<open>The table has a power of two of slots, the index fits it, and at least half of it is empty.\<close>

definition ac_inv :: "AddressCache \<Rightarrow> bool" where
  "ac_inv c \<longleftrightarrow> (\<exists>b. length (ac_slots c) = 2 ^ b \<and> ac_shift c = 64 - b \<and>
     ac_used c = length (filter (\<lambda>s. s \<noteq> None) (ac_slots c)) \<and> ac_used c < 2 ^ b div 2)"

lemma countr_zero_power: "countr_zero (2 ^ b) = b"
proof (induction b)
  case 0
  show ?case by (subst countr_zero.simps) simp
next
  case (Suc b)
  then show ?case by (subst countr_zero.simps) simp
qed

lemma ac_new_inv: "ac_inv (ac_new capacity)"
proof -
  obtain b where b: "bit_ceil (capacity * 2 + 2) = 2 ^ b" using bit_ceil_power by blast
  have "capacity * 2 + 2 \<le> 2 ^ b" using bit_ceil_ge [of "capacity * 2 + 2"] unfolding b .
  then have "0 < (2::nat) ^ b div 2" by linarith
  then show ?thesis unfolding ac_inv_def ac_new_def b
    by (intro exI [of _ b]) (simp add: Let_def countr_zero_power)
qed

lemma ac_index_less:
  assumes "length (ac_slots c) = 2 ^ b" "ac_shift c = 64 - b"
  shows "ac_index c data < length (ac_slots c)"
proof -
  let ?w = "data * FIBONACCI_MULTIPLIER"
  have w: "unat ?w < 2 ^ 64" using unsigned_less [of ?w] by simp
  have "unat ?w div 2 ^ (64 - b) < 2 ^ b"
  proof (cases "b \<le> 64")
    case True
    then have "(2::nat) ^ 64 = 2 ^ b * 2 ^ (64 - b)" by (simp flip: power_add)
    with w show ?thesis by (simp add: less_mult_imp_div_less)
  next
    case False
    then have "(2::nat) ^ 64 \<le> 2 ^ b" by (intro power_increasing) auto
    with w False show ?thesis by simp
  qed
  moreover have "unat (drop_bit (64 - b) ?w) = unat ?w div 2 ^ (64 - b)"
    unfolding unat_drop_bit_eq by (simp only: drop_bit_eq_div)
  ultimately show ?thesis unfolding ac_index_def assms by simp
qed

text \<open>A probe that gives up has seen only occupied slots.\<close>

lemma ac_probe_None:
  assumes "length ss = 2 ^ b" "ac_probe ss data sz idx k = None" "idx < length ss" "j < k"
  shows "ss ! ((idx + j) mod length ss) \<noteq> None"
  using assms(2-)
proof (induction k arbitrary: idx j)
  case (Suc k)
  from Suc.prems obtain x where x: "ss ! idx = Some x"
    "ac_probe ss data sz (next_idx (length ss) idx) k = None"
    by (auto split: option.splits if_splits)
  have n: "next_idx (length ss) idx = (idx + 1) mod length ss" by (rule next_idx_mod [OF assms(1)])
  show ?case
  proof (cases j)
    case 0
    with x Suc.prems show ?thesis by simp
  next
    case (Suc i)
    have "(idx + 1) mod length ss < length ss" by (rule mod_length_less [OF Suc.prems(2)])
    with Suc.IH [of "(idx + 1) mod length ss" i] x(2) Suc.prems Suc n
    have "ss ! (((idx + 1) mod length ss + i) mod length ss) \<noteq> None" by simp
    then show ?thesis using Suc by (simp add: mod_simps)
  qed
qed simp

lemma ac_probe_Some:
  assumes "length ss = 2 ^ b" "ac_probe ss data sz idx k = Some i" "idx < length ss"
  shows "i < length ss \<and> (ss ! i = None \<or> (\<exists>r. ss ! i = Some (data, sz, r)))"
  using assms(2-)
proof (induction k arbitrary: idx)
  case (Suc k)
  have "next_idx (length ss) idx < length ss"
    unfolding next_idx_mod [OF assms(1)] by (rule mod_length_less [OF Suc.prems(2)])
  with Suc show ?case by (auto split: option.splits if_splits)
qed simp

lemma ac_probe_returns:
  assumes "ac_inv c"
  shows "\<exists>i. ac_probe (ac_slots c) data sz (ac_index c data) (length (ac_slots c)) = Some i \<and>
    i < length (ac_slots c) \<and>
    (ac_slots c ! i = None \<or> (\<exists>r. ac_slots c ! i = Some (data, sz, r)))"
proof -
  let ?ss = "ac_slots c" and ?i = "ac_index c data"
  obtain b where b: "length ?ss = 2 ^ b" "ac_shift c = 64 - b"
    "ac_used c = length (filter (\<lambda>s. s \<noteq> None) ?ss)" "ac_used c < 2 ^ b div 2"
    using assms by (auto simp: ac_inv_def)
  have i: "?i < length ?ss" by (rule ac_index_less [OF b(1,2)])
  have "ac_probe ?ss data sz ?i (length ?ss) \<noteq> None"
  proof
    assume none: "ac_probe ?ss data sz ?i (length ?ss) = None"
    have "?ss ! p \<noteq> None" if "p < length ?ss" for p
    proof -
      have "(?i + (p + length ?ss - ?i) mod length ?ss) mod length ?ss = p"
        using that i by (simp add: mod_simps)
      moreover have "(p + length ?ss - ?i) mod length ?ss < length ?ss" by (rule mod_length_less [OF i])
      ultimately show ?thesis using ac_probe_None [OF b(1) none i] by metis
    qed
    then have "filter (\<lambda>s. s \<noteq> None) ?ss = ?ss" by (auto simp: filter_id_conv in_set_conv_nth)
    with b show False by simp
  qed
  then show ?thesis using ac_probe_Some [OF b(1) _ i] by blast
qed

text \<open>What the cache knows; \<open>insert\<close> may add one entry, \<open>find\<close> answers from the entries.\<close>

definition ac_entries :: "AddressCache \<Rightarrow> (u64 \<times> nat \<times> StringRef) set" where
  "ac_entries c = {e. Some e \<in> set (ac_slots c)}"

lemma ac_insert_ok:
  assumes "ac_inv c"
  shows "\<exists>c'. ac_insert c data sz ref = Some c' \<and> ac_inv c' \<and>
    ac_entries c' \<subseteq> insert (data, sz, ref) (ac_entries c)"
proof (cases "data = 0 \<or> ac_used c + 1 \<ge> length (ac_slots c) div 2")
  case True
  with assms show ?thesis by (auto simp: ac_insert_def)
next
  case False
  obtain i where i: "ac_probe (ac_slots c) data sz (ac_index c data) (length (ac_slots c)) = Some i"
    "i < length (ac_slots c)"
    using ac_probe_returns [OF assms] by blast
  show ?thesis
  proof (cases "ac_slots c ! i")
    case None
    let ?c = "c\<lparr>ac_slots := (ac_slots c)[i := Some (data, sz, ref)], ac_used := ac_used c + 1\<rparr>"
    have "ac_inv ?c" using assms False None i by (auto simp: ac_inv_def length_filter_update)
    moreover have "ac_entries ?c \<subseteq> insert (data, sz, ref) (ac_entries c)"
      using set_update_subset_insert [of "ac_slots c" i "Some (data, sz, ref)"]
      by (auto simp: ac_entries_def)
    ultimately show ?thesis using False None i by (simp add: ac_insert_def)
  next
    case (Some e)
    with False i assms show ?thesis by (auto simp: ac_insert_def)
  qed
qed

lemma ac_find_ok:
  assumes "ac_inv c"
  shows "\<exists>res. ac_find c data sz = Some res \<and> (\<forall>ref. res = Some ref \<longrightarrow> data \<noteq> 0 \<and> (data, sz, ref) \<in> ac_entries c)"
proof (cases "data = 0")
  case False
  obtain i where i: "ac_probe (ac_slots c) data sz (ac_index c data) (length (ac_slots c)) = Some i"
    "i < length (ac_slots c)" "ac_slots c ! i = None \<or> (\<exists>r. ac_slots c ! i = Some (data, sz, r))"
    using ac_probe_returns [OF assms] by blast
  then have "(data, sz, r) \<in> ac_entries c" if "ac_slots c ! i = Some (data, sz, r)" for r
    using that by (auto simp: ac_entries_def in_set_conv_nth)
  with False i show ?thesis by (auto simp: ac_find_def)
qed (simp add: ac_find_def)

end
