(* ===== verification/RapidHash.thy ===== *)
theory RapidHash
  imports Bytes
begin

text \<open>
  The hash of include/cob/rapidhash.h, in the configuration the sources build
  (\<open>RAPIDHASH_COMPACT\<close>, \<open>RAPIDHASH_FAST\<close>, little endian), with \<open>uint64_t\<close> as
  64-bit words, so every product and difference wraps as in C. Reads through the buffer pointer
  are checked: a read that is not wholly inside the buffer is \<open>None\<close>, and
  \<open>rapidhash_reads_in_bounds\<close> shows that no input makes one.
\<close>

section \<open>Multiply and mix\<close>

definition rapid_secret :: "u64 list" where
  "rapid_secret =
     [0x2d358dccaa6c78a5, 0x8bb84b93962eacc9, 0x4b33a62ed433d4a3, 0x4d5a2da51de1aa47,
      0xa0761d6478bd642f, 0xe7037ed1a0b428db, 0x90ed1765281c388c, 0xaaaaaaaaaaaaaaaa]"

text \<open>The \<open>__uint128_t\<close> branch: the low and the high half of the 128-bit product.\<close>

definition rapid_mum :: "u64 \<Rightarrow> u64 \<Rightarrow> u64 \<times> u64" where
  "rapid_mum A B =
     (let r = ucast A * ucast B :: 128 word
      in (ucast r, ucast (drop_bit 64 r)))"

text \<open>The portable branch: four 32-bit products and two carries.\<close>

definition rapid_mum_portable :: "u64 \<Rightarrow> u64 \<Rightarrow> u64 \<times> u64" where
  "rapid_mum_portable A B =
     (let ha = drop_bit 32 A; hb = drop_bit 32 B;
          la = ucast (ucast A :: u32); lb = ucast (ucast B :: u32);
          rh = ha * hb; rm0 = ha * lb; rm1 = hb * la; rl = la * lb;
          t = rl + push_bit 32 rm0;
          c = (if t < rl then 1 else 0);
          lo = t + push_bit 32 rm1;
          c = c + (if lo < t then 1 else 0);
          hi = rh + drop_bit 32 rm0 + drop_bit 32 rm1 + c
      in (lo, hi))"

definition rapid_mix :: "u64 \<Rightarrow> u64 \<Rightarrow> u64" where
  "rapid_mix A B = (let (a, b) = rapid_mum A B in a XOR b)"

section \<open>Reads\<close>

definition rapid_read64 :: "string \<Rightarrow> nat \<Rightarrow> u64 option" where
  "rapid_read64 key p = (if p + 8 \<le> length key then Some (le_word (take 8 (drop p key))) else None)"

definition rapid_read32 :: "string \<Rightarrow> nat \<Rightarrow> u64 option" where
  "rapid_read32 key p = (if p + 4 \<le> length key then Some (le_word (take 4 (drop p key))) else None)"

definition read_byte :: "string \<Rightarrow> nat \<Rightarrow> u64 option" where
  "read_byte key p = (if p < length key then Some (ucast (byte_of (key ! p))) else None)"

section \<open>\<open>rapidhash_internal\<close>\<close>

text \<open>One lane: \<open>lane = rapid_mix(read64(p) ^ secret, read64(p + 8) ^ lane)\<close>.\<close>

definition mix_at :: "string \<Rightarrow> nat \<Rightarrow> u64 \<Rightarrow> u64 \<Rightarrow> u64 option" where
  "mix_at key p secret lane =
     do { x \<leftarrow> rapid_read64 key p; y \<leftarrow> rapid_read64 key (p + 8);
          Some (rapid_mix (x XOR secret) (y XOR lane)) }"

text \<open>The seven-lane loop over blocks of 112 bytes (\<open>do ... while (i > 112)\<close>).\<close>

function bulk_loop :: "string \<Rightarrow> nat \<Rightarrow> nat \<Rightarrow> u64 \<Rightarrow> u64 \<Rightarrow> u64 \<Rightarrow> u64 \<Rightarrow> u64 \<Rightarrow> u64 \<Rightarrow> u64
    \<Rightarrow> (nat \<times> nat \<times> u64 list) option" where
  "bulk_loop key p i seed see1 see2 see3 see4 see5 see6 =
     do { seed \<leftarrow> mix_at key p (rapid_secret ! 0) seed;
          see1 \<leftarrow> mix_at key (p + 16) (rapid_secret ! 1) see1;
          see2 \<leftarrow> mix_at key (p + 32) (rapid_secret ! 2) see2;
          see3 \<leftarrow> mix_at key (p + 48) (rapid_secret ! 3) see3;
          see4 \<leftarrow> mix_at key (p + 64) (rapid_secret ! 4) see4;
          see5 \<leftarrow> mix_at key (p + 80) (rapid_secret ! 5) see5;
          see6 \<leftarrow> mix_at key (p + 96) (rapid_secret ! 6) see6;
          if i - 112 > 112 then bulk_loop key (p + 112) (i - 112) seed see1 see2 see3 see4 see5 see6
          else Some (p + 112, i - 112, [seed, see1, see2, see3, see4, see5, see6]) }"
  by pat_completeness auto
termination
  by (relation "measure (\<lambda>(key, p, i, _). i)") auto

declare bulk_loop.simps [simp del]

text \<open>
  The same part under \<open>RAPIDHASH_UNROLLED\<close>: two blocks per turn while more than 224 bytes remain,
  then at most one more block. The seven lanes are a tuple.
\<close>

type_synonym lanes = "u64 \<times> u64 \<times> u64 \<times> u64 \<times> u64 \<times> u64 \<times> u64"

definition bulk_round :: "string \<Rightarrow> nat \<Rightarrow> lanes \<Rightarrow> lanes option" where
  "bulk_round key p s =
     (case s of (seed, see1, see2, see3, see4, see5, see6) \<Rightarrow>
        do { seed \<leftarrow> mix_at key p (rapid_secret ! 0) seed;
             see1 \<leftarrow> mix_at key (p + 16) (rapid_secret ! 1) see1;
             see2 \<leftarrow> mix_at key (p + 32) (rapid_secret ! 2) see2;
             see3 \<leftarrow> mix_at key (p + 48) (rapid_secret ! 3) see3;
             see4 \<leftarrow> mix_at key (p + 64) (rapid_secret ! 4) see4;
             see5 \<leftarrow> mix_at key (p + 80) (rapid_secret ! 5) see5;
             see6 \<leftarrow> mix_at key (p + 96) (rapid_secret ! 6) see6;
             Some (seed, see1, see2, see3, see4, see5, see6) })"

function bulk_unrolled :: "string \<Rightarrow> nat \<Rightarrow> nat \<Rightarrow> lanes \<Rightarrow> (nat \<times> nat \<times> lanes) option" where
  "bulk_unrolled key p i s =
     (if i > 224 then
        do { s \<leftarrow> bulk_round key p s; s \<leftarrow> bulk_round key (p + 112) s;
             bulk_unrolled key (p + 224) (i - 224) s }
      else if i > 112 then
        do { s \<leftarrow> bulk_round key p s; Some (p + 112, i - 112, s) }
      else Some (p, i, s))"
  by pat_completeness auto
termination
  by (relation "measure (\<lambda>(key, p, i, s). i)") auto

declare bulk_unrolled.simps [simp del]

text \<open>The tail: up to six more mixes, each behind its own length test.\<close>

definition tail_mix :: "string \<Rightarrow> nat \<Rightarrow> nat \<Rightarrow> u64 \<Rightarrow> u64 option" where
  "tail_mix key p i seed =
     (if i > 16 then mix_at key p (rapid_secret ! 2) seed \<bind> (\<lambda>seed.
      if i > 32 then mix_at key (p + 16) (rapid_secret ! 2) seed \<bind> (\<lambda>seed.
      if i > 48 then mix_at key (p + 32) (rapid_secret ! 1) seed \<bind> (\<lambda>seed.
      if i > 64 then mix_at key (p + 48) (rapid_secret ! 1) seed \<bind> (\<lambda>seed.
      if i > 80 then mix_at key (p + 64) (rapid_secret ! 2) seed \<bind> (\<lambda>seed.
      if i > 96 then mix_at key (p + 80) (rapid_secret ! 1) seed
      else Some seed) else Some seed) else Some seed) else Some seed) else Some seed)
      else Some seed)"

definition bulk_mix :: "string \<Rightarrow> nat \<Rightarrow> u64 \<Rightarrow> (nat \<times> nat \<times> u64) option" where
  "bulk_mix key len seed =
     (if len > 112 then
        do { (p, i, s) \<leftarrow> bulk_loop key 0 len seed seed seed seed seed seed seed;
             let seed = s ! 0 XOR s ! 1;
                 see2 = s ! 2 XOR s ! 3;
                 see4 = s ! 4 XOR s ! 5;
                 seed = seed XOR s ! 6;
                 see2 = see2 XOR see4;
                 seed = seed XOR see2
             in Some (p, i, seed) }
      else Some (0, len, seed))"

text \<open>The result is \<open>(a, b, i, seed)\<close> before the final multiplication.\<close>

definition rapid_absorb :: "string \<Rightarrow> u64 \<Rightarrow> (u64 \<times> u64 \<times> nat \<times> u64) option" where
  "rapid_absorb key seed =
     (let len = length key
      in if len \<le> 16 then
           if len \<ge> 4 then
             if len \<ge> 8 then
               do { a \<leftarrow> rapid_read64 key 0; b \<leftarrow> rapid_read64 key (len - 8);
                    Some (a, b, len, seed XOR of_nat len) }
             else
               do { a \<leftarrow> rapid_read32 key 0; b \<leftarrow> rapid_read32 key (len - 4);
                    Some (a, b, len, seed XOR of_nat len) }
           else if len > 0 then
             do { x \<leftarrow> read_byte key 0; y \<leftarrow> read_byte key (len - 1);
                  b \<leftarrow> read_byte key (len div 2);
                  Some (push_bit 45 x OR y, b, len, seed) }
           else Some (0, 0, len, seed)
         else
           do { (p, i, seed) \<leftarrow> bulk_mix key len seed;
                seed \<leftarrow> tail_mix key p i seed;
                a \<leftarrow> rapid_read64 key (p + i - 16);
                b \<leftarrow> rapid_read64 key (p + i - 8);
                Some (a XOR of_nat i, b, i, seed) })"

definition rapidhash_internal :: "string \<Rightarrow> u64 \<Rightarrow> u64 option" where
  "rapidhash_internal key seed =
     (let seed = seed XOR rapid_mix (seed XOR rapid_secret ! 2) (rapid_secret ! 1)
      in do { (a, b, i, seed) \<leftarrow> rapid_absorb key seed;
              let (a, b) = rapid_mum (a XOR rapid_secret ! 1) (b XOR seed)
              in Some (rapid_mix (a XOR rapid_secret ! 7) (b XOR rapid_secret ! 1 XOR of_nat i)) })"

text \<open>\<open>rapid_hash\<close> of include/cob/utils.hpp and \<open>StringViewHash\<close> of include/cob/flat_map.hpp.\<close>

definition rapid_hash :: "string \<Rightarrow> u64 \<Rightarrow> u64" where
  "rapid_hash sv seed = (case rapidhash_internal sv seed of Some h \<Rightarrow> h | None \<Rightarrow> 0)"

definition StringViewHash :: "string \<Rightarrow> u64" where
  "StringViewHash sv = rapid_hash sv 0"

section \<open>Every read is inside the buffer\<close>

lemma mix_at_returns: "p + 16 \<le> length key \<Longrightarrow> (\<And>r. P r) \<Longrightarrow> returns (mix_at key p secret lane) P"
  by (auto simp: mix_at_def rapid_read64_def)

lemma bulk_loop_returns:
  assumes "p + i = length key" "112 < i"
  shows "returns (bulk_loop key p i seed see1 see2 see3 see4 see5 see6)
    (\<lambda>(p', i', s). p' + i' = length key \<and> 0 < i')"
  using assms
proof (induction key p i seed see1 see2 see3 see4 see5 see6 rule: bulk_loop.induct)
  case (1 key p i seed see1 see2 see3 see4 see5 see6)
  have step: "\<exists>r. mix_at key (p + d) sec lane = Some r" if "d \<le> 96" for d sec lane
    using that "1.prems" mix_at_returns [of "p + d" key "\<lambda>_. True"] by (auto simp: returns_def)
  obtain s0 where s0: "mix_at key p (rapid_secret ! 0) seed = Some s0"
    using step [of 0] by auto
  obtain s1 where s1: "mix_at key (p + 16) (rapid_secret ! 1) see1 = Some s1" using step by fastforce
  obtain s2 where s2: "mix_at key (p + 32) (rapid_secret ! 2) see2 = Some s2" using step by fastforce
  obtain s3 where s3: "mix_at key (p + 48) (rapid_secret ! 3) see3 = Some s3" using step by fastforce
  obtain s4 where s4: "mix_at key (p + 64) (rapid_secret ! 4) see4 = Some s4" using step by fastforce
  obtain s5 where s5: "mix_at key (p + 80) (rapid_secret ! 5) see5 = Some s5" using step by fastforce
  obtain s6 where s6: "mix_at key (p + 96) (rapid_secret ! 6) see6 = Some s6" using step by fastforce
  have eq: "bulk_loop key p i seed see1 see2 see3 see4 see5 see6 =
     (if i - 112 > 112 then bulk_loop key (p + 112) (i - 112) s0 s1 s2 s3 s4 s5 s6
      else Some (p + 112, i - 112, [s0, s1, s2, s3, s4, s5, s6]))"
    by (subst bulk_loop.simps) (simp only: s0 s1 s2 s3 s4 s5 s6 Option.bind.simps)
  show ?case
  proof (cases "112 < i - 112")
    case True
    with "1.prems" have "p + 112 + (i - 112) = length key" by simp
    from "1.IH" [OF s0 s1 s2 s3 s4 s5 s6 True this True] True show ?thesis by (simp only: eq if_True)
  next
    case False
    with "1.prems" show ?thesis by (simp add: eq)
  qed
qed

lemma bulk_mix_returns:
  assumes "length key = len" "0 < len"
  shows "returns (bulk_mix key len seed) (\<lambda>(p, i, seed'). p + i = len \<and> 0 < i)"
proof (cases "112 < len")
  case True
  with assms bulk_loop_returns [of 0 len key seed seed seed seed seed seed seed] show ?thesis
    by (auto simp: bulk_mix_def returns_def Let_def)
qed (use assms in \<open>auto simp: bulk_mix_def\<close>)

lemma tail_mix_returns: "p + i = length key \<Longrightarrow> returns (tail_mix key p i seed) (\<lambda>_. True)"
  unfolding tail_mix_def by (auto intro!: returns_bind mix_at_returns)

lemma rapid_absorb_returns: "returns (rapid_absorb key seed) (\<lambda>_. True)"
proof (cases "length key \<le> 16")
  case True
  then show ?thesis
    by (auto simp: rapid_absorb_def rapid_read64_def rapid_read32_def read_byte_def Let_def)
next
  case False
  have "returns (bulk_mix key (length key) seed)
     (\<lambda>(p, i, seed). returns (tail_mix key p i seed) (\<lambda>_. True) \<and> p + i = length key)"
    by (rule returns_mono [OF bulk_mix_returns]) (use False in \<open>auto intro: tail_mix_returns\<close>)
  with False show ?thesis
    by (auto simp: rapid_absorb_def Let_def rapid_read64_def returns_def)
qed

lemma rapidhash_internal_Some: "rapidhash_internal key seed = Some (rapid_hash key seed)"
proof -
  obtain r where "rapid_absorb key (seed XOR rapid_mix (seed XOR rapid_secret ! 2) (rapid_secret ! 1)) = Some r"
    using rapid_absorb_returns unfolding returns_def by blast
  then have "\<exists>r. rapidhash_internal key seed = Some r"
    by (auto simp: rapidhash_internal_def Let_def split: prod.splits)
  then show ?thesis by (auto simp: rapid_hash_def)
qed

section \<open>The portable multiplication computes the 128-bit product\<close>

lemma unat_less64: "unat (x :: u64) < 2 ^ 64"
  using unsigned_less [of x] by simp

lemma unat_rapid_mum:
  "unat (fst (rapid_mum A B)) = unat A * unat B mod 2 ^ 64"
  "unat (snd (rapid_mum A B)) = unat A * unat B div 2 ^ 64"
proof -
  define N where "N = unat A * unat B"
  have "unat A * unat B < 2 ^ 64 * 2 ^ 64"
    by (rule mult_strict_mono [OF unat_less64 unat_less64]) simp_all
  then have less: "N < 2 ^ 128" unfolding N_def by simp
  have r: "unat (ucast A * ucast B :: 128 word) = N"
    using less unat_less64 [of A] unat_less64 [of B]
    by (simp add: unat_word_ariths unsigned_ucast_eq take_bit_nat_eq_self N_def)
  have "unat (fst (rapid_mum A B)) = take_bit 64 N"
    by (simp add: rapid_mum_def Let_def unsigned_ucast_eq r)
  then show "unat (fst (rapid_mum A B)) = unat A * unat B mod 2 ^ 64"
    by (simp only: take_bit_eq_mod N_def)
  have "N div 2 ^ 64 < 2 ^ 64" using less by (simp add: less_mult_imp_div_less)
  then have t: "take_bit 64 (N div 2 ^ 64) = N div 2 ^ 64" by (rule take_bit_nat_eq_self)
  have "unat (snd (rapid_mum A B)) = take_bit 64 (drop_bit 64 (take_bit 128 N))"
    by (simp only: rapid_mum_def Let_def snd_conv unsigned_ucast_eq unsigned_drop_bit_eq r) simp
  also have "\<dots> = N div 2 ^ 64" by (simp only: take_bit_nat_eq_self [OF less] drop_bit_eq_div t)
  finally show "unat (snd (rapid_mum A B)) = unat A * unat B div 2 ^ 64" by (simp only: N_def)
qed

text \<open>A carry chain of two additions, on natural numbers.\<close>

lemma carry_chain:
  fixes M :: nat
  assumes "rl < M" "x < M" "y < M"
    and t: "t = (rl + x) mod M" and lo: "lo = (t + y) mod M"
  shows "rl + x + y = lo + M * ((if t < rl then 1 else 0) + (if lo < t then 1 else 0))"
proof -
  have add: "a + b = (a + b) mod M + (if (a + b) mod M < a then M else 0)" if "a < M" "b < M" for a b
  proof (cases "a + b < M")
    case False
    then have "(a + b) mod M = a + b - M" using that by (simp add: le_mod_geq)
    with that False show ?thesis by simp
  qed (use that in simp)
  have "t < M" using assms by simp
  with add [OF this assms(3)] add [OF assms(1,2)] t lo show ?thesis by (simp split: if_splits)
qed

lemma halves:
  fixes A :: u64
  shows "unat (drop_bit 32 A) = unat A div 2 ^ 32"
    and "unat (ucast (ucast A :: u32) :: u64) = unat A mod 2 ^ 32"
    and "unat A div 2 ^ 32 < 2 ^ 32"
proof -
  show less: "unat A div 2 ^ 32 < 2 ^ 32" using unat_less64 [of A] by (simp add: less_mult_imp_div_less)
  show "unat (drop_bit 32 A) = unat A div 2 ^ 32"
    by (simp only: unsigned_drop_bit_eq take_bit_nat_eq_self [OF unsigned_less]
        drop_bit_eq_div [of 32 "unat A"])
  have "unat (ucast (ucast A :: u32) :: u64) = take_bit 64 (take_bit 32 (unat A))"
    by (simp only: unsigned_ucast_eq) (simp add: unsigned_take_bit_eq)
  then show "unat (ucast (ucast A :: u32) :: u64) = unat A mod 2 ^ 32"
    by (simp only: take_bit_take_bit take_bit_eq_mod) simp
qed

lemma unat_mult_halves:
  fixes x y :: u64
  assumes "unat x < 2 ^ 32" "unat y < 2 ^ 32"
  shows "unat (x * y) = unat x * unat y"
proof -
  have "unat x * unat y < 2 ^ 32 * 2 ^ 32" using assms by (intro mult_strict_mono) simp_all
  then show ?thesis by (simp add: unat_word_ariths)
qed

lemma unat_shift32:
  fixes x :: u64
  shows "unat (push_bit 32 x) = unat x mod 2 ^ 32 * 2 ^ 32"
proof -
  have "unat (push_bit 32 x) = take_bit 64 (push_bit 32 (unat x))"
    by (simp only: unsigned_push_bit_eq) simp
  also have "\<dots> = unat x * 2 ^ 32 mod (2 ^ 32 * 2 ^ 32)"
    by (simp only: push_bit_eq_mult take_bit_eq_mod) simp
  also have "\<dots> = unat x mod 2 ^ 32 * 2 ^ 32" by (rule mod_mult_mult2)
  finally show ?thesis .
qed

text \<open>The four partial products, as in the schoolbook scheme.\<close>

lemma schoolbook:
  fixes a1 a0 b1 b0 :: nat
  shows "(a1 * M + a0) * (b1 * M + b0) =
    M * M * (a1 * b1 + a1 * b0 div M + b1 * a0 div M) +
    (a0 * b0 + a1 * b0 mod M * M + b1 * a0 mod M * M)"
proof -
  have "M * M * (x div M) + x mod M * M = x * M" for x :: nat
  proof -
    have "M * M * (x div M) + x mod M * M = M * (M * (x div M) + x mod M)"
      by (simp only: distrib_left mult.assoc mult.commute)
    then show ?thesis by (simp add: mult.commute)
  qed
  from this [of "a1 * b0"] this [of "b1 * a0"] show ?thesis
    by (simp add: algebra_simps)
qed

lemma unat_sum4:
  fixes a b c d :: u64
  assumes "unat a + unat b + unat c + unat d < 2 ^ 64"
  shows "unat (a + b + c + d) = unat a + unat b + unat c + unat d"
proof -
  have "unat (a + b) = unat a + unat b"
    using assms by (simp add: unat_word_ariths)
  then have "unat (a + b + c) = unat a + unat b + unat c"
    using assms by (simp add: unat_word_ariths)
  then show ?thesis using assms by (simp add: unat_word_ariths)
qed

lemma rapid_mum_portable_unat:
  fixes A B :: u64
  defines "r \<equiv> rapid_mum_portable A B"
  shows "unat A * unat B = unat (fst r) + 2 ^ 64 * unat (snd r)"
proof -
  define a1 a0 b1 b0 where ab: "a1 = unat A div 2 ^ 32" "a0 = unat A mod 2 ^ 32"
    "b1 = unat B div 2 ^ 32" "b0 = unat B mod 2 ^ 32"
  have less: "a1 < 2 ^ 32" "a0 < 2 ^ 32" "b1 < 2 ^ 32" "b0 < 2 ^ 32"
    unfolding ab using halves(3) by simp_all
  define ha hb la lb :: u64 where w: "ha = drop_bit 32 A" "hb = drop_bit 32 B"
    "la = ucast (ucast A :: u32)" "lb = ucast (ucast B :: u32)"
  have u: "unat ha = a1" "unat hb = b1" "unat la = a0" "unat lb = b0"
    by (simp_all only: w ab halves(1,2))
  have p: "unat (ha * hb) = a1 * b1" "unat (ha * lb) = a1 * b0" "unat (hb * la) = b1 * a0"
    "unat (la * lb) = a0 * b0"
    using less u by (simp_all add: unat_mult_halves)
  define t lo :: u64 where tl: "t = la * lb + push_bit 32 (ha * lb)" "lo = t + push_bit 32 (hb * la)"
  define c :: u64 where c: "c = (if t < la * lb then 1 else 0) + (if lo < t then 1 else 0)"
  let ?x = "a1 * b0 mod 2 ^ 32 * 2 ^ 32" and ?y = "b1 * a0 mod 2 ^ 32 * 2 ^ 32"
  have r: "r = (lo, ha * hb + drop_bit 32 (ha * lb) + drop_bit 32 (hb * la) + c)"
    by (simp only: r_def rapid_mum_portable_def w tl c Let_def)
  have t: "unat t = (a0 * b0 + ?x) mod 2 ^ 64" and lo: "unat lo = (unat t + ?y) mod 2 ^ 64"
    using unat_word_ariths(1) [of "la * lb" "push_bit 32 (ha * lb)"]
      unat_word_ariths(1) [of t "push_bit 32 (hb * la)"]
    by (simp_all add: tl p unat_shift32)
  have "unat c = (if unat t < a0 * b0 then 1 else 0) + (if unat lo < unat t then 1 else 0)"
    by (simp add: c word_less_nat_alt p)
  with carry_chain [OF _ _ _ t lo] have chain: "a0 * b0 + ?x + ?y = unat lo + 2 ^ 64 * unat c"
    using unat_less64 [of "la * lb"] p by simp
  let ?h = "a1 * b1 + a1 * b0 div 2 ^ 32 + b1 * a0 div 2 ^ 32"
  have AB: "unat A = a1 * 2 ^ 32 + a0" "unat B = b1 * 2 ^ 32 + b0"
    unfolding ab by simp_all
  have prod: "unat A * unat B = 2 ^ 64 * (?h + unat c) + unat lo"
    unfolding AB schoolbook chain by simp
  have "unat A * unat B < 2 ^ 64 * 2 ^ 64"
    by (rule mult_strict_mono [OF unat_less64 unat_less64]) simp_all
  then have "2 ^ 64 * (?h + unat c) < 2 ^ 64 * 2 ^ (64::nat)" unfolding prod by linarith
  then have "?h + unat c < 2 ^ 64" by (simp only: mult_less_cancel1)
  then have "unat (snd r) = ?h + unat c"
    unfolding r snd_conv by (subst unat_sum4) (simp_all only: halves p)
  with prod show ?thesis by (simp add: r)
qed

section \<open>Properties\<close>

text \<open>The hash reads inside its buffer. For every key and seed, all of the 4-, 8- and 16-byte reads
  of \<open>rapidhash_internal\<close>, of the short-key branches, the 112-byte block loop and the tail, are
  within the key, and the block loop ends.\<close>

theorem rapidhash_reads_in_bounds: "rapidhash_internal key seed = Some (rapid_hash key seed)"
  by (rule rapidhash_internal_Some)

text \<open>The portable multiplication equals the 128-bit one. The branch with four 32-bit products and
  two carries returns the low and high halves of the same product, so the hash does not depend on
  which branch is compiled.\<close>

theorem rapid_mum_portable_eq: "rapid_mum_portable A B = rapid_mum A B"
proof -
  let ?r = "rapid_mum_portable A B"
  have less: "unat (fst ?r) < 2 ^ 64" "unat (snd ?r) < 2 ^ 64" by (rule unat_less64)+
  have "unat (fst ?r) = unat A * unat B mod 2 ^ 64" "unat (snd ?r) = unat A * unat B div 2 ^ 64"
    unfolding rapid_mum_portable_unat using less by simp_all
  then have "unat (fst ?r) = unat (fst (rapid_mum A B))" "unat (snd ?r) = unat (snd (rapid_mum A B))"
    by (simp_all only: unat_rapid_mum)
  then have "fst ?r = fst (rapid_mum A B)" "snd ?r = snd (rapid_mum A B)" by (simp_all only: unsigned_word_eqI)
  then show ?thesis by (rule prod_eqI)
qed

fun lanes_list :: "lanes \<Rightarrow> u64 list" where
  "lanes_list (a, b, c, d, e, f, g) = [a, b, c, d, e, f, g]"

lemma bulk_loop_round:
  "bulk_loop key p i a b c d e f g =
     do { s \<leftarrow> bulk_round key p (a, b, c, d, e, f, g);
          (case s of (a, b, c, d, e, f, g) \<Rightarrow>
             if i - 112 > 112 then bulk_loop key (p + 112) (i - 112) a b c d e f g
             else Some (p + 112, i - 112, lanes_list (a, b, c, d, e, f, g))) }"
  by (subst bulk_loop.simps) (simp add: bulk_round_def cong: if_cong)

lemma unrolled_compact:
  "map_option (\<lambda>(p, i, s). (p, i, lanes_list s)) (bulk_unrolled key p i s) =
     (case s of (a, b, c, d, e, f, g) \<Rightarrow>
        if i > 112 then bulk_loop key p i a b c d e f g else Some (p, i, lanes_list s))"
proof (induction key p i s rule: bulk_unrolled.induct)
  case (1 key p i s)
  obtain a b c d e f g where s: "s = (a, b, c, d, e, f, g)" by (cases s) auto
  consider "224 < i" | "112 < i" "\<not> 224 < i" | "\<not> 112 < i" by linarith
  then show ?case
  proof cases
    case 1
    have step: "map_option (\<lambda>(p, i, s). (p, i, lanes_list s)) (bulk_unrolled key (p + 224) (i - 224) s2) =
        (case s2 of (a, b, c, d, e, f, g) \<Rightarrow>
          if i - 224 > 112 then bulk_loop key (p + 224) (i - 224) a b c d e f g
          else Some (p + 224, i - 224, lanes_list s2))"
      if "bulk_round key p s = Some s1" "bulk_round key (p + 112) s1 = Some s2" for s1 s2
      using "1.IH" [OF 1 that] .
    show ?thesis
    proof (cases "bulk_round key p s")
      case None
      then show ?thesis using 1 s by (simp add: bulk_loop_round [of key p] bulk_unrolled.simps [of key p])
    next
      case (Some s1)
      obtain a1 b1 c1 d1 e1 f1 g1 where s1: "s1 = (a1, b1, c1, d1, e1, f1, g1)" by (cases s1) auto
      have l1: "bulk_loop key p i a b c d e f g = bulk_loop key (p + 112) (i - 112) a1 b1 c1 d1 e1 f1 g1"
      proof -
        have "112 < i - 112" using 1 by linarith
        with Some show ?thesis by (subst bulk_loop_round) (simp add: s [symmetric] s1)
      qed
      show ?thesis
      proof (cases "bulk_round key (p + 112) s1")
        case None
        then show ?thesis
          using 1 s Some l1 by (simp add: bulk_loop_round [of key "p + 112"] bulk_unrolled.simps [of key p] s1)
      next
        case s2: (Some s2)
        obtain a2 b2 c2 d2 e2 f2 g2 where s2': "s2 = (a2, b2, c2, d2, e2, f2, g2)" by (cases s2) auto
        have "bulk_loop key (p + 112) (i - 112) a1 b1 c1 d1 e1 f1 g1 =
            (if i - 224 > 112 then bulk_loop key (p + 224) (i - 224) a2 b2 c2 d2 e2 f2 g2
             else Some (p + 224, i - 224, lanes_list s2))"
          using s2 by (subst bulk_loop_round) (simp add: s1 [symmetric] s2' add.commute [of p])
        with step [OF Some s2] 1 s Some s2 l1 show ?thesis
          by (simp add: bulk_unrolled.simps [of key p] s2')
      qed
    qed
  next
    case 2
    then show ?thesis
      by (cases "bulk_round key p s")
        (auto simp: s bulk_unrolled.simps [of key p] bulk_loop_round [of key p] split: prod.splits)
  next
    case 3
    then show ?thesis by (simp add: s bulk_unrolled.simps [of key p])
  qed
qed

text \<open>The unrolled loop equals the compact one. On every key longer than 112 bytes the
  two-blocks-per-turn variant ends with the same position, the same rest and the same lanes, so
  the hash does not depend on \<open>RAPIDHASH_UNROLLED\<close>.\<close>

theorem bulk_unrolled_eq:
  assumes "112 < length key"
  shows "map_option (\<lambda>(p, i, s). (p, i, lanes_list s))
      (bulk_unrolled key 0 (length key) (seed, seed, seed, seed, seed, seed, seed)) =
    bulk_loop key 0 (length key) seed seed seed seed seed seed seed"
  using unrolled_compact [of key 0 "length key" "(seed, seed, seed, seed, seed, seed, seed)"] assms
  by simp

lemma bulk_unrolled_eq_witness:
  "map_option (\<lambda>(p, i, s). (p, i, lanes_list s))
      (bulk_unrolled (replicate 300 CHR ''a'') 0 300 (5, 5, 5, 5, 5, 5, 5)) =
    bulk_loop (replicate 300 CHR ''a'') 0 300 5 5 5 5 5 5 5"
  using bulk_unrolled_eq [of "replicate 300 CHR ''a''" 5] by simp

end
