(* ===== verification/Builder.thy ===== *)
theory Builder
  imports BuildGraph "HOL-Library.List_Lexorder" "HOL-Library.Char_ord"
begin

text \<open>
  \<open>COBBuilder\<close> (include/cob/builder.hpp): the build graph together with the definitions of a
  manifest. \<open>Definitions\<close> is a \<open>std::flat_map\<close>, a vector of pairs sorted by key; the order of
  keys is the lexicographic order of the character codes.
\<close>

section \<open>Definitions\<close>

type_synonym definitions = "(string \<times> string) list"

text \<open>\<open>emplace\<close> keeps an existing value, \<open>insert_or_assign\<close> replaces it.\<close>

fun defs_emplace :: "string \<Rightarrow> string \<Rightarrow> definitions \<Rightarrow> definitions" where
  "defs_emplace k v [] = [(k, v)]"
| "defs_emplace k v ((k', v') # ds) =
     (if k < k' then (k, v) # (k', v') # ds
      else if k = k' then (k', v') # ds
      else (k', v') # defs_emplace k v ds)"

fun defs_insert_or_assign :: "string \<Rightarrow> string \<Rightarrow> definitions \<Rightarrow> definitions" where
  "defs_insert_or_assign k v [] = [(k, v)]"
| "defs_insert_or_assign k v ((k', v') # ds) =
     (if k < k' then (k, v) # (k', v') # ds
      else if k = k' then (k', v) # ds
      else (k', v') # defs_insert_or_assign k v ds)"

definition defs_ok :: "definitions \<Rightarrow> bool" where
  "defs_ok ds \<longleftrightarrow> sorted_wrt (<) (map fst ds)"

lemma defs_emplace_keys: "set (map fst (defs_emplace k v ds)) = insert k (set (map fst ds))"
proof (induction ds)
  case (Cons d ds)
  then show ?case by (cases d; cases "k < fst d"; cases "k = fst d") auto
qed simp

lemma defs_assign_keys: "set (map fst (defs_insert_or_assign k v ds)) = insert k (set (map fst ds))"
proof (induction ds)
  case (Cons d ds)
  then show ?case by (cases d; cases "k < fst d"; cases "k = fst d") auto
qed simp

lemma defs_ok_emplace: "defs_ok ds \<Longrightarrow> defs_ok (defs_emplace k v ds)"
proof (induction ds)
  case (Cons d ds)
  then show ?case using defs_emplace_keys [of k v ds] by (cases d) (auto simp: defs_ok_def)
qed (simp add: defs_ok_def)

lemma defs_ok_assign: "defs_ok ds \<Longrightarrow> defs_ok (defs_insert_or_assign k v ds)"
proof (induction ds)
  case (Cons d ds)
  then show ?case using defs_assign_keys [of k v ds] by (cases d) (auto simp: defs_ok_def)
qed (simp add: defs_ok_def)

lemma map_of_emplace:
  "defs_ok ds \<Longrightarrow> map_of (defs_emplace k v ds) =
    (if k \<in> set (map fst ds) then map_of ds else (map_of ds)(k \<mapsto> v))"
proof (induction ds)
  case (Cons d ds)
  then show ?case by (cases d) (auto simp: defs_ok_def fun_upd_twist)
qed simp

lemma map_of_assign: "defs_ok ds \<Longrightarrow> map_of (defs_insert_or_assign k v ds) = (map_of ds)(k \<mapsto> v)"
proof (induction ds)
  case (Cons d ds)
  then show ?case by (cases d) (auto simp: defs_ok_def fun_upd_twist)
qed simp

section \<open>The builder\<close>

record COBBuilder =
  m_graph :: build_graph
  m_definitions :: definitions

definition new_builder :: "nat \<Rightarrow> COBBuilder" where
  "new_builder cap = \<lparr>m_graph = empty_graph cap, m_definitions = []\<rparr>"

definition builder_addStep ::
  "(string \<Rightarrow> u64) \<Rightarrow> (string \<Rightarrow> string option) \<Rightarrow> COBBuilder \<Rightarrow> build_step \<Rightarrow> (COBBuilder \<times> unit result) option" where
  "builder_addStep h read b bs =
     do { (g, res) \<leftarrow> addStep h read (m_graph b) bs;
          Some (b\<lparr>m_graph := g\<rparr>, case res of Inl e \<Rightarrow> unexpected e | Inr _ \<Rightarrow> expected ()) }"

definition addDefinition :: "COBBuilder \<Rightarrow> string \<Rightarrow> string \<Rightarrow> COBBuilder" where
  "addDefinition b key v = b\<lparr>m_definitions := defs_emplace key v (m_definitions b)\<rparr>"

definition overrideDefinition :: "COBBuilder \<Rightarrow> string \<Rightarrow> string \<Rightarrow> COBBuilder" where
  "overrideDefinition b key v = b\<lparr>m_definitions := defs_insert_or_assign key v (m_definitions b)\<rparr>"

text \<open>\<open>getDefinitionOf<std::string>\<close> and \<open>getDefinitionOf<std::vector<std::string>>\<close>
  (\<open>views::split\<close> of an empty range has no elements).\<close>

definition getDefinitionOf :: "COBBuilder \<Rightarrow> string \<Rightarrow> string" where
  "getDefinitionOf b key = (case map_of (m_definitions b) key of Some v \<Rightarrow> v | None \<Rightarrow> [])"

definition views_split :: "char \<Rightarrow> string \<Rightarrow> string list" where
  "views_split d s = (if s = [] then [] else split_on d s)"

definition getDefinitionVec :: "COBBuilder \<Rightarrow> string \<Rightarrow> string list" where
  "getDefinitionVec b key = views_split (CHR '' '') (getDefinitionOf b key)"

definition vec_unset :: "string list \<Rightarrow> bool" where
  "vec_unset v \<longleftrightarrow> v = [] \<or> (length v = 1 \<and> v ! 0 = [])"

definition getLinkerVec :: "COBBuilder \<Rightarrow> string list \<Rightarrow> string list" where
  "getLinkerVec b cxx_vec =
     (let linker_vec = getDefinitionVec b ''linker''
      in if vec_unset linker_vec then cxx_vec else linker_vec)"

text \<open>The default archiver outside of macOS and Windows.\<close>

definition getArchiverVec :: "COBBuilder \<Rightarrow> string list" where
  "getArchiverVec b =
     (let archiver_vec = getDefinitionVec b ''archiver''
      in if vec_unset archiver_vec then [''ar''] else archiver_vec)"

section \<open>Invariant\<close>

definition builder_ok :: "(string \<Rightarrow> u64) \<Rightarrow> COBBuilder \<Rightarrow> bool" where
  "builder_ok h b \<longleftrightarrow> graph_ok h (m_graph b) \<and> defs_ok (m_definitions b) \<and>
     list_all inputs_split (steps_m (m_graph b))"

lemma new_builder_ok: "builder_ok h (new_builder cap)"
  by (simp add: builder_ok_def new_builder_def empty_graph_ok defs_ok_def)

lemma addDefinition_ok: "builder_ok h b \<Longrightarrow> builder_ok h (addDefinition b k v)"
  by (simp add: builder_ok_def addDefinition_def defs_ok_emplace)

lemma overrideDefinition_ok: "builder_ok h b \<Longrightarrow> builder_ok h (overrideDefinition b k v)"
  by (simp add: builder_ok_def overrideDefinition_def defs_ok_assign)

lemma builder_addStep_ok:
  assumes "builder_ok h b" "new_step step"
  shows "returns (builder_addStep h read b step) (\<lambda>(b', r). builder_ok h b' \<and>
    m_definitions b' = m_definitions b)"
proof -
  have g: "graph_ok h (m_graph b)" using assms(1) by (simp add: builder_ok_def)
  obtain g' r where r: "addStep h read (m_graph b) step = Some (g', r)" "graph_ok h g'"
    "list_all inputs_split (steps_m g')"
    using addStep_split [OF g assms(2), of read] assms(1) by (auto simp: builder_ok_def)
  then show ?thesis
    using assms(1) by (simp add: builder_addStep_def builder_ok_def)
qed

text \<open>Definitions. The first definition of a name in a manifest wins, an override from the
  command line always wins, other names are not affected, and the keys stay sorted and unique.\<close>

theorem definitions_lookup:
  assumes "builder_ok h b"
  shows "builder_ok h (addDefinition b k v) \<and> builder_ok h (overrideDefinition b k v) \<and>
    map_of (m_definitions (addDefinition b k v)) =
      (case map_of (m_definitions b) k of None \<Rightarrow> (map_of (m_definitions b))(k \<mapsto> v)
       | Some _ \<Rightarrow> map_of (m_definitions b)) \<and>
    map_of (m_definitions (overrideDefinition b k v)) = (map_of (m_definitions b))(k \<mapsto> v)"
proof -
  have "defs_ok (m_definitions b)" using assms by (simp add: builder_ok_def)
  moreover have "k \<in> set (map fst (m_definitions b)) \<longleftrightarrow> map_of (m_definitions b) k \<noteq> None"
    by (simp add: map_of_eq_None_iff)
  ultimately show ?thesis
    using addDefinition_ok [OF assms] overrideDefinition_ok [OF assms]
    by (auto simp: addDefinition_def overrideDefinition_def map_of_emplace map_of_assign split: option.split)
qed

lemma definitions_lookup_witness:
  "getDefinitionVec (addDefinition (addDefinition (new_builder 4) ''cc'' ''gcc -O2'') ''cc'' ''clang'') ''cc''
     = [''gcc'', ''-O2''] \<and>
   getDefinitionOf (overrideDefinition (addDefinition (new_builder 4) ''cc'' ''gcc'') ''cc'' ''clang'') ''cc''
     = ''clang''"
proof -
  have ok: "builder_ok (\<lambda>_. 0) (addDefinition (new_builder 4) ''cc'' x)" for x
    by (rule addDefinition_ok [OF new_builder_ok])
  have "map_of (m_definitions (addDefinition (new_builder 4) ''cc'' x)) ''cc'' = Some x" for x
    by (simp add: addDefinition_def new_builder_def)
  with definitions_lookup [OF ok [of "''gcc -O2''"], where k = "''cc''" and v = "''clang''"]
    definitions_lookup [OF ok [of "''gcc''"], where k = "''cc''" and v = "''clang''"]
  show ?thesis
    by (simp add: getDefinitionVec_def getDefinitionOf_def views_split_def)
qed

end
