(* ===== verification/Formatting.thy ===== *)
theory Formatting
  imports Prelude
begin

text \<open>The pieces of \<open>std::format\<close> and \<open>std::to_chars\<close> that messages and outputs use.\<close>

text \<open>Decimal numbers, as \<open>std::format\<close> and \<open>std::to_chars\<close> write them.\<close>

fun decimal :: "nat \<Rightarrow> string" where
  "decimal n = (if n < 10 then [char_of (48 + n)] else decimal (n div 10) @ [char_of (48 + n mod 10)])"

declare decimal.simps [simp del]

definition decimal_int :: "int \<Rightarrow> string" where
  "decimal_int i = (if i < 0 then CHR ''-'' # decimal (nat (- i)) else decimal (nat i))"

definition pad15 :: "string \<Rightarrow> string" where
  "pad15 s = s @ replicate (15 - length s) (CHR '' '')"

text \<open>\<open>std::from_chars\<close> for \<open>size_t\<close>: the longest prefix of digits, whatever follows it; no digits,
  and a value that does not fit, are errors.\<close>

definition is_digit :: "char \<Rightarrow> bool" where
  "is_digit c \<longleftrightarrow> 48 \<le> (of_char c :: nat) \<and> (of_char c :: nat) \<le> 57"

definition digits_value :: "string \<Rightarrow> nat" where
  "digits_value s = foldl (\<lambda>n c. n * 10 + (of_char c - 48)) 0 s"

definition from_chars :: "string \<Rightarrow> nat option" where
  "from_chars s =
     (let digits = takeWhile is_digit s
      in if digits = [] \<or> digits_value digits \<ge> 2 ^ 64 then None else Some (digits_value digits))"

lemma of_char_digit: "n < 10 \<Longrightarrow> (of_char (char_of (48 + n :: nat)) :: nat) = 48 + n"
  by simp

lemma decimal_digits: "list_all is_digit (decimal n) \<and> decimal n \<noteq> [] \<and> digits_value (decimal n) = n"
proof (induction n rule: decimal.induct)
  case (1 n)
  show ?case
  proof (cases "n < 10")
    case True
    then have "decimal n = [char_of (48 + n)]" by (subst decimal.simps) simp
    with of_char_digit [OF True] True show ?thesis by (simp only: list.pred_inject is_digit_def digits_value_def) simp
  next
    case False
    then have d: "decimal n = decimal (n div 10) @ [char_of (48 + n mod 10)]" by (subst decimal.simps) simp
    have "(of_char (char_of (48 + n mod 10 :: nat)) :: nat) = 48 + n mod 10" by (rule of_char_digit) simp
    with 1 [OF False] d show ?thesis by (simp only: list_all_append list.pred_inject is_digit_def digits_value_def foldl_append) simp
  qed
qed

lemma from_chars_decimal:
  assumes "n < 2 ^ 64" "case rest of [] \<Rightarrow> True | c # _ \<Rightarrow> \<not> is_digit c"
  shows "from_chars (decimal n @ rest) = Some n"
proof -
  have "takeWhile is_digit rest = []" using assms(2) by (cases rest) simp_all
  then have "takeWhile is_digit (decimal n @ rest) = decimal n"
    using decimal_digits [of n] by (auto simp: takeWhile_append list_all_iff)
  with decimal_digits [of n] assms(1) show ?thesis by (simp add: from_chars_def)
qed

end
