(* ===== verification/Binary_Format.thy ===== *)
theory Binary_Format
  imports Codec String_Pool RapidHash Builder Formatting
begin

text \<open>
  The binary cache .catalyst.bin (src/binary.cpp): its records, \<open>emitBin\<close> with \<open>writeBinData\<close>, and
  \<open>parseBin\<close>. A file is the string of its bytes. What the operating system answers (open, writev,
  close, rename, and malloc) is a parameter; so is the address of every \<open>std::string_view\<close>, which
  the address cache of the writer looks at. A read outside of the mapped file is \<open>None\<close>.
\<close>

section \<open>Records\<close>

definition MAGIC :: string where
  "MAGIC = ''CATBL005''"

definition EXPECTED :: nat where
  "EXPECTED = 0x0102030405060708"

definition BYTE_REVERSED :: nat where
  "BYTE_REVERSED = 0x0807060504030201"

record BinHeader =
  bh_magic :: string
  endian_marker :: nat
  num_definitions :: nat
  num_nodes :: nat
  num_steps :: nat
  strings_size :: nat
  bh_checksum :: u64

definition put_header :: "BinHeader \<Rightarrow> string" where
  "put_header hdr = bh_magic hdr @ put_u64 (endian_marker hdr) @ put_u64 (num_definitions hdr) @
     put_u64 (num_nodes hdr) @ put_u64 (num_steps hdr) @ put_u64 (strings_size hdr) @ put_word (bh_checksum hdr)"

definition get_header :: "string \<Rightarrow> (BinHeader \<times> string) option" where
  "get_header s =
     do { (m, s) \<leftarrow> (if length s < 8 then None else Some (take 8 s, drop 8 s));
          (e, s) \<leftarrow> get_u64 s;
          (nd, s) \<leftarrow> get_u64 s;
          (nn, s) \<leftarrow> get_u64 s;
          (ns, s) \<leftarrow> get_u64 s;
          (ss, s) \<leftarrow> get_u64 s;
          (c, s) \<leftarrow> get_word s;
          Some (\<lparr>bh_magic = m, endian_marker = e, num_definitions = nd, num_nodes = nn, num_steps = ns,
                 strings_size = ss, bh_checksum = c\<rparr>, s) }"

definition header_fits :: "BinHeader \<Rightarrow> bool" where
  "header_fits hdr \<longleftrightarrow> length (bh_magic hdr) = 8 \<and> u64_fits (endian_marker hdr) \<and>
     u64_fits (num_definitions hdr) \<and> u64_fits (num_nodes hdr) \<and> u64_fits (num_steps hdr) \<and>
     u64_fits (strings_size hdr)"

interpretation header_codec: codec put_header get_header header_fits
  by standard (simp add: header_fits_def put_header_def get_header_def u64_codec.get_put word_codec.get_put)

definition put_ref :: "StringRef \<Rightarrow> string" where
  "put_ref r = put_u64 (ref_offset r) @ put_u64 (ref_len r)"

definition get_ref :: "string \<Rightarrow> (StringRef \<times> string) option" where
  "get_ref s =
     do { (off, s) \<leftarrow> get_u64 s; (len, s) \<leftarrow> get_u64 s; Some (\<lparr>ref_offset = off, ref_len = len\<rparr>, s) }"

definition ref_fits :: "StringRef \<Rightarrow> bool" where
  "ref_fits r \<longleftrightarrow> u64_fits (ref_offset r) \<and> u64_fits (ref_len r)"

interpretation ref_codec: fixed_codec put_ref get_ref ref_fits 16
  by standard (simp_all add: ref_fits_def put_ref_def get_ref_def u64_codec.get_put u64_codec.length_put)

record BinDefinition =
  bd_key :: StringRef
  bd_val :: StringRef

definition put_definition :: "BinDefinition \<Rightarrow> string" where
  "put_definition d = put_ref (bd_key d) @ put_ref (bd_val d)"

definition get_definition :: "string \<Rightarrow> (BinDefinition \<times> string) option" where
  "get_definition s = do { (k, s) \<leftarrow> get_ref s; (v, s) \<leftarrow> get_ref s; Some (\<lparr>bd_key = k, bd_val = v\<rparr>, s) }"

definition definition_fits :: "BinDefinition \<Rightarrow> bool" where
  "definition_fits d \<longleftrightarrow> ref_fits (bd_key d) \<and> ref_fits (bd_val d)"

interpretation definition_codec: fixed_codec put_definition get_definition definition_fits 32
  by standard (simp_all add: definition_fits_def put_definition_def get_definition_def ref_codec.get_put
    ref_codec.length_put)

text \<open>A node: its path, the step that produces it and the out-edges.\<close>

record BinNode =
  bn_path :: StringRef
  bn_step_id :: "nat option"
  bn_edges :: "nat list"

definition put_node :: "BinNode \<Rightarrow> string" where
  "put_node n = put_ref (bn_path n) @ put_opt (bn_step_id n) @ put_u64 (length (bn_edges n)) @
     concat (map put_u64 (bn_edges n))"

definition get_node :: "string \<Rightarrow> (BinNode \<times> string) option" where
  "get_node s =
     do { (p, s) \<leftarrow> get_ref s;
          (sid, s) \<leftarrow> get_opt s;
          (n, s) \<leftarrow> get_u64 s;
          (es, s) \<leftarrow> get_list get_u64 n s;
          Some (\<lparr>bn_path = p, bn_step_id = sid, bn_edges = es\<rparr>, s) }"

definition node_fits :: "BinNode \<Rightarrow> bool" where
  "node_fits n \<longleftrightarrow> ref_fits (bn_path n) \<and> opt_fits (bn_step_id n) \<and> u64_fits (length (bn_edges n)) \<and>
     list_all u64_fits (bn_edges n)"

interpretation node_codec: codec put_node get_node node_fits
  by standard (simp add: node_fits_def put_node_def get_node_def ref_codec.get_put opt_codec.get_put
    u64_codec.get_put u64_codec.get_list_put)

datatype ToolKind = CC_COMPILE | CXX_COMPILE | LINK | ARCHIVE | SHARED_LINK | INVALID

fun tool_code :: "ToolKind \<Rightarrow> nat" where
  "tool_code CC_COMPILE = 0"
| "tool_code CXX_COMPILE = 1"
| "tool_code LINK = 2"
| "tool_code ARCHIVE = 3"
| "tool_code SHARED_LINK = 4"
| "tool_code INVALID = 255"

definition toolKindFromString :: "string \<Rightarrow> ToolKind" where
  "toolKindFromString t =
     (if t = ''cc'' then CC_COMPILE
      else if t = ''cxx'' then CXX_COMPILE
      else if t = ''ld'' then LINK
      else if t = ''ar'' then ARCHIVE
      else if t = ''sld'' then SHARED_LINK
      else INVALID)"

text \<open>The argument is the byte of the file, which need not be the code of a kind.\<close>

definition stringFromToolKind :: "nat \<Rightarrow> string" where
  "stringFromToolKind code =
     (if code = tool_code CC_COMPILE then ''cc''
      else if code = tool_code CXX_COMPILE then ''cxx''
      else if code = tool_code LINK then ''ld''
      else if code = tool_code ARCHIVE then ''ar''
      else if code = tool_code SHARED_LINK then ''sld''
      else [])"

lemma tool_roundtrip:
  "toolKindFromString t \<noteq> INVALID \<Longrightarrow> stringFromToolKind (tool_code (toolKindFromString t)) = t"
  by (auto simp: toolKindFromString_def stringFromToolKind_def split: if_splits)

text \<open>The fixed part of a step; the last 7 bytes are padding.\<close>

record BinStepHeader =
  bs_inputs :: StringRef
  bs_output :: StringRef
  bs_extra_flags :: StringRef
  bs_command_hash :: u64
  bs_depfile_count :: "nat option"
  bs_tool :: nat

definition put_step_header :: "BinStepHeader \<Rightarrow> string" where
  "put_step_header s = put_ref (bs_inputs s) @ put_ref (bs_output s) @ put_ref (bs_extra_flags s) @
     put_word (bs_command_hash s) @ put_opt (bs_depfile_count s) @
     char_of (bs_tool s) # replicate 7 (CHR 0x00)"

definition get_step_header :: "string \<Rightarrow> (BinStepHeader \<times> string) option" where
  "get_step_header s =
     do { (i, s) \<leftarrow> get_ref s;
          (out, s) \<leftarrow> get_ref s;
          (x, s) \<leftarrow> get_ref s;
          (h, s) \<leftarrow> get_word s;
          (n, s) \<leftarrow> get_opt s;
          (if length s < 8 then None
           else Some (\<lparr>bs_inputs = i, bs_output = out, bs_extra_flags = x, bs_command_hash = h,
                       bs_depfile_count = n, bs_tool = of_char (s ! 0)\<rparr>, drop 8 s)) }"

definition step_header_fits :: "BinStepHeader \<Rightarrow> bool" where
  "step_header_fits s \<longleftrightarrow> ref_fits (bs_inputs s) \<and> ref_fits (bs_output s) \<and> ref_fits (bs_extra_flags s) \<and>
     opt_fits (bs_depfile_count s) \<and> bs_tool s < 256"

lemma drop_padding: "drop 8 (c # replicate 7 z @ rest) = rest"
  by (simp add: drop_Cons')

interpretation step_header_codec: fixed_codec put_step_header get_step_header step_header_fits 72
proof
  fix s :: BinStepHeader and rest
  assume "step_header_fits s"
  then show "get_step_header (put_step_header s @ rest) = Some (s, rest)"
    unfolding put_step_header_def get_step_header_def
    by (simp add: step_header_fits_def ref_codec.get_put word_codec.get_put opt_codec.get_put drop_padding)
next
  fix s :: BinStepHeader
  show "length (put_step_header s) = 72"
    by (simp add: put_step_header_def ref_codec.length_put word_codec.length_put opt_codec.length_put)
qed

definition calculateChecksum :: "BinHeader \<Rightarrow> string \<Rightarrow> u64" where
  "calculateChecksum hdr payload = rapid_hash payload (rapid_hash (put_header (hdr\<lparr>bh_checksum := 0\<rparr>)) 0)"

end
