(* ===== verification/Binary_Cache.thy ===== *)
theory Binary_Cache
  imports Binary_Format
begin

text \<open>
  The writer and the reader of the binary cache (src/binary.cpp): \<open>emitBin\<close>, \<open>writeBinData\<close> and
  \<open>parseBin\<close>.
\<close>

section \<open>The records of a graph\<close>

text \<open>Which string a \<open>std::string_view\<close> of the graph views: the path of a node, or a dependency file
  input of a step.\<close>

datatype view = NodePath nat | DepInput nat nat

record emitter =
  em_out :: string
  em_pool :: StringBuffer
  em_paths :: AddressCache

definition put_out :: "string \<Rightarrow> emitter \<Rightarrow> emitter" where
  "put_out bytes e = e\<lparr>em_out := em_out e @ bytes\<rparr>"

definition pool_add :: "(string \<Rightarrow> u64) \<Rightarrow> emitter \<Rightarrow> string \<Rightarrow> (StringRef \<times> emitter) option" where
  "pool_add h e s = do { (r, sb) \<leftarrow> sb_add h (em_pool e) s; Some (r, e\<lparr>em_pool := sb\<rparr>) }"

definition emit_definition :: "(string \<Rightarrow> u64) \<Rightarrow> emitter \<Rightarrow> string \<times> string \<Rightarrow> emitter option" where
  "emit_definition h e kv =
     do { (k, e) \<leftarrow> pool_add h e (fst kv);
          (v, e) \<leftarrow> pool_add h e (snd kv);
          Some (put_out (put_definition \<lparr>bd_key = k, bd_val = v\<rparr>) e) }"

definition emit_node :: "(string \<Rightarrow> u64) \<Rightarrow> (view \<Rightarrow> u64) \<Rightarrow> emitter \<Rightarrow> nat \<times> node \<Rightarrow> emitter option" where
  "emit_node h addr e inode =
     (case inode of (i, node) \<Rightarrow>
        do { (path_ref, e) \<leftarrow> pool_add h e (path node);
             paths \<leftarrow> ac_insert (em_paths e) (addr (NodePath i)) (length (path node)) path_ref;
             Some (put_out (put_node \<lparr>bn_path = path_ref, bn_step_id = step_id node,
                                      bn_edges = el_data (out_edges node)\<rparr>)
                     (e\<lparr>em_paths := paths\<rparr>)) })"

definition emit_depfile_input ::
  "(string \<Rightarrow> u64) \<Rightarrow> (view \<Rightarrow> u64) \<Rightarrow> nat \<Rightarrow> emitter \<Rightarrow> nat \<times> string \<Rightarrow> emitter option" where
  "emit_depfile_input h addr s e kinput =
     (case kinput of (k, input) \<Rightarrow>
        do { known \<leftarrow> ac_find (em_paths e) (addr (DepInput s k)) (length input);
             (ref, e) \<leftarrow> (case known of Some ref \<Rightarrow> Some (ref, e) | None \<Rightarrow> pool_add h e input);
             Some (put_out (put_ref ref) e) })"

definition emit_step :: "(string \<Rightarrow> u64) \<Rightarrow> (view \<Rightarrow> u64) \<Rightarrow> emitter \<Rightarrow> nat \<times> build_step \<Rightarrow> emitter option" where
  "emit_step h addr e istep =
     (case istep of (s, step) \<Rightarrow>
        do { (i, e) \<leftarrow> pool_add h e (inputs step);
             (out, e) \<leftarrow> pool_add h e (output_path step);
             (x, e) \<leftarrow> pool_add h e (extra_flags step);
             let e = put_out (put_step_header
                       \<lparr>bs_inputs = i, bs_output = out, bs_extra_flags = x,
                        bs_command_hash = command_hash step,
                        bs_depfile_count = (if di_has_value (depfile_inputs step)
                                            then Some (length (di_list (depfile_inputs step))) else None),
                        bs_tool = tool_code (toolKindFromString (tool step))\<rparr>) e
             in foldM (emit_depfile_input h addr s) e (List.enumerate 0 (di_list (depfile_inputs step))) })"

text \<open>The size of the buffer that is allocated for the records.\<close>

definition records_size :: "COBBuilder \<Rightarrow> nat" where
  "records_size b =
     length (m_definitions b) * 32 +
     (\<Sum>n \<leftarrow> nodes_m (m_graph b). 16 + 2 * 8 + length (el_data (out_edges n)) * 8) +
     (\<Sum>s \<leftarrow> steps_m (m_graph b). 72 + length (di_list (depfile_inputs s)) * 16)"

definition emit_records ::
  "(string \<Rightarrow> u64) \<Rightarrow> nat \<Rightarrow> (view \<Rightarrow> u64) \<Rightarrow> COBBuilder \<Rightarrow> emitter option" where
  "emit_records h map_capacity addr b =
     (let nodes = nodes_m (m_graph b); steps = steps_m (m_graph b); defs = m_definitions b
      in do { sb \<leftarrow> sb_reserve h (sb_new map_capacity) (length nodes + 2 * length steps + 2 * length defs);
              e \<leftarrow> foldM (emit_definition h)
                     \<lparr>em_out = [], em_pool = sb, em_paths = ac_new (length nodes)\<rparr> defs;
              e \<leftarrow> foldM (emit_node h addr) e (List.enumerate 0 nodes);
              foldM (emit_step h addr) e (List.enumerate 0 steps) })"

text \<open>The header and the payload: the records, then the string pool.\<close>

definition bin_header :: "COBBuilder \<Rightarrow> StringBuffer \<Rightarrow> string \<Rightarrow> BinHeader" where
  "bin_header b sb payload =
     (let hdr = \<lparr>bh_magic = MAGIC, endian_marker = EXPECTED, num_definitions = length (m_definitions b),
                 num_nodes = length (nodes_m (m_graph b)), num_steps = length (steps_m (m_graph b)),
                 strings_size = length (buffer_data sb), bh_checksum = 0\<rparr>
      in hdr\<lparr>bh_checksum := calculateChecksum hdr payload\<rparr>)"

definition bin_image ::
  "(string \<Rightarrow> u64) \<Rightarrow> nat \<Rightarrow> (view \<Rightarrow> u64) \<Rightarrow> COBBuilder \<Rightarrow> (BinHeader \<times> string) option" where
  "bin_image h map_capacity addr b =
     do { e \<leftarrow> emit_records h map_capacity addr b;
          let payload = em_out e @ buffer_data (em_pool e)
          in Some (bin_header b (em_pool e) payload, payload) }"

section \<open>Writing the file\<close>

datatype writev_answer = Written nat | Interrupted | WriteError

text \<open>Advancing the buffers after a partial write.\<close>

fun consume :: "nat \<Rightarrow> string list \<Rightarrow> string list" where
  "consume n [] = []"
| "consume n (b # bs) = (if n \<ge> length b then consume (n - length b) bs else drop n b # bs)"

text \<open>The loop around \<open>writev\<close>; \<open>None\<close> when the answers run out, that is, while the loop goes on.\<close>

fun write_loop :: "string list \<Rightarrow> writev_answer list \<Rightarrow> string \<Rightarrow> (string \<times> unit result) option" where
  "write_loop [] answers file = Some (file, expected ())"
| "write_loop (b # bs) [] file = None"
| "write_loop (b # bs) (Interrupted # answers) file = write_loop (b # bs) answers file"
| "write_loop (b # bs) (WriteError # answers) file =
     Some (file, unexpected ''Failed to write .catalyst.bin.tmp'')"
| "write_loop (b # bs) (Written n # answers) file =
     (if n = 0 then Some (file, unexpected ''Failed to write .catalyst.bin.tmp'')
      else write_loop (consume n (b # bs)) answers (file @ take n (concat (b # bs))))"

record os_answers =
  alloc_ok :: bool
  realloc_ok :: bool
  open_ok :: bool
  writes :: "writev_answer list"
  close_ok :: bool
  rename_error :: "string option"

type_synonym files = "string \<Rightarrow> string option"

abbreviation (input) BIN :: string where "BIN \<equiv> ''.catalyst.bin''"
abbreviation (input) BIN_TMP :: string where "BIN_TMP \<equiv> ''.catalyst.bin.tmp''"

definition writeBinData :: "os_answers \<Rightarrow> BinHeader \<Rightarrow> string \<Rightarrow> files \<Rightarrow> (files \<times> unit result) option" where
  "writeBinData os hdr payload fs =
     (if \<not> open_ok os then Some (fs, unexpected ''Failed to open .catalyst.bin.tmp for writing'')
      else
        do { (file, res) \<leftarrow> write_loop [put_header hdr, payload] (writes os) [];
             let fs = fs(BIN_TMP \<mapsto> file)
             in Some (fs, case res of
                            Inl e \<Rightarrow> unexpected e
                          | Inr _ \<Rightarrow> if \<not> close_ok os
                                    then unexpected ''Failed to close .catalyst.bin.tmp after writing''
                                    else expected ()) })"

definition invalid_tools :: "COBBuilder \<Rightarrow> string list" where
  "invalid_tools b = filter (\<lambda>t. toolKindFromString t = INVALID) (map tool (steps_m (m_graph b)))"

definition emitBin ::
  "(string \<Rightarrow> u64) \<Rightarrow> nat \<Rightarrow> (view \<Rightarrow> u64) \<Rightarrow> os_answers \<Rightarrow> COBBuilder \<Rightarrow> files \<Rightarrow> (files \<times> unit result) option" where
  "emitBin h map_capacity addr os b fs =
     (if invalid_tools b \<noteq> [] then
        Some (fs, unexpected (''Cannot emit .catalyst.bin: unsupported tool '' @
                              [CHR 0x27] @ hd (invalid_tools b) @ [CHR 0x27]))
      else if \<not> alloc_ok os then Some (fs, unexpected ''Cannot emit .catalyst.bin: out of memory'')
      else
        do { (hdr, payload) \<leftarrow> bin_image h map_capacity addr b;
             (if \<not> realloc_ok os then Some (fs, unexpected ''Cannot emit .catalyst.bin: out of memory'')
              else
                do { (fs, res) \<leftarrow> writeBinData os hdr payload fs;
                     (case res of
                        Inl e \<Rightarrow> Some (fs(BIN_TMP := None), unexpected e)
                      | Inr _ \<Rightarrow>
                          (case rename_error os of
                             Some e \<Rightarrow>
                               Some (fs, unexpected (''Failed to rename .catalyst.bin.tmp to .catalyst.bin: '' @ e))
                           | None \<Rightarrow> Some (fs(BIN := fs BIN_TMP, BIN_TMP := None), expected ()))) }) })"

section \<open>Reading the file\<close>

definition get_sv :: "string \<Rightarrow> StringRef \<Rightarrow> string option" where
  "get_sv strings r = (if ref_offset r + ref_len r \<le> length strings then Some (ref_view strings r) else None)"

text \<open>The checks of the header, in the order of the code. The result is the string pool.\<close>

definition parse_header :: "string \<Rightarrow> BinHeader \<Rightarrow> string result" where
  "parse_header content hdr =
     (if bh_magic hdr \<noteq> MAGIC then unexpected ''Invalid magic or version in .catalyst.bin''
      else if endian_marker hdr \<noteq> EXPECTED then
        (if endian_marker hdr = BYTE_REVERSED then unexpected ''Incompatible endianness in .catalyst.bin''
         else unexpected ''Invalid endianness marker in .catalyst.bin'')
      else if calculateChecksum hdr (drop 56 content) \<noteq> bh_checksum hdr
      then unexpected ''Checksum mismatch in .catalyst.bin''
      else if strings_size hdr > length content - 56
      then unexpected ''Malformed .catalyst.bin: strings_size too large''
      else expected (drop (length content - strings_size hdr) content))"

fun iterate :: "nat \<Rightarrow> ('s \<Rightarrow> 's option) \<Rightarrow> 's \<Rightarrow> 's option" where
  "iterate 0 f s = Some s"
| "iterate (Suc n) f s = f s \<bind> iterate n f"

definition parse_definition :: "string \<Rightarrow> string \<times> COBBuilder \<Rightarrow> (string \<times> COBBuilder) option" where
  "parse_definition strings st =
     (case st of (s, b) \<Rightarrow>
        do { (d, s) \<leftarrow> get_definition s;
             k \<leftarrow> get_sv strings (bd_key d);
             v \<leftarrow> get_sv strings (bd_val d);
             Some (s, addDefinition b k v) })"

type_synonym index_map = "(string, nat) flat_map"

definition parse_node ::
  "(string \<Rightarrow> u64) \<Rightarrow> string \<Rightarrow> string \<times> node list \<times> index_map \<Rightarrow> (string \<times> node list \<times> index_map) option" where
  "parse_node h strings st =
     (case st of (s, nodes, ix) \<Rightarrow>
        do { (n, s) \<leftarrow> get_node s;
             p \<leftarrow> get_sv strings (bn_path n);
             ix \<leftarrow> fm_emplace h ix p (length nodes);
             Some (s, nodes @ [\<lparr>path = p, out_edges = el_borrow (bn_edges n), step_id = bn_step_id n\<rparr>], ix) })"

definition parse_nodes ::
  "(string \<Rightarrow> u64) \<Rightarrow> nat \<Rightarrow> string \<Rightarrow> nat \<Rightarrow> string \<Rightarrow> (string \<times> node list \<times> index_map) option" where
  "parse_nodes h map_capacity strings n s =
     do { ix \<leftarrow> fm_reserve h (fm_new map_capacity) n;
          iterate n (parse_node h strings) (s, [], ix) }"

text \<open>A step: the fixed part, the borrowed references of its dependency file, and its inputs, which
  are split again by the same loop as in \<open>addStep\<close>.\<close>

definition parse_step :: "string \<Rightarrow> string \<Rightarrow> (string \<times> build_step) result option" where
  "parse_step strings s =
     do { (hdr, s) \<leftarrow> get_step_header s;
          let t = stringFromToolKind (bs_tool hdr)
          in if t = [] then
               Some (unexpected (''Malformed .catalyst.bin: invalid tool kind '' @ decimal (bs_tool hdr)))
             else
               do { (di, s) \<leftarrow>
                      (case bs_depfile_count hdr of
                         None \<Rightarrow> Some (di_empty, s)
                       | Some n \<Rightarrow> map_option (\<lambda>(refs, s). (di_borrow refs strings, s)) (get_list get_ref n s));
                    ins \<leftarrow> get_sv strings (bs_inputs hdr);
                    out \<leftarrow> get_sv strings (bs_output hdr);
                    x \<leftarrow> get_sv strings (bs_extra_flags hdr);
                    Some (expected (s, split_inputs ins
                      \<lparr>tool = t, inputs = ins, output_path = out, opaque_inputs = None, depfile_inputs = di,
                       parsed_inputs = [], extra_flags = x, command_hash = bs_command_hash hdr\<rparr>)) } }"

fun parse_steps :: "string \<Rightarrow> nat \<Rightarrow> string \<Rightarrow> build_step list \<Rightarrow> build_step list result option" where
  "parse_steps strings 0 s steps = Some (expected steps)"
| "parse_steps strings (Suc n) s steps =
     do { r \<leftarrow> parse_step strings s;
          (case r of
             Inl e \<Rightarrow> Some (unexpected e)
           | Inr (s, step) \<Rightarrow> parse_steps strings n s (steps @ [step])) }"

definition parseBin ::
  "(string \<Rightarrow> u64) \<Rightarrow> nat \<Rightarrow> string + string \<Rightarrow> COBBuilder \<Rightarrow> (COBBuilder \<times> unit result) option" where
  "parseBin h map_capacity file b =
     (case file of
        Inl what \<Rightarrow> Some (b, unexpected (''Failed to mmap .catalyst.bin: '' @ what))
      | Inr content \<Rightarrow>
          if length content < 56 then Some (b, unexpected ''Malformed .catalyst.bin: too small for header'')
          else
            do { (hdr, body) \<leftarrow> get_header content;
                 (case parse_header content hdr of
                    Inl e \<Rightarrow> Some (b, unexpected e)
                  | Inr strings \<Rightarrow>
                      do { (s, b) \<leftarrow> iterate (num_definitions hdr) (parse_definition strings) (body, b);
                           (s, nodes, ix) \<leftarrow> parse_nodes h map_capacity strings (num_nodes hdr) s;
                           r \<leftarrow> parse_steps strings (num_steps hdr) s [];
                           (case r of
                              Inl e \<Rightarrow> Some (b, unexpected e)
                            | Inr steps \<Rightarrow>
                                Some (b\<lparr>m_graph := \<lparr>nodes_m = nodes, steps_m = steps, index = ix\<rparr>\<rparr>, expected ())) }) })"

end
