(* ===== verification/Clean_Outputs.thy ===== *)
theory Clean_Outputs
  imports BuildGraph Binary_Cache
begin

text \<open>
  \<open>Executor::clean\<close> (src/executor.cpp) on Linux: the outputs to remove, and their removal in batches
  through \<open>io_uring\<close>, with the fallback to \<open>unlink\<close>. The ring answers as a parameter says: it can
  take fewer entries than it was given, be interrupted, fail to wait, complete the entries of a
  batch in any order and fail any of them.
\<close>

section \<open>What is removed\<close>

text \<open>\<open>step.tool[0] == 'c'\<close>; a step without a tool is no compile step here (the source reads the
  character behind the view, which in a manifest is the separator).\<close>

definition is_compile_step :: "build_step \<Rightarrow> bool" where
  "is_compile_step step \<longleftrightarrow> tool step \<noteq> [] \<and> hd (tool step) = CHR ''c''"

definition step_paths :: "bool \<Rightarrow> build_step \<Rightarrow> string list" where
  "step_paths cc_only step =
     (if cc_only \<and> \<not> is_compile_step step then []
      else output_path step # (if is_compile_step step then [output_path step @ ''.d''] else []))"

definition clean_paths :: "bool \<Rightarrow> build_graph \<Rightarrow> string list" where
  "clean_paths cc_only g = concat (map (step_paths cc_only) (steps_m g))"

section \<open>The system calls\<close>

abbreviation (input) EINTR :: int where "EINTR \<equiv> 4"
abbreviation (input) ENOENT :: int where "ENOENT \<equiv> 2"

text \<open>\<open>denied\<close>: the files that cannot be removed. \<open>ring_error\<close>: the error of the operation of the ring on
  a path that exists, beside that; 0 for none.\<close>

record unlinker =
  denied :: "string \<Rightarrow> bool"
  ring_error :: "string \<Rightarrow> int"

text \<open>The answers for one batch: of the calls of \<open>io_uring_submit\<close> and \<open>io_uring_wait_cqe_nr\<close>, and the
  order in which its entries complete.\<close>

record batch_answers =
  submits :: "int list"
  waits :: "int list"
  completed :: "nat list"

definition unlink :: "unlinker \<Rightarrow> string \<Rightarrow> files \<Rightarrow> files" where
  "unlink u p fs = (if denied u p then fs else fs(p := None))"

definition unlink_at :: "unlinker \<Rightarrow> string \<Rightarrow> files \<Rightarrow> files \<times> int" where
  "unlink_at u p fs =
     (if fs p = None then (fs, - ENOENT)
      else if ring_error u p < 0 \<and> ring_error u p \<noteq> - ENOENT then (fs, ring_error u p)
      else if denied u p then (fs, -13)
      else (fs(p := None), 0))"

definition unlinkSynchronously :: "unlinker \<Rightarrow> string list \<Rightarrow> files \<Rightarrow> files" where
  "unlinkSynchronously u paths fs = foldl (\<lambda>fs p. unlink u p fs) fs paths"

section \<open>\<open>unlinkWithIoUring\<close>\<close>

fun submit_loop :: "nat \<Rightarrow> int list \<Rightarrow> nat \<Rightarrow> nat option" where
  "submit_loop cnt [] submitted = (if submitted < cnt then None else Some submitted)"
| "submit_loop cnt (r # rs) submitted =
     (if submitted < cnt then
        if r = - EINTR then submit_loop cnt rs submitted
        else if r \<le> 0 then Some submitted
        else submit_loop cnt rs (submitted + nat r)
      else Some submitted)"

fun wait_loop :: "int list \<Rightarrow> int option" where
  "wait_loop [] = None"
| "wait_loop (r # rs) = (if r = - EINTR then wait_loop rs else Some r)"

text \<open>What the kernel does with the entries that were submitted, in the order of their completion: the
  files, and the completions with their user data and result.\<close>

fun complete :: "unlinker \<Rightarrow> string list \<Rightarrow> nat list \<Rightarrow> files \<Rightarrow> files \<times> (nat \<times> int) list" where
  "complete u paths [] fs = (fs, [])"
| "complete u paths (i # order) fs =
     (let (fs, res) = unlink_at u (paths ! i) fs; (fs, cs) = complete u paths order fs
      in (fs, (i, res) # cs))"

definition reap :: "unlinker \<Rightarrow> string list \<Rightarrow> (nat \<times> int) list \<Rightarrow> files \<Rightarrow> files" where
  "reap u paths completions fs =
     foldl (\<lambda>fs (i, res). if res < 0 \<and> res \<noteq> - ENOENT then unlink u (paths ! i) fs else fs) fs completions"

fun batches :: "nat \<Rightarrow> unlinker \<Rightarrow> string list \<Rightarrow> batch_answers list \<Rightarrow> nat \<Rightarrow> files \<Rightarrow> files option" where
  "batches depth u paths [] offset fs = (if offset < length paths then None else Some fs)"
| "batches depth u paths (a # answers) offset fs =
     (if offset < length paths then
        let remaining = length paths - offset;
            cnt = (if remaining < depth then remaining else depth)
        in do { submitted \<leftarrow> submit_loop cnt (submits a) 0;
                wait_result \<leftarrow> (if submitted > 0 then wait_loop (waits a) else Some 0);
                let (fs, completions) = complete u paths (completed a) fs
                in if submitted \<noteq> cnt \<or> wait_result < 0
                   then Some (unlinkSynchronously u (drop offset paths) fs)
                   else batches depth u paths answers (offset + cnt) (reap u paths completions fs) }
      else Some fs)"

definition unlinkWithIoUring ::
  "nat \<Rightarrow> bool \<Rightarrow> unlinker \<Rightarrow> batch_answers list \<Rightarrow> string list \<Rightarrow> files \<Rightarrow> files option" where
  "unlinkWithIoUring depth init_ok u answers paths fs =
     (if \<not> init_ok then Some (unlinkSynchronously u paths fs) else batches depth u paths answers 0 fs)"

definition clean ::
  "nat \<Rightarrow> bool \<Rightarrow> unlinker \<Rightarrow> batch_answers list \<Rightarrow> bool \<Rightarrow> build_graph \<Rightarrow> files \<Rightarrow>
    (files \<times> string list \<times> unit result) option" where
  "clean depth init_ok u answers cc_only g fs =
     do { fs \<leftarrow> unlinkWithIoUring depth init_ok u answers (clean_paths cc_only g) fs;
          Some (fs, [''Cleaning build artifacts...''], expected ()) }"

section \<open>Every output is gone\<close>

text \<open>The documented behaviour of the ring: the entries a batch completes are among those it submitted,
  which is all of them when it waited for all; and it answers every call in the end, a call of
  \<open>io_uring_submit\<close> that succeeds taking some of the entries that are left.\<close>

definition batch_ok :: "nat \<Rightarrow> nat \<Rightarrow> batch_answers \<Rightarrow> bool" where
  "batch_ok offset cnt a \<longleftrightarrow>
     set (completed a) \<subseteq> {offset..<offset + cnt} \<and>
     (submit_loop cnt (submits a) 0 = Some cnt \<and> (\<exists>r \<ge> 0. wait_loop (waits a) = Some r) \<longrightarrow>
        {offset..<offset + cnt} \<subseteq> set (completed a)) \<and>
     cnt < length (filter (\<lambda>r. r \<noteq> - EINTR) (submits a)) \<and> (\<exists>r \<in> set (waits a). r \<noteq> - EINTR)"

fun ring_ok_for :: "nat \<Rightarrow> nat \<Rightarrow> nat \<Rightarrow> batch_answers list \<Rightarrow> bool" where
  "ring_ok_for depth n offset [] \<longleftrightarrow> n \<le> offset"
| "ring_ok_for depth n offset (a # answers) \<longleftrightarrow>
     n \<le> offset \<or> batch_ok offset (min depth (n - offset)) a \<and> ring_ok_for depth n (offset + min depth (n - offset)) answers"

lemma batch_okD:
  assumes "batch_ok offset cnt a"
  shows "set (completed a) \<subseteq> {offset..<offset + cnt}"
    "submit_loop cnt (submits a) 0 = Some cnt \<Longrightarrow> wait_loop (waits a) = Some r \<Longrightarrow> 0 \<le> r \<Longrightarrow>
      {offset..<offset + cnt} \<subseteq> set (completed a)"
    "cnt < length (filter (\<lambda>r. r \<noteq> - EINTR) (submits a))" "\<exists>r \<in> set (waits a). r \<noteq> - EINTR"
  using assms unfolding batch_ok_def by blast+

lemma submit_loop_returns:
  "cnt < submitted + length (filter (\<lambda>r. r \<noteq> - EINTR) rs) \<Longrightarrow> submit_loop cnt rs submitted \<noteq> None"
  by (induction cnt rs submitted rule: submit_loop.induct) (auto simp: nat_less_iff)

lemma wait_loop_returns: "\<exists>r \<in> set rs. r \<noteq> - EINTR \<Longrightarrow> \<exists>r. wait_loop rs = Some r"
  by (induction rs) auto

text \<open>Files are removed, and only those of the list.\<close>

definition shrinks :: "string set \<Rightarrow> files \<Rightarrow> files \<Rightarrow> bool" where
  "shrinks ps fs fs' \<longleftrightarrow> (\<forall>p. fs' p = fs p \<or> p \<in> ps \<and> fs' p = None)"

lemma shrinks_refl [simp]: "shrinks ps fs fs"
  by (simp add: shrinks_def)

lemma shrinks_trans: "shrinks ps fs fs' \<Longrightarrow> shrinks ps fs' fs'' \<Longrightarrow> shrinks ps fs fs''"
  unfolding shrinks_def by metis

lemma shrinks_keeps_none: "shrinks ps fs fs' \<Longrightarrow> fs p = None \<Longrightarrow> fs' p = None"
  unfolding shrinks_def by metis

lemma shrinks_other: "shrinks ps fs fs' \<Longrightarrow> p \<notin> ps \<Longrightarrow> fs' p = fs p"
  unfolding shrinks_def by metis

lemma shrinks_unlink: "p \<in> ps \<Longrightarrow> shrinks ps fs (unlink u p fs)"
  by (simp add: shrinks_def unlink_def)

lemma shrinks_foldl:
  "(\<And>fs x. x \<in> set xs \<Longrightarrow> shrinks ps fs (f fs x)) \<Longrightarrow> shrinks ps fs (foldl f fs xs)"
  by (induction xs arbitrary: fs) (auto intro: shrinks_trans)

lemma shrinks_sync: "set paths \<subseteq> ps \<Longrightarrow> shrinks ps fs (unlinkSynchronously u paths fs)"
  unfolding unlinkSynchronously_def by (rule shrinks_foldl) (auto intro: shrinks_unlink)

lemma sync_removes: "p \<in> set paths \<Longrightarrow> \<not> denied u p \<Longrightarrow> unlinkSynchronously u paths fs p = None"
proof (induction paths arbitrary: fs)
  case (Cons q paths)
  have "shrinks (set paths) (unlink u q fs) (unlinkSynchronously u paths (unlink u q fs))"
    by (rule shrinks_sync) simp
  from shrinks_keeps_none [OF this, of p] Cons show ?case
    by (cases "p = q") (auto simp: unlinkSynchronously_def unlink_def)
qed simp

lemma complete_results:
  assumes "complete u paths order fs = (fs', cs)" "\<forall>i \<in> set order. i < length paths"
  shows "shrinks (set paths) fs fs' \<and> map fst cs = order \<and>
    (\<forall>(i, res) \<in> set cs. res < 0 \<and> res \<noteq> - ENOENT \<or> fs' (paths ! i) = None)"
  using assms
proof (induction order arbitrary: fs fs' cs)
  case (Cons i order)
  obtain fs1 res where u: "unlink_at u (paths ! i) fs = (fs1, res)" by fastforce
  obtain fs2 cs2 where c: "complete u paths order fs1 = (fs2, cs2)" by fastforce
  have step: "shrinks (set paths) fs fs1" "res < 0 \<and> res \<noteq> - ENOENT \<or> fs1 (paths ! i) = None"
    using u Cons.prems(2) by (auto simp: unlink_at_def shrinks_def split: if_splits)
  have rest: "shrinks (set paths) fs1 fs2" "map fst cs2 = order"
    "\<forall>(i, res) \<in> set cs2. res < 0 \<and> res \<noteq> - ENOENT \<or> fs2 (paths ! i) = None"
    using Cons.IH [OF c] Cons.prems(2) by auto
  have "fs' = fs2" "cs = (i, res) # cs2" using Cons.prems(1) u c by simp_all
  with rest step shrinks_trans [OF step(1) rest(1)] shrinks_keeps_none [OF rest(1)] show ?case by auto
qed simp

lemma reap_shrinks:
  "\<forall>(i, res) \<in> set cs. i < length paths \<Longrightarrow> shrinks (set paths) fs (reap u paths cs fs)"
  unfolding reap_def by (rule shrinks_foldl) (auto intro!: shrinks_unlink split: prod.splits)

lemma reap_removes:
  assumes "\<forall>(i, res) \<in> set cs. i < length paths" "(i, res) \<in> set cs" "\<not> denied u (paths ! i)"
    and "res < 0 \<and> res \<noteq> - ENOENT \<or> fs (paths ! i) = None"
  shows "reap u paths cs fs (paths ! i) = None"
  using assms
proof (induction cs arbitrary: fs)
  case (Cons c cs)
  let ?fs = "case c of (j, r) \<Rightarrow> if r < 0 \<and> r \<noteq> - ENOENT then unlink u (paths ! j) fs else fs"
  have fold: "reap u paths (c # cs) fs = reap u paths cs ?fs" by (simp add: reap_def split: prod.split)
  show ?case
  proof (cases "?fs (paths ! i) = None")
    case True
    have "shrinks (set paths) ?fs (reap u paths cs ?fs)" by (rule reap_shrinks) (use Cons.prems(1) in simp)
    from shrinks_keeps_none [OF this True] show ?thesis by (simp add: fold)
  next
    case False
    then have "c \<noteq> (i, res)" using Cons.prems(3,4) by (auto simp: unlink_def split: if_splits)
    moreover have "res < 0 \<and> res \<noteq> - ENOENT"
      using Cons.prems(4) False by (auto simp: unlink_def split: prod.splits if_splits)
    ultimately show ?thesis unfolding fold by (intro Cons.IH) (use Cons.prems in auto)
  qed
qed simp

lemma batches_clean:
  assumes "ring_ok_for depth (length paths) offset answers" "0 < depth"
    and "\<forall>i < offset. i < length paths \<longrightarrow> \<not> denied u (paths ! i) \<longrightarrow> fs (paths ! i) = None"
  shows "returns (batches depth u paths answers offset fs)
    (\<lambda>fs'. shrinks (set paths) fs fs' \<and> (\<forall>p \<in> set paths. \<not> denied u p \<longrightarrow> fs' p = None))"
  using assms
proof (induction answers arbitrary: offset fs)
  case Nil
  then show ?case by (auto simp: in_set_conv_nth)
next
  case (Cons a answers)
  show ?case
  proof (cases "offset < length paths")
    case False
    with Cons.prems(3) show ?thesis by (auto simp: in_set_conv_nth)
  next
    case True
    let ?c = "min depth (length paths - offset)"
    have cnt: "(if length paths - offset < depth then length paths - offset else depth) = ?c" by simp
    have ok: "batch_ok offset ?c a" "ring_ok_for depth (length paths) (offset + ?c) answers"
      using Cons.prems(1) True by auto
    have "set (completed a) \<subseteq> {offset..<offset + ?c}" by (rule batch_okD(1) [OF ok(1)])
    then have bound: "\<forall>i \<in> set (completed a). i < length paths" by fastforce
    obtain n where n: "submit_loop ?c (submits a) 0 = Some n"
      using submit_loop_returns [of ?c 0 "submits a"] batch_okD(3) [OF ok(1)] by auto
    obtain w where w: "(if n > 0 then wait_loop (waits a) else Some 0) = Some w"
      using wait_loop_returns [OF batch_okD(4) [OF ok(1)]] by (cases "n > 0") auto
    obtain fs1 cs where c: "complete u paths (completed a) fs = (fs1, cs)" by fastforce
    note results = complete_results [OF c bound]
    have shr: "shrinks (set paths) fs fs1" and order: "map fst cs = completed a"
      and done_at: "\<And>i res. (i, res) \<in> set cs \<Longrightarrow> res < 0 \<and> res \<noteq> - ENOENT \<or> fs1 (paths ! i) = None"
      using results by auto
    have "fst ` set cs = set (completed a)" using order by (metis list.set_map)
    then have "\<forall>c \<in> set cs. fst c < length paths" using bound by blast
    then have cs: "\<forall>(i, res) \<in> set cs. i < length paths" by auto
    have run: "batches depth u paths (a # answers) offset fs =
        (if n \<noteq> ?c \<or> w < 0 then Some (unlinkSynchronously u (drop offset paths) fs1)
         else batches depth u paths answers (offset + ?c) (reap u paths cs fs1))"
      using True n w c by (simp add: cnt Let_def del: min_def)
    show ?thesis
    proof (cases "n \<noteq> ?c \<or> w < 0")
      case True
      let ?fs = "unlinkSynchronously u (drop offset paths) fs1"
      have sync: "shrinks (set paths) fs1 ?fs" by (rule shrinks_sync) (rule set_drop_subset)
      have "?fs p = None" if p: "p \<in> set paths" "\<not> denied u p" for p
      proof -
        obtain i where i: "i < length paths" "p = paths ! i" using p(1) by (auto simp: in_set_conv_nth)
        show ?thesis
        proof (cases "i < offset")
          case True
          with Cons.prems(3) i p(2) have "fs p = None" by simp
          then show ?thesis by (rule shrinks_keeps_none [OF shrinks_trans [OF shr sync]])
        next
          case False
          with i have "p = drop offset paths ! (i - offset)" "i - offset < length (drop offset paths)" by simp_all
          then have "p \<in> set (drop offset paths)" by (metis nth_mem)
          then show ?thesis by (rule sync_removes) (rule p(2))
        qed
      qed
      with True shrinks_trans [OF shr sync] show ?thesis unfolding run by simp
    next
      case False
      let ?fs = "reap u paths cs fs1"
      have "0 < n" using False \<open>offset < length paths\<close> Cons.prems(2) by simp
      then have all: "{offset..<offset + ?c} \<subseteq> set (completed a)"
        using batch_okD(2) [OF ok(1), of w] w False n by simp
      have reaped: "shrinks (set paths) fs ?fs"
        by (rule shrinks_trans [OF shr reap_shrinks [OF cs]])
      have "?fs (paths ! i) = None" if i: "i < offset + ?c" "i < length paths" "\<not> denied u (paths ! i)" for i
      proof (cases "i < offset")
        case True
        with Cons.prems(3) i have "fs (paths ! i) = None" by simp
        then show ?thesis by (rule shrinks_keeps_none [OF reaped])
      next
        case False
        with i(1) all have "i \<in> set (completed a)" by auto
        then obtain res where "(i, res) \<in> set cs" unfolding order [symmetric] by auto
        from reap_removes [OF cs this i(3), of fs1] done_at [OF this] show ?thesis by simp
      qed
      with Cons.IH [OF ok(2) Cons.prems(2), of ?fs] have
        "returns (batches depth u paths answers (offset + ?c) ?fs)
          (\<lambda>fs'. shrinks (set paths) ?fs fs' \<and> (\<forall>p \<in> set paths. \<not> denied u p \<longrightarrow> fs' p = None))" by blast
      then have "returns (batches depth u paths answers (offset + ?c) ?fs)
          (\<lambda>fs'. shrinks (set paths) fs fs' \<and> (\<forall>p \<in> set paths. \<not> denied u p \<longrightarrow> fs' p = None))"
        by (rule returns_mono) (use shrinks_trans [OF reaped] in blast)
      with False show ?thesis unfolding run by simp
    qed
  qed
qed

text \<open>C36: Cleaning removes every output. Whatever the ring does - refuses to start, takes part of
  a batch, is interrupted, fails to wait, completes out of order, or fails single operations - as long
  as it answers every call in the end and completes entries it was given, all of them when it has waited
  for all: clean returns with success, and afterwards no output of a step, and no dependency file of a
  step whose tool begins with the letter c, is there, except those that the system does not allow to be
  removed; every other file is untouched. With -i all this is about the steps whose tool begins
  with c only, which is how the code tells a compile step, where its comment says cc and cxx.\<close>

theorem clean_removes_outputs:
  assumes "0 < depth" "ring_ok_for depth (length (clean_paths cc_only g)) 0 answers"
  shows "returns (clean depth init_ok u answers cc_only g fs) (\<lambda>(fs', printed, r).
    r = Inr () \<and> shrinks (set (clean_paths cc_only g)) fs fs' \<and>
    (\<forall>step \<in> set (steps_m g). (cc_only \<longrightarrow> is_compile_step step) \<longrightarrow>
      (\<not> denied u (output_path step) \<longrightarrow> fs' (output_path step) = None) \<and>
      (is_compile_step step \<and> \<not> denied u (output_path step @ ''.d'') \<longrightarrow> fs' (output_path step @ ''.d'') = None)))"
proof -
  let ?ps = "clean_paths cc_only g"
  have "returns (unlinkWithIoUring depth init_ok u answers ?ps fs)
      (\<lambda>fs'. shrinks (set ?ps) fs fs' \<and> (\<forall>p \<in> set ?ps. \<not> denied u p \<longrightarrow> fs' p = None))"
    using batches_clean [OF assms(2,1), of u fs] shrinks_sync [of ?ps "set ?ps" fs u] sync_removes [of _ ?ps u fs]
    by (auto simp: unlinkWithIoUring_def)
  then show ?thesis
    by (auto simp: clean_def returns_def clean_paths_def step_paths_def)
qed

text \<open>An example: one compile and one link step, a ring of two entries that is interrupted, completes
  its first batch backwards with an error, and refuses the second.\<close>

definition two_steps :: build_graph where
  "two_steps = \<lparr>nodes_m = [],
     steps_m = [\<lparr>tool = ''cc'', inputs = ''a.c'', output_path = ''a.o'', opaque_inputs = None, depfile_inputs = di_empty,
                  parsed_inputs = [''a.c''], extra_flags = [], command_hash = 0\<rparr>,
                \<lparr>tool = ''ld'', inputs = ''a.o'', output_path = ''app'', opaque_inputs = None, depfile_inputs = di_empty,
                  parsed_inputs = [''a.o''], extra_flags = [], command_hash = 0\<rparr>],
     index = fm_new 4\<rparr>"

lemma clean_removes_outputs_witness:
  "returns (clean 2 True \<lparr>denied = \<lambda>_. False, ring_error = \<lambda>p. if p = ''a.o'' then -22 else 0\<rparr>
      [\<lparr>submits = [-4, 1, 1, 0], waits = [-4, 2], completed = [1, 0]\<rparr>,
       \<lparr>submits = [-11, 0], waits = [0], completed = []\<rparr>] False two_steps
      [''a.c'' \<mapsto> ''c'', ''a.o'' \<mapsto> ''o'', ''a.o.d'' \<mapsto> ''d'', ''app'' \<mapsto> ''x''])
    (\<lambda>(fs', printed, r). r = Inr () \<and> fs' ''a.o'' = None \<and> fs' ''a.o.d'' = None \<and> fs' ''app'' = None \<and>
      fs' ''a.c'' = Some ''c'')"
proof -
  have paths: "clean_paths False two_steps = [''a.o'', ''a.o.d'', ''app'']" by code_simp
  have ok: "ring_ok_for 2 (length (clean_paths False two_steps)) 0
      [\<lparr>submits = [-4, 1, 1, 0], waits = [-4, 2], completed = [1, 0]\<rparr>,
       \<lparr>submits = [-11, 0], waits = [0], completed = []\<rparr>]"
    by (auto simp: paths batch_ok_def)
  have steps: "set (steps_m two_steps) = {steps_m two_steps ! 0, steps_m two_steps ! Suc 0}"
    "is_compile_step (steps_m two_steps ! 0)" "output_path (steps_m two_steps ! 0) = ''a.o''"
    "output_path (steps_m two_steps ! Suc 0) = ''app''"
    by (simp_all add: two_steps_def is_compile_step_def)
  show ?thesis
    by (rule returns_mono [OF clean_removes_outputs [OF _ ok]])
      (auto simp: paths steps dest: shrinks_other [where p = "''a.c''"])
qed

end
