(* ===== verification/Adjacency.thy ===== *)
theory Adjacency
  imports Prelude
begin

text \<open>
  Grouping a list of edges by target with a counting sort (the constructor of \<open>NodeTimes\<close> in
  src/executor.cpp): count the edges of each target, sum up the counts, and let a cursor per target
  fill the slices. The lemmas show that the slice of a target lists its sources in order.
\<close>

definition count_targets :: "nat list \<Rightarrow> nat list \<Rightarrow> nat list" where
  "count_targets = foldl (\<lambda>offsets out. offsets[out + 1 := offsets ! (out + 1) + 1])"

definition sum_offsets :: "nat \<Rightarrow> nat list \<Rightarrow> nat list" where
  "sum_offsets n offsets = foldl (\<lambda>offsets i. offsets[i + 1 := offsets ! (i + 1) + offsets ! i]) offsets [0..<n]"

definition fill_slices :: "nat list \<times> nat list \<Rightarrow> (nat \<times> nat) list \<Rightarrow> nat list \<times> nat list" where
  "fill_slices = foldl (\<lambda>(cursor, arr) (i, out). (cursor[out := cursor ! out + 1], arr[cursor ! out := i]))"

section \<open>Specification\<close>

text \<open>The edges are pairs of a source and a target.\<close>

definition sources_of :: "(nat \<times> nat) list \<Rightarrow> nat \<Rightarrow> nat list" where
  "sources_of es v = map fst (filter (\<lambda>e. snd e = v) es)"

definition edge_count :: "(nat \<times> nat) list \<Rightarrow> nat \<Rightarrow> nat" where
  "edge_count es v = length (sources_of es v)"

lemma sources_of_simps [simp]:
  "sources_of [] v = []" "sources_of ((u, w) # es) v = (if w = v then u # sources_of es v else sources_of es v)"
  "sources_of (es @ fs) v = sources_of es v @ sources_of fs v"
  by (auto simp: sources_of_def)

lemma edge_count_simps [simp]:
  "edge_count [] v = 0" "edge_count ((u, w) # es) v = (if w = v then 1 else 0) + edge_count es v"
  "edge_count (es @ fs) v = edge_count es v + edge_count fs v"
  by (auto simp: edge_count_def)

definition offset_of :: "(nat \<times> nat) list \<Rightarrow> nat \<Rightarrow> nat" where
  "offset_of es k = (\<Sum>v < k. edge_count es v)"

lemma offset_of_Suc: "offset_of es (Suc v) = offset_of es v + edge_count es v"
  by (simp add: offset_of_def)

lemma offset_of_mono: "v \<le> w \<Longrightarrow> offset_of es v \<le> offset_of es w"
  unfolding offset_of_def by (rule sum_mono2) auto

lemma offset_of_le: "v < w \<Longrightarrow> offset_of es v + edge_count es v \<le> offset_of es w"
  using offset_of_mono [of "Suc v" w es] by (simp add: offset_of_Suc)

section \<open>The three passes\<close>

lemma count_targets_ok:
  "\<forall>out \<in> set outs. out < n \<Longrightarrow> length offsets = n + 1 \<Longrightarrow>
   length (count_targets offsets outs) = n + 1 \<and> count_targets offsets outs ! 0 = offsets ! 0 \<and>
   (\<forall>v < n. count_targets offsets outs ! (v + 1) = offsets ! (v + 1) + count_list outs v)"
  by (induction outs arbitrary: offsets) (auto simp: count_targets_def nth_list_update)

lemma sum_offsets_ok:
  assumes "length offsets = n + 1" "offsets ! 0 = 0" "\<forall>v < n. offsets ! (v + 1) = edge_count es v"
  shows "length (sum_offsets n offsets) = n + 1 \<and> (\<forall>k \<le> n. sum_offsets n offsets ! k = offset_of es k)"
proof -
  let ?f = "\<lambda>offsets i. offsets[i + 1 := offsets ! (i + 1) + offsets ! i]"
  have "length (foldl ?f offsets [0..<m]) = n + 1 \<and>
      (\<forall>k \<le> m. foldl ?f offsets [0..<m] ! k = offset_of es k) \<and>
      (\<forall>k. m < k \<longrightarrow> foldl ?f offsets [0..<m] ! k = offsets ! k)" if "m \<le> n" for m
    using that
  proof (induction m)
    case 0
    then show ?case using assms by (auto simp: offset_of_def)
  next
    case (Suc m)
    then show ?case
      using assms(3) by (auto simp: nth_list_update le_Suc_eq offset_of_Suc)
  qed
  from this [of n] show ?thesis by (simp add: sum_offsets_def)
qed

definition fill_inv :: "nat \<Rightarrow> (nat \<times> nat) list \<Rightarrow> (nat \<times> nat) list \<Rightarrow> nat list \<times> nat list \<Rightarrow> bool" where
  "fill_inv n es seen st = (case st of (cursor, arr) \<Rightarrow>
     length cursor = n \<and> length arr = offset_of es n \<and>
     (\<forall>v < n. cursor ! v = offset_of es v + edge_count seen v \<and>
        (\<forall>k < edge_count seen v. arr ! (offset_of es v + k) = sources_of seen v ! k)))"

lemma fill_slices_step:
  assumes "fill_inv n es seen (cursor, arr)" "es = seen @ (u, w) # rest" "w < n"
  shows "fill_inv n es (seen @ [(u, w)]) (cursor[w := cursor ! w + 1], arr[cursor ! w := u])"
proof -
  have c: "cursor ! v = offset_of es v + edge_count seen v" if "v < n" for v
    using assms(1) that by (simp add: fill_inv_def)
  have le: "edge_count seen v \<le> edge_count es v" "edge_count seen w < edge_count es w" for v
    by (simp_all add: assms(2))
  have pos: "cursor ! w < offset_of es n"
    using c [OF assms(3)] le(2) offset_of_le [OF assms(3), of es] by simp
  have "arr[cursor ! w := u] ! (offset_of es v + k) = sources_of (seen @ [(u, w)]) v ! k"
    if v: "v < n" and k: "k < edge_count (seen @ [(u, w)]) v" for v k
  proof (cases "v = w \<and> k = edge_count seen w")
    case True
    then show ?thesis using c [OF assms(3)] pos assms(1)
      by (auto simp: fill_inv_def nth_append edge_count_def)
  next
    case False
    then have k': "k < edge_count seen v" using k by (auto split: if_splits)
    have "offset_of es v + k \<noteq> cursor ! w"
    proof (cases v w rule: linorder_cases)
      case less
      then show ?thesis using offset_of_le [OF less, of es] le(1) [of v] k' c [OF assms(3)] by simp
    next
      case equal
      then show ?thesis using k' c [OF assms(3)] by simp
    next
      case greater
      then show ?thesis using offset_of_le [OF greater, of es] le(2) c [OF assms(3)] by simp
    qed
    then show ?thesis
      using assms(1) v k' by (simp add: fill_inv_def nth_append edge_count_def)
  qed
  then show ?thesis
    using assms(1) c by (auto simp: fill_inv_def nth_list_update)
qed

lemma fill_slices_ok:
  assumes "\<forall>e \<in> set es. snd e < n" "length cursor = n" "\<forall>v < n. cursor ! v = offset_of es v"
    and "length arr = offset_of es n"
  shows "fill_inv n es es (fill_slices (cursor, arr) es)"
proof -
  have "fill_inv n es seen st \<Longrightarrow> es = seen @ rest \<Longrightarrow> fill_inv n es es (fill_slices st rest)" for seen rest st
  proof (induction rest arbitrary: seen st)
    case (Cons e rest)
    obtain u w where e: "e = (u, w)" by force
    obtain cursor arr where st: "st = (cursor, arr)" by force
    have "w < n" using assms(1) Cons.prems(2) e by auto
    then have "fill_inv n es (seen @ [(u, w)]) (cursor[w := cursor ! w + 1], arr[cursor ! w := u])"
      using fill_slices_step Cons.prems e st by blast
    then show ?case using Cons.IH [of "seen @ [(u, w)]"] Cons.prems(2) e st by (simp add: fill_slices_def)
  qed (simp add: fill_slices_def)
  from this [of "[]" "(cursor, arr)" es] show ?thesis using assms by (simp add: fill_inv_def)
qed

text \<open>The slice of each target.\<close>

lemma slice_sources:
  assumes "fill_inv n es es (cursor, arr)" "v < n"
  shows "map ((!) arr) [offset_of es v..<offset_of es (v + 1)] = sources_of es v"
proof (rule nth_equalityI)
  show "length (map ((!) arr) [offset_of es v..<offset_of es (v + 1)]) = length (sources_of es v)"
    by (simp add: offset_of_Suc edge_count_def)
  fix k assume "k < length (map ((!) arr) [offset_of es v..<offset_of es (v + 1)])"
  then have "k < edge_count es v" by (simp add: offset_of_Suc)
  then show "map ((!) arr) [offset_of es v..<offset_of es (v + 1)] ! k = sources_of es v ! k"
    using assms by (simp add: fill_inv_def offset_of_Suc)
qed

end
