(* ===== verification/Parser.thy ===== *)
theory Parser
  imports Builder
begin

text \<open>
  The manifest parser (src/parser.cpp): \<open>parseDEF\<close>, \<open>parseStep\<close> and the line loop of \<open>parse\<close>.
  A malformed line, or a step whose output has a producer, ends the parse with an error; what was
  added before stays in the builder. The part of \<open>parse\<close> that loads or writes the binary cache
  is in the theory of the cache.
\<close>

section \<open>Lines\<close>

definition parseDEF :: "string \<Rightarrow> COBBuilder \<Rightarrow> COBBuilder \<times> unit result" where
  "parseDEF line b =
     (case find_char (CHR ''|'') line of
        None \<Rightarrow> (b, unexpected (''Malformed def line (missing first pipe): '' @ line))
      | Some first_pipe \<Rightarrow>
          (case find_from (CHR ''|'') line (first_pipe + 1) of
             None \<Rightarrow> (b, unexpected (''Malformed def line (missing second pipe): '' @ line))
           | Some second_pipe \<Rightarrow>
               (addDefinition b (substr line (first_pipe + 1) (second_pipe - (first_pipe + 1)))
                  (substr_from line (second_pipe + 1)),
                expected ())))"

definition is_space_tab :: "char \<Rightarrow> bool" where
  "is_space_tab c \<longleftrightarrow> c = CHR '' '' \<or> c = TAB"

text \<open>The part after the third pipe, \<open>extra = value\<close>.\<close>

definition parse_extra :: "string \<Rightarrow> string \<Rightarrow> string result" where
  "parse_extra line extra_part =
     (if \<not> starts_with extra_part ''extra''
      then unexpected (''Malformed step extra part (must start with 'extra'): '' @ line)
      else
        let after_extra = substr_from extra_part 5
        in if after_extra = [] \<or> \<not> is_space_tab (hd after_extra)
           then unexpected (''Malformed step extra part (missing spacing before '='): '' @ line)
           else
             (case find_char (CHR ''='') after_extra of
                None \<Rightarrow> unexpected (''Malformed step extra part (missing '='): '' @ line)
              | Some eq_pos \<Rightarrow>
                  if list_ex (\<lambda>c. \<not> is_space_tab c) (substr after_extra 0 eq_pos)
                  then unexpected (''Malformed step extra part (invalid character before '='): '' @ line)
                  else
                    let after_eq = substr_from after_extra (eq_pos + 1)
                    in if after_eq = [] \<or> \<not> is_space_tab (hd after_eq)
                       then unexpected (''Malformed step extra part (missing spacing after '='): '' @ line)
                       else expected (dropWhile is_space_tab after_eq)))"

definition make_step :: "string \<Rightarrow> string \<Rightarrow> string \<Rightarrow> string \<Rightarrow> build_step" where
  "make_step t ins out extra =
     \<lparr>tool = t, inputs = ins, output_path = out, opaque_inputs = None, depfile_inputs = di_empty,
      parsed_inputs = [], extra_flags = extra, command_hash = 0\<rparr>"

definition step_of_line :: "string \<Rightarrow> build_step result" where
  "step_of_line line =
     (case find_char (CHR ''|'') line of
        None \<Rightarrow> unexpected (''Malformed step line (missing first pipe): '' @ line)
      | Some first_pipe \<Rightarrow>
          (case find_from (CHR ''|'') line (first_pipe + 1) of
             None \<Rightarrow> unexpected (''Malformed step line (missing second pipe): '' @ line)
           | Some second_pipe \<Rightarrow>
               let t = substr line 0 first_pipe;
                   ins = substr line (first_pipe + 1) (second_pipe - (first_pipe + 1))
               in (case find_from (CHR ''|'') line (second_pipe + 1) of
                     None \<Rightarrow> expected (make_step t ins (substr_from line (second_pipe + 1)) [])
                   | Some third_pipe \<Rightarrow>
                       (case parse_extra line (substr_from line (third_pipe + 1)) of
                          Inl e \<Rightarrow> unexpected e
                        | Inr extra \<Rightarrow>
                            expected (make_step t ins
                              (substr line (second_pipe + 1) (third_pipe - (second_pipe + 1))) extra)))))"

definition parseStep ::
  "(string \<Rightarrow> u64) \<Rightarrow> (string \<Rightarrow> string option) \<Rightarrow> string \<Rightarrow> COBBuilder \<Rightarrow> (COBBuilder \<times> unit result) option" where
  "parseStep h read line b =
     (case step_of_line line of
        Inl e \<Rightarrow> Some (b, unexpected e)
      | Inr step \<Rightarrow> builder_addStep h read b step)"

section \<open>The line loop\<close>

text \<open>One line of the manifest, without its newline.\<close>

definition strip_cr :: "string \<Rightarrow> string" where
  "strip_cr line = (if line \<noteq> [] \<and> last line = CR then butlast line else line)"

definition parse_line ::
  "(string \<Rightarrow> u64) \<Rightarrow> (string \<Rightarrow> string option) \<Rightarrow> string \<Rightarrow> COBBuilder \<Rightarrow> (COBBuilder \<times> unit result) option" where
  "parse_line h read line b =
     (let line = strip_cr line
      in if line = [] then Some (b, expected ())
         else if starts_with line ''#'' then Some (b, expected ())
         else if starts_with line ''DEF|'' then Some (parseDEF line b)
         else parseStep h read line b)"

text \<open>\<open>content.substr(start)\<close> is the argument; the loop stops at the first error.\<close>

function parse_lines ::
  "(string \<Rightarrow> u64) \<Rightarrow> (string \<Rightarrow> string option) \<Rightarrow> string \<Rightarrow> COBBuilder \<Rightarrow> (COBBuilder \<times> unit result) option" where
  "parse_lines h read content b =
     (if content = [] then Some (b, expected ())
      else
        let eol = (case find_char LF content of None \<Rightarrow> length content | Some e \<Rightarrow> e)
        in do { (b, res) \<leftarrow> parse_line h read (substr content 0 eol) b;
                (case res of
                   Inl e \<Rightarrow> Some (b, unexpected e)
                 | Inr _ \<Rightarrow> parse_lines h read (substr_from content (eol + 1)) b) })"
  by pat_completeness auto
termination
  by (relation "measure (\<lambda>(h, read, content, b). length content)") (auto simp: substr_from_def)

declare parse_lines.simps [simp del]

section \<open>Lines printed from their fields\<close>

text \<open>The lines of a manifest: what each kind holds, and its text.\<close>

datatype manifest_line =
    Blank
  | Comment string
  | Def string string
  | Step string string string
  | StepExtra string string string string

fun line_text :: "manifest_line \<Rightarrow> string" where
  "line_text Blank = []"
| "line_text (Comment s) = ''#'' @ s"
| "line_text (Def k v) = ''DEF|'' @ k @ ''|'' @ v"
| "line_text (Step t i out) = t @ ''|'' @ i @ ''|'' @ out"
| "line_text (StepExtra t i out e) = t @ ''|'' @ i @ ''|'' @ out @ ''|extra = '' @ e"

text \<open>Fields that do not contain the separators.\<close>

definition field :: "string \<Rightarrow> bool" where
  "field s \<longleftrightarrow> CHR ''|'' \<notin> set s \<and> LF \<notin> set s \<and> CR \<notin> set s"

definition tool_field :: "string \<Rightarrow> bool" where
  "tool_field t \<longleftrightarrow> field t \<and> t \<noteq> ''DEF'' \<and> \<not> starts_with t ''#''"

fun line_ok :: "manifest_line \<Rightarrow> bool" where
  "line_ok Blank = True"
| "line_ok (Comment s) = (LF \<notin> set s \<and> CR \<notin> set s)"
| "line_ok (Def k v) = (field k \<and> LF \<notin> set v \<and> CR \<notin> set v)"
| "line_ok (Step t i out) = (tool_field t \<and> field i \<and> field out)"
| "line_ok (StepExtra t i out e) =
     (tool_field t \<and> field i \<and> field out \<and> LF \<notin> set e \<and> CR \<notin> set e \<and> dropWhile is_space_tab e = e)"

text \<open>What each line does to the builder.\<close>

fun line_effect ::
  "(string \<Rightarrow> u64) \<Rightarrow> (string \<Rightarrow> string option) \<Rightarrow> manifest_line \<Rightarrow> COBBuilder \<Rightarrow> (COBBuilder \<times> unit result) option" where
  "line_effect h read Blank b = Some (b, expected ())"
| "line_effect h read (Comment s) b = Some (b, expected ())"
| "line_effect h read (Def k v) b = Some (addDefinition b k v, expected ())"
| "line_effect h read (Step t i out) b = builder_addStep h read b (make_step t i out [])"
| "line_effect h read (StepExtra t i out e) b = builder_addStep h read b (make_step t i out e)"

fun lines_effect ::
  "(string \<Rightarrow> u64) \<Rightarrow> (string \<Rightarrow> string option) \<Rightarrow> manifest_line list \<Rightarrow> COBBuilder \<Rightarrow> (COBBuilder \<times> unit result) option" where
  "lines_effect h read [] b = Some (b, expected ())"
| "lines_effect h read (l # ls) b =
     do { (b, res) \<leftarrow> line_effect h read l b;
          (case res of Inl e \<Rightarrow> Some (b, unexpected e) | Inr _ \<Rightarrow> lines_effect h read ls b) }"

lemma find_from_skip:
  assumes "c \<notin> set ys"
  shows "find_from c (xs @ d # ys @ c # zs) (Suc (length xs)) = Some (Suc (length xs) + length ys)"
  using find_char_append [OF assms, of zs] by (simp add: find_from_def)

lemma find_from_none:
  assumes "c \<notin> set ys"
  shows "find_from c (xs @ d # ys) (Suc (length xs)) = None"
  using assms by (simp add: find_from_def)

lemma starts_with_DEF:
  assumes "CHR ''|'' \<notin> set t"
  shows "starts_with (t @ CHR ''|'' # r) ''DEF|'' \<longleftrightarrow> t = ''DEF''"
proof (cases t)
  case (Cons a t1)
  show ?thesis
  proof (cases t1)
    case (Cons b t2)
    show ?thesis
    proof (cases t2)
      case (Cons c t3)
      with \<open>t = _\<close> \<open>t1 = _\<close> assms show ?thesis by (cases t3) (auto simp: starts_with_def)
    qed (use \<open>t = _\<close> Cons in \<open>auto simp: starts_with_def\<close>)
  qed (use Cons in \<open>auto simp: starts_with_def\<close>)
qed (simp add: starts_with_def)

lemma starts_with_hash:
  "starts_with (t @ CHR ''|'' # r) ''#'' \<longleftrightarrow> starts_with t ''#''"
  by (cases t) (auto simp: starts_with_def)

lemma parse_extra_text: "dropWhile is_space_tab e = e \<Longrightarrow> parse_extra line (''extra = '' @ e) = expected e"
  by (simp add: parse_extra_def starts_with_def substr_from_def substr_def is_space_tab_def Let_def)

lemma step_of_line_fields:
  assumes n: "CHR ''|'' \<notin> set t" "CHR ''|'' \<notin> set i" "CHR ''|'' \<notin> set out"
  shows "step_of_line (t @ ''|'' @ i @ ''|'' @ out) = expected (make_step t i out [])"
    and "step_of_line (t @ ''|'' @ i @ ''|'' @ out @ ''|'' @ p) =
      (case parse_extra (t @ ''|'' @ i @ ''|'' @ out @ ''|'' @ p) p of
         Inl e \<Rightarrow> unexpected e | Inr e \<Rightarrow> expected (make_step t i out e))"
proof -
  have 1: "find_char (CHR ''|'') (t @ CHR ''|'' # r) = Some (length t)" for r
    by (rule find_char_append [OF n(1)])
  have 2: "find_from (CHR ''|'') (t @ CHR ''|'' # i @ CHR ''|'' # r) (Suc (length t)) =
      Some (Suc (length t) + length i)" for r
    by (rule find_from_skip [OF n(2)])
  have 3: "find_from (CHR ''|'') (t @ CHR ''|'' # i @ CHR ''|'' # out) (Suc (Suc (length t) + length i)) = None"
    using find_from_none [OF n(3), of "t @ CHR ''|'' # i"] by simp
  have 4: "find_from (CHR ''|'') (t @ CHR ''|'' # i @ CHR ''|'' # out @ CHR ''|'' # r)
      (Suc (Suc (length t) + length i)) = Some (Suc (Suc (length t) + length i) + length out)" for r
    using find_from_skip [OF n(3), of "t @ CHR ''|'' # i"] by simp
  show "step_of_line (t @ ''|'' @ i @ ''|'' @ out) = expected (make_step t i out [])"
    using 1 2 3 by (simp add: step_of_line_def Let_def substr_def substr_from_def)
  have 5: "substr_from (t @ CHR ''|'' # i @ CHR ''|'' # out @ CHR ''|'' # r)
      (Suc (Suc (Suc (length t) + length i) + length out)) = r" for r
  proof -
    let ?P = "t @ CHR ''|'' # i @ CHR ''|'' # out @ [CHR ''|'']"
    have "drop (length ?P) (?P @ r) = r" by (metis append_eq_conv_conj)
    then show ?thesis unfolding substr_from_def by simp
  qed
  show "step_of_line (t @ ''|'' @ i @ ''|'' @ out @ ''|'' @ p) =
      (case parse_extra (t @ ''|'' @ i @ ''|'' @ out @ ''|'' @ p) p of
         Inl e \<Rightarrow> unexpected e | Inr e \<Rightarrow> expected (make_step t i out e))"
    using 1 2 4 5 by (simp add: step_of_line_def Let_def substr_def split: sum.split)
qed

lemma step_of_line_text:
  assumes "field t" "field i" "field out"
  shows "step_of_line (t @ ''|'' @ i @ ''|'' @ out) = expected (make_step t i out [])"
    and "dropWhile is_space_tab e = e \<Longrightarrow>
      step_of_line (t @ ''|'' @ i @ ''|'' @ out @ ''|extra = '' @ e) = expected (make_step t i out e)"
proof -
  have n: "CHR ''|'' \<notin> set t" "CHR ''|'' \<notin> set i" "CHR ''|'' \<notin> set out"
    using assms by (auto simp: field_def)
  show "step_of_line (t @ ''|'' @ i @ ''|'' @ out) = expected (make_step t i out [])"
    by (rule step_of_line_fields(1) [OF n])
  assume "dropWhile is_space_tab e = e"
  then show "step_of_line (t @ ''|'' @ i @ ''|'' @ out @ ''|extra = '' @ e) = expected (make_step t i out e)"
    using step_of_line_fields(2) [OF n, of "''extra = '' @ e"] parse_extra_text [of e]
    by simp
qed

lemma parseDEF_text:
  assumes "field k"
  shows "parseDEF (''DEF|'' @ k @ ''|'' @ v) b = (addDefinition b k v, expected ())"
proof -
  have n: "CHR ''|'' \<notin> set k" using assms by (simp add: field_def)
  show ?thesis
    using find_from_skip [OF n, of "''DEF''" "CHR ''|''" v]
    by (simp add: parseDEF_def substr_def substr_from_def)
qed

lemma parse_line_text:
  assumes "line_ok l" "cr \<in> {[], [CR]}"
  shows "parse_line h read (line_text l @ cr) b = line_effect h read l b"
proof -
  have "CR \<notin> set (line_text l)" using assms(1) by (cases l) (auto simp: field_def tool_field_def)
  then have strip: "strip_cr (line_text l @ cr) = line_text l"
    using assms(2) by (auto simp: strip_cr_def) (metis last_in_set)
  show ?thesis
  proof (cases l)
    case (Step t i out)
    with assms(1) have "field t" "field i" "field out" "t \<noteq> ''DEF''" "\<not> starts_with t ''#''" "CHR ''|'' \<notin> set t"
      by (auto simp: tool_field_def field_def)
    then show ?thesis
      using strip step_of_line_text(1) [of t i out] starts_with_DEF [of t] starts_with_hash [of t] Step
      by (simp add: parse_line_def Let_def parseStep_def)
  next
    case (StepExtra t i out e)
    with assms(1) have "field t" "field i" "field out" "t \<noteq> ''DEF''" "\<not> starts_with t ''#''" "CHR ''|'' \<notin> set t"
      "dropWhile is_space_tab e = e"
      by (auto simp: tool_field_def field_def)
    then show ?thesis
      using strip step_of_line_text(2) [of t i out e] starts_with_DEF [of t] starts_with_hash [of t] StepExtra
      by (simp add: parse_line_def Let_def parseStep_def)
  next
    case (Def k v)
    with assms(1) strip parseDEF_text [of k v b] show ?thesis
      by (simp add: parse_line_def Let_def starts_with_def)
  qed (use strip in \<open>simp_all add: parse_line_def Let_def starts_with_def\<close>)
qed

section \<open>The parser reads manifests\<close>

text \<open>A manifest: lines ended by LF or CRLF, and a last line that need not be ended.\<close>

fun manifest_text :: "(manifest_line \<times> bool) list \<Rightarrow> manifest_line \<Rightarrow> string" where
  "manifest_text [] l = line_text l"
| "manifest_text ((l', crlf) # ls) l =
     line_text l' @ (if crlf then [CR] else []) @ LF # manifest_text ls l"

lemma line_text_LF: "line_ok l \<Longrightarrow> LF \<notin> set (line_text l)"
  by (cases l) (auto simp: field_def tool_field_def)

lemma parse_lines_one:
  assumes "LF \<notin> set s" "s \<noteq> []"
  shows "parse_lines h read s b = parse_line h read s b"
proof -
  have "parse_lines h read s b = parse_line h read s b \<bind>
      (\<lambda>(b, res). case res of Inl e \<Rightarrow> Some (b, unexpected e) | Inr _ \<Rightarrow> Some (b, expected ()))"
    using assms
    by (subst parse_lines.simps)
      (simp add: Let_def substr_def substr_from_def find_char_None [THEN iffD2] parse_lines.simps)
  then show ?thesis by (cases "parse_line h read s b") (auto split: sum.splits)
qed

lemma parse_lines_LF:
  assumes "LF \<notin> set s"
  shows "parse_lines h read (s @ LF # r) b = parse_line h read s b \<bind> (\<lambda>(b, res).
    case res of Inl e \<Rightarrow> Some (b, unexpected e) | Inr _ \<Rightarrow> parse_lines h read r b)"
  using assms
  by (subst parse_lines.simps) (simp add: Let_def find_char_append substr_def substr_from_def)

text \<open>C22: Reading back a manifest. Parsing the text of any sequence of definitions, steps (with or
  without extra flags), comments and blank lines, with LF or CRLF ends, performs exactly the
  corresponding builder operations in order, up to the first step that fails.\<close>

theorem manifest_roundtrip:
  assumes "\<forall>(l, crlf) \<in> set ls. line_ok l" "line_ok l"
  shows "parse_lines h read (manifest_text ls l) b = lines_effect h read (map fst ls @ [l]) b"
  using assms(1)
proof (induction ls arbitrary: b)
  case Nil
  have one: "line_effect h read l b = parse_line h read (line_text l) b"
    using parse_line_text [OF assms(2), of "[]"] by simp
  have pass: "lines_effect h read [l] b = line_effect h read l b"
    by (cases "line_effect h read l b") (auto split: sum.split)
  show ?case
  proof (cases "line_text l = []")
    case True
    then show ?thesis unfolding list.map append_Nil pass one by (simp add: parse_lines.simps parse_line_def strip_cr_def)
  next
    case False
    show ?thesis
      unfolding list.map append_Nil pass one manifest_text.simps parse_lines_one [OF line_text_LF [OF assms(2)] False] ..
  qed
next
  case (Cons lc ls)
  obtain l' crlf where lc: "lc = (l', crlf)" by (cases lc)
  then have ok: "line_ok l'" using Cons.prems by auto
  let ?cr = "if crlf then [CR] else []"
  have "LF \<notin> set (line_text l' @ ?cr)" using line_text_LF [OF ok] by auto
  from parse_lines_LF [OF this, of h read "manifest_text ls l" b]
  have "parse_lines h read (manifest_text (lc # ls) l) b = line_effect h read l' b \<bind> (\<lambda>(b, res).
      case res of Inl e \<Rightarrow> Some (b, unexpected e) | Inr _ \<Rightarrow> parse_lines h read (manifest_text ls l) b)"
    using parse_line_text [OF ok, of ?cr] by (simp add: lc)
  moreover have "\<And>b. parse_lines h read (manifest_text ls l) b = lines_effect h read (map fst ls @ [l]) b"
    using Cons by auto
  ultimately show ?case
    by (cases "line_effect h read l' b") (auto simp: lc split: sum.splits)
qed

lemma manifest_roundtrip_witness:
  "parse_lines (\<lambda>_. 7) (\<lambda>_. None) (''DEF|cc|gcc -O2'' @ [CR, LF] @ ''# x'' @ [LF] @ ''DEF|cc|clang'') (new_builder 4)
     = Some (addDefinition (addDefinition (new_builder 4) ''cc'' ''gcc -O2'') ''cc'' ''clang'', Inr ())"
  using manifest_roundtrip [of "[(Def ''cc'' ''gcc -O2'', True), (Comment '' x'', False)]" "Def ''cc'' ''clang''"
      "\<lambda>_. 7" "\<lambda>_. None" "new_builder 4"]
  by (simp add: field_def)

section \<open>Every manifest\<close>

lemma make_step_new: "new_step (make_step t i out e)"
  by (simp add: new_step_def make_step_def)

lemma step_of_line_make: "step_of_line line = Inr step \<Longrightarrow> \<exists>t i out e. step = make_step t i out e"
  by (auto simp: step_of_line_def Let_def split: option.splits sum.splits)

lemma parseStep_ok:
  assumes "builder_ok h b"
  shows "returns (parseStep h read line b) (\<lambda>(b', r). builder_ok h b')"
proof (cases "step_of_line line")
  case (Inl e)
  with assms show ?thesis by (simp add: parseStep_def)
next
  case (Inr step)
  then have "new_step step" using step_of_line_make make_step_new by blast
  from builder_addStep_ok [OF assms this, of read] Inr show ?thesis
    by (auto simp: parseStep_def elim!: returns_mono)
qed

lemma parse_line_ok:
  assumes "builder_ok h b"
  shows "returns (parse_line h read line b) (\<lambda>(b', r). builder_ok h b')"
  using parseStep_ok [OF assms] assms
  by (auto simp: parse_line_def Let_def parseDEF_def addDefinition_ok split: option.split)

text \<open>An invariant of \<open>parse_line\<close> carries over to the loop, which always ends.\<close>

lemma parse_lines_invariant:
  assumes line: "\<And>line b. I b \<Longrightarrow> returns (parse_line h read line b) (\<lambda>(b', r). I b')" and b: "I b"
  shows "returns (parse_lines h read content b) (\<lambda>(b', r). I b')"
  using b
proof (induction "length content" arbitrary: content b rule: less_induct)
  case less
  show ?case
  proof (cases "content = []")
    case True
    then show ?thesis using less.prems by (simp add: parse_lines.simps)
  next
    case False
    define eol where "eol = (case find_char LF content of None \<Rightarrow> length content | Some e \<Rightarrow> e)"
    obtain b1 r1 where b1: "parse_line h read (substr content 0 eol) b = Some (b1, r1)" "I b1"
      using line [OF less.prems, of "substr content 0 eol"] by (auto simp: returns_def)
    have "parse_lines h read content b =
        (case r1 of Inl e \<Rightarrow> Some (b1, unexpected e) | Inr _ \<Rightarrow> parse_lines h read (substr_from content (eol + 1)) b1)"
      using False b1(1)
      by (subst parse_lines.simps) (simp add: eol_def [symmetric] Let_def split: sum.split)
    moreover have "length (substr_from content (eol + 1)) < length content"
      using False by (simp add: substr_from_def)
    ultimately show ?thesis using less.hyps [OF _ b1(2)] b1(2) by (simp split: sum.split)
  qed
qed

lemma parse_lines_returns:
  "builder_ok h b \<Longrightarrow> returns (parse_lines h read content b) (\<lambda>(b', r). builder_ok h b')"
  by (rule parse_lines_invariant [where I = "builder_ok h"]) (rule parse_line_ok)

text \<open>C15: Any input is parsed safely. Whatever bytes the manifest and the dependency files hold, the
  parser returns, and the builder it leaves, also after an error, is well-formed: its graph
  satisfies the graph invariant, its definitions are sorted, and the inputs of every step are the
  segments of its input field.\<close>

theorem parse_lines_ok:
  assumes "builder_ok h b"
  shows "returns (parse_lines h read content b) (\<lambda>(b', r). builder_ok h b')"
  by (rule parse_lines_returns [OF assms])

lemma parse_lines_ok_witness:
  "returns (parse_lines (\<lambda>_. 7) (\<lambda>_. Some ''a.o: x.h'') (''cc|a.c|a.o'' @ [LF] @ ''broken'') (new_builder 4))
     (\<lambda>(b', r). builder_ok (\<lambda>_. 7) b')"
  by (rule parse_lines_ok [OF new_builder_ok])

text \<open>The part after the third pipe.\<close>

definition extra_part :: "string \<Rightarrow> string \<Rightarrow> bool" where
  "extra_part p e \<longleftrightarrow> (\<exists>sp c v. p = ''extra'' @ sp @ ''='' @ c # v \<and> sp \<noteq> [] \<and>
     list_all is_space_tab sp \<and> is_space_tab c \<and> e = dropWhile is_space_tab v)"

lemma starts_with_split: "starts_with s p \<longleftrightarrow> (\<exists>r. s = p @ r)"
  unfolding starts_with_def by (metis append_eq_conv_conj append_take_drop_id)

lemma find_char_split: "find_char c s = Some p \<longleftrightarrow> (\<exists>xs ys. s = xs @ c # ys \<and> c \<notin> set xs \<and> p = length xs)"
proof
  assume "find_char c s = Some p"
  then have p: "p < length s" "s ! p = c" "c \<notin> set (take p s)" by (auto simp: find_char_Some)
  then have "s = take p s @ c # drop (Suc p) s" using id_take_nth_drop [OF p(1)] by simp
  with p show "\<exists>xs ys. s = xs @ c # ys \<and> c \<notin> set xs \<and> p = length xs"
    by (intro exI [of _ "take p s"] exI [of _ "drop (Suc p) s"]) simp
qed (auto simp: find_char_append)

lemma parse_extra_after:
  "parse_extra line (''extra'' @ r) =
     (if r = [] \<or> \<not> is_space_tab (hd r)
      then unexpected (''Malformed step extra part (missing spacing before '='): '' @ line)
      else
        (case find_char (CHR ''='') r of
           None \<Rightarrow> unexpected (''Malformed step extra part (missing '='): '' @ line)
         | Some eq_pos \<Rightarrow>
             if \<not> list_all is_space_tab (take eq_pos r)
             then unexpected (''Malformed step extra part (invalid character before '='): '' @ line)
             else if drop (eq_pos + 1) r = [] \<or> \<not> is_space_tab (hd (drop (eq_pos + 1) r))
                  then unexpected (''Malformed step extra part (missing spacing after '='): '' @ line)
                  else expected (dropWhile is_space_tab (drop (eq_pos + 1) r))))"
proof -
  have "starts_with (''extra'' @ r) ''extra''" by (simp add: starts_with_def)
  moreover have "substr_from (''extra'' @ r) 5 = r" by (simp add: substr_from_def)
  moreover have "list_ex (\<lambda>c. \<not> is_space_tab c) xs \<longleftrightarrow> \<not> list_all is_space_tab xs" for xs
    by (auto simp: list_ex_iff list_all_iff)
  ultimately show ?thesis
    unfolding parse_extra_def Let_def
    by (simp only: if_False not_True_eq_False substr_def substr_from_def drop_0)
qed

lemma parse_extra_accepts: "parse_extra line p = Inr e \<longleftrightarrow> extra_part p e"
proof
  assume l: "parse_extra line p = Inr e"
  then have "starts_with p ''extra''" by (simp add: parse_extra_def split: if_splits)
  then obtain r where p: "p = ''extra'' @ r" by (auto simp: starts_with_split)
  obtain eq where r: "is_space_tab (hd r)" "find_char (CHR ''='') r = Some eq"
    "list_all is_space_tab (take eq r)" "drop (eq + 1) r \<noteq> []" "is_space_tab (hd (drop (eq + 1) r))"
    "e = dropWhile is_space_tab (drop (eq + 1) r)"
    using l unfolding p parse_extra_after by (simp split: if_splits option.splits)
  obtain sp w where sp: "r = sp @ CHR ''='' # w" "CHR ''='' \<notin> set sp" "eq = length sp"
    using r(2) unfolding find_char_split by blast
  have ne: "sp \<noteq> []" using r(1) sp(1) by (auto simp: is_space_tab_def)
  obtain c v where w: "w = c # v" using r(4) sp by (cases w) auto
  have "list_all is_space_tab sp" "is_space_tab c" "e = dropWhile is_space_tab v"
    using r(3,5,6) unfolding sp(1,3) w by simp_all
  then show "extra_part p e"
    unfolding extra_part_def p sp(1) w using ne
    by (intro exI [of _ sp] exI [of _ c] exI [of _ v]) simp
next
  assume "extra_part p e"
  then obtain sp c v where p: "p = ''extra'' @ sp @ ''='' @ c # v" "sp \<noteq> []"
    "list_all is_space_tab sp" "is_space_tab c" "e = dropWhile is_space_tab v"
    unfolding extra_part_def by (elim exE conjE)
  have "CHR ''='' \<notin> set sp"
  proof
    assume "CHR ''='' \<in> set sp"
    with p(3) have "is_space_tab (CHR ''='')" unfolding list_all_iff by (rule bspec)
    then show False by (simp add: is_space_tab_def)
  qed
  then have "find_char (CHR ''='') (sp @ CHR ''='' # c # v) = Some (length sp)"
    by (rule find_char_append)
  moreover have "is_space_tab (hd sp)" using p(2,3) by (cases sp) auto
  ultimately show "parse_extra line p = Inr e"
    using p(2-5) unfolding p(1) parse_extra_after by simp
qed

lemma pipe_cases:
  obtains "CHR ''|'' \<notin> set line"
  | t i where "line = t @ ''|'' @ i" "CHR ''|'' \<notin> set t" "CHR ''|'' \<notin> set i"
  | t i out where "line = t @ ''|'' @ i @ ''|'' @ out" "CHR ''|'' \<notin> set t" "CHR ''|'' \<notin> set i" "CHR ''|'' \<notin> set out"
  | t i out p where "line = t @ ''|'' @ i @ ''|'' @ out @ ''|'' @ p"
      "CHR ''|'' \<notin> set t" "CHR ''|'' \<notin> set i" "CHR ''|'' \<notin> set out"
proof -
  have split: "CHR ''|'' \<in> set s \<Longrightarrow> \<exists>x y. s = x @ ''|'' @ y \<and> CHR ''|'' \<notin> set x" for s
    using split_list_first [of "CHR ''|''" s] by auto
  show ?thesis
  proof (cases "CHR ''|'' \<in> set line")
    case True
    then obtain t r where t: "line = t @ ''|'' @ r" "CHR ''|'' \<notin> set t" using split by blast
    show ?thesis
    proof (cases "CHR ''|'' \<in> set r")
      case True
      then obtain i r' where i: "r = i @ ''|'' @ r'" "CHR ''|'' \<notin> set i" using split by blast
      show ?thesis
      proof (cases "CHR ''|'' \<in> set r'")
        case True
        then obtain out p where "r' = out @ ''|'' @ p" "CHR ''|'' \<notin> set out" using split by blast
        with t i show ?thesis by (intro that(4) [of t i out p]) auto
      qed (use t i in \<open>auto intro: that(3) [of t i r']\<close>)
    qed (use t in \<open>auto intro: that(2) [of t r]\<close>)
  qed (rule that(1))
qed

text \<open>The grammar of step lines. A line is a step if and only if it is three fields separated by
  pipes, optionally followed by a pipe, \<open>extra\<close>, blanks, \<open>=\<close>, at least one blank and the extra
  flags; the step has exactly these fields. All other lines are errors.\<close>

theorem step_of_line_grammar:
  "step_of_line line = Inr step \<longleftrightarrow>
    (\<exists>t i out. CHR ''|'' \<notin> set t \<and> CHR ''|'' \<notin> set i \<and> CHR ''|'' \<notin> set out \<and>
       (line = t @ ''|'' @ i @ ''|'' @ out \<and> step = make_step t i out [] \<or>
        (\<exists>p e. line = t @ ''|'' @ i @ ''|'' @ out @ ''|'' @ p \<and> extra_part p e \<and> step = make_step t i out e)))"
  (is "?l \<longleftrightarrow> ?r")
proof
  assume ?r
  then obtain t i out where n: "CHR ''|'' \<notin> set t" "CHR ''|'' \<notin> set i" "CHR ''|'' \<notin> set out" and
    "line = t @ ''|'' @ i @ ''|'' @ out \<and> step = make_step t i out [] \<or>
     (\<exists>p e. line = t @ ''|'' @ i @ ''|'' @ out @ ''|'' @ p \<and> extra_part p e \<and> step = make_step t i out e)"
    by blast
  then show ?l
  proof (elim disjE exE conjE)
    fix p e
    assume l: "line = t @ ''|'' @ i @ ''|'' @ out @ ''|'' @ p" and e: "extra_part p e" and
      s: "step = make_step t i out e"
    from e have "parse_extra line p = Inr e" by (rule parse_extra_accepts [THEN iffD2])
    then show ?l using step_of_line_fields(2) [OF n, of p] unfolding l s by simp
  qed (use step_of_line_fields(1) [OF n] in simp)
next
  assume l: ?l
  show ?r
  proof (cases line rule: pipe_cases)
    case 1
    with l show ?thesis by (simp add: step_of_line_def find_char_None [THEN iffD2])
  next
    case (2 t i)
    with l find_char_append [of "CHR ''|''" t i] find_from_none [of "CHR ''|''" i t "CHR ''|''"]
    show ?thesis by (simp add: step_of_line_def)
  next
    case (3 t i out)
    with l step_of_line_fields(1) [OF 3(2-4)] show ?thesis by auto
  next
    case (4 t i out p)
    with l step_of_line_fields(2) [OF 4(2-4), of p] obtain e where
      "parse_extra line p = Inr e" "step = make_step t i out e"
      by (auto split: sum.splits)
    with 4 show ?thesis unfolding parse_extra_accepts by blast
  qed
qed

end
