(* ===== verification/Commands.thy ===== *)
theory Commands
  imports Parser RapidHash
begin

text \<open>
  Command lines (src/executor.cpp): \<open>buildCommandArgs\<close> for the five tools, with the response file
  of link steps, \<open>hashCommand\<close>, \<open>isNewer\<close> and \<open>resolveThreadCount\<close>. The file system is a record of
  what \<open>exists\<close> and \<open>last_write_time\<close> answer; a file to be written is part of the result. The
  thresholds fixed by the build configuration are parameters.
\<close>

section \<open>The file system as it is seen\<close>

record world =
  w_exists :: "string \<Rightarrow> bool"
  w_time :: "string \<Rightarrow> int option"

definition isNewer :: "world \<Rightarrow> string \<Rightarrow> string \<Rightarrow> bool" where
  "isNewer w new_file old_file =
     (case w_time w new_file of
        None \<Rightarrow> True
      | Some new_time \<Rightarrow>
          (case w_time w old_file of
             None \<Rightarrow> True
           | Some old_time \<Rightarrow> new_time > old_time))"

text \<open>\<open>std::filesystem::path::replace_extension\<close> on POSIX paths: the extension starts at the last dot
  of the file name, unless that dot is its first character or the name is \<open>..\<close>.\<close>

definition path_filename :: "string \<Rightarrow> string" where
  "path_filename p = rev (takeWhile (\<lambda>c. c \<noteq> CHR ''/'') (rev p))"

definition path_extension :: "string \<Rightarrow> string" where
  "path_extension p =
     (let f = path_filename p; t = rev (takeWhile (\<lambda>c. c \<noteq> CHR ''.'') (rev f))
      in if f = ''..'' \<or> CHR ''.'' \<notin> set f \<or> length t + 1 = length f then [] else CHR ''.'' # t)"

definition replace_extension :: "string \<Rightarrow> string \<Rightarrow> string" where
  "replace_extension p new_ext = take (length p - length (path_extension p)) p @ new_ext"

section \<open>Arguments\<close>

record ToolchainFlags =
  tf_cc :: "string list"
  tf_cxx :: "string list"
  tf_linker :: "string list"
  tf_archiver :: "string list"
  tf_cflags :: "string list"
  tf_cxxflags :: "string list"
  tf_ldflags :: "string list"
  tf_ldlibs :: "string list"

definition toolchain_of :: "COBBuilder \<Rightarrow> ToolchainFlags" where
  "toolchain_of b =
     (let cxx_vec = getDefinitionVec b ''cxx''
      in \<lparr>tf_cc = getDefinitionVec b ''cc'', tf_cxx = cxx_vec, tf_linker = getLinkerVec b cxx_vec,
          tf_archiver = getArchiverVec b, tf_cflags = getDefinitionVec b ''cflags'',
          tf_cxxflags = getDefinitionVec b ''cxxflags'', tf_ldflags = getDefinitionVec b ''ldflags'',
          tf_ldlibs = getDefinitionVec b ''ldlibs''\<rparr>)"

definition add_parts :: "string list \<Rightarrow> string list \<Rightarrow> string list" where
  "add_parts args parts = args @ filter (\<lambda>p. p \<noteq> []) parts"

lemma extra_words_decreases:
  assumes "w = dropWhile is_space_tab extra" "w \<noteq> []"
  shows "length (dropWhile (\<lambda>c. \<not> is_space_tab c) w) < length extra"
proof -
  have "\<not> is_space_tab (hd w)" using assms hd_dropWhile by blast
  then have "length (dropWhile (\<lambda>c. \<not> is_space_tab c) w) < length w"
    using assms(2) by (cases w) (auto simp: le_imp_less_Suc length_dropWhile_le)
  also have "\<dots> \<le> length extra" by (simp add: assms(1) length_dropWhile_le)
  finally show ?thesis .
qed

text \<open>The words of \<open>extra_flags\<close>; \<open>extra.substr(start)\<close> is the argument.\<close>

function extra_words :: "string \<Rightarrow> string list" where
  "extra_words extra =
     (let w = dropWhile is_space_tab extra
      in if w = [] then []
         else takeWhile (\<lambda>c. \<not> is_space_tab c) w # extra_words (dropWhile (\<lambda>c. \<not> is_space_tab c) w))"
  by pat_completeness auto

termination by (relation "measure length") (auto simp: extra_words_decreases)

declare extra_words.simps [simp del]

definition compile_args :: "string list \<Rightarrow> string list \<Rightarrow> build_step \<Rightarrow> string list" where
  "compile_args compiler flags step =
     add_parts (add_parts [] compiler) flags @ extra_words (extra_flags step) @
     [''-MMD'', ''-MT'', output_path step, ''-MF'', output_path step @ ''.d'', ''-c''] @
     parsed_inputs step @ [''-o'', output_path step]"

text \<open>The response file: whether to use it, and its contents where it has to be written.\<close>

definition rsp_content :: "build_step \<Rightarrow> string" where
  "rsp_content step = concat (map (\<lambda>input. input @ [LF]) (parsed_inputs step))"

definition choose_rsp ::
  "nat \<Rightarrow> string \<Rightarrow> world \<Rightarrow> bool \<Rightarrow> build_step \<Rightarrow> string \<Rightarrow> bool \<times> (string \<times> string) option" where
  "choose_rsp rsp_threshold build_file w dry_run_mode step rsp_path =
     (if w_exists w rsp_path \<and> isNewer w rsp_path build_file then (True, None)
      else if length (parsed_inputs step) > rsp_threshold
      then (True, if dry_run_mode then None else Some (rsp_path, rsp_content step))
      else (False, None))"

definition link_args ::
  "nat \<Rightarrow> string \<Rightarrow> world \<Rightarrow> bool \<Rightarrow> build_step \<Rightarrow> ToolchainFlags \<Rightarrow> string list \<times> (string \<times> string) option" where
  "link_args rsp_threshold build_file w dry_run_mode step flags =
     (let rsp_path = replace_extension (output_path step) ''.rsp'';
          (use_rsp, written) = choose_rsp rsp_threshold build_file w dry_run_mode step rsp_path;
          args = add_parts [] (tf_linker flags) @
            (if use_rsp then [CHR ''@'' # rsp_path] else parsed_inputs step) @ [''-o'', output_path step]
      in (add_parts (add_parts args (tf_ldflags flags)) (tf_ldlibs flags) @ extra_words (extra_flags step), written))"

definition archive_args :: "build_step \<Rightarrow> ToolchainFlags \<Rightarrow> string list" where
  "archive_args step flags =
     (let args = add_parts [] (tf_archiver flags);
          args =
            (if tf_archiver flags \<noteq> [] then
               let cmd = hd (tf_archiver flags)
               in if ends_with cmd ''ar'' \<or> ends_with cmd ''ar.exe'' \<or> length (tf_archiver flags) = 1
                  then args @ [''rcs'', output_path step]
                  else if last (tf_archiver flags) = ''/out:''
                  then butlast args @ [last args @ output_path step]
                  else args @ [output_path step]
             else args @ [''ar'', ''rcs'', output_path step])
      in args @ parsed_inputs step @ extra_words (extra_flags step))"

definition shared_args :: "build_step \<Rightarrow> ToolchainFlags \<Rightarrow> string list" where
  "shared_args step flags =
     (let args = add_parts [] (tf_linker flags) @ [''-shared''] @ parsed_inputs step @ [''-o'', output_path step]
      in add_parts (add_parts args (tf_ldflags flags)) (tf_ldlibs flags) @ extra_words (extra_flags step))"

definition buildCommandArgs ::
  "nat \<Rightarrow> string \<Rightarrow> world \<Rightarrow> build_step \<Rightarrow> bool \<Rightarrow> ToolchainFlags \<Rightarrow> string list \<times> (string \<times> string) option" where
  "buildCommandArgs rsp_threshold build_file w step dry_run_mode flags =
     (if tool step = ''cc'' then (compile_args (tf_cc flags) (tf_cflags flags) step, None)
      else if tool step = ''cxx'' then (compile_args (tf_cxx flags) (tf_cxxflags flags) step, None)
      else if tool step = ''ld'' then link_args rsp_threshold build_file w dry_run_mode step flags
      else if tool step = ''ar'' then (archive_args step flags, None)
      else if tool step = ''sld'' then (shared_args step flags, None)
      else ([], None))"

definition hashCommand :: "string list \<Rightarrow> u64" where
  "hashCommand args = foldl (\<lambda>hash arg. rapid_hash '' '' (rapid_hash arg hash)) 0 args"

definition resolveThreadCount :: "nat \<Rightarrow> nat \<Rightarrow> nat" where
  "resolveThreadCount hardware_concurrency jobs =
     (let thread_count = (if jobs = 0 then hardware_concurrency else jobs)
      in if thread_count = 0 then 1 else thread_count)"

lemma resolveThreadCount_pos: "0 < resolveThreadCount hw jobs"
  by (simp add: resolveThreadCount_def Let_def)

section \<open>Words of the extra flags\<close>

text \<open>Reference: turn tabs into spaces, split at the spaces, drop the empty words.\<close>

definition blank_words :: "string \<Rightarrow> string list" where
  "blank_words s = filter (\<lambda>w. w \<noteq> []) (split_on (CHR '' '') (map (\<lambda>c. if c = TAB then CHR '' '' else c) s))"

lemma blank_words_blank: "is_space_tab c \<Longrightarrow> blank_words (c # s) = blank_words s"
  by (auto simp: blank_words_def is_space_tab_def split: list.split)

lemma blank_words_dropWhile: "blank_words (dropWhile is_space_tab s) = blank_words s"
  by (induction s) (auto simp: blank_words_blank)

lemma blank_words_word:
  assumes "w \<noteq> []" "\<forall>c \<in> set w. \<not> is_space_tab c" "rest = [] \<or> is_space_tab (hd rest)"
  shows "blank_words (w @ rest) = w # blank_words rest"
proof -
  let ?f = "\<lambda>c. if c = TAB then CHR '' '' else c"
  have w: "map ?f w = w" "CHR '' '' \<notin> set w"
    using assms(2) by (induction w) (auto simp: is_space_tab_def)
  show ?thesis
  proof (cases rest)
    case Nil
    have "split_on (CHR '' '') (map ?f w) = [w]" unfolding w(1) by (rule split_on_plain [OF w(2)])
    then show ?thesis using assms(1) Nil unfolding blank_words_def by simp
  next
    case (Cons c r)
    then have c: "?f c = CHR '' ''" using assms(3) by (auto simp: is_space_tab_def)
    have "map ?f (w @ rest) = w @ CHR '' '' # map ?f r" unfolding map_append w(1) Cons list.map(2) c by (rule refl)
    then have "split_on (CHR '' '') (map ?f (w @ rest)) = w # split_on (CHR '' '') (map ?f r)"
      by (simp only: split_on_append [OF w(2)])
    moreover have "split_on (CHR '' '') (map ?f rest) = [] # split_on (CHR '' '') (map ?f r)"
      unfolding Cons list.map(2) c by (simp split: list.split)
    ultimately show ?thesis using assms(1) unfolding blank_words_def by simp
  qed
qed

lemma extra_words_blank: "extra_words s = blank_words s"
proof (induction s rule: extra_words.induct)
  case (1 s)
  let ?w = "dropWhile is_space_tab s"
  let ?word = "takeWhile (\<lambda>c. \<not> is_space_tab c) ?w" and ?rest = "dropWhile (\<lambda>c. \<not> is_space_tab c) ?w"
  show ?case
  proof (cases "?w = []")
    case True
    then have "blank_words s = blank_words []" by (metis blank_words_dropWhile)
    then show ?thesis using True by (subst extra_words.simps) (simp add: blank_words_def)
  next
    case False
    then have "\<not> is_space_tab (hd ?w)" by (rule hd_dropWhile)
    then have "?word \<noteq> []" using False by (cases ?w) auto
    moreover have "\<forall>c \<in> set ?word. \<not> is_space_tab c" by (auto dest: set_takeWhileD)
    moreover have "?rest = [] \<or> is_space_tab (hd ?rest)" using hd_dropWhile [of "\<lambda>c. \<not> is_space_tab c" ?w] by auto
    ultimately have "blank_words (?word @ ?rest) = ?word # blank_words ?rest" by (rule blank_words_word)
    then have "blank_words ?w = ?word # blank_words ?rest" by simp
    then show ?thesis
      using False 1 [OF refl False] by (subst extra_words.simps) (simp add: Let_def blank_words_dropWhile)
  qed
qed

lemma extra_words_nonempty: "[] \<notin> set (extra_words s)"
  by (auto simp: extra_words_blank blank_words_def)

section \<open>Response files\<close>

lemma choose_rsp_dry: "fst (choose_rsp n f w True step p) = fst (choose_rsp n f w False step p)"
  by (simp add: choose_rsp_def)

lemma build_args_dry:
  "fst (buildCommandArgs n f w step True flags) = fst (buildCommandArgs n f w step False flags)"
  using choose_rsp_dry [of n f w step "replace_extension (output_path step) ''.rsp''"]
  by (simp add: buildCommandArgs_def link_args_def Let_def case_prod_beta)

lemma split_rsp:
  "\<forall>i \<in> set ins. LF \<notin> set i \<Longrightarrow> split_on LF (concat (map (\<lambda>i. i @ [LF]) ins)) = ins @ [[]]"
  by (induction ins) (simp_all add: split_on_append)

section \<open>Properties\<close>

text \<open>The extra flags are cut into words. The scanning loop of \<open>add_extra_flags\<close> returns exactly
  the non-empty words between blanks and tabs, in order.\<close>

theorem extra_flags_words:
  "extra_words s = filter (\<lambda>w. w \<noteq> []) (split_on (CHR '' '') (map (\<lambda>c. if c = TAB then CHR '' '' else c) s))"
  by (simp add: extra_words_blank blank_words_def)

text \<open>The hashed command is the executed command. The arguments computed for the up-to-date check
  (dry-run mode) are those of the real run, for every tool and file system, and the dry-run mode
  writes no response file.\<close>

theorem dry_run_same_command:
  "fst (buildCommandArgs n f w step True flags) = fst (buildCommandArgs n f w step False flags) \<and>
    snd (buildCommandArgs n f w step True flags) = None"
  using build_args_dry [of n f w step flags]
  by (simp add: buildCommandArgs_def link_args_def choose_rsp_def Let_def case_prod_beta)

text \<open>Response files. A response file is written only for a link step above the threshold; its
  lines are exactly the inputs of the step, in order, and the command refers to it.\<close>

theorem response_file_roundtrip:
  assumes "buildCommandArgs n f w step False flags = (args, Some (p, content))"
    and "\<forall>i \<in> set (parsed_inputs step). LF \<notin> set i"
  shows "split_on LF content = parsed_inputs step @ [[]] \<and> (CHR ''@'' # p) \<in> set args \<and>
    tool step = ''ld'' \<and> n < length (parsed_inputs step)"
  using assms split_rsp [OF assms(2)]
  by (auto simp: buildCommandArgs_def link_args_def choose_rsp_def rsp_content_def add_parts_def Let_def
      split: if_splits)

definition link_example :: build_step where
  "link_example = \<lparr>tool = ''ld'', inputs = ''a.o,b.o'', output_path = ''bin/app.exe'', opaque_inputs = None,
     depfile_inputs = di_empty, parsed_inputs = [''a.o'', ''b.o''], extra_flags = ''-g'', command_hash = 0\<rparr>"

definition plain_tools :: ToolchainFlags where
  "plain_tools = \<lparr>tf_cc = [''cc''], tf_cxx = [''c++''], tf_linker = [''c++''], tf_archiver = [''ar''], tf_cflags = [],
     tf_cxxflags = [], tf_ldflags = [], tf_ldlibs = []\<rparr>"

definition no_files :: world where
  "no_files = \<lparr>w_exists = (\<lambda>_. False), w_time = (\<lambda>_. None)\<rparr>"

lemma link_example_args:
  "buildCommandArgs 1 ''b'' no_files link_example False plain_tools =
    ([''c++'', ''@bin/app.rsp'', ''-o'', ''bin/app.exe'', ''-g''], Some (''bin/app.rsp'', [CHR ''a'', CHR ''.'', CHR ''o'', LF, CHR ''b'', CHR ''.'', CHR ''o'', LF]))"
  by code_simp

lemma response_file_roundtrip_witness:
  "split_on LF [CHR ''a'', CHR ''.'', CHR ''o'', LF, CHR ''b'', CHR ''.'', CHR ''o'', LF] = [''a.o'', ''b.o'', []]"
  using response_file_roundtrip [OF link_example_args] by (simp add: link_example_def)

text \<open>No empty arguments. For a step with an output and non-empty inputs, as \<open>addStep\<close> makes them, no
  argument of the command is the empty string, although the definitions are split at every blank.\<close>

theorem no_empty_arguments:
  assumes "output_path step \<noteq> []" "[] \<notin> set (parsed_inputs step)"
  shows "[] \<notin> set (fst (buildCommandArgs n f w step dry flags))"
  using assms extra_words_nonempty [of "extra_flags step"]
  by (auto simp: buildCommandArgs_def compile_args_def link_args_def archive_args_def shared_args_def
      add_parts_def Let_def case_prod_beta dest: in_set_butlastD)

lemma no_empty_arguments_witness:
  "[] \<notin> set (fst (buildCommandArgs 50 ''b'' no_files link_example True plain_tools))"
  by (rule no_empty_arguments) (simp_all add: link_example_def)

lemma addStep_reads:
  "read (output_path step @ ''.d'') = read' (output_path step @ ''.d'') \<Longrightarrow> addStep h read g step = addStep h read' g step"
  unfolding addStep_def Let_def split_inputs_frame by (simp cong: if_cong)

text \<open>The dependency file. The command of a compile step asks the compiler to write \<open>output.d\<close>, and
  that is the only file \<open>addStep\<close> reads when it adds the step to the graph in the next run.\<close>

theorem depfile_of_command:
  assumes "tool step = ''cc'' \<or> tool step = ''cxx''"
  shows "(\<exists>pre post. fst (buildCommandArgs n f w step dry flags) =
      pre @ [''-MMD'', ''-MT'', output_path step, ''-MF'', output_path step @ ''.d''] @ post) \<and>
    addStep h read g step = addStep h (\<lambda>p. if p = output_path step @ ''.d'' then read p else None) g step"
proof
  show "\<exists>pre post. fst (buildCommandArgs n f w step dry flags) =
      pre @ [''-MMD'', ''-MT'', output_path step, ''-MF'', output_path step @ ''.d''] @ post"
    using assms unfolding buildCommandArgs_def compile_args_def by (auto; metis append.assoc append_Cons append_Nil)
  show "addStep h read g step = addStep h (\<lambda>p. if p = output_path step @ ''.d'' then read p else None) g step"
    by (rule addStep_reads) simp
qed

definition compile_example :: build_step where
  "compile_example = \<lparr>tool = ''cxx'', inputs = ''a.cpp'', output_path = ''a.o'', opaque_inputs = None,
     depfile_inputs = di_empty, parsed_inputs = [''a.cpp''], extra_flags = [], command_hash = 0\<rparr>"

lemma depfile_of_command_witness:
  "addStep (\<lambda>_. 7) (\<lambda>p. Some ''a.o: x.h'') (empty_graph 4) compile_example =
   addStep (\<lambda>_. 7) (\<lambda>p. if p = ''a.o.d'' then Some ''a.o: x.h'' else None) (empty_graph 4) compile_example"
  using depfile_of_command [of compile_example 50 "''b''" no_files True plain_tools "\<lambda>_. 7"
      "\<lambda>_. Some ''a.o: x.h''" "empty_graph 4"]
  by (simp add: compile_example_def)

end
