(* ===== verification/TopoSort.thy ===== *)
theory TopoSort
  imports BuildGraph
begin

text \<open>
  \<open>BuildGraph::topoSort\<close> (src/graph.cpp, lines 315 to 364): depth-first search with an explicit
  stack of frames and a status per node, in finishing order reversed. The back of the \<open>stack\<close>
  vector is the head of the list. Indexing \<open>status\<close> out of range is \<open>None\<close>; the lemmas show that
  it cannot occur on a well-formed graph, that the search ends, that a result is a topological
  order of all nodes and that an error names a node on a cycle.
\<close>

section \<open>The search\<close>

datatype STATUS = UNSTARTED | WORKING | FINISHED

record StackFrame =
  fr_node :: nat
  next_edge_idx :: nat

definition cycle_error :: "build_graph \<Rightarrow> nat \<Rightarrow> string" where
  "cycle_error g v = ''Cycle detected in the build graph at: '' @ path (nodes_m g ! v)"

text \<open>The termination measure: edges not yet looked at, and nodes not yet finished.\<close>

definition unstarted_weight :: "build_graph \<Rightarrow> STATUS list \<Rightarrow> nat" where
  "unstarted_weight g status =
     (\<Sum>v < length status. if status ! v = UNSTARTED then length (succs g v) + 2 else 0)"

definition stack_weight :: "build_graph \<Rightarrow> StackFrame list \<Rightarrow> nat" where
  "stack_weight g stack =
     (\<Sum>f \<leftarrow> stack. (length (succs g (fr_node f)) - next_edge_idx f) + 1)"

lemma unstarted_weight_update:
  assumes "s \<noteq> UNSTARTED"
  shows "unstarted_weight g (status[v := s]) +
      (if v < length status \<and> status ! v = UNSTARTED then length (succs g v) + 2 else 0)
    \<le> unstarted_weight g status"
proof (cases "v < length status")
  case True
  let ?w = "\<lambda>st u. if st ! u = UNSTARTED then length (succs g u) + 2 else 0 :: nat"
  have split: "(\<Sum>u < length status. f u) = f v + (\<Sum>u \<in> {..<length status} - {v}. f u)" for f :: "nat \<Rightarrow> nat"
    using True by (intro sum.remove) auto
  have "(\<Sum>u \<in> {..<length status} - {v}. ?w (status[v := s]) u) =
      (\<Sum>u \<in> {..<length status} - {v}. ?w status u)"
    by (rule sum.cong) auto
  with True assms show ?thesis by (simp add: unstarted_weight_def split)
qed (simp add: list_update_beyond)

function dfs_loop ::
  "build_graph \<Rightarrow> STATUS list \<Rightarrow> nat list \<Rightarrow> StackFrame list \<Rightarrow> (STATUS list \<times> nat list) result option" where
  "dfs_loop g status order [] = Some (expected (status, order))"
| "dfs_loop g status order (frame # rest) =
     (let u = fr_node frame
      in if next_edge_idx frame < length (succs g u) then
           let v = succs g u ! next_edge_idx frame;
               frame = frame\<lparr>next_edge_idx := next_edge_idx frame + 1\<rparr>
           in if v < length status then
                (case status ! v of
                   UNSTARTED \<Rightarrow>
                     dfs_loop g (status[v := WORKING]) order
                       (\<lparr>fr_node = v, next_edge_idx = 0\<rparr> # frame # rest)
                 | WORKING \<Rightarrow> Some (unexpected (cycle_error g v))
                 | FINISHED \<Rightarrow> dfs_loop g status order (frame # rest))
              else None
         else dfs_loop g (status[u := FINISHED]) (order @ [u]) rest)"
  by pat_completeness auto
termination
proof (relation "measure (\<lambda>(g, status, order, stack). unstarted_weight g status + stack_weight g stack)",
    goal_cases)
  case (2 g status order frame rest u v frame')
  then show ?case
    using unstarted_weight_update [of WORKING g status v] by (simp add: stack_weight_def)
next
  case (4 g status order frame rest u)
  then show ?case
    using unstarted_weight_update [of FINISHED g status u] by (simp add: stack_weight_def)
qed (simp_all add: stack_weight_def)

declare dfs_loop.simps(2) [simp del]

text \<open>The turns of the loop, one equation each.\<close>

lemma dfs_loop_turns:
  defines "u f \<equiv> fr_node f" and "next f \<equiv> f\<lparr>next_edge_idx := next_edge_idx f + 1\<rparr>"
  shows "\<not> next_edge_idx f < length (succs g (fr_node f)) \<Longrightarrow>
      dfs_loop g status order (f # fs) = dfs_loop g (status[u f := FINISHED]) (order @ [u f]) fs"
    and "next_edge_idx f < length (succs g (fr_node f)) \<Longrightarrow> v = succs g (fr_node f) ! next_edge_idx f \<Longrightarrow>
      v < length status \<Longrightarrow> dfs_loop g status order (f # fs) =
      (case status ! v of
         UNSTARTED \<Rightarrow> dfs_loop g (status[v := WORKING]) order (\<lparr>fr_node = v, next_edge_idx = 0\<rparr> # next f # fs)
       | WORKING \<Rightarrow> Some (unexpected (cycle_error g v))
       | FINISHED \<Rightarrow> dfs_loop g status order (next f # fs))"
  by (subst dfs_loop.simps, simp add: Let_def u_def next_def split: STATUS.split)+

text \<open>The outer loop over the nodes.\<close>

fun topo_loop ::
  "build_graph \<Rightarrow> nat list \<Rightarrow> STATUS list \<Rightarrow> nat list \<Rightarrow> (STATUS list \<times> nat list) result option" where
  "topo_loop g [] status order = Some (expected (status, order))"
| "topo_loop g (i # is) status order =
     (if status ! i \<noteq> UNSTARTED then topo_loop g is status order
      else do { r \<leftarrow> dfs_loop g (status[i := WORKING]) order [\<lparr>fr_node = i, next_edge_idx = 0\<rparr>];
                (case r of
                   Inl e \<Rightarrow> Some (unexpected e)
                 | Inr (status, order) \<Rightarrow> topo_loop g is status order) })"

definition topoSort :: "build_graph \<Rightarrow> nat list result option" where
  "topoSort g =
     (let n = length (nodes_m g)
      in map_option (map_sum id (\<lambda>(status, order). rev order))
           (topo_loop g [0..<n] (replicate n UNSTARTED) []))"

section \<open>Invariant of the search\<close>

definition edge_rel :: "build_graph \<Rightarrow> (nat \<times> nat) set" where
  "edge_rel g = {(u, v). u < length (nodes_m g) \<and> v \<in> set (succs g u)}"

text \<open>
  Every frame has advanced over finished nodes only, except that the last edge a lower frame took
  leads to the frame above it.
\<close>

definition advanced :: "build_graph \<Rightarrow> STATUS list \<Rightarrow> nat \<Rightarrow> nat \<Rightarrow> bool" where
  "advanced g status u k \<longleftrightarrow> k \<le> length (succs g u) \<and> (\<forall>j < k. status ! (succs g u ! j) = FINISHED)"

fun below_ok :: "build_graph \<Rightarrow> STATUS list \<Rightarrow> nat \<Rightarrow> StackFrame list \<Rightarrow> bool" where
  "below_ok g status child [] = True"
| "below_ok g status child (f # fs) =
     (0 < next_edge_idx f \<and> next_edge_idx f \<le> length (succs g (fr_node f)) \<and>
      succs g (fr_node f) ! (next_edge_idx f - 1) = child \<and>
      advanced g status (fr_node f) (next_edge_idx f - 1) \<and> below_ok g status (fr_node f) fs)"

fun stack_ok :: "build_graph \<Rightarrow> STATUS list \<Rightarrow> StackFrame list \<Rightarrow> bool" where
  "stack_ok g status [] = True"
| "stack_ok g status (f # fs) =
     (advanced g status (fr_node f) (next_edge_idx f) \<and> below_ok g status (fr_node f) fs)"

text \<open>Each finished node comes after all of its successors.\<close>

definition post_order :: "build_graph \<Rightarrow> nat list \<Rightarrow> bool" where
  "post_order g order \<longleftrightarrow>
     (\<forall>i < length order. \<forall>v \<in> set (succs g (order ! i)). v \<in> set (take i order))"

definition having :: "STATUS \<Rightarrow> STATUS list \<Rightarrow> nat set" where
  "having t status = {v. v < length status \<and> status ! v = t}"

lemma having_update:
  "v < length status \<Longrightarrow>
   having t (status[v := s]) = (if s = t then insert v (having t status) else having t status - {v})"
  by (auto simp: having_def nth_list_update)

definition dfs_inv :: "build_graph \<Rightarrow> STATUS list \<Rightarrow> nat list \<Rightarrow> StackFrame list \<Rightarrow> bool" where
  "dfs_inv g status order stack \<longleftrightarrow>
     length status = length (nodes_m g) \<and>
     distinct order \<and> set order = having FINISHED status \<and>
     distinct (map fr_node stack) \<and> fr_node ` set stack = having WORKING status \<and>
     stack_ok g status stack \<and> post_order g order"

lemma dfs_invD [dest?]:
  assumes "dfs_inv g status order stack"
  shows "length status = length (nodes_m g)" "distinct order"
    "set order = having FINISHED status"
    "distinct (map fr_node stack)" "fr_node ` set stack = having WORKING status"
    "stack_ok g status stack" "post_order g order"
  using assms by (auto simp: dfs_inv_def)

lemma advanced_mono:
  assumes "advanced g status u k" "\<And>w. status ! w = FINISHED \<Longrightarrow> status' ! w = FINISHED"
  shows "advanced g status' u k"
  using assms by (simp add: advanced_def)

lemma below_ok_mono:
  assumes "below_ok g status c fs" "\<And>w. status ! w = FINISHED \<Longrightarrow> status' ! w = FINISHED"
  shows "below_ok g status' c fs"
  using assms(1) by (induction fs arbitrary: c) (auto intro: advanced_mono [OF _ assms(2)])

lemma update_keeps_finished:
  assumes "status ! v \<noteq> FINISHED \<or> s = FINISHED" "status ! w = FINISHED"
  shows "status[v := s] ! w = FINISHED"
  using assms by (cases "v < length status"; cases "w = v") (auto simp: list_update_beyond)

text \<open>One turn of the loop that advances over a finished node.\<close>

lemma dfs_inv_advance:
  assumes inv: "dfs_inv g status order (f # fs)"
    and k: "next_edge_idx f < length (succs g (fr_node f))"
    and fin: "status ! (succs g (fr_node f) ! next_edge_idx f) = FINISHED"
  shows "dfs_inv g status order (f\<lparr>next_edge_idx := next_edge_idx f + 1\<rparr> # fs)"
proof -
  have "advanced g status (fr_node f) (next_edge_idx f + 1)"
    using dfs_invD(6) [OF inv] k fin by (auto simp: advanced_def less_Suc_eq)
  with inv show ?thesis by (simp add: dfs_inv_def)
qed

text \<open>One turn that descends to an unstarted node.\<close>

lemma dfs_inv_push:
  assumes inv: "dfs_inv g status order (f # fs)"
    and k: "next_edge_idx f < length (succs g (fr_node f))"
    and v: "v = succs g (fr_node f) ! next_edge_idx f" "v < length status" "status ! v = UNSTARTED"
  shows "dfs_inv g (status[v := WORKING]) order
    (\<lparr>fr_node = v, next_edge_idx = 0\<rparr> # f\<lparr>next_edge_idx := next_edge_idx f + 1\<rparr> # fs)"
proof -
  let ?st = "status[v := WORKING]"
  note I = dfs_invD [OF inv]
  have keep: "status ! w = FINISHED \<Longrightarrow> ?st ! w = FINISHED" for w
    using v(3) by (intro update_keeps_finished) auto
  have vs: "v \<in> having UNSTARTED status" using v(2,3) by (simp add: having_def)
  then have other: "v \<notin> having FINISHED status" "v \<notin> having WORKING status" by (auto simp: having_def)
  have fresh: "v \<notin> fr_node ` set (f # fs)" unfolding I(5) by (rule other(2))
  have "set order = having FINISHED ?st"
    using I(3) other(1) by (simp add: having_update [OF v(2)])
  moreover have "insert v (fr_node ` set (f # fs)) = having WORKING ?st"
    unfolding I(5) by (simp add: having_update [OF v(2)])
  moreover have "advanced g ?st (fr_node f) (next_edge_idx f)" "below_ok g ?st (fr_node f) fs"
    using I(6) by (auto intro: advanced_mono [of g status] below_ok_mono [of g status] keep)
  moreover have "advanced g ?st v 0" by (simp add: advanced_def)
  ultimately show ?thesis
    using I k v(1) fresh by (auto simp: dfs_inv_def)
qed

text \<open>One turn that finishes the top node.\<close>

lemma dfs_inv_pop:
  assumes inv: "dfs_inv g status order (f # fs)"
    and range: "edges_in_range g"
    and k: "\<not> next_edge_idx f < length (succs g (fr_node f))"
  shows "dfs_inv g (status[fr_node f := FINISHED]) (order @ [fr_node f]) fs"
proof -
  let ?u = "fr_node f"
  let ?st = "status[?u := FINISHED]"
  note I = dfs_invD [OF inv]
  have "?u \<in> having WORKING status" unfolding I(5) [symmetric] by simp
  then have u: "?u < length status" "status ! ?u = WORKING" "?u \<notin> having FINISHED status"
    by (auto simp: having_def)
  have keep: "status ! w = FINISHED \<Longrightarrow> ?st ! w = FINISHED" for w
    by (intro update_keeps_finished) auto
  have adv: "advanced g status ?u (length (succs g ?u))"
    using I(6) k by (auto simp: advanced_def)
  have "v \<in> set order" if mem: "v \<in> set (succs g ?u)" for v
  proof -
    obtain j where j: "j < length (succs g ?u)" "succs g ?u ! j = v" using mem by (auto simp: in_set_conv_nth)
    moreover have "v < length status" using mem range u(1) I(1) by (auto simp: edges_in_range_def)
    ultimately show ?thesis using adv unfolding I(3) by (auto simp: advanced_def having_def)
  qed
  then have post: "post_order g (order @ [?u])"
    using I(7) by (auto simp: post_order_def nth_append less_Suc_eq)
  have ord: "set (order @ [?u]) = having FINISHED ?st"
    using I(3) by (simp add: having_update [OF u(1)])
  have dist: "distinct (order @ [?u])" using I(2,3) u(3) by simp
  have "?u \<notin> fr_node ` set fs" using I(4) by simp
  moreover have "insert ?u (fr_node ` set fs) = having WORKING status" using I(5) by simp
  ultimately have "fr_node ` set fs = having WORKING status - {?u}" by (metis Diff_insert_absorb)
  then have stack: "fr_node ` set fs = having WORKING ?st" by (simp add: having_update [OF u(1)])
  have "stack_ok g ?st fs"
  proof (cases fs)
    case (Cons f' fs')
    then have b: "below_ok g status ?u (f' # fs')" using I(6) by simp
    then obtain m where m: "next_edge_idx f' = Suc m" by (cases "next_edge_idx f'") auto
    have "advanced g ?st (fr_node f') m"
      using b m by (intro advanced_mono [of g status _ _ ?st] keep) auto
    moreover have "?st ! (succs g (fr_node f') ! m) = FINISHED" using b m u(1) by simp
    ultimately have "advanced g ?st (fr_node f') (Suc m)"
      using b m by (simp add: advanced_def less_Suc_eq)
    moreover have "below_ok g ?st (fr_node f') fs'"
      using b by (intro below_ok_mono [of g status _ _ ?st] keep) auto
    ultimately show ?thesis using Cons m by simp
  qed simp
  then show ?thesis using I(1,4) post ord dist stack by (simp add: dfs_inv_def)
qed

section \<open>The search is correct\<close>

text \<open>The frames form a path, so meeting a working node closes a cycle.\<close>

lemma below_ok_path:
  assumes "below_ok g status c fs" "\<forall>f \<in> set fs. fr_node f < length (nodes_m g)" "v \<in> fr_node ` set fs"
  shows "(v, c) \<in> (edge_rel g)\<^sup>+"
  using assms
proof (induction fs arbitrary: c)
  case (Cons f fs)
  have "c \<in> set (succs g (fr_node f))"
    using Cons.prems(1) by (auto simp: in_set_conv_nth intro!: exI [of _ "next_edge_idx f - 1"])
  then have e: "(fr_node f, c) \<in> edge_rel g" using Cons.prems(2) by (simp add: edge_rel_def)
  show ?case
  proof (cases "v = fr_node f")
    case False
    then have "(v, fr_node f) \<in> (edge_rel g)\<^sup>+" using Cons by (intro Cons.IH) auto
    then show ?thesis using e by (rule trancl_into_trancl)
  qed (use e in auto)
qed simp

definition on_cycle :: "build_graph \<Rightarrow> string \<Rightarrow> bool" where
  "on_cycle g e \<longleftrightarrow> (\<exists>v < length (nodes_m g). (v, v) \<in> (edge_rel g)\<^sup>+ \<and> e = cycle_error g v)"

lemma working_on_cycle:
  assumes inv: "dfs_inv g status order (f # fs)"
    and k: "next_edge_idx f < length (succs g (fr_node f))"
    and v: "v = succs g (fr_node f) ! next_edge_idx f" "v < length status" "status ! v = WORKING"
  shows "on_cycle g (cycle_error g v)"
proof -
  note I = dfs_invD [OF inv]
  have nodes: "\<forall>f' \<in> set (f # fs). fr_node f' < length (nodes_m g)"
    using I(1,5) by (auto simp: having_def)
  have e: "(fr_node f, v) \<in> edge_rel g" using k v(1) nodes by (auto simp: edge_rel_def)
  have "v \<in> having WORKING status" using v(2,3) by (simp add: having_def)
  then have "v = fr_node f \<or> v \<in> fr_node ` set fs" using I(5) by auto
  then have "(v, v) \<in> (edge_rel g)\<^sup>+"
  proof
    assume "v \<in> fr_node ` set fs"
    then have "(v, fr_node f) \<in> (edge_rel g)\<^sup>+"
      using I(6) nodes by (intro below_ok_path [of g status _ fs]) auto
    then show ?thesis using e by (rule trancl_into_trancl)
  qed (use e in auto)
  then show ?thesis using v(2) I(1) by (auto simp: on_cycle_def)
qed

definition started_le :: "STATUS list \<Rightarrow> STATUS list \<Rightarrow> bool" where
  "started_le status status' \<longleftrightarrow> (\<forall>v. status ! v \<noteq> UNSTARTED \<longrightarrow> status' ! v \<noteq> UNSTARTED)"

lemma started_le_trans: "started_le a b \<Longrightarrow> started_le b c \<Longrightarrow> started_le a c"
  by (auto simp: started_le_def)

lemma started_le_update: "s \<noteq> UNSTARTED \<Longrightarrow> started_le status (status[v := s])"
  unfolding started_le_def by (metis nth_list_update_eq nth_list_update_neq list_update_beyond not_le)

lemma dfs_loop_ok:
  assumes "edges_in_range g" "dfs_inv g status order stack"
  shows "returns (dfs_loop g status order stack) (\<lambda>r. case r of
      Inl e \<Rightarrow> on_cycle g e
    | Inr (status', order') \<Rightarrow> dfs_inv g status' order' [] \<and> started_le status status')"
  using assms
proof (induction g status order stack rule: dfs_loop.induct)
  case (1 g status order)
  then show ?case by (simp add: started_le_def)
next
  case (2 g status order f fs)
  let ?u = "fr_node f" and ?k = "next_edge_idx f"
  note inv = "2.prems"(2)
  show ?case
  proof (cases "?k < length (succs g ?u)")
    case False
    note IH = "2.IH"(3) [OF refl False "2.prems"(1) dfs_inv_pop [OF inv "2.prems"(1) False]]
    show ?thesis
      unfolding dfs_loop_turns(1) [OF False]
      by (rule returns_mono [OF IH])
        (auto split: sum.splits intro: started_le_trans started_le_update [of FINISHED])
  next
    case True
    let ?v = "succs g ?u ! ?k"
    have "?u < length (nodes_m g)" using dfs_invD(1,5) [OF inv] by (auto simp: having_def)
    then have v: "?v < length status"
      using "2.prems"(1) True dfs_invD(1) [OF inv] by (auto simp: edges_in_range_def)
    show ?thesis
    proof (cases "status ! ?v")
      case UNSTARTED
      note IH = "2.IH"(1) [OF refl True refl refl v UNSTARTED "2.prems"(1) dfs_inv_push [OF inv True refl v UNSTARTED]]
      show ?thesis
        unfolding dfs_loop_turns(2) [OF True refl v] UNSTARTED STATUS.case
        by (rule returns_mono [OF IH])
          (auto split: sum.splits intro: started_le_trans started_le_update [of WORKING])
    next
      case WORKING
      then show ?thesis
        using working_on_cycle [OF inv True refl v] by (simp add: dfs_loop_turns(2) [OF True refl v])
    next
      case FINISHED
      from "2.IH"(2) [OF refl True refl refl v FINISHED "2.prems"(1) dfs_inv_advance [OF inv True FINISHED]]
      show ?thesis unfolding dfs_loop_turns(2) [OF True refl v] FINISHED STATUS.case .
    qed
  qed
qed

lemma dfs_inv_start:
  assumes inv: "dfs_inv g status order []" and i: "i < length (nodes_m g)" "status ! i = UNSTARTED"
  shows "dfs_inv g (status[i := WORKING]) order [\<lparr>fr_node = i, next_edge_idx = 0\<rparr>]"
proof -
  note I = dfs_invD [OF inv]
  have "i \<notin> having FINISHED status" using i(2) by (simp add: having_def)
  then show ?thesis
    using I i(1) by (simp add: dfs_inv_def having_update advanced_def)
qed

lemma topo_loop_ok:
  assumes "edges_in_range g" "dfs_inv g status order []" "set is \<subseteq> {..<length (nodes_m g)}"
  shows "returns (topo_loop g is status order) (\<lambda>r. case r of
      Inl e \<Rightarrow> on_cycle g e
    | Inr (status', order') \<Rightarrow> dfs_inv g status' order' [] \<and> started_le status status' \<and>
        (\<forall>i \<in> set is. status' ! i \<noteq> UNSTARTED))"
  using assms
proof (induction "is" arbitrary: status order)
  case Nil
  then show ?case by (simp add: started_le_def)
next
  case (Cons i "is")
  show ?case
  proof (cases "status ! i = UNSTARTED")
    case False
    with Cons show ?thesis
      by (auto elim!: returns_mono [OF Cons.IH] simp: started_le_def split: sum.splits)
  next
    case True
    let ?st = "status[i := WORKING]" and ?fr = "[\<lparr>fr_node = i, next_edge_idx = 0\<rparr>]"
    have i: "i < length (nodes_m g)" "i < length status"
      using Cons.prems(3) dfs_invD(1) [OF Cons.prems(2)] by auto
    obtain r where r: "dfs_loop g ?st order ?fr = Some r" and ok: "case r of Inl e \<Rightarrow> on_cycle g e
      | Inr (status', order') \<Rightarrow> dfs_inv g status' order' [] \<and> started_le ?st status'"
      using dfs_loop_ok [OF Cons.prems(1) dfs_inv_start [OF Cons.prems(2) i(1) True]] by (rule returnsE)
    show ?thesis
    proof (cases r)
      case (Inl e)
      with r ok True show ?thesis by simp
    next
      case (Inr p)
      then obtain st' ord' where p: "r = Inr (st', ord')" by (cases p) auto
      with ok have ok': "dfs_inv g st' ord' []" "started_le ?st st'" by auto
      then have "st' ! i \<noteq> UNSTARTED" using i(2) by (auto simp: started_le_def)
      moreover have "started_le status st'"
        using ok'(2) started_le_update [of WORKING status i] by (auto intro: started_le_trans)
      moreover have "set is \<subseteq> {..<length (nodes_m g)}" using Cons.prems(3) by simp
      ultimately show ?thesis
        using r p True Cons.IH [OF Cons.prems(1) ok'(1)]
        by (auto elim!: returns_mono simp: started_le_def split: sum.splits)
    qed
  qed
qed

section \<open>Topological orders\<close>

definition is_topological :: "build_graph \<Rightarrow> nat list \<Rightarrow> bool" where
  "is_topological g order \<longleftrightarrow> distinct order \<and> set order = {..<length (nodes_m g)} \<and>
     (\<forall>i < length order. \<forall>j < length order. order ! j \<in> set (succs g (order ! i)) \<longrightarrow> i < j)"

lemma post_order_rev:
  assumes "post_order g order" "distinct order" "set order = {..<length (nodes_m g)}"
  shows "is_topological g (rev order)"
  unfolding is_topological_def
proof (intro conjI allI impI)
  let ?n = "length order"
  fix i j assume ij: "i < length (rev order)" "j < length (rev order)"
    and e: "rev order ! j \<in> set (succs g (rev order ! i))"
  let ?i = "?n - 1 - i" and ?j = "?n - 1 - j"
  have "order ! ?j \<in> set (succs g (order ! ?i))" using e ij by (simp add: rev_nth)
  then have "order ! ?j \<in> set (take ?i order)"
    using assms(1) ij(1) by (auto simp: post_order_def)
  then obtain k where "k < ?i" "order ! k = order ! ?j" using ij by (auto simp: in_set_conv_nth)
  moreover from this have "k < ?n" by linarith
  ultimately have "?j < ?i" using nth_eq_iff_index_eq [OF assms(2), of k ?j] ij by force
  then show "i < j" by simp
qed (use assms in auto)

text \<open>A graph with a topological order has no cycle.\<close>

lemma topological_acyclic:
  assumes "is_topological g order" "edges_in_range g"
  shows "acyclic (edge_rel g)"
proof -
  define rank where "rank v = (THE i. i < length order \<and> order ! i = v)" for v
  have rank: "rank (order ! i) = i" if "i < length order" for i
    unfolding rank_def using that assms(1)
    by (intro the_equality) (auto simp: is_topological_def nth_eq_iff_index_eq)
  have "edge_rel g \<subseteq> measure rank"
  proof
    fix e assume "e \<in> edge_rel g"
    then obtain u v where e: "e = (u, v)" "u < length (nodes_m g)" "v \<in> set (succs g u)"
      by (auto simp: edge_rel_def)
    then have "v < length (nodes_m g)" using assms(2) by (auto simp: edges_in_range_def)
    then have "u \<in> set order" "v \<in> set order" using assms(1) e(2) by (auto simp: is_topological_def)
    then obtain i j where "i < length order" "order ! i = u" "j < length order" "order ! j = v"
      by (auto simp: in_set_conv_nth)
    with assms(1) e(3) rank have "rank u < rank v" by (auto simp: is_topological_def)
    with e show "e \<in> measure rank" by simp
  qed
  then show ?thesis using wf_acyclic [OF wf_measure] acyclic_subset by blast
qed

lemma topoSort_ok:
  assumes "edges_in_range g"
  shows "returns (topoSort g) (\<lambda>r. case r of
      Inl e \<Rightarrow> on_cycle g e
    | Inr order \<Rightarrow> is_topological g order)"
proof -
  let ?n = "length (nodes_m g)"
  have "dfs_inv g (replicate ?n UNSTARTED) [] []"
    by (auto simp: dfs_inv_def having_def post_order_def)
  moreover have "set [0..<?n] \<subseteq> {..<?n}" by auto
  ultimately have "returns (topo_loop g [0..<?n] (replicate ?n UNSTARTED) []) (\<lambda>r. case r of
      Inl e \<Rightarrow> on_cycle g e
    | Inr (st, ord) \<Rightarrow> dfs_inv g st ord [] \<and> started_le (replicate ?n UNSTARTED) st \<and>
        (\<forall>i \<in> set [0..<?n]. st ! i \<noteq> UNSTARTED))"
    by (intro topo_loop_ok [OF assms])
  then obtain r where r: "topo_loop g [0..<?n] (replicate ?n UNSTARTED) [] = Some r" and
    ok: "case r of Inl e \<Rightarrow> on_cycle g e | Inr (st, ord) \<Rightarrow> dfs_inv g st ord [] \<and>
        started_le (replicate ?n UNSTARTED) st \<and> (\<forall>i \<in> set [0..<?n]. st ! i \<noteq> UNSTARTED)"
    by (rule returnsE)
  show ?thesis
  proof (cases r)
    case (Inl e)
    with r ok show ?thesis by (simp add: topoSort_def Let_def)
  next
    case (Inr p)
    then obtain st ord where p: "r = Inr (st, ord)" by (cases p) auto
    with ok have inv: "dfs_inv g st ord []" and started: "\<forall>i < ?n. st ! i \<noteq> UNSTARTED" by auto
    note I = dfs_invD [OF inv]
    have "st ! v = FINISHED" if "v < ?n" for v
    proof -
      have "v \<notin> having WORKING st" using I(5) by simp
      then have "st ! v \<noteq> WORKING" using that I(1) by (auto simp: having_def)
      with started that show ?thesis by (cases "st ! v") auto
    qed
    then have "set ord = {..<?n}" using I(1,3) by (auto simp: having_def)
    then have "is_topological g (rev ord)" by (rule post_order_rev [OF I(7,2)])
    with r p show ?thesis by (simp add: topoSort_def Let_def)
  qed
qed

lemma graph_ok_range: "graph_ok h g \<Longrightarrow> edges_in_range g"
  by (simp add: graph_ok_def)

text \<open>A graph with the chain of nodes \<open>0 -> 1 -> 2\<close>, and the one-node loop.\<close>

definition path_node :: "string \<Rightarrow> nat list \<Rightarrow> node" where
  "path_node p es = \<lparr>path = p, out_edges = el_borrow es, step_id = None\<rparr>"

definition chain_graph :: build_graph where
  "chain_graph = (empty_graph 4)\<lparr>nodes_m := [path_node ''a'' [2], path_node ''c'' [], path_node ''b'' [1]]\<rparr>"

definition loop_graph :: build_graph where
  "loop_graph = (empty_graph 4)\<lparr>nodes_m := [path_node ''a'' [0]]\<rparr>"

lemma example_graphs:
  "edges_in_range chain_graph" "edges_in_range loop_graph"
  by (auto simp: edges_in_range_def chain_graph_def loop_graph_def succs_def path_node_def less_Suc_eq)

text \<open>C27: The topological sort is right on every graph. It always returns; a result lists every
  node once, and before every node it depends on it (edges point forward); an error names a node
  that lies on a cycle of the graph.\<close>

theorem topoSort_correct:
  assumes "edges_in_range g"
  shows "returns (topoSort g) (\<lambda>r. case r of
      Inl e \<Rightarrow> \<exists>v < length (nodes_m g). (v, v) \<in> (edge_rel g)\<^sup>+ \<and>
        e = ''Cycle detected in the build graph at: '' @ path (nodes_m g ! v)
    | Inr order \<Rightarrow> distinct order \<and> set order = {..<length (nodes_m g)} \<and>
        (\<forall>i < length order. \<forall>j < length order. order ! j \<in> set (succs g (order ! i)) \<longrightarrow> i < j))"
  using topoSort_ok [OF assms] unfolding on_cycle_def cycle_error_def is_topological_def .

lemma topoSort_correct_witness:
  "topoSort chain_graph = Some (Inr [0, 2, 1]) \<and> set [0, 2, 1] = {..<length (nodes_m chain_graph)}"
proof -
  have "topoSort chain_graph = Some (Inr [0, 2, 1])" by code_simp
  with topoSort_correct [OF example_graphs(1)] show ?thesis by simp
qed

text \<open>The sort fails exactly on cyclic graphs: it returns an order if and only if the
  dependency relation is acyclic.\<close>

theorem topoSort_acyclic:
  assumes "edges_in_range g"
  shows "(\<exists>order. topoSort g = Some (Inr order)) \<longleftrightarrow> acyclic (edge_rel g)"
proof -
  obtain r where r: "topoSort g = Some r" and ok: "case r of
      Inl e \<Rightarrow> on_cycle g e | Inr order \<Rightarrow> is_topological g order"
    using topoSort_ok [OF assms] by (rule returnsE)
  show ?thesis
  proof (cases r)
    case (Inl e)
    with ok have "\<not> acyclic (edge_rel g)" by (auto simp: on_cycle_def acyclic_def)
    with r Inl show ?thesis by simp
  next
    case (Inr order)
    with ok have "acyclic (edge_rel g)" using topological_acyclic [OF _ assms] by simp
    with r Inr show ?thesis by simp
  qed
qed

lemma topoSort_acyclic_witness: "\<not> (\<exists>order. topoSort loop_graph = Some (Inr order))"
proof -
  have "(0, 0) \<in> edge_rel loop_graph"
    by (simp add: edge_rel_def loop_graph_def succs_def path_node_def)
  then have "\<not> acyclic (edge_rel loop_graph)" by (auto simp: acyclic_def)
  then show ?thesis using topoSort_acyclic [OF example_graphs(2)] by simp
qed

end
