(* ===== verification/CycleCheck.thy ===== *)
theory CycleCheck
  imports TopoSort
begin

text \<open>
  The start of \<open>Executor::execute\<close> (src/executor.cpp, lines 1264 to 1305): in-degrees over produced
  inputs, the number of source nodes, and Kahn's algorithm, which decides whether the full
  depth-first search has to run to report a cycle. The back of the vector \<open>ready\<close> is the head of
  the list; indexing out of range is \<open>None\<close>.
\<close>

section \<open>In-degrees\<close>

definition produced :: "build_graph \<Rightarrow> nat \<Rightarrow> bool" where
  "produced g v \<longleftrightarrow> step_id (nodes_m g ! v) \<noteq> None"

fun bump :: "int list \<Rightarrow> nat list \<Rightarrow> int list" where
  "bump d [] = d"
| "bump d (out # outs) = bump (d[out := d ! out + 1]) outs"

definition temp_in_degrees :: "build_graph \<Rightarrow> int list" where
  "temp_in_degrees g =
     foldl (\<lambda>d u. if \<not> produced g u then d else bump d (succs g u))
       (replicate (length (nodes_m g)) 0) [0..<length (nodes_m g)]"

definition source_nodes :: "build_graph \<Rightarrow> nat" where
  "source_nodes g = length (filter (\<lambda>v. \<not> produced g v) [0..<length (nodes_m g)])"

section \<open>Kahn's algorithm\<close>

fun kahn_edges :: "int list \<Rightarrow> nat list \<Rightarrow> nat list \<Rightarrow> (int list \<times> nat list) option" where
  "kahn_edges remaining ready [] = Some (remaining, ready)"
| "kahn_edges remaining ready (out # outs) =
     (if out < length remaining then
        let r = remaining ! out - 1
        in kahn_edges (remaining[out := r]) (if r = 0 then out # ready else ready) outs
      else None)"

definition positives :: "int list \<Rightarrow> nat" where
  "positives d = length (filter (\<lambda>x. 0 < x) d)"

lemma positives_update:
  assumes "v < length d" "y \<le> d ! v"
  shows "positives (d[v := y]) + (if 0 < d ! v \<and> y \<le> 0 then 1 else 0) \<le> positives d"
proof -
  have d: "d = take v d @ d ! v # drop (Suc v) d" using assms(1) by (simp add: id_take_nth_drop)
  have "positives d = positives (take v d) + (if 0 < d ! v then 1 else 0) + positives (drop (Suc v) d)"
    by (subst d) (simp add: positives_def)
  moreover have "positives (d[v := y]) = positives (take v d) + (if 0 < y then 1 else 0) + positives (drop (Suc v) d)"
    using assms(1) by (simp add: list_update_decomp positives_def)
  ultimately show ?thesis using assms(2) by auto
qed

lemma kahn_edges_measure:
  "kahn_edges remaining ready outs = Some (remaining', ready') \<Longrightarrow>
   positives remaining' + length ready' \<le> positives remaining + length ready"
proof (induction remaining ready outs rule: kahn_edges.induct)
  case (2 remaining ready out outs)
  let ?r = "remaining ! out - 1"
  have out: "out < length remaining" using 2 by (auto split: if_splits)
  have "(if ?r = 0 then 1 else 0) \<le> (if 0 < remaining ! out \<and> ?r \<le> 0 then 1 else 0 :: nat)" by auto
  then have "positives (remaining[out := ?r]) + (if ?r = 0 then 1 else 0) \<le> positives remaining"
    using positives_update [OF out, of ?r] by linarith
  moreover have "positives remaining' + length ready' \<le>
      positives (remaining[out := ?r]) + length (if ?r = 0 then out # ready else ready)"
    using 2 out by (simp add: Let_def)
  ultimately show ?case by (auto split: if_splits)
qed simp

function kahn_loop :: "build_graph \<Rightarrow> int list \<Rightarrow> nat list \<Rightarrow> nat \<Rightarrow> nat option" where
  "kahn_loop g remaining [] visited = Some visited"
| "kahn_loop g remaining (u # ready) visited =
     (case kahn_edges remaining ready (succs g u) of
        None \<Rightarrow> None
      | Some (remaining, ready) \<Rightarrow> kahn_loop g remaining ready (visited + 1))"
  by pat_completeness auto
termination
  by (relation "measure (\<lambda>(g, remaining, ready, visited). positives remaining + length ready)")
    (auto dest: kahn_edges_measure)

definition initially_ready :: "build_graph \<Rightarrow> nat list" where
  "initially_ready g =
     filter (\<lambda>i. produced g i \<and> temp_in_degrees g ! i = 0) [0..<length (nodes_m g)]"

text \<open>The check, with the depth-first search as an argument, so that its use shows in a statement: execute
  calls \<open>cycle_check topoSort\<close>. \<open>None\<close> inside: no cycle is reported and the build goes on.\<close>

definition cycle_check :: "(build_graph \<Rightarrow> nat list result option) \<Rightarrow> build_graph \<Rightarrow> string option option" where
  "cycle_check search g =
     do { visited \<leftarrow> kahn_loop g (temp_in_degrees g) (rev (initially_ready g)) 0;
          if visited + source_nodes g \<noteq> length (nodes_m g) then
            do { r \<leftarrow> search g; Some (case r of Inl e \<Rightarrow> Some e | Inr _ \<Rightarrow> None) }
          else Some None }"

section \<open>Counting in-edges\<close>

text \<open>The in-edges of \<open>v\<close> from produced nodes outside of \<open>S\<close>.\<close>

definition open_edges :: "build_graph \<Rightarrow> nat set \<Rightarrow> nat \<Rightarrow> nat" where
  "open_edges g S v =
     (\<Sum>u | u < length (nodes_m g) \<and> produced g u \<and> u \<notin> S. count_list (succs g u) v)"

lemma length_bump [simp]: "length (bump d outs) = length d"
  by (induction outs arbitrary: d) auto

lemma bump_count: "v < length d \<Longrightarrow> bump d outs ! v = d ! v + int (count_list outs v)"
  by (induction outs arbitrary: d) (auto simp: nth_list_update)

lemma temp_in_degrees_count:
  assumes "v < length (nodes_m g)"
  shows "temp_in_degrees g ! v = int (open_edges g {} v)" "length (temp_in_degrees g) = length (nodes_m g)"
proof -
  let ?n = "length (nodes_m g)"
  let ?f = "\<lambda>d u. if \<not> produced g u then d else bump d (succs g u)"
  have "length (foldl ?f (replicate ?n 0) us) = ?n \<and>
      foldl ?f (replicate ?n 0) us ! v = int (\<Sum>u \<leftarrow> us. if produced g u then count_list (succs g u) v else 0)" for us
    using assms by (induction us rule: rev_induct) (auto simp: bump_count)
  moreover have "(\<Sum>u \<leftarrow> [0..<?n]. if produced g u then count_list (succs g u) v else 0) = open_edges g {} v"
  proof -
    have "(\<Sum>u \<leftarrow> [0..<?n]. if produced g u then count_list (succs g u) v else 0) =
        (\<Sum>u < ?n. if produced g u then count_list (succs g u) v else 0)"
      by (simp add: interv_sum_list_conv_sum_set_nat atLeast0LessThan)
    also have "\<dots> = (\<Sum>u | u < ?n \<and> produced g u. count_list (succs g u) v)"
      by (simp add: sum.If_cases lessThan_def Collect_conj_eq)
    finally show ?thesis by (simp add: open_edges_def)
  qed
  ultimately show "temp_in_degrees g ! v = int (open_edges g {} v)"
    "length (temp_in_degrees g) = length (nodes_m g)"
    unfolding temp_in_degrees_def by simp_all
qed

lemma open_edges_insert:
  assumes "u < length (nodes_m g)" "produced g u" "u \<notin> S"
  shows "open_edges g S v = count_list (succs g u) v + open_edges g (insert u S) v"
proof -
  let ?A = "{w. w < length (nodes_m g) \<and> produced g w \<and> w \<notin> S}"
  have "open_edges g S v = count_list (succs g u) v + (\<Sum>w \<in> ?A - {u}. count_list (succs g w) v)"
    unfolding open_edges_def using assms by (intro sum.remove) auto
  also have "?A - {u} = {w. w < length (nodes_m g) \<and> produced g w \<and> w \<notin> insert u S}" by auto
  finally show ?thesis by (simp add: open_edges_def)
qed

lemma open_edges_zero:
  "open_edges g S v = 0 \<longleftrightarrow>
    (\<forall>u < length (nodes_m g). produced g u \<longrightarrow> v \<in> set (succs g u) \<longrightarrow> u \<in> S)"
  by (auto simp: open_edges_def count_list_0_iff)

section \<open>Kahn's algorithm finds the cycles\<close>

definition sources_have_no_inputs :: "build_graph \<Rightarrow> bool" where
  "sources_have_no_inputs g \<longleftrightarrow> (\<forall>u < length (nodes_m g). \<forall>v \<in> set (succs g u). produced g v)"

lemma graph_ok_sources: "graph_ok h g \<Longrightarrow> sources_have_no_inputs g"
  unfolding sources_have_no_inputs_def
proof (intro allI impI ballI)
  fix u v assume g: "graph_ok h g" and u: "u < length (nodes_m g)" and v: "v \<in> set (succs g u)"
  then have vn: "v < length (nodes_m g)" by (auto simp: graph_ok_def edges_in_range_def)
  with g u have "count_list (succs g u) v = count_list (node_inputs g v) (path (nodes_m g ! u))"
    by (auto simp: graph_ok_def edges_match_def)
  moreover have "count_list (succs g u) v \<noteq> 0" using v by (simp add: count_list_0_iff)
  ultimately show "produced g v" by (auto simp: produced_def node_inputs_def split: option.splits)
qed

lemma kahn_edges_ok:
  assumes "\<forall>v \<in> set outs. v < length remaining \<and> int (count_list outs v) \<le> remaining ! v"
    and "distinct ready" "set ready \<inter> set outs = {}"
  shows "\<exists>remaining' ready'. kahn_edges remaining ready outs = Some (remaining', ready') \<and>
    length remaining' = length remaining \<and>
    (\<forall>v. v < length remaining \<longrightarrow> remaining' ! v = remaining ! v - int (count_list outs v)) \<and>
    distinct ready' \<and>
    set ready' = set ready \<union> {v \<in> set outs. remaining ! v = int (count_list outs v)}"
  using assms
proof (induction outs arbitrary: remaining ready)
  case (Cons out outs)
  let ?r = "remaining ! out - 1"
  let ?rem = "remaining[out := ?r]" and ?ready = "if ?r = 0 then out # ready else ready"
  have out: "out < length remaining" "int (count_list outs out) \<le> ?r" using Cons.prems(1) by auto
  have 1: "\<forall>v \<in> set outs. v < length ?rem \<and> int (count_list outs v) \<le> ?rem ! v"
  proof
    fix v assume v: "v \<in> set outs"
    with Cons.prems(1) have "v < length remaining" "int (count_list (out # outs) v) \<le> remaining ! v" by auto
    then show "v < length ?rem \<and> int (count_list outs v) \<le> ?rem ! v"
      by (cases "v = out") (simp_all split: if_splits)
  qed
  have zero: "?r = 0 \<Longrightarrow> out \<notin> set outs" using out(2) by (auto simp: count_list_0_iff [symmetric])
  have 2: "distinct ?ready" "set ?ready \<inter> set outs = {}" using Cons.prems(2,3) zero by auto
  obtain rem' ready' where ok: "kahn_edges ?rem ?ready outs = Some (rem', ready')" "length rem' = length ?rem"
    "\<forall>v. v < length ?rem \<longrightarrow> rem' ! v = ?rem ! v - int (count_list outs v)" "distinct ready'"
    "set ready' = set ?ready \<union> {v \<in> set outs. ?rem ! v = int (count_list outs v)}"
    using Cons.IH [OF 1 2] by blast
  have "set ?ready \<union> {v \<in> set outs. ?rem ! v = int (count_list outs v)} =
      set ready \<union> {v \<in> set (out # outs). remaining ! v = int (count_list (out # outs) v)}"
  proof -
    have "(v \<in> set ?ready \<or> v \<in> set outs \<and> ?rem ! v = int (count_list outs v)) \<longleftrightarrow>
        (v \<in> set ready \<or> v \<in> set (out # outs) \<and> remaining ! v = int (count_list (out # outs) v))" for v
    proof (cases "v = out")
      case True
      have "?r = int (count_list outs out) \<longleftrightarrow> remaining ! out = int (count_list (out # outs) out)" by auto
      moreover have "out \<notin> set outs \<longleftrightarrow> count_list outs out = 0" by (simp add: count_list_0_iff)
      ultimately show ?thesis using True out(1) Cons.prems(3) zero by auto
    next
      case False
      then show ?thesis by auto
    qed
    then show ?thesis by blast
  qed
  with ok out(1) show ?case
    by (simp add: Let_def nth_list_update)
qed simp

text \<open>\<open>vs\<close> are the visited nodes in order: each comes after its produced inputs.\<close>

definition kahn_inv :: "build_graph \<Rightarrow> nat list \<Rightarrow> int list \<Rightarrow> nat list \<Rightarrow> bool" where
  "kahn_inv g vs remaining ready \<longleftrightarrow>
     length remaining = length (nodes_m g) \<and>
     (\<forall>v < length (nodes_m g). remaining ! v = int (open_edges g (set vs) v)) \<and>
     distinct vs \<and> set vs \<subseteq> {v. v < length (nodes_m g) \<and> produced g v} \<and>
     (\<forall>i < length vs. \<forall>u < length (nodes_m g). produced g u \<longrightarrow> vs ! i \<in> set (succs g u) \<longrightarrow>
        u \<in> set (take i vs)) \<and>
     distinct ready \<and>
     set ready = {v. v < length (nodes_m g) \<and> produced g v \<and> v \<notin> set vs \<and> open_edges g (set vs) v = 0}"

lemma kahn_step:
  assumes range: "edges_in_range g" "sources_have_no_inputs g"
    and inv: "kahn_inv g vs remaining (u # ready)"
  shows "\<exists>remaining' ready'. kahn_edges remaining ready (succs g u) = Some (remaining', ready') \<and>
    kahn_inv g (vs @ [u]) remaining' ready'"
proof -
  let ?n = "length (nodes_m g)" and ?S = "set vs" and ?T = "set (vs @ [u])"
  have u: "u < ?n" "produced g u" "u \<notin> ?S" "open_edges g ?S u = 0" "u \<notin> set ready" "distinct ready"
    using inv by (auto simp: kahn_inv_def)
  have ready: "set ready = {v. v < ?n \<and> produced g v \<and> v \<notin> ?S \<and> open_edges g ?S v = 0} - {u}"
    using inv u(5) by (auto simp: kahn_inv_def)
  have rem: "length remaining = ?n" "\<And>v. v < ?n \<Longrightarrow> remaining ! v = int (open_edges g ?S v)"
    using inv by (auto simp: kahn_inv_def)
  have split: "open_edges g ?S v = count_list (succs g u) v + open_edges g ?T v" for v
    using open_edges_insert [OF u(1-3)] by simp
  have T0: "open_edges g ?T v = 0" if "open_edges g ?S v = 0" for v using split [of v] that by simp
  have no: "u \<in> ?T" "\<And>v. v \<in> ?S \<Longrightarrow> v < ?n \<and> produced g v" using inv by (auto simp: kahn_inv_def)
  have outs: "v < ?n \<and> produced g v" if "v \<in> set (succs g u)" for v
    using that u(1) range by (auto simp: edges_in_range_def sources_have_no_inputs_def)
  have 1: "\<forall>v \<in> set (succs g u). v < length remaining \<and> int (count_list (succs g u) v) \<le> remaining ! v"
    using outs rem split by fastforce
  have 2: "set ready \<inter> set (succs g u) = {}"
    using split by (auto simp: ready count_list_0_iff)
  obtain rem' ready' where ok: "kahn_edges remaining ready (succs g u) = Some (rem', ready')"
    "length rem' = length remaining"
    "\<forall>v. v < length remaining \<longrightarrow> rem' ! v = remaining ! v - int (count_list (succs g u) v)"
    "distinct ready'"
    "set ready' = set ready \<union> {v \<in> set (succs g u). remaining ! v = int (count_list (succs g u) v)}"
    using kahn_edges_ok [OF 1 u(6) 2] by blast
  have closed: "w \<in> ?S" if w: "w < ?n" "produced g w" "v \<in> set (succs g w)" "v \<in> ?S" for w v
  proof -
    obtain i where i: "i < length vs" "vs ! i = v" using w(4) by (auto simp: in_set_conv_nth)
    with inv w(1-3) have "w \<in> set (take i vs)" by (auto simp: kahn_inv_def)
    then show ?thesis by (rule in_set_takeD)
  qed
  have r': "set ready' = {v. v < ?n \<and> produced g v \<and> v \<notin> ?T \<and> open_edges g ?T v = 0}"
  proof -
    have "v \<in> set ready' \<longleftrightarrow> v < ?n \<and> produced g v \<and> v \<notin> ?T \<and> open_edges g ?T v = 0" for v
    proof (cases "v \<in> set (succs g u)")
      case True
      then have v: "v < ?n" "produced g v" "v \<notin> ?S" "v \<noteq> u"
        using outs closed [OF u(1,2) True] u(3,4) by (auto simp: open_edges_zero)
      have "v \<notin> set ready" using 2 True by auto
      then show ?thesis using v True split [of v] rem(2) [OF v(1)] unfolding ok(5) by auto
    next
      case False
      then have "count_list (succs g u) v = 0" by simp
      then show ?thesis using False split [of v] unfolding ok(5) ready by auto
    qed
    then show ?thesis by blast
  qed
  have order: "\<forall>i < length (vs @ [u]). \<forall>w < ?n. produced g w \<longrightarrow> (vs @ [u]) ! i \<in> set (succs g w) \<longrightarrow>
      w \<in> set (take i (vs @ [u]))"
    using inv u(4) by (auto simp: kahn_inv_def nth_append less_Suc_eq open_edges_zero)
  have vals: "rem' ! v = int (open_edges g ?T v)" if "v < ?n" for v
    using ok(3) rem that split [of v] by simp
  have dist: "distinct (vs @ [u])" using inv u(3) by (simp add: kahn_inv_def)
  have "set (vs @ [u]) \<subseteq> {v. v < ?n \<and> produced g v}" using no(2) u(1,2) by auto
  then have "kahn_inv g (vs @ [u]) rem' ready'"
    unfolding kahn_inv_def using vals order r' dist ok(4) unfolding ok(2) rem(1) by simp
  with ok(1) show ?thesis by blast
qed

lemma kahn_loop_ok:
  assumes "edges_in_range g" "sources_have_no_inputs g" "kahn_inv g vs remaining ready"
  shows "\<exists>vs' remaining'. kahn_loop g remaining ready (length vs) = Some (length vs') \<and> kahn_inv g vs' remaining' []"
  using assms(3)
proof (induction "positives remaining + length ready" arbitrary: vs remaining ready rule: less_induct)
  case less
  show ?case
  proof (cases ready)
    case Nil
    with less.prems show ?thesis by auto
  next
    case (Cons u ready1)
    obtain rem' ready' where ok: "kahn_edges remaining ready1 (succs g u) = Some (rem', ready')"
      "kahn_inv g (vs @ [u]) rem' ready'"
      using kahn_step [OF assms(1,2)] less.prems Cons by blast
    have "positives rem' + length ready' < positives remaining + length ready"
      using kahn_edges_measure [OF ok(1)] Cons by simp
    from less.hyps [OF this ok(2)] ok(1) Cons show ?thesis by simp
  qed
qed

lemma kahn_inv_start: "kahn_inv g [] (temp_in_degrees g) (rev (initially_ready g))"
proof -
  have "length (temp_in_degrees g) = length (nodes_m g)"
  proof (cases "nodes_m g")
    case Nil
    then show ?thesis by (simp add: temp_in_degrees_def)
  qed (use temp_in_degrees_count(2) [of 0 g] in simp)
  then show ?thesis
    by (auto simp: kahn_inv_def temp_in_degrees_count(1) initially_ready_def)
qed

lemma source_nodes_card:
  "source_nodes g = card {v. v < length (nodes_m g) \<and> \<not> produced g v}"
  "source_nodes g + card {v. v < length (nodes_m g) \<and> produced g v} = length (nodes_m g)"
proof -
  let ?S = "{v. v < length (nodes_m g) \<and> \<not> produced g v}" and ?P = "{v. v < length (nodes_m g) \<and> produced g v}"
  have "source_nodes g = card (set (filter (\<lambda>v. \<not> produced g v) [0..<length (nodes_m g)]))"
    unfolding source_nodes_def by (rule distinct_card [symmetric]) simp
  also have "set (filter (\<lambda>v. \<not> produced g v) [0..<length (nodes_m g)]) = ?S" by auto
  finally show s: "source_nodes g = card ?S" .
  have "card (?S \<union> ?P) = card ?S + card ?P" by (intro card_Un_disjoint) auto
  moreover have "?S \<union> ?P = {..<length (nodes_m g)}" by auto
  ultimately show "source_nodes g + card ?P = length (nodes_m g)" using s by simp
qed

text \<open>All produced nodes visited: the visiting order, after the sources, is topological.\<close>

lemma visited_all_acyclic:
  assumes range: "edges_in_range g" "sources_have_no_inputs g" and inv: "kahn_inv g vs rem []"
    and all: "set vs = {v. v < length (nodes_m g) \<and> produced g v}"
  shows "acyclic (edge_rel g)"
proof -
  let ?n = "length (nodes_m g)"
  let ?src = "filter (\<lambda>v. \<not> produced g v) [0..<?n]"
  have "is_topological g (?src @ vs)"
    unfolding is_topological_def
  proof (intro conjI allI impI)
    show "distinct (?src @ vs)" using inv all by (auto simp: kahn_inv_def)
    show "set (?src @ vs) = {..<?n}" using all by auto
    fix i j assume i: "i < length (?src @ vs)" and j: "j < length (?src @ vs)"
      and e: "(?src @ vs) ! j \<in> set (succs g ((?src @ vs) ! i))"
    have nodes: "(?src @ vs) ! k < ?n" if "k < length (?src @ vs)" for k
      using nth_mem [OF that] all by auto
    have "produced g ((?src @ vs) ! j)"
      using range(2) nodes [OF i] e unfolding sources_have_no_inputs_def by blast
    have jv: "length ?src \<le> j"
    proof (rule ccontr)
      assume "\<not> length ?src \<le> j"
      then have less: "j < length ?src" by simp
      have "(?src @ vs) ! j \<in> set ?src" using nth_mem [OF less] unfolding nth_append if_P [OF less] .
      with \<open>produced g ((?src @ vs) ! j)\<close> show False by simp
    qed
    show "i < j"
    proof (cases "i < length ?src")
      case False
      let ?i = "i - length ?src" and ?j = "j - length ?src"
      have ij: "?i < length vs" "?j < length vs" using i j jv False by auto
      have at: "(?src @ vs) ! i = vs ! ?i" "(?src @ vs) ! j = vs ! ?j"
        using False jv by (simp_all add: nth_append)
      have "produced g (vs ! ?i)" "vs ! ?i < ?n" using nth_mem [OF ij(1)] all by auto
      then have "vs ! ?i \<in> set (take ?j vs)"
        using inv ij(2) e unfolding at by (auto simp: kahn_inv_def)
      then obtain k where k: "k < ?j" "vs ! k = vs ! ?i" using ij(2) by (auto simp: in_set_conv_nth)
      then have "k = ?i" using inv ij by (auto simp: kahn_inv_def nth_eq_iff_index_eq)
      with k(1) False jv show ?thesis by linarith
    qed (use jv in simp)
  qed
  then show ?thesis by (rule topological_acyclic [OF _ range(1)])
qed

text \<open>No node is left over in an acyclic graph.\<close>

lemma acyclic_visited_all:
  assumes range: "edges_in_range g" and acyc: "acyclic (edge_rel g)" and inv: "kahn_inv g vs rem []"
  shows "set vs = {v. v < length (nodes_m g) \<and> produced g v}"
proof (rule ccontr)
  let ?P = "{v. v < length (nodes_m g) \<and> produced g v}"
  assume "set vs \<noteq> ?P"
  moreover have "set vs \<subseteq> ?P" using inv by (simp add: kahn_inv_def)
  ultimately obtain x where x: "x \<in> ?P - set vs" by blast
  have "edge_rel g \<subseteq> {..<length (nodes_m g)} \<times> {..<length (nodes_m g)}"
    using range by (auto simp: edge_rel_def edges_in_range_def)
  then have "finite (edge_rel g)" by (rule finite_subset) simp
  then have "wf (edge_rel g)" using acyc by (rule finite_acyclic_wf)
  then obtain z where z: "z \<in> ?P - set vs" "\<And>y. (y, z) \<in> edge_rel g \<Longrightarrow> y \<notin> ?P - set vs"
    using wfE_min [OF _ x] by blast
  have "open_edges g (set vs) z \<noteq> 0" using inv z(1) by (auto simp: kahn_inv_def)
  then obtain u where "u < length (nodes_m g)" "produced g u" "z \<in> set (succs g u)" "u \<notin> set vs"
    by (auto simp: open_edges_zero)
  with z(2) [of u] show False by (auto simp: edge_rel_def)
qed

lemma kahn_verdict:
  assumes "graph_ok h g"
  shows "returns (kahn_loop g (temp_in_degrees g) (rev (initially_ready g)) 0)
    (\<lambda>visited. visited + source_nodes g = length (nodes_m g) \<longleftrightarrow> acyclic (edge_rel g))"
proof -
  have range: "edges_in_range g" "sources_have_no_inputs g"
    using assms by (auto simp: graph_ok_range graph_ok_sources)
  obtain vs rem where k: "kahn_loop g (temp_in_degrees g) (rev (initially_ready g)) 0 = Some (length vs)"
    "kahn_inv g vs rem []"
    using kahn_loop_ok [OF range kahn_inv_start] by auto
  let ?P = "{v. v < length (nodes_m g) \<and> produced g v}"
  have "distinct vs" "set vs \<subseteq> ?P" using k(2) by (simp_all add: kahn_inv_def)
  then have len: "length vs = card (set vs)" by (simp add: distinct_card)
  have fin: "finite ?P" by simp
  have "card (set vs) = card ?P \<longleftrightarrow> set vs = ?P"
    using card_subset_eq [OF fin \<open>set vs \<subseteq> ?P\<close>] by metis
  then have "length vs + source_nodes g = length (nodes_m g) \<longleftrightarrow> set vs = ?P"
    using source_nodes_card(2) [of g] unfolding len by linarith
  then show ?thesis
    using k(1) visited_all_acyclic [OF range k(2)] acyclic_visited_all [OF range(1) _ k(2)] by auto
qed

lemma cycle_check_search:
  assumes "graph_ok h g"
  shows "cycle_check search g =
    (if acyclic (edge_rel g) then Some None else map_option (case_sum Some (\<lambda>_. None)) (search g))"
proof -
  obtain visited where "kahn_loop g (temp_in_degrees g) (rev (initially_ready g)) 0 = Some visited"
    "visited + source_nodes g = length (nodes_m g) \<longleftrightarrow> acyclic (edge_rel g)"
    using kahn_verdict [OF assms] by (rule returnsE)
  then show ?thesis by (cases "search g") (auto simp: cycle_check_def split: sum.split)
qed

lemma cycle_check_returns:
  assumes "graph_ok h g"
  shows "returns (cycle_check topoSort g) (\<lambda>r. case r of
      None \<Rightarrow> acyclic (edge_rel g)
    | Some e \<Rightarrow> (\<exists>v < length (nodes_m g). (v, v) \<in> (edge_rel g)\<^sup>+ \<and>
        e = ''Cycle detected in the build graph at: '' @ path (nodes_m g ! v)))"
proof -
  have range: "edges_in_range g" using assms by (rule graph_ok_range)
  obtain r where "topoSort g = Some r" and ok: "case r of
      Inl e \<Rightarrow> on_cycle g e | Inr order \<Rightarrow> is_topological g order"
    using topoSort_ok [OF range] by (rule returnsE)
  then show ?thesis
    using topological_acyclic [OF _ range] unfolding cycle_check_search [OF assms]
    by (cases r) (auto simp: on_cycle_def cycle_error_def)
qed

text \<open>C13: The cycle check before a build. On every well-formed graph Kahn's algorithm over the
  produced nodes ends, having visited all of them if and only if the graph is acyclic; so on an acyclic
  graph the check passes without the depth-first search (whatever search it is given), on a cyclic one it
  gives what the search reports, and with topoSort as in execute it reports an error if and only if the
  graph is cyclic, and the error names a node on a cycle.\<close>

theorem cycle_check_correct:
  assumes "graph_ok h g"
  shows "returns (kahn_loop g (temp_in_degrees g) (rev (initially_ready g)) 0)
      (\<lambda>visited. visited + source_nodes g = length (nodes_m g) \<longleftrightarrow> acyclic (edge_rel g)) \<and>
    (\<forall>search. cycle_check search g =
      (if acyclic (edge_rel g) then Some None else map_option (case_sum Some (\<lambda>_. None)) (search g))) \<and>
    returns (cycle_check topoSort g) (\<lambda>r. case r of
      None \<Rightarrow> acyclic (edge_rel g)
    | Some e \<Rightarrow> (\<exists>v < length (nodes_m g). (v, v) \<in> (edge_rel g)\<^sup>+ \<and>
        e = ''Cycle detected in the build graph at: '' @ path (nodes_m g ! v)))"
  using kahn_verdict [OF assms] cycle_check_search [OF assms] cycle_check_returns [OF assms] by blast

lemma cycle_check_correct_witness:
  "\<exists>g r. addStep (\<lambda>_. 7) (\<lambda>_. None) (empty_graph 4) example_step = Some (g, r) \<and>
     (acyclic (edge_rel g) \<longrightarrow> cycle_check (\<lambda>_. None) g = Some None) \<and>
     returns (cycle_check topoSort g) (\<lambda>c. case c of
       None \<Rightarrow> acyclic (edge_rel g)
     | Some e \<Rightarrow> (\<exists>v < length (nodes_m g). (v, v) \<in> (edge_rel g)\<^sup>+ \<and>
        e = ''Cycle detected in the build graph at: '' @ path (nodes_m g ! v)))"
proof -
  obtain g r where g: "addStep (\<lambda>_. 7) (\<lambda>_. None) (empty_graph 4) example_step = Some (g, r)" "graph_ok (\<lambda>_. 7) g"
    using addStep_ok [OF empty_graph_ok example_step_new, of "\<lambda>_. 7" "\<lambda>_. None" 4] by blast
  note C = cycle_check_correct [OF g(2)]
  from C [THEN conjunct2, THEN conjunct1, THEN spec, of "\<lambda>_. None"]
  have "acyclic (edge_rel g) \<longrightarrow> cycle_check (\<lambda>_. None) g = Some None" by simp
  with g(1) C [THEN conjunct2, THEN conjunct2] show ?thesis by blast
qed

end
