(* ===== verification/NodeTimes.thy ===== *)
theory NodeTimes
  imports Adjacency Commands CycleCheck
begin

text \<open>
  The up-to-date check (src/executor.cpp): the class \<open>NodeTimes\<close> and \<open>needsRebuild\<close>. Source nodes
  are stat'ed once and folded along their out-edges into a summary per node, produced inputs are
  grouped by target and checked through slots that are filled at most once. The reference is the
  plain rule of the documentation: a step is stale when its output is missing, its command has
  changed, or the build file or one of its inputs is missing or not older than the output.

  A slot is what another thread may see of it; the compare-and-swap on its state is one operation.
\<close>

section \<open>State\<close>

text \<open>\<open>fs::file_time_type::min()\<close>: time points count in 64 bits.\<close>

definition min_time :: int where
  "min_time = - (2 ^ 63)"

datatype time_slot = UNKNOWN | BUSY | READY bool int

record source_summary =
  newest :: int
  missing :: bool
  any :: bool

definition no_summary :: source_summary where
  "no_summary = \<lparr>newest = min_time, missing = False, any = False\<rparr>"

record node_times =
  slots :: "time_slot list"
  sources :: "source_summary list"
  produced_in_offsets :: "nat list"
  produced_in_nodes :: "nat list"
  build_file :: string
  build_file_node :: "nat option"
  build_file_slot :: time_slot

section \<open>Stat of the sources\<close>

definition STATS_PER_THREAD :: nat where
  "STATS_PER_THREAD = 256"

definition pending_sources :: "build_graph \<Rightarrow> nat list" where
  "pending_sources g = filter (\<lambda>i. \<not> produced g i \<and> succs g i \<noteq> []) [0..<length (nodes_m g)]"

text \<open>The ranges of the threads, the one of the calling thread last.\<close>

definition stat_ranges :: "nat \<Rightarrow> nat \<Rightarrow> (nat \<times> nat) list" where
  "stat_ranges thread_count n =
     (let workers = min thread_count (n div STATS_PER_THREAD)
      in if workers \<le> 1 then [(0, n)]
         else
           let chunk = (n + workers - 1) div workers
           in map (\<lambda>k. (k * chunk, min (k * chunk + chunk) n)) (filter (\<lambda>k. k * chunk < n) [1..<n]) @ [(0, chunk)])"

definition stat_source :: "world \<Rightarrow> build_graph \<Rightarrow> source_summary list \<Rightarrow> nat \<Rightarrow> source_summary list" where
  "stat_source w g srcs i =
     srcs[i := (srcs ! i)\<lparr>newest := (case w_time w (path (nodes_m g ! i)) of None \<Rightarrow> min_time | Some t \<Rightarrow> t),
                          missing := w_time w (path (nodes_m g ! i)) = None\<rparr>]"

definition stat_range ::
  "world \<Rightarrow> build_graph \<Rightarrow> nat list \<Rightarrow> source_summary list \<Rightarrow> nat \<times> nat \<Rightarrow> source_summary list" where
  "stat_range w g pending srcs r = foldl (\<lambda>srcs i. stat_source w g srcs (pending ! i)) srcs [fst r..<snd r]"

definition statSources :: "world \<Rightarrow> build_graph \<Rightarrow> nat \<Rightarrow> source_summary list \<Rightarrow> source_summary list" where
  "statSources w g thread_count srcs =
     (let pending = pending_sources g
      in foldl (stat_range w g pending) srcs (stat_ranges thread_count (length pending)))"

section \<open>Construction\<close>

definition mark_missing :: "source_summary list \<Rightarrow> nat list \<Rightarrow> source_summary list" where
  "mark_missing = foldl (\<lambda>srcs out. srcs[out := (srcs ! out)\<lparr>missing := True, any := True\<rparr>])"

definition raise_newest :: "int \<Rightarrow> source_summary list \<Rightarrow> nat list \<Rightarrow> source_summary list" where
  "raise_newest t = foldl (\<lambda>srcs out. srcs[out := (srcs ! out)\<lparr>newest := max (newest (srcs ! out)) t, any := True\<rparr>])"

definition visit_node ::
  "build_graph \<Rightarrow> nat list \<times> source_summary list \<Rightarrow> nat \<Rightarrow> nat list \<times> source_summary list" where
  "visit_node g st i = (case st of (offsets, srcs) \<Rightarrow>
     if produced g i then (count_targets offsets (succs g i), srcs)
     else if missing (srcs ! i) then (offsets, mark_missing srcs (succs g i))
     else (offsets, raise_newest (newest (srcs ! i)) srcs (succs g i)))"

definition produced_edges :: "build_graph \<Rightarrow> (nat \<times> nat) list" where
  "produced_edges g =
     concat (map (\<lambda>i. if produced g i then map (Pair i) (succs g i) else []) [0..<length (nodes_m g)])"

definition new_node_times ::
  "(string \<Rightarrow> u64) \<Rightarrow> world \<Rightarrow> build_graph \<Rightarrow> string \<Rightarrow> nat \<Rightarrow> node_times" where
  "new_node_times h w g bf thread_count =
     (let n = length (nodes_m g);
          srcs = statSources w g thread_count (replicate n no_summary);
          (offsets, srcs) = foldl (visit_node g) (replicate (n + 1) 0, srcs) [0..<n];
          offsets = sum_offsets n offsets;
          (cursor, in_nodes) = fill_slices (butlast offsets, replicate (offsets ! n) 0) (produced_edges g)
      in \<lparr>slots = replicate n UNKNOWN, sources = srcs, produced_in_offsets = offsets,
          produced_in_nodes = in_nodes, build_file = bf, build_file_node = findNode h g bf,
          build_file_slot = UNKNOWN\<rparr>)"

section \<open>Queries\<close>

definition changedSince :: "world \<Rightarrow> time_slot \<Rightarrow> string \<Rightarrow> int \<Rightarrow> bool \<times> time_slot" where
  "changedSince w slot p output_time =
     (case slot of
        READY m t \<Rightarrow> (m \<or> t \<ge> output_time, slot)
      | _ \<Rightarrow>
          let ec = w_time w p = None; time = (case w_time w p of None \<Rightarrow> min_time | Some t \<Rightarrow> t)
          in (ec \<or> time \<ge> output_time, if slot = UNKNOWN then READY ec time else slot))"

fun check_inputs :: "world \<Rightarrow> build_graph \<Rightarrow> node_times \<Rightarrow> int \<Rightarrow> nat list \<Rightarrow> bool \<times> node_times" where
  "check_inputs w g nt output_time [] = (False, nt)"
| "check_inputs w g nt output_time (i # is) =
     (let input = produced_in_nodes nt ! i;
          (changed, slot) = changedSince w (slots nt ! input) (path (nodes_m g ! input)) output_time;
          nt = nt\<lparr>slots := (slots nt)[input := slot]\<rparr>
      in if changed then (True, nt) else check_inputs w g nt output_time is)"

definition inputsChangedSince :: "world \<Rightarrow> build_graph \<Rightarrow> node_times \<Rightarrow> nat \<Rightarrow> int \<Rightarrow> bool \<times> node_times" where
  "inputsChangedSince w g nt v output_time =
     (let summary = sources nt ! v
      in if any summary \<and> (missing summary \<or> newest summary \<ge> output_time) then (True, nt)
         else check_inputs w g nt output_time [produced_in_offsets nt ! v..<produced_in_offsets nt ! (v + 1)])"

definition buildFileChangedSince :: "world \<Rightarrow> node_times \<Rightarrow> int \<Rightarrow> bool \<times> node_times" where
  "buildFileChangedSince w nt output_time =
     (let (changed, slot) = changedSince w (build_file_slot nt) (build_file nt) output_time
      in (changed, nt\<lparr>build_file_slot := slot\<rparr>))"

definition record_time :: "node_times \<Rightarrow> nat \<Rightarrow> int \<Rightarrow> node_times" where
  "record_time nt v time =
     (if slots nt ! v = UNKNOWN then nt\<lparr>slots := (slots nt)[v := READY False time]\<rparr> else nt)"

definition invalidate :: "node_times \<Rightarrow> nat \<Rightarrow> node_times" where
  "invalidate nt v =
     (let nt = nt\<lparr>slots := (slots nt)[v := UNKNOWN]\<rparr>
      in if build_file_node nt = Some v then nt\<lparr>build_file_slot := UNKNOWN\<rparr> else nt)"

text \<open>\<open>needsRebuild\<close>, with the hash and the arguments it hands out; \<open>Inl\<close> is the exception of the
  second \<open>last_write_time\<close>.\<close>

definition needsRebuild ::
  "nat \<Rightarrow> world \<Rightarrow> build_graph \<Rightarrow> build_step \<Rightarrow> nat \<Rightarrow> node_times \<Rightarrow> ToolchainFlags
    \<Rightarrow> (bool \<times> node_times \<times> u64 \<times> string list) result" where
  "needsRebuild rsp_threshold w g step v nt flags =
     (let args = fst (buildCommandArgs rsp_threshold (build_file nt) w step True flags);
          current_hash = hashCommand args;
          rebuild = (\<lambda>nt. expected (True, nt, current_hash, args));
          checks = (\<lambda>output_modtime.
            let (changed, nt) = buildFileChangedSince w nt output_modtime
            in if changed then rebuild nt
               else
                 let (changed, nt) = inputsChangedSince w g nt v output_modtime
                 in if changed then rebuild nt
                    else expected (False, record_time nt v output_modtime, current_hash, []))
      in case w_time w (output_path step) of
           None \<Rightarrow>
             if \<not> w_exists w (output_path step) \<or> command_hash step \<noteq> current_hash then rebuild nt
             else unexpected ''filesystem error: cannot get file time''
         | Some output_modtime \<Rightarrow>
             if command_hash step \<noteq> current_hash then rebuild nt else checks output_modtime)"

section \<open>The reference rule\<close>

definition stale :: "world \<Rightarrow> string \<Rightarrow> int \<Rightarrow> bool" where
  "stale w p output_time = (case w_time w p of None \<Rightarrow> True | Some t \<Rightarrow> t \<ge> output_time)"

text \<open>Time points do not lie below \<open>min()\<close>, and a file exists if and only if it has a time.\<close>

definition world_ok :: "world \<Rightarrow> bool" where
  "world_ok w \<longleftrightarrow> (\<forall>p t. w_time w p = Some t \<longrightarrow> min_time \<le> t) \<and> (\<forall>p. w_exists w p \<longleftrightarrow> w_time w p \<noteq> None)"

definition summary_changed :: "source_summary \<Rightarrow> int \<Rightarrow> bool" where
  "summary_changed s t \<longleftrightarrow> any s \<and> (missing s \<or> newest s \<ge> t)"

section \<open>Threads of the stat\<close>

lemma chunks_upt:
  assumes "0 < c" "a \<le> m" "a * c \<le> n"
  shows "concat (map (\<lambda>k. [k * c..<min (k * c + c) n]) (filter (\<lambda>k. k * c < n) [a..<m])) = [a * c..<min (m * c) n]"
  using assms(2)
proof (induction m rule: dec_induct)
  case (step m)
  show ?case
  proof (cases "m * c < n")
    case True
    then have "a * c \<le> m * c" "m * c \<le> min (m * c + c) n" using step(1) by auto
    from upt_add_eq_append [OF this(1), of "min (m * c + c) n - m * c"] this show ?thesis
      using True step by (simp add: add.commute)
  next
    case False
    then show ?thesis using step by (simp add: min_def)
  qed
qed (use assms(3) in \<open>simp add: min_def\<close>)

lemma stat_ranges_mset:
  "mset (concat (map (\<lambda>(b, e). [b..<e]) (stat_ranges thread_count n))) = mset [0..<n]"
proof -
  define ws where "ws = min thread_count (n div STATS_PER_THREAD)"
  let ?c = "(n + ws - 1) div ws"
  show ?thesis
  proof (cases "ws \<le> 1")
    case True
    then show ?thesis by (simp add: stat_ranges_def Let_def ws_def)
  next
    case False
    then have n: "512 \<le> n" by (simp add: ws_def STATS_PER_THREAD_def)
    have w: "2 \<le> ws" "ws \<le> n" using False by (auto simp: ws_def STATS_PER_THREAD_def)
    have "ws \<le> n + ws - 1" using n by simp
    then have c: "0 < ?c" using w(1) by (simp add: div_greater_zero_iff)
    have "n + ws - 1 \<le> n * ws"
    proof -
      have "ws - 1 \<le> n * (ws - 1)" using n by simp
      then have "n + (ws - 1) \<le> n + n * (ws - 1)" by simp
      also have "\<dots> = n * ws" using w(1) by (cases ws) simp_all
      finally show ?thesis using w(1) by simp
    qed
    then have "?c \<le> n * ws div ws" by (rule div_le_mono)
    then have cn: "?c \<le> n" using w(1) by simp
    have "concat (map (\<lambda>(b, e). [b..<e]) (stat_ranges thread_count n)) =
        concat (map (\<lambda>k. [k * ?c..<min (k * ?c + ?c) n]) (filter (\<lambda>k. k * ?c < n) [1..<n])) @ [0..<?c]"
      using False by (simp add: stat_ranges_def Let_def comp_def flip: ws_def)
    also have "concat (map (\<lambda>k. [k * ?c..<min (k * ?c + ?c) n]) (filter (\<lambda>k. k * ?c < n) [1..<n])) =
        [1 * ?c..<min (n * ?c) n]"
      by (rule chunks_upt [OF c]) (use n cn in linarith)+
    also have "min (n * ?c) n = n" using c by (intro min_absorb2) simp
    finally have "mset (concat (map (\<lambda>(b, e). [b..<e]) (stat_ranges thread_count n))) = mset ([0..<?c] @ [?c..<n])"
      by (simp add: union_commute)
    also have "[0..<?c] @ [?c..<n] = [0..<n]" using cn by (metis le_add_diff_inverse upt_add_eq_append zero_le)
    finally show ?thesis .
  qed
qed

definition stat_summary :: "world \<Rightarrow> string \<Rightarrow> source_summary \<Rightarrow> source_summary" where
  "stat_summary w p s =
     s\<lparr>newest := (case w_time w p of None \<Rightarrow> min_time | Some t \<Rightarrow> t), missing := w_time w p = None\<rparr>"

lemma stat_sources_nth:
  "length (foldl (stat_source w g) srcs is) = length srcs"
  "v < length srcs \<Longrightarrow> foldl (stat_source w g) srcs is ! v =
     (if v \<in> set is then stat_summary w (path (nodes_m g ! v)) (srcs ! v) else srcs ! v)"
proof (induction "is" arbitrary: srcs)
  case (Cons a as)
  {
    case 1
    show ?case using Cons(1) [of "stat_source w g srcs a"] by (simp add: stat_source_def)
  next
    case 2
    then show ?case
      using Cons(2) [of "stat_source w g srcs a"]
      by (cases "v = a") (auto simp: stat_source_def stat_summary_def)
  }
qed simp_all

lemma stat_range_map: "stat_range w g pending srcs r = foldl (stat_source w g) srcs (map ((!) pending) [fst r..<snd r])"
  by (simp add: stat_range_def foldl_map)

lemma stat_ranges_foldl:
  "foldl (stat_range w g pending) srcs rs =
    foldl (stat_source w g) srcs (map ((!) pending) (concat (map (\<lambda>(b, e). [b..<e]) rs)))"
  by (induction rs arbitrary: srcs) (auto simp: stat_range_map)

lemma statSources_ok:
  assumes "v < length srcs" "length srcs = length (nodes_m g)"
  shows "length (statSources w g tc srcs) = length srcs \<and> statSources w g tc srcs ! v =
    (if \<not> produced g v \<and> succs g v \<noteq> [] then stat_summary w (path (nodes_m g ! v)) (srcs ! v) else srcs ! v)"
proof -
  let ?p = "pending_sources g"
  let ?l = "concat (map (\<lambda>(b, e). [b..<e]) (stat_ranges tc (length ?p)))"
  have "set ?l = {..<length ?p}"
    using mset_eq_setD [OF stat_ranges_mset [of tc "length ?p"]] by (simp only: set_upt atLeast0LessThan)
  then have "set (map ((!) ?p) ?l) = (!) ?p ` {..<length ?p}" by (simp only: set_map)
  also have "\<dots> = set ?p" by (auto simp: set_conv_nth)
  finally have "set (map ((!) ?p) ?l) = {v. v < length (nodes_m g) \<and> \<not> produced g v \<and> succs g v \<noteq> []}"
    by (simp only: pending_sources_def set_filter set_upt) auto
  then show ?thesis
    unfolding statSources_def Let_def stat_ranges_foldl using stat_sources_nth [where w = w and g = g and srcs = srcs] assms by simp
qed

section \<open>The summaries and the offsets\<close>

lemma mark_missing_nth:
  "length (mark_missing srcs outs) = length srcs"
  "v < length srcs \<Longrightarrow> mark_missing srcs outs ! v =
     (if v \<in> set outs then (srcs ! v)\<lparr>missing := True, any := True\<rparr> else srcs ! v)"
proof (induction outs arbitrary: srcs)
  case (Cons a as)
  {
    case 1
    show ?case using Cons(1) by (simp add: mark_missing_def)
  next
    case 2
    then show ?case
      using Cons(2) [of "srcs[a := (srcs ! a)\<lparr>missing := True, any := True\<rparr>]"]
      by (cases "v = a") (simp_all add: mark_missing_def)
  }
qed (simp_all add: mark_missing_def)

lemma raise_newest_nth:
  "length (raise_newest t srcs outs) = length srcs"
  "v < length srcs \<Longrightarrow> raise_newest t srcs outs ! v =
     (if v \<in> set outs then (srcs ! v)\<lparr>newest := max (newest (srcs ! v)) t, any := True\<rparr> else srcs ! v)"
proof (induction outs arbitrary: srcs)
  case (Cons a as)
  {
    case 1
    show ?case using Cons(1) by (simp add: raise_newest_def)
  next
    case 2
    then show ?case
      using Cons(2) [of "srcs[a := (srcs ! a)\<lparr>newest := max (newest (srcs ! a)) t, any := True\<rparr>]"]
      by (cases "v = a") (simp_all add: raise_newest_def)
  }
qed (simp_all add: raise_newest_def)

text \<open>After the nodes below \<open>m\<close>: source nodes keep their own time, and the summary of a produced
  node answers for its source inputs below \<open>m\<close>.\<close>

definition edges_below :: "build_graph \<Rightarrow> nat \<Rightarrow> (nat \<times> nat) list" where
  "edges_below g m = concat (map (\<lambda>i. if produced g i then map (Pair i) (succs g i) else []) [0..<m])"

lemma edges_below_Suc:
  "edges_below g (Suc m) = edges_below g m @ (if produced g m then map (Pair m) (succs g m) else [])"
  by (simp add: edges_below_def)

lemma edge_count_Pair: "edge_count (map (Pair i) xs) v = count_list xs v"
  by (induction xs) auto

definition source_stale :: "world \<Rightarrow> build_graph \<Rightarrow> nat \<Rightarrow> nat \<Rightarrow> int \<Rightarrow> bool" where
  "source_stale w g m v t \<longleftrightarrow>
     (\<exists>u < m. \<not> produced g u \<and> v \<in> set (succs g u) \<and> stale w (path (nodes_m g ! u)) t)"

definition visit_inv ::
  "world \<Rightarrow> build_graph \<Rightarrow> nat \<Rightarrow> nat list \<times> source_summary list \<Rightarrow> bool" where
  "visit_inv w g m st = (case st of (offsets, srcs) \<Rightarrow>
     let n = length (nodes_m g) in
     length offsets = n + 1 \<and> offsets ! 0 = 0 \<and> (\<forall>v < n. offsets ! (v + 1) = edge_count (edges_below g m) v) \<and>
     length srcs = n \<and>
     (\<forall>u < n. \<not> produced g u \<longrightarrow> succs g u \<noteq> [] \<longrightarrow> srcs ! u = stat_summary w (path (nodes_m g ! u)) no_summary) \<and>
     (\<forall>v < n. produced g v \<longrightarrow> (\<forall>t. summary_changed (srcs ! v) t \<longleftrightarrow> source_stale w g m v t) \<and>
        (\<not> any (srcs ! v) \<longrightarrow> \<not> missing (srcs ! v) \<and> newest (srcs ! v) = min_time)))"

lemma source_stale_Suc:
  "source_stale w g (Suc m) v t \<longleftrightarrow> source_stale w g m v t \<or>
     \<not> produced g m \<and> v \<in> set (succs g m) \<and> stale w (path (nodes_m g ! m)) t"
  by (auto simp: source_stale_def less_Suc_eq)

lemma visit_step:
  assumes "visit_inv w g m st" "m < length (nodes_m g)" "edges_in_range g" "sources_have_no_inputs g" "world_ok w"
  shows "visit_inv w g (Suc m) (visit_node g st m)"
proof -
  let ?n = "length (nodes_m g)"
  obtain offsets srcs where st: "st = (offsets, srcs)" by force
  have I: "length offsets = ?n + 1" "offsets ! 0 = 0" "\<And>v. v < ?n \<Longrightarrow> offsets ! (v + 1) = edge_count (edges_below g m) v"
    "length srcs = ?n"
    "\<And>u. u < ?n \<Longrightarrow> \<not> produced g u \<Longrightarrow> succs g u \<noteq> [] \<Longrightarrow> srcs ! u = stat_summary w (path (nodes_m g ! u)) no_summary"
    "\<And>v t. v < ?n \<Longrightarrow> produced g v \<Longrightarrow> summary_changed (srcs ! v) t \<longleftrightarrow> source_stale w g m v t"
    "\<And>v. v < ?n \<Longrightarrow> produced g v \<Longrightarrow> \<not> any (srcs ! v) \<Longrightarrow> \<not> missing (srcs ! v) \<and> newest (srcs ! v) = min_time"
    using assms(1) by (auto simp: visit_inv_def st Let_def)
  have outs: "\<forall>v \<in> set (succs g m). v < ?n" "\<forall>v \<in> set (succs g m). produced g v"
    using assms(2-4) by (auto simp: edges_in_range_def sources_have_no_inputs_def)
  show ?thesis
  proof (cases "produced g m")
    case True
    then have "visit_node g st m = (count_targets offsets (succs g m), srcs)" by (simp add: visit_node_def st)
    then show ?thesis
      using count_targets_ok [OF outs(1) I(1)] I True
      by (auto simp: visit_inv_def Let_def edges_below_Suc edge_count_Pair source_stale_Suc)
  next
    case src: False
    then have e: "edges_below g (Suc m) = edges_below g m" by (simp add: edges_below_Suc)
    show ?thesis
    proof (cases "succs g m = []")
      case True
      then have "visit_node g st m = (offsets, srcs)"
        using src by (simp add: visit_node_def st mark_missing_def raise_newest_def)
      then show ?thesis using I True by (simp add: visit_inv_def Let_def e source_stale_Suc)
    next
      case False
      with I(5) [OF assms(2) src] have m: "srcs ! m = stat_summary w (path (nodes_m g ! m)) no_summary" by simp
      show ?thesis
      proof (cases "w_time w (path (nodes_m g ! m))")
        case None
        then have "visit_node g st m = (offsets, mark_missing srcs (succs g m))"
          using src m by (simp add: visit_node_def st stat_summary_def)
        then show ?thesis
          using I src outs None
          by (auto simp: visit_inv_def Let_def e mark_missing_nth source_stale_Suc summary_changed_def stale_def)
      next
        case (Some x)
        then have v: "visit_node g st m = (offsets, raise_newest x srcs (succs g m))"
          using src m by (simp add: visit_node_def st stat_summary_def no_summary_def)
        have x: "min_time \<le> x" using assms(5) Some by (auto simp: world_ok_def)
        have "summary_changed ((srcs ! v)\<lparr>newest := max (newest (srcs ! v)) x, any := True\<rparr>) t \<longleftrightarrow>
            source_stale w g m v t \<or> x \<ge> t" if "v < ?n" "produced g v" for v t
          using I(6) [OF that, of t] I(7) [OF that] x by (cases "any (srcs ! v)") (auto simp: summary_changed_def)
        then show ?thesis
          using I src outs Some v
          by (auto simp: visit_inv_def Let_def e raise_newest_nth source_stale_Suc stale_def)
      qed
    qed
  qed
qed

lemma visit_all:
  assumes "edges_in_range g" "sources_have_no_inputs g" "world_ok w" "m \<le> length (nodes_m g)"
  shows "visit_inv w g m (foldl (visit_node g) (replicate (length (nodes_m g) + 1) 0,
    statSources w g tc (replicate (length (nodes_m g)) no_summary)) [0..<m])"
  using assms(4)
proof (induction m)
  case 0
  let ?n = "length (nodes_m g)"
  have "v < ?n \<Longrightarrow> statSources w g tc (replicate ?n no_summary) ! v =
      (if \<not> produced g v \<and> succs g v \<noteq> [] then stat_summary w (path (nodes_m g ! v)) no_summary else no_summary)" for v
    using statSources_ok [of v "replicate ?n no_summary" g w tc] by auto
  moreover have "length (statSources w g tc (replicate ?n no_summary)) = ?n"
  proof (cases ?n)
    case 0
    then show ?thesis by (simp add: statSources_def pending_sources_def stat_ranges_foldl stat_sources_nth)
  next
    case (Suc k)
    then show ?thesis using statSources_ok [of 0 "replicate ?n no_summary" g w tc] by simp
  qed
  ultimately show ?case
    by (auto simp: visit_inv_def Let_def edges_below_def summary_changed_def source_stale_def no_summary_def nth_Cons'
        simp del: replicate_Suc)
next
  case (Suc m)
  then show ?case using visit_step [OF _ _ assms(1-3), of m] by simp
qed

section \<open>Coherence\<close>

definition slot_ok :: "world \<Rightarrow> string \<Rightarrow> time_slot \<Rightarrow> bool" where
  "slot_ok w p s = (case s of
     READY m x \<Rightarrow> if m then w_time w p = None else w_time w p = Some x
   | _ \<Rightarrow> True)"

definition coherent :: "(string \<Rightarrow> u64) \<Rightarrow> world \<Rightarrow> build_graph \<Rightarrow> node_times \<Rightarrow> bool" where
  "coherent h w g nt \<longleftrightarrow>
     length (slots nt) = length (nodes_m g) \<and>
     (\<forall>v < length (nodes_m g). slot_ok w (path (nodes_m g ! v)) (slots nt ! v)) \<and>
     slot_ok w (build_file nt) (build_file_slot nt) \<and>
     build_file_node nt = findNode h g (build_file nt) \<and>
     (\<forall>v < length (nodes_m g). produced g v \<longrightarrow>
        (\<forall>t. summary_changed (sources nt ! v) t \<longleftrightarrow> source_stale w g (length (nodes_m g)) v t) \<and>
        map ((!) (produced_in_nodes nt)) [produced_in_offsets nt ! v..<produced_in_offsets nt ! (v + 1)] =
          sources_of (produced_edges g) v)"

lemma new_node_times_coherent:
  assumes "edges_in_range g" "sources_have_no_inputs g" "world_ok w"
  shows "coherent h w g (new_node_times h w g bf tc) \<and> build_file (new_node_times h w g bf tc) = bf"
proof -
  let ?n = "length (nodes_m g)"
  define st where "st = foldl (visit_node g) (replicate (?n + 1) 0,
    statSources w g tc (replicate ?n no_summary)) [0..<?n]"
  obtain offsets srcs where o: "st = (offsets, srcs)" by force
  have E: "edges_below g ?n = produced_edges g" by (simp add: edges_below_def produced_edges_def)
  have "visit_inv w g ?n st" unfolding st_def by (rule visit_all [OF assms]) simp
  then have I: "length offsets = ?n + 1" "offsets ! 0 = 0" "\<forall>v < ?n. offsets ! (v + 1) = edge_count (produced_edges g) v"
    "\<forall>v < ?n. produced g v \<longrightarrow> (\<forall>t. summary_changed (srcs ! v) t \<longleftrightarrow> source_stale w g ?n v t)"
    by (auto simp: visit_inv_def o Let_def E)
  define off where "off = sum_offsets ?n offsets"
  have off: "length off = ?n + 1" "\<forall>k \<le> ?n. off ! k = offset_of (produced_edges g) k"
    using sum_offsets_ok [OF I(1-3)] by (auto simp: off_def)
  obtain cursor arr where f: "fill_slices (butlast off, replicate (off ! ?n) 0) (produced_edges g) = (cursor, arr)"
    by force
  have "\<forall>e \<in> set (produced_edges g). snd e < ?n"
    using assms(1) by (auto simp: produced_edges_def edges_in_range_def split: if_splits)
  then have "fill_inv ?n (produced_edges g) (produced_edges g) (fill_slices (butlast off, replicate (off ! ?n) 0) (produced_edges g))"
    by (rule fill_slices_ok) (use off in \<open>auto simp: nth_butlast\<close>)
  then have fi: "fill_inv ?n (produced_edges g) (produced_edges g) (cursor, arr)" unfolding f .
  have slice: "v < ?n \<Longrightarrow> map ((!) arr) [off ! v..<off ! (v + 1)] = sources_of (produced_edges g) v" for v
    using slice_sources [OF fi, of v] off(2) by simp
  have nt: "new_node_times h w g bf tc = \<lparr>slots = replicate ?n UNKNOWN, sources = srcs, produced_in_offsets = off,
      produced_in_nodes = arr, build_file = bf, build_file_node = findNode h g bf, build_file_slot = UNKNOWN\<rparr>"
    using o f unfolding new_node_times_def Let_def st_def off_def by simp
  show ?thesis
    unfolding nt coherent_def using I(4) slice by (simp add: slot_ok_def)
qed

lemma changedSince_ok:
  assumes "slot_ok w p s"
  shows "fst (changedSince w s p t) \<longleftrightarrow> stale w p t" "slot_ok w p (snd (changedSince w s p t))"
  using assms
  by (cases s; auto simp: changedSince_def slot_ok_def stale_def Let_def split: option.splits if_splits)+

lemma coherent_slot:
  assumes "coherent h w g nt" "v < length (nodes_m g)" "slot_ok w (path (nodes_m g ! v)) s"
  shows "coherent h w g (nt\<lparr>slots := (slots nt)[v := s]\<rparr>)"
  using assms by (auto simp: coherent_def nth_list_update)

lemma check_inputs_ok:
  assumes "coherent h w g nt" "\<forall>i \<in> set is. produced_in_nodes nt ! i < length (nodes_m g)"
  shows "(fst (check_inputs w g nt t is) \<longleftrightarrow> (\<exists>i \<in> set is. stale w (path (nodes_m g ! (produced_in_nodes nt ! i))) t)) \<and>
    coherent h w g (snd (check_inputs w g nt t is)) \<and> build_file (snd (check_inputs w g nt t is)) = build_file nt"
  using assms
proof (induction "is" arbitrary: nt)
  case (Cons i "is")
  let ?v = "produced_in_nodes nt ! i"
  obtain changed s where c: "changedSince w (slots nt ! ?v) (path (nodes_m g ! ?v)) t = (changed, s)" by force
  have v: "?v < length (nodes_m g)" using Cons.prems by simp
  then have "slot_ok w (path (nodes_m g ! ?v)) (slots nt ! ?v)" using Cons.prems(1) by (simp add: coherent_def)
  from changedSince_ok [OF this, of t] c
  have s: "changed \<longleftrightarrow> stale w (path (nodes_m g ! ?v)) t" "slot_ok w (path (nodes_m g ! ?v)) s" by auto
  have co: "coherent h w g (nt\<lparr>slots := (slots nt)[?v := s]\<rparr>)" by (rule coherent_slot [OF Cons.prems(1) v s(2)])
  show ?case
  proof (cases changed)
    case True
    then show ?thesis using c s co by (simp add: Let_def)
  next
    case False
    have "\<forall>i \<in> set is. produced_in_nodes (nt\<lparr>slots := (slots nt)[?v := s]\<rparr>) ! i < length (nodes_m g)"
      using Cons.prems(2) by simp
    from Cons.IH [OF co this] show ?thesis using c s False by (simp add: Let_def)
  qed
qed simp

lemma produced_edges_mem:
  "u \<in> set (sources_of (produced_edges g) v) \<longleftrightarrow> u < length (nodes_m g) \<and> produced g u \<and> v \<in> set (succs g u)"
  by (force simp: sources_of_def produced_edges_def image_iff split: if_splits)

text \<open>A query about the inputs of a produced node.\<close>

lemma inputsChangedSince_ok:
  assumes "coherent h w g nt" "v < length (nodes_m g)" "produced g v"
  shows "(fst (inputsChangedSince w g nt v t) \<longleftrightarrow>
      (\<exists>u < length (nodes_m g). v \<in> set (succs g u) \<and> stale w (path (nodes_m g ! u)) t)) \<and>
    coherent h w g (snd (inputsChangedSince w g nt v t)) \<and>
    build_file (snd (inputsChangedSince w g nt v t)) = build_file nt"
proof -
  let ?is = "[produced_in_offsets nt ! v..<produced_in_offsets nt ! (v + 1)]"
  have c: "summary_changed (sources nt ! v) t \<longleftrightarrow> source_stale w g (length (nodes_m g)) v t"
    "map ((!) (produced_in_nodes nt)) ?is = sources_of (produced_edges g) v"
    using assms by (auto simp: coherent_def)
  have mem: "(!) (produced_in_nodes nt) ` set ?is = {u. u < length (nodes_m g) \<and> produced g u \<and> v \<in> set (succs g u)}"
    using arg_cong [OF c(2), of set] produced_edges_mem by (simp only: set_map) auto
  have "\<forall>i \<in> set ?is. produced_in_nodes nt ! i < length (nodes_m g)" using mem by blast
  note ck = check_inputs_ok [OF assms(1) this, of t]
  have "(\<exists>i \<in> set ?is. stale w (path (nodes_m g ! (produced_in_nodes nt ! i))) t) \<longleftrightarrow>
      (\<exists>u \<in> (!) (produced_in_nodes nt) ` set ?is. stale w (path (nodes_m g ! u)) t)" by blast
  then have ex: "(\<exists>i \<in> set ?is. stale w (path (nodes_m g ! (produced_in_nodes nt ! i))) t) \<longleftrightarrow>
      (\<exists>u < length (nodes_m g). produced g u \<and> v \<in> set (succs g u) \<and> stale w (path (nodes_m g ! u)) t)"
    unfolding mem by blast
  show ?thesis
  proof (cases "summary_changed (sources nt ! v) t")
    case True
    then show ?thesis
      using c(1) assms(1) by (auto simp: inputsChangedSince_def summary_changed_def Let_def source_stale_def)
  next
    case False
    then have "inputsChangedSince w g nt v t = check_inputs w g nt t ?is"
      by (auto simp: inputsChangedSince_def summary_changed_def Let_def)
    then show ?thesis using ck ex c(1) False by (auto simp: source_stale_def)
  qed
qed

text \<open>The in-edges of a node are the inputs of its step.\<close>

lemma inputs_are_edges:
  assumes "graph_ok h g" "v < length (nodes_m g)" "step_id (nodes_m g ! v) = Some sid"
  shows "(\<exists>u < length (nodes_m g). v \<in> set (succs g u) \<and> P (path (nodes_m g ! u))) \<longleftrightarrow>
    (\<exists>p \<in> set (step_inputs (steps_m g ! sid)). P p)"
proof -
  have I: "node_inputs g v = step_inputs (steps_m g ! sid)" using assms(3) by (simp add: node_inputs_def)
  have m: "\<And>u. u < length (nodes_m g) \<Longrightarrow>
      v \<in> set (succs g u) \<longleftrightarrow> path (nodes_m g ! u) \<in> set (step_inputs (steps_m g ! sid))"
    "\<And>p. p \<in> set (step_inputs (steps_m g ! sid)) \<Longrightarrow> \<exists>u < length (nodes_m g). path (nodes_m g ! u) = p"
  proof -
    have e: "edges_match g (node_inputs g)" using assms(1) by (simp add: graph_ok_def)
    show "v \<in> set (succs g u) \<longleftrightarrow> path (nodes_m g ! u) \<in> set (step_inputs (steps_m g ! sid))"
      if "u < length (nodes_m g)" for u
      using e that assms(2) I unfolding edges_match_def by (metis count_list_0_iff)
    show "\<exists>u < length (nodes_m g). path (nodes_m g ! u) = p" if "p \<in> set (step_inputs (steps_m g ! sid))" for p
      using e that assms(2) I by (auto simp: edges_match_def)
  qed
  then show ?thesis by metis
qed

text \<open>The plain rule.\<close>

definition out_of_date :: "nat \<Rightarrow> world \<Rightarrow> string \<Rightarrow> build_step \<Rightarrow> ToolchainFlags \<Rightarrow> bool" where
  "out_of_date n w bf step flags =
     (case w_time w (output_path step) of
        None \<Rightarrow> True
      | Some t \<Rightarrow> command_hash step \<noteq> hashCommand (fst (buildCommandArgs n bf w step True flags)) \<or>
          stale w bf t \<or> (\<exists>p \<in> set (step_inputs step). stale w p t))"

lemma record_time_coherent:
  assumes "coherent h w g nt" "v < length (nodes_m g)" "w_time w (path (nodes_m g ! v)) = Some t"
  shows "coherent h w g (record_time nt v t)" "build_file (record_time nt v t) = build_file nt"
  using coherent_slot [OF assms(1,2), of "READY False t"] assms by (auto simp: record_time_def slot_ok_def)

lemma needsRebuild_ok:
  assumes "graph_ok h g" "world_ok w" "coherent h w g nt"
    and "v < length (nodes_m g)" "step_id (nodes_m g ! v) = Some sid"
  shows "\<exists>nt' args. needsRebuild n w g (steps_m g ! sid) v nt flags =
      Inr (out_of_date n w (build_file nt) (steps_m g ! sid) flags, nt',
        hashCommand (fst (buildCommandArgs n (build_file nt) w (steps_m g ! sid) True flags)), args) \<and>
    coherent h w g nt' \<and> build_file nt' = build_file nt \<and>
    (out_of_date n w (build_file nt) (steps_m g ! sid) flags \<longrightarrow>
      args = fst (buildCommandArgs n (build_file nt) w (steps_m g ! sid) True flags))"
proof -
  let ?step = "steps_m g ! sid"
  let ?bf = "build_file nt"
  let ?hash = "hashCommand (fst (buildCommandArgs n ?bf w ?step True flags))"
  have out: "output_path ?step = path (nodes_m g ! v)"
    using assms(1,4,5) by (auto simp: graph_ok_def producers_ok_def)
  have prod: "produced g v" using assms(5) by (simp add: produced_def)
  show ?thesis
  proof (cases "w_time w (output_path ?step)")
    case None
    then have "\<not> w_exists w (output_path ?step)" using assms(2) by (auto simp: world_ok_def)
    then show ?thesis using None assms(3) by (simp add: needsRebuild_def out_of_date_def Let_def)
  next
    case (Some t)
    show ?thesis
    proof (cases "command_hash ?step = ?hash")
      case False
      then show ?thesis using Some assms(3) by (simp add: needsRebuild_def out_of_date_def Let_def)
    next
      case True
      obtain b nt1 where b: "buildFileChangedSince w nt t = (b, nt1)" by force
      have slot: "slot_ok w ?bf (build_file_slot nt)" using assms(3) by (simp add: coherent_def)
      have bs: "b \<longleftrightarrow> stale w ?bf t" "coherent h w g nt1" "build_file nt1 = ?bf"
        using changedSince_ok [OF slot, of t] assms(3) b
        by (auto simp: buildFileChangedSince_def Let_def coherent_def split: prod.splits)
      obtain d nt2 where d: "inputsChangedSince w g nt1 v t = (d, nt2)" by force
      have ds: "d \<longleftrightarrow> (\<exists>p \<in> set (step_inputs ?step). stale w p t)" "coherent h w g nt2" "build_file nt2 = ?bf"
        using inputsChangedSince_ok [OF bs(2) assms(4) prod, of t] d bs(3)
          inputs_are_edges [OF assms(1,4,5), of "\<lambda>p. stale w p t"] by auto
      have r: "coherent h w g (record_time nt2 v t)" "build_file (record_time nt2 v t) = ?bf"
        using record_time_coherent [OF ds(2) assms(4)] Some out ds(3) by auto
      show ?thesis
      proof (cases b)
        case b': True
        then show ?thesis using Some True b bs by (simp add: needsRebuild_def out_of_date_def Let_def)
      next
        case b': False
        show ?thesis
        proof (cases d)
          case d': True
          then show ?thesis using Some True b b' bs d ds by (simp add: needsRebuild_def out_of_date_def Let_def)
        next
          case d': False
          then show ?thesis using Some True b b' bs d ds r by (simp add: needsRebuild_def out_of_date_def Let_def)
        qed
      qed
    qed
  qed
qed

section \<open>Properties\<close>

text \<open>A graph with one compile step: node 0 is \<open>a.o\<close>, node 1 its source.\<close>

definition compile_graph :: build_graph where
  "compile_graph = fst (the (addStep (\<lambda>_. 7) (\<lambda>_. None) (empty_graph 4) (compile_example\<lparr>parsed_inputs := []\<rparr>)))"

lemma compile_graph_ok: "graph_ok (\<lambda>_. 7) compile_graph"
proof -
  have "new_step (compile_example\<lparr>parsed_inputs := []\<rparr>)" by (simp add: new_step_def compile_example_def)
  from addStep_ok [OF empty_graph_ok this, of "\<lambda>_. 7" "\<lambda>_. None" 4] show ?thesis
    by (auto simp: compile_graph_def returns_def)
qed

lemma compile_graph_values:
  "length (nodes_m compile_graph) = 2" "step_id (nodes_m compile_graph ! 0) = Some 0"
  "path (nodes_m compile_graph ! 0) = ''a.o''" "path (nodes_m compile_graph ! Suc 0) = ''a.cpp''"
  "step_id (nodes_m compile_graph ! Suc 0) = None" "output_path (steps_m compile_graph ! 0) = ''a.o''"
  "succs compile_graph 0 = []" "succs compile_graph (Suc 0) = [0]"
  by code_simp+

text \<open>The source is newer than the object file.\<close>

definition edited :: world where
  "edited = \<lparr>w_exists = (\<lambda>p. p \<in> {''a.o'', ''a.cpp'', ''catalyst.build''}),
     w_time = [''a.o'' \<mapsto> 5, ''a.cpp'' \<mapsto> 9, ''catalyst.build'' \<mapsto> 1]\<rparr>"

lemma edited_ok: "world_ok edited"
  by (auto simp: world_ok_def edited_def min_time_def)

text \<open>Every source is stat'ed once. The ranges given to the stat threads cover every pending index
  exactly once, whatever the number of threads, so they race on no entry.\<close>

theorem stat_ranges_partition:
  "mset (concat (map (\<lambda>(b, e). [b..<e]) (stat_ranges thread_count n))) = mset [0..<n]"
  by (rule stat_ranges_mset)

text \<open>Construction. On a well-formed graph the caches that \<open>NodeTimes\<close> builds (the summaries of
  the source inputs, the grouped produced inputs, the empty slots) are coherent: a summary answers
  every comparison as the source inputs would, and the slices of the counting sort list exactly the
  produced inputs of each node.\<close>

theorem node_times_coherent:
  assumes "graph_ok h g" "world_ok w"
  shows "coherent h w g (new_node_times h w g bf thread_count)"
  using new_node_times_coherent [OF graph_ok_range graph_ok_sources assms(2)] assms(1) by blast

lemma node_times_coherent_witness:
  "coherent (\<lambda>_. 7) edited compile_graph (new_node_times (\<lambda>_. 7) edited compile_graph ''catalyst.build'' 4)"
  by (rule node_times_coherent [OF compile_graph_ok edited_ok])

text \<open>C32: The up-to-date check is the documented rule. With coherent caches \<open>needsRebuild\<close> asks for a
  rebuild if and only if the output is missing, the hash of the command has changed, or the build
  file or one of the parsed, opaque or dependency-file inputs of the step is missing or not older
  than the output; the caches stay coherent, and the arguments handed out are the command's.\<close>

theorem needsRebuild_rule:
  assumes "graph_ok h g" "world_ok w" "coherent h w g nt"
    and "v < length (nodes_m g)" "step_id (nodes_m g ! v) = Some sid"
  shows "case needsRebuild n w g (steps_m g ! sid) v nt flags of
      Inl e \<Rightarrow> False
    | Inr (b, nt', step_hash, args) \<Rightarrow>
        let step = steps_m g ! sid; command = fst (buildCommandArgs n (build_file nt) w step True flags)
        in (b \<longleftrightarrow> (case w_time w (output_path step) of
               None \<Rightarrow> True
             | Some t \<Rightarrow> command_hash step \<noteq> hashCommand command \<or> stale w (build_file nt) t \<or>
                 (\<exists>p \<in> set (step_inputs step). stale w p t))) \<and>
           coherent h w g nt' \<and> step_hash = hashCommand command \<and> (b \<longrightarrow> args = command)"
  using needsRebuild_ok [OF assms, of n flags] by (auto simp: Let_def out_of_date_def)

lemma needsRebuild_rule_witness:
  "\<exists>nt' hash args. needsRebuild 50 edited compile_graph (steps_m compile_graph ! 0) 0
    (new_node_times (\<lambda>_. 7) edited compile_graph ''catalyst.build'' 4) plain_tools = Inr (True, nt', hash, args)"
proof -
  let ?nt = "new_node_times (\<lambda>_. 7) edited compile_graph ''catalyst.build'' 4"
  have c: "coherent (\<lambda>_. 7) edited compile_graph ?nt"
    using new_node_times_coherent [OF graph_ok_range graph_ok_sources edited_ok] compile_graph_ok by blast
  have i: "''a.cpp'' \<in> set (step_inputs (steps_m compile_graph ! 0))" by code_simp
  have "stale edited ''a.cpp'' 5" "w_time edited ''a.o'' = Some 5" by (simp_all add: stale_def edited_def)
  then show ?thesis
    using needsRebuild_rule [OF compile_graph_ok edited_ok c _ compile_graph_values(2), of 50 plain_tools] i
    by (auto simp: compile_graph_values Let_def split: sum.splits)
qed

text \<open>Rewriting an output. When the file of a produced node changes its time, and no other node nor the
  build file does, \<open>invalidate\<close> makes the caches coherent with the new file system, also when that file is the
  build file itself.\<close>

theorem invalidate_coherent:
  assumes "graph_ok h g" "coherent h w g nt" "v < length (nodes_m g)" "produced g v"
    and "\<forall>p \<in> set (build_file nt # map path (nodes_m g)). p \<noteq> path (nodes_m g ! v) \<longrightarrow> w_time w' p = w_time w p"
  shows "coherent h w' g (invalidate nt v)"
proof -
  let ?p = "path (nodes_m g ! v)"
  have ix: "findNode h g ?p = Some v" using assms(1,3) by (auto simp: graph_ok_def index_ok_def findNode_def)
  have other: "path (nodes_m g ! u) \<noteq> ?p" if "u < length (nodes_m g)" "u \<noteq> v" for u
    using assms(1,3) that by (auto simp: graph_ok_def index_ok_def) (metis option.inject)
  have slot: "slot_ok w' p s" if "slot_ok w p s" "p \<noteq> ?p" "p \<in> set (build_file nt # map path (nodes_m g))" for p s
    using that assms(5) by (auto simp: slot_ok_def split: time_slot.splits if_splits)
  have st: "source_stale w' g n x t \<longleftrightarrow> source_stale w g n x t" if "n \<le> length (nodes_m g)" for n x t
  proof -
    have "stale w' (path (nodes_m g ! u)) t = stale w (path (nodes_m g ! u)) t" if "u < n" "\<not> produced g u" for u
      using other [of u] that \<open>n \<le> _\<close> assms(4,5) by (cases "u = v") (auto simp: stale_def)
    then show ?thesis by (auto simp: source_stale_def)
  qed
  have bf: "slot_ok w' (build_file nt) (build_file_slot nt)" if "build_file_node nt \<noteq> Some v"
  proof (rule slot)
    show "slot_ok w (build_file nt) (build_file_slot nt)" using assms(2) by (simp add: coherent_def)
    show "build_file nt \<noteq> ?p" using assms(2) ix that by (auto simp: coherent_def)
  qed simp
  show ?thesis
    using assms(2,3) slot st bf other
    by (auto simp: coherent_def invalidate_def Let_def nth_list_update slot_ok_def [of w' _ UNKNOWN])
qed

lemma invalidate_coherent_witness:
  "coherent (\<lambda>_. 7) (edited\<lparr>w_time := (w_time edited)(''a.o'' \<mapsto> 12)\<rparr>) compile_graph
    (invalidate (new_node_times (\<lambda>_. 7) edited compile_graph ''catalyst.build'' 4) 0)"
proof -
  have "coherent (\<lambda>_. 7) edited compile_graph (new_node_times (\<lambda>_. 7) edited compile_graph ''catalyst.build'' 4)"
    using new_node_times_coherent [OF graph_ok_range graph_ok_sources edited_ok] compile_graph_ok by blast
  then show ?thesis
    by (rule invalidate_coherent [OF compile_graph_ok]) (simp_all add: compile_graph_values produced_def)
qed

end
