(* ===== verification/Json_Text.thy ===== *)
theory Json_Text
  imports Builder
begin

text \<open>
  JSON: \<open>catalyst::JSON\<close> (include/cob/json.hpp, src/json.cpp), its writer \<open>dumpJSONInternal\<close> and
  \<open>escapeJSONString\<close> (src/executor.cpp). The reference is the grammar of JSON texts, as an inductive
  relation between texts and values, read byte by byte, and the encoding UTF-8, which a JSON text has
  besides. Numbers are a type parameter; their text is a parameter.
\<close>

section \<open>Strings\<close>

definition hex_digit :: "nat \<Rightarrow> char" where
  "hex_digit n = (if n < 10 then char_of (48 + n) else char_of (87 + n))"

text \<open>\<open>std::format\<close> of an \<open>unsigned int\<close> below 256 with \<open>{:04x}\<close>.\<close>

definition hex4 :: "nat \<Rightarrow> string" where
  "hex4 n = [CHR ''0'', CHR ''0'', hex_digit (n div 16), hex_digit (n mod 16)]"

abbreviation (input) QUOTE :: char where "QUOTE \<equiv> CHR 0x22"
abbreviation (input) BSLASH :: char where "BSLASH \<equiv> CHR 0x5C"

definition escape_char :: "char \<Rightarrow> string" where
  "escape_char c =
     (if c = QUOTE then [BSLASH, QUOTE]
      else if c = BSLASH then [BSLASH, BSLASH]
      else if c = CHR 0x08 then BSLASH # ''b''
      else if c = CHR 0x0C then BSLASH # ''f''
      else if c = CHR 0x0A then BSLASH # ''n''
      else if c = CHR 0x0D then BSLASH # ''r''
      else if c = CHR 0x09 then BSLASH # ''t''
      else if (of_char c :: nat) < 32 then BSLASH # CHR ''u'' # hex4 (of_char c)
      else [c])"

definition escapeJSONString :: "string \<Rightarrow> string" where
  "escapeJSONString s = QUOTE # concat (map escape_char s) @ [QUOTE]"

text \<open>The reader of the standard, for bytes: the characters up to the closing quote.\<close>

definition hex_value :: "char \<Rightarrow> nat option" where
  "hex_value c =
     (let n = of_char c :: nat
      in if 48 \<le> n \<and> n \<le> 57 then Some (n - 48)
         else if 97 \<le> n \<and> n \<le> 102 then Some (n - 87)
         else if 65 \<le> n \<and> n \<le> 70 then Some (n - 55)
         else None)"

definition simple_escape :: "char \<Rightarrow> char option" where
  "simple_escape c = map_of
     [(QUOTE, QUOTE), (BSLASH, BSLASH), (CHR ''/'', CHR ''/''), (CHR ''b'', CHR 0x08), (CHR ''f'', CHR 0x0C),
      (CHR ''n'', CHR 0x0A), (CHR ''r'', CHR 0x0D), (CHR ''t'', CHR 0x09)] c"

fun unescape :: "string \<Rightarrow> (string \<times> string) option" where
  "unescape [] = None"
| "unescape (c # s) =
     (if c = QUOTE then Some ([], s)
      else if (of_char c :: nat) < 32 then None
      else if c \<noteq> BSLASH then map_option (\<lambda>(v, rest). (c # v, rest)) (unescape s)
      else
        (case s of
           [] \<Rightarrow> None
         | e # s' \<Rightarrow>
             (case simple_escape e of
                Some d \<Rightarrow> map_option (\<lambda>(v, rest). (d # v, rest)) (unescape s')
              | None \<Rightarrow>
                  (case s' of
                     h1 # h2 # h3 # h4 # s'' \<Rightarrow>
                       if e = CHR ''u'' then
                         do { a \<leftarrow> hex_value h1; b \<leftarrow> hex_value h2; c \<leftarrow> hex_value h3; d \<leftarrow> hex_value h4;
                              (v, rest) \<leftarrow> unescape s'';
                              (if a = 0 \<and> b = 0 then Some (char_of (c * 16 + d) # v, rest) else None) }
                       else None
                   | _ \<Rightarrow> None))))"

declare unescape.simps(2) [simp del]

lemma hex_value_digit: "n < 16 \<Longrightarrow> hex_value (hex_digit n) = Some n"
  by (auto simp: hex_value_def hex_digit_def Let_def)

lemma escape_char_cases:
  obtains (simple) e where "escape_char c = [BSLASH, e]" "simple_escape e = Some c"
  | (hex) "escape_char c = BSLASH # CHR ''u'' # hex4 (of_char c)" "(of_char c :: nat) < 32"
  | (plain) "escape_char c = [c]" "c \<noteq> QUOTE" "c \<noteq> BSLASH" "\<not> (of_char c :: nat) < 32"
proof -
  let ?short = "{QUOTE, BSLASH, CHR 0x08, CHR 0x0C, CHR 0x0A, CHR 0x0D, CHR 0x09}"
  consider "c \<in> ?short" | "c \<notin> ?short" "(of_char c :: nat) < 32" | "c \<notin> ?short" "\<not> (of_char c :: nat) < 32" by blast
  then show ?thesis
  proof cases
    case 1
    then have "\<exists>e. escape_char c = [BSLASH, e] \<and> simple_escape e = Some c"
      by (auto simp: escape_char_def simple_escape_def)
    with simple show ?thesis by blast
  qed (use hex plain in \<open>simp_all add: escape_char_def\<close>)
qed

lemma unescape_char: "unescape (escape_char c @ rest) = map_option (\<lambda>(v, r). (c # v, r)) (unescape rest)"
proof (cases rule: escape_char_cases [of c])
  case (simple e)
  then show ?thesis by (simp add: unescape.simps(2))
next
  case hex
  have d: "hex_value (hex_digit (of_char c div 16)) = Some (of_char c div 16)"
    "hex_value (hex_digit (of_char c mod 16)) = Some (of_char c mod 16)" "hex_value (CHR ''0'') = Some 0"
    using hex(2) by (auto simp: hex_value_digit) (simp add: hex_value_def)
  have c: "char_of ((of_char c div 16) * 16 + of_char c mod 16 :: nat) = c" by (simp add: mult.commute)
  have "simple_escape (CHR ''u'') = None" by (simp add: simple_escape_def)
  then have "unescape (escape_char c @ rest) =
      (unescape rest \<bind> (\<lambda>(v, r). Some (char_of ((of_char c div 16) * 16 + of_char c mod 16 :: nat) # v, r)))"
    unfolding hex(1) by (simp add: unescape.simps(2) hex4_def d)
  then show ?thesis unfolding c by (cases "unescape rest") auto
next
  case plain
  then show ?thesis by (simp add: unescape.simps(2))
qed

lemma unescape_escaped: "unescape (concat (map escape_char s) @ QUOTE # rest) = Some (s, rest)"
  by (induction s) (simp_all add: unescape_char, simp add: unescape.simps(2))

section \<open>UTF-8\<close>

text \<open>The encodings of single characters, by the table of the standard, and texts of them.\<close>

definition utf8_char :: "string \<Rightarrow> bool" where
  "utf8_char u =
     (case map of_char u :: nat list of
        [a] \<Rightarrow> a < 0x80
      | [a, b] \<Rightarrow> a \<in> {0xC2..0xDF} \<and> b \<in> {0x80..0xBF}
      | [a, b, c] \<Rightarrow> a \<in> {0xE0..0xEF} \<and> b \<in> {(if a = 0xE0 then 0xA0 else 0x80)..(if a = 0xED then 0x9F else 0xBF)} \<and>
          c \<in> {0x80..0xBF}
      | [a, b, c, d] \<Rightarrow> a \<in> {0xF0..0xF4} \<and> b \<in> {(if a = 0xF0 then 0x90 else 0x80)..(if a = 0xF4 then 0x8F else 0xBF)} \<and>
          c \<in> {0x80..0xBF} \<and> d \<in> {0x80..0xBF}
      | _ \<Rightarrow> False)"

inductive utf8 :: "string \<Rightarrow> bool" where
  utf8_nil: "utf8 []"
| utf8_cons: "utf8_char u \<Longrightarrow> utf8 s \<Longrightarrow> utf8 (u @ s)"

lemma utf8_append: "utf8 s \<Longrightarrow> utf8 t \<Longrightarrow> utf8 (s @ t)"
  by (induction rule: utf8.induct) (auto intro: utf8_cons)

lemma utf8_ascii_Cons [simp]: "(of_char c :: nat) < 0x80 \<Longrightarrow> utf8 s \<Longrightarrow> utf8 (c # s)"
  using utf8_cons [of "[c]" s] by (simp add: utf8_char_def)

lemma utf8_ascii: "\<forall>c \<in> set s. (of_char c :: nat) < 0x80 \<Longrightarrow> utf8 s"
  by (induction s) (simp_all add: utf8_nil)

lemma utf8_char_cases:
  assumes "utf8_char u"
  obtains (ascii) c where "u = [c]" "(of_char c :: nat) < 0x80"
  | (high) "\<forall>c \<in> set u. 0x80 \<le> (of_char c :: nat)"
proof -
  have "(\<exists>c. u = [c] \<and> (of_char c :: nat) < 0x80) \<or> (\<forall>x \<in> set (map of_char u :: nat list). 0x80 \<le> x)"
    using assms by (auto simp: utf8_char_def map_eq_Cons_conv split: list.splits if_splits)
  with ascii high show ?thesis by auto
qed

lemma escape_high: "0x80 \<le> (of_char c :: nat) \<Longrightarrow> escape_char c = [c]"
proof -
  assume c: "0x80 \<le> (of_char c :: nat)"
  then have "c \<notin> {QUOTE, BSLASH, CHR 0x08, CHR 0x0C, CHR 0x0A, CHR 0x0D, CHR 0x09}" by auto
  with c show ?thesis by (simp add: escape_char_def)
qed

lemma hex_digit_ascii: "n < 16 \<Longrightarrow> (of_char (hex_digit n) :: nat) < 0x80"
  by (auto simp: hex_digit_def)

lemma escape_ascii:
  assumes "(of_char c :: nat) < 0x80"
  shows "utf8 (escape_char c)"
proof (rule utf8_ascii, rule ballI)
  fix d assume d: "d \<in> set (escape_char c)"
  show "(of_char d :: nat) < 0x80"
  proof (cases rule: escape_char_cases [of c])
    case (simple e)
    have "(of_char e :: nat) < 0x80" using simple(2) by (auto simp: simple_escape_def split: if_splits)
    with d simple(1) show ?thesis by auto
  next
    case hex
    then have "(of_char c :: nat) div 16 < 16" "(of_char c :: nat) mod 16 < 16" by simp_all
    with d hex show ?thesis by (auto simp: hex4_def hex_digit_ascii)
  qed (use d assms in auto)
qed

lemma utf8_escape: "utf8 s \<Longrightarrow> utf8 (escapeJSONString s)"
proof -
  assume "utf8 s"
  then have "utf8 (concat (map escape_char s))"
  proof (induction rule: utf8.induct)
    case (utf8_cons u s)
    have "utf8 (concat (map escape_char u))"
      using utf8_cons(1)
    proof (cases rule: utf8_char_cases)
      case (ascii c)
      with escape_ascii show ?thesis by simp
    next
      case high
      then have "concat (map escape_char u) = u" by (induction u) (simp_all add: escape_high)
      with utf8.utf8_cons [OF utf8_cons(1) utf8_nil] show ?thesis by simp
    qed
    with utf8_cons(3) show ?case by (simp add: utf8_append)
  qed (simp add: utf8_nil)
  moreover have "utf8 [QUOTE]" by (rule utf8_ascii) simp
  ultimately show ?thesis
    unfolding escapeJSONString_def using utf8_append [of "[QUOTE]"] utf8_append [of _ "[QUOTE]"] by fastforce
qed

section \<open>Values\<close>

datatype JSONType = Null | Boolean | Number | String | Array | Object

datatype 'd JSON = JSON (json_type: JSONType) (bool_val: bool) (num_val: 'd) (str_val: string)
  (arr_val: "'d JSON list") (obj_val: "(string \<times> 'd JSON) list")

definition json_null :: "'d \<Rightarrow> 'd JSON" where
  "json_null zero = JSON Null False zero [] [] []"

definition json_array :: "'d \<Rightarrow> 'd JSON" where
  "json_array zero = JSON Array False zero [] [] []"

definition json_object :: "'d \<Rightarrow> 'd JSON" where
  "json_object zero = JSON Object False zero [] [] []"

definition json_of_bool :: "'d \<Rightarrow> bool \<Rightarrow> 'd JSON" where
  "json_of_bool zero b = JSON Boolean b zero [] [] []"

definition json_of_number :: "'d \<Rightarrow> 'd JSON" where
  "json_of_number d = JSON Number False d [] [] []"

definition json_of_string :: "'d \<Rightarrow> string \<Rightarrow> 'd JSON" where
  "json_of_string zero s = JSON String False zero s [] []"

definition json_of_strings :: "'d \<Rightarrow> string list \<Rightarrow> 'd JSON" where
  "json_of_strings zero vec = JSON Array False zero [] (map (json_of_string zero) vec) []"

text \<open>The assignments keep the fields of the other kinds the source does not clear.\<close>

fun assign_bool :: "bool \<Rightarrow> 'd JSON \<Rightarrow> 'd JSON" where
  "assign_bool b (JSON t b0 d s as os) = JSON Boolean b d [] [] []"

fun assign_number :: "'d \<Rightarrow> 'd JSON \<Rightarrow> 'd JSON" where
  "assign_number d (JSON t b d0 s as os) = JSON Number b d [] [] []"

fun assign_string :: "string \<Rightarrow> 'd JSON \<Rightarrow> 'd JSON" where
  "assign_string s (JSON t b d s0 as os) = JSON String b d s [] []"

fun assign_strings :: "'d \<Rightarrow> string list \<Rightarrow> 'd JSON \<Rightarrow> 'd JSON" where
  "assign_strings zero vec (JSON t b d s as os) = JSON Array b d [] (map (json_of_string zero) vec) []"

fun push_back :: "'d JSON \<Rightarrow> 'd JSON \<Rightarrow> 'd JSON" where
  "push_back val (JSON t b d s as os) =
     (if t \<noteq> Array then JSON Array b d [] [val] [] else JSON Array b d s (as @ [val]) os)"

text \<open>\<open>operator[]\<close> hands out a reference; what the caller does with it is the function \<open>f\<close>. The flat map
  is kept sorted, and a missing key is inserted with a default value.\<close>

fun flat_update :: "string \<Rightarrow> ('v \<Rightarrow> 'v) \<Rightarrow> 'v \<Rightarrow> (string \<times> 'v) list \<Rightarrow> (string \<times> 'v) list" where
  "flat_update k f dflt [] = [(k, f dflt)]"
| "flat_update k f dflt ((k', v) # kvs) =
     (if k < k' then (k, f dflt) # (k', v) # kvs
      else if k = k' then (k', f v) # kvs
      else (k', v) # flat_update k f dflt kvs)"

fun json_at :: "'d \<Rightarrow> string \<Rightarrow> ('d JSON \<Rightarrow> 'd JSON) \<Rightarrow> 'd JSON \<Rightarrow> 'd JSON" where
  "json_at zero key f (JSON t b d s as os) =
     (if t \<noteq> Object then JSON Object b d [] [] [(key, f (json_null zero))]
      else JSON Object b d s as (flat_update key f (json_null zero) os))"

section \<open>The writer\<close>

fun joined :: "string \<Rightarrow> string list \<Rightarrow> string" where
  "joined sep [] = []"
| "joined sep [x] = x"
| "joined sep (x # y # xs) = x @ sep @ joined sep (y # xs)"

lemma joined_snoc: "joined sep (xs @ [y]) = (if xs = [] then y else joined sep xs @ sep @ y)"
  by (induction sep xs rule: joined.induct) simp_all

lemma joined_prefixed: "xs \<noteq> [] \<Longrightarrow> joined sep (map (\<lambda>x. p @ x) xs) = p @ joined (sep @ p) xs"
  by (induction sep xs rule: joined.induct) simp_all

lemma utf8_joined: "\<forall>x \<in> set xs. utf8 x \<Longrightarrow> utf8 sep \<Longrightarrow> utf8 (joined sep xs)"
  by (induction sep xs rule: joined.induct) (simp_all add: utf8_nil utf8_append)

fun dumpJSON :: "('d \<Rightarrow> string) \<Rightarrow> 'd JSON \<Rightarrow> string" where
  "dumpJSON to_string (JSON t b d s as os) =
     (case t of
        Null \<Rightarrow> ''null''
      | Boolean \<Rightarrow> if b then ''true'' else ''false''
      | Number \<Rightarrow> to_string d
      | String \<Rightarrow> escapeJSONString s
      | Array \<Rightarrow>
          if as = [] then ''[]'' else ''['' @ joined '','' (map (dumpJSON to_string) as) @ '']''
      | Object \<Rightarrow>
          if os = [] then ''{}''
          else ''{'' @ joined '','' (map (\<lambda>(k, v). escapeJSONString k @ '':'' @ dumpJSON to_string v) os) @ ''}'')"

section \<open>The grammar\<close>

text \<open>What a text means: the values of JSON, without the representation of the class.\<close>

datatype 'd jvalue =
  VNull | VBool bool | VNum 'd | VStr string | VArr "'d jvalue list" | VObj "(string \<times> 'd jvalue) list"

definition blank :: "string \<Rightarrow> bool" where
  "blank s \<longleftrightarrow> set s \<subseteq> {CHR '' '', CHR 0x09, CHR 0x0A, CHR 0x0D}"

text \<open>A text of a value; elements and members are a non-empty list of them, separated by commas, with
  blanks around each.\<close>

inductive
  json_text :: "('d \<Rightarrow> string) \<Rightarrow> 'd jvalue \<Rightarrow> string \<Rightarrow> bool" and
  json_elements :: "('d \<Rightarrow> string) \<Rightarrow> 'd jvalue list \<Rightarrow> string \<Rightarrow> bool" and
  json_members :: "('d \<Rightarrow> string) \<Rightarrow> (string \<times> 'd jvalue) list \<Rightarrow> string \<Rightarrow> bool" for num where
  null: "json_text num VNull ''null''"
| true: "json_text num (VBool True) ''true''"
| false: "json_text num (VBool False) ''false''"
| number: "json_text num (VNum d) (num d)"
| string: "unescape s = Some (v, []) \<Longrightarrow> json_text num (VStr v) (QUOTE # s)"
| array_empty: "blank w \<Longrightarrow> json_text num (VArr []) (''['' @ w @ '']'')"
| array: "json_elements num vs s \<Longrightarrow> json_text num (VArr vs) (''['' @ s @ '']'')"
| object_empty: "blank w \<Longrightarrow> json_text num (VObj []) (''{'' @ w @ ''}'')"
| object: "json_members num kvs s \<Longrightarrow> json_text num (VObj kvs) (''{'' @ s @ ''}'')"
| element: "blank a \<Longrightarrow> blank b \<Longrightarrow> json_text num v s \<Longrightarrow> json_elements num [v] (a @ s @ b)"
| elements: "blank a \<Longrightarrow> blank b \<Longrightarrow> json_text num v s \<Longrightarrow> json_elements num vs t \<Longrightarrow>
    json_elements num (v # vs) (a @ s @ b @ '','' @ t)"
| member: "blank a \<Longrightarrow> blank b \<Longrightarrow> blank c \<Longrightarrow> blank e \<Longrightarrow> unescape k = Some (key, []) \<Longrightarrow> json_text num v s \<Longrightarrow>
    json_members num [(key, v)] (a @ QUOTE # k @ b @ '':'' @ c @ s @ e)"
| members: "blank a \<Longrightarrow> blank b \<Longrightarrow> blank c \<Longrightarrow> blank e \<Longrightarrow> unescape k = Some (key, []) \<Longrightarrow> json_text num v s \<Longrightarrow>
    json_members num kvs t \<Longrightarrow> json_members num ((key, v) # kvs) (a @ QUOTE # k @ b @ '':'' @ c @ s @ e @ '','' @ t)"

lemma blank_simps [simp]:
  "blank []" "blank (CHR '' '' # s) = blank s" "blank (CHR 0x0A # s) = blank s"
  by (simp_all add: blank_def)

lemma json_text_string [intro]: "json_text num (VStr s) (escapeJSONString s)"
  unfolding escapeJSONString_def by (intro string) (rule unescape_escaped)

lemma json_elements_joined:
  assumes "list_all2 (json_text num) vs ss" "vs \<noteq> []" "blank a" "blank w" "blank b"
  shows "json_elements num vs (a @ joined (CHR '','' # w) ss @ b)"
  using assms(1-3)
proof (induction vs ss arbitrary: a rule: list_all2_induct)
  case (Cons v vs s ss)
  show ?case
  proof (cases vs)
    case Nil
    with Cons element [OF Cons.prems(2) assms(5) Cons.hyps(1)] show ?thesis by simp
  next
    case (Cons v' vs')
    with Cons.hyps obtain s' ss' where ss: "ss = s' # ss'" by (cases ss) auto
    with Cons.IH [of w] assms(4) Cons have "json_elements num vs (w @ joined (CHR '','' # w) ss @ b)" by simp
    from elements [OF Cons.prems(2) _ Cons.hyps(1) this, of "[]"] ss show ?thesis by simp
  qed
qed simp

definition member_text :: "string \<Rightarrow> string \<times> string \<Rightarrow> string" where
  "member_text c ks = escapeJSONString (fst ks) @ '':'' @ c @ snd ks"

lemma json_members_joined:
  assumes "list_all2 (\<lambda>kv ks. fst ks = fst kv \<and> json_text num (snd kv) (snd ks)) kvs kss" "kvs \<noteq> []"
    and "blank a" "blank w" "blank b" "blank c"
  shows "json_members num kvs (a @ joined (CHR '','' # w) (map (member_text c) kss) @ b)"
  using assms(1-3)
proof (induction kvs kss arbitrary: a rule: list_all2_induct)
  case (Cons kv kvs ks kss)
  obtain k v where kv: "kv = (k, v)" by fastforce
  obtain s where ks: "ks = (k, s)" "json_text num v s" using Cons.hyps(1) kv by (cases ks) simp
  have key: "unescape (concat (map escape_char k) @ [QUOTE]) = Some (k, [])" by (rule unescape_escaped)
  show ?case
  proof (cases kvs)
    case Nil
    with Cons.hyps have "kss = []" by simp
    with member [OF Cons.prems(2) _ assms(6,5) key ks(2), of "[]"] kv ks Nil show ?thesis
      by (simp add: member_text_def escapeJSONString_def)
  next
    case (Cons kv' kvs')
    with Cons.hyps obtain ks' kss' where kss: "kss = ks' # kss'" by (cases kss) auto
    with Cons.IH [of w] assms(4) Cons have
      "json_members num kvs (w @ joined (CHR '','' # w) (map (member_text c) kss) @ b)" by simp
    from members [OF Cons.prems(2) _ assms(6) _ key ks(2) this, of "[]" "[]"] kv ks kss show ?thesis
      by (simp add: member_text_def [abs_def] escapeJSONString_def)
  qed
qed simp

section \<open>The writer writes what the value is\<close>

fun json_value :: "'d JSON \<Rightarrow> 'd jvalue" where
  "json_value (JSON t b d s as os) =
     (case t of
        Null \<Rightarrow> VNull
      | Boolean \<Rightarrow> VBool b
      | Number \<Rightarrow> VNum d
      | String \<Rightarrow> VStr s
      | Array \<Rightarrow> VArr (map json_value as)
      | Object \<Rightarrow> VObj (map (\<lambda>(k, v). (k, json_value v)) os))"

lemma dumpJSON_text: "json_text num (json_value j) (dumpJSON num j)"
proof (induction j)
  case (JSON t b d s as os)
  show ?case
  proof (cases t)
    case Array
    have all: "list_all2 (json_text num) (map json_value as) (map (dumpJSON num) as)"
      using JSON(1) by (simp add: list_all2_conv_all_nth)
    show ?thesis
    proof (cases "as = []")
      case False
      with array [OF json_elements_joined [OF all, of "[]" "[]" "[]"]] Array show ?thesis by simp
    qed (use array_empty [of "[]" num] Array in simp)
  next
    case Object
    have all: "list_all2 (\<lambda>kv ks. fst ks = fst kv \<and> json_text num (snd kv) (snd ks))
        (map (\<lambda>(k, v). (k, json_value v)) os) (map (\<lambda>(k, v). (k, dumpJSON num v)) os)"
      using JSON(2) by (fastforce simp: list_all2_conv_all_nth split: prod.split dest: nth_mem)
    have members: "map (member_text []) (map (\<lambda>(k, v). (k, dumpJSON num v)) os) =
        map (\<lambda>(k, v). escapeJSONString k @ '':'' @ dumpJSON num v) os"
      by (simp add: member_text_def case_prod_beta)
    show ?thesis
    proof (cases "os = []")
      case False
      with object [OF json_members_joined [OF all, of "[]" "[]" "[]" "[]"]] Object show ?thesis
        unfolding members by simp
    qed (use object_empty [of "[]" num] Object in simp)
  qed (auto intro: json_text_json_elements_json_members.intros)
qed

text \<open>What the JSON writer prints is JSON, and means the value. For every value built from the class,
  the text is derivable in the grammar of JSON, with every string escaped so that a reader gets back
  its exact bytes, as the text of the value the object stands for.\<close>

theorem dumpJSON_denotes: "json_text num (json_value j) (dumpJSON num j)"
  by (rule dumpJSON_text)

section \<open>The operations\<close>

definition members_of :: "'d jvalue \<Rightarrow> (string \<times> 'd jvalue) list" where
  "members_of v = (case v of VObj kvs \<Rightarrow> kvs | _ \<Rightarrow> [])"

definition elements_of :: "'d jvalue \<Rightarrow> 'd jvalue list" where
  "elements_of v = (case v of VArr vs \<Rightarrow> vs | _ \<Rightarrow> [])"

definition sorted_keys :: "(string \<times> 'v) list \<Rightarrow> bool" where
  "sorted_keys kvs \<longleftrightarrow> sorted_wrt (<) (map fst kvs)"

lemma flat_update_keys: "set (map fst (flat_update k f dflt kvs)) = insert k (set (map fst kvs))"
  by (induction k f dflt kvs rule: flat_update.induct) auto

lemma flat_update_sorted: "sorted_keys kvs \<Longrightarrow> sorted_keys (flat_update k f dflt kvs)"
proof (induction k f dflt kvs rule: flat_update.induct)
  case (2 k f dflt k' v kvs)
  then show ?case using flat_update_keys [of k f dflt kvs] by (auto simp: sorted_keys_def)
qed (simp add: sorted_keys_def)

lemma flat_update_lookup:
  "sorted_keys kvs \<Longrightarrow> map_of (flat_update k f dflt kvs) =
    (map_of kvs)(k \<mapsto> f (case map_of kvs k of None \<Rightarrow> dflt | Some v \<Rightarrow> v))"
proof (induction k f dflt kvs rule: flat_update.induct)
  case (2 k f dflt k' v kvs)
  then have "map_of kvs k = None" if "k < k'"
    using that by (auto simp: sorted_keys_def map_of_eq_None_iff)
  with 2 show ?case by (auto simp: sorted_keys_def fun_upd_twist)
qed simp

text \<open>The operations of the JSON class are those of values. Assigning makes a value of the assigned
  kind, whatever it was before; push_back appends, to an empty array if it was no array; and the
  reference of operator[] denotes the member with that key, created as null if it is missing, in an
  empty object if it was no object, and leaves the other members and the order of the keys.\<close>

theorem json_operations:
  assumes "sorted_keys (obj_val j)"
  shows "json_value (assign_bool b j) = VBool b \<and> json_value (assign_number d j) = VNum d \<and>
    json_value (assign_string s j) = VStr s \<and> json_value (assign_strings zero vec j) = VArr (map VStr vec) \<and>
    json_value (push_back v j) = VArr (elements_of (json_value j) @ [json_value v]) \<and>
    sorted_keys (obj_val (json_at zero key f j)) \<and>
    map_of (members_of (json_value (json_at zero key f j))) = (map_of (members_of (json_value j)))
      (key \<mapsto> json_value (f (if json_type j = Object \<and> key \<in> fst ` set (obj_val j)
                              then the (map_of (obj_val j) key) else json_null zero)))"
proof (cases j)
  case (JSON t b0 d0 s0 as os)
  have sorted: "sorted_keys os" using assms JSON by simp
  have vals: "map_of (map (\<lambda>(k, v). (k, json_value v)) kvs) = (\<lambda>k. map_option json_value (map_of kvs k))"
    for kvs :: "(string \<times> 'd JSON) list" by (simp add: map_of_map comp_def)
  have upd: "map_of (flat_update key f (json_null zero) os) = (map_of os)
      (key \<mapsto> f (if key \<in> fst ` set os then the (map_of os key) else json_null zero))"
    using flat_update_lookup [OF sorted, of key f "json_null zero"]
    by (cases "map_of os key") (auto simp: map_of_eq_None_iff dest: map_of_SomeD intro: rev_image_eqI)
  show ?thesis
    using sorted flat_update_sorted [OF sorted, of key f "json_null zero"]
    by (cases t) (auto simp: JSON json_of_string_def members_of_def elements_of_def sorted_keys_def vals upd)
qed

lemma json_operations_witness:
  "json_value (json_at (0::nat) ''args'' (push_back (json_of_string 0 ''cc'')) (json_object 0)) =
     VObj [(''args'', VArr [VStr ''cc''])] \<and>
   map_of (members_of (json_value (json_at (0::nat) ''args'' (assign_strings 0 [''cc'']) (json_object 0)))) ''args'' =
     Some (VArr [VStr ''cc''])"
proof -
  have s: "sorted_keys (obj_val (json_object (0::nat)))" by (simp add: json_object_def sorted_keys_def)
  have "json_value (json_at (0::nat) ''args'' (push_back (json_of_string 0 ''cc'')) (json_object 0)) =
     VObj [(''args'', VArr [VStr ''cc''])]" by code_simp
  moreover have "json_value (assign_strings (0::nat) [''cc''] (json_null 0)) = VArr [VStr ''cc'']" by code_simp
  moreover have "obj_val (json_object (0::nat)) = []" by (simp add: json_object_def)
  ultimately show ?thesis
    using json_operations [OF s, of True 0 "[]" 0 "[]" "json_object 0" "''args''" "assign_strings 0 [''cc'']"] by simp
qed

end
