(* ===== verification/Tool_Outputs.thy ===== *)
theory Tool_Outputs
  imports NodeTimes TopoSort Formatting Json_Text
begin

text \<open>
  The subtools that print the build (src/executor.cpp): \<open>emitGraph\<close>, \<open>emitCompDB\<close> and \<open>emitCommands\<close>.
  Output goes through a buffer that is flushed above a threshold.
\<close>

section \<open>The buffer\<close>

record out_buf =
  written :: string
  buf :: string

definition out_empty :: out_buf where
  "out_empty = \<lparr>written = [], buf = []\<rparr>"

definition append :: "string \<Rightarrow> out_buf \<Rightarrow> out_buf" where
  "append s o1 = o1\<lparr>buf := buf o1 @ s\<rparr>"

definition flush :: "out_buf \<Rightarrow> out_buf" where
  "flush o1 = \<lparr>written = written o1 @ buf o1, buf = []\<rparr>"

definition flush_above :: "nat \<Rightarrow> out_buf \<Rightarrow> out_buf" where
  "flush_above threshold o1 = (if length (buf o1) > threshold then flush o1 else o1)"

definition contents :: "out_buf \<Rightarrow> string" where
  "contents o1 = written o1 @ buf o1"

lemma contents_simps [simp]:
  "contents out_empty = []" "contents (append s b) = contents b @ s" "contents (flush b) = contents b"
  "contents (flush_above n b) = contents b" "written (flush b) = contents b"
  by (simp_all add: contents_def append_def flush_def flush_above_def out_empty_def)

section \<open>\<open>emitGraph\<close>\<close>

definition dot_header :: string where
  "dot_header = ''digraph catalyst_build {'' @ [LF] @ ''  rankdir=LR;'' @ [LF] @
     ''  node [shape=box, style=filled, fontname='' @ [QUOTE] @ ''Helvetica'' @ [QUOTE] @ ''];'' @ [LF]"

definition node_id :: "nat \<Rightarrow> string" where
  "node_id idx = ''  n'' @ decimal idx"

text \<open>The label is not escaped.\<close>

definition dot_node :: "nat \<Rightarrow> string \<Rightarrow> string \<Rightarrow> string" where
  "dot_node i label color =
     node_id i @ '' [label='' @ [QUOTE] @ label @ [QUOTE] @ '', fillcolor='' @ [QUOTE] @ color @ [QUOTE] @ ''];'' @ [LF]"

definition dot_edge :: "nat \<Rightarrow> nat \<Rightarrow> string" where
  "dot_edge i target_idx = node_id i @ '' -> n'' @ decimal target_idx @ '';'' @ [LF]"

text \<open>The loop; \<open>Inl\<close> is an exception of the file system.\<close>

fun graph_loop ::
  "nat \<Rightarrow> nat \<Rightarrow> world \<Rightarrow> build_graph \<Rightarrow> ToolchainFlags \<Rightarrow> nat list \<Rightarrow> node_times \<Rightarrow> out_buf \<Rightarrow> out_buf result" where
  "graph_loop threshold n w g tf [] nt b = expected b"
| "graph_loop threshold n w g tf (i # rest) nt b =
     (let node = nodes_m g ! i
      in case (case step_id node of
                 None \<Rightarrow> expected (''0.9 0.9 0.9'', nt)
               | Some sid \<Rightarrow>
                   (case needsRebuild n w g (steps_m g ! sid) i nt tf of
                      Inl e \<Rightarrow> unexpected e
                    | Inr (rebuild, nt, _) \<Rightarrow> expected (if rebuild then ''green'' else ''white'', nt))) of
           Inl e \<Rightarrow> unexpected e
         | Inr (color, nt) \<Rightarrow>
             graph_loop threshold n w g tf rest nt
               (flush_above threshold
                 (foldl (\<lambda>b target_idx. append (dot_edge i target_idx) b)
                   (append (dot_node i (path node) color) b) (el_data (out_edges node)))))"

definition emitGraph ::
  "(string \<Rightarrow> u64) \<Rightarrow> nat \<Rightarrow> nat \<Rightarrow> nat \<Rightarrow> world \<Rightarrow> string \<Rightarrow> COBBuilder \<Rightarrow> string result" where
  "emitGraph h threshold n thread_count w bf b =
     (let g = m_graph b; nt = new_node_times h w g bf thread_count
      in case graph_loop threshold n w g (toolchain_of b) [0..<length (nodes_m g)] nt (append dot_header out_empty) of
           Inl e \<Rightarrow> unexpected e
         | Inr o1 \<Rightarrow> expected (written (flush (append (''}'' @ [LF]) o1))))"

section \<open>\<open>emitCompDB\<close>\<close>

definition compdb_entry :: "string \<Rightarrow> string list \<Rightarrow> build_step \<Rightarrow> string" where
  "compdb_entry cwd args step =
     ''  {'' @ [LF] @ ''    '' @ [QUOTE] @ ''directory'' @ [QUOTE] @ '': '' @ escapeJSONString cwd @
     '','' @ [LF] @ ''    '' @ [QUOTE] @ ''arguments'' @ [QUOTE] @ '': ['' @ joined '', '' (map escapeJSONString args) @
     ''],'' @ [LF] @
     (if parsed_inputs step \<noteq> []
      then ''    '' @ [QUOTE] @ ''file'' @ [QUOTE] @ '': '' @ escapeJSONString (parsed_inputs step ! 0) @ '','' @ [LF]
      else []) @
     ''    '' @ [QUOTE] @ ''output'' @ [QUOTE] @ '': '' @ escapeJSONString (output_path step) @ [LF] @ ''  }''"

definition compdb_node ::
  "nat \<Rightarrow> nat \<Rightarrow> world \<Rightarrow> string \<Rightarrow> string \<Rightarrow> COBBuilder \<Rightarrow> bool \<times> out_buf \<Rightarrow> node \<Rightarrow> bool \<times> out_buf" where
  "compdb_node threshold n w bf cwd b st node =
     (case st of (first, o1) \<Rightarrow>
        (case step_id node of
           None \<Rightarrow> (first, o1)
         | Some sid \<Rightarrow>
             let step = steps_m (m_graph b) ! sid
             in if tool step \<noteq> ''cc'' \<and> tool step \<noteq> ''cxx'' then (first, o1)
                else
                  let o1 = (if \<not> first then append ('','' @ [LF]) o1 else o1);
                      args = fst (buildCommandArgs n bf w step True (toolchain_of b))
                  in (False, flush_above threshold (append (compdb_entry cwd args step) o1))))"

definition emitCompDB :: "nat \<Rightarrow> nat \<Rightarrow> world \<Rightarrow> string \<Rightarrow> string \<Rightarrow> COBBuilder \<Rightarrow> string" where
  "emitCompDB threshold n w bf cwd b =
     (let (first, o1) = foldl (compdb_node threshold n w bf cwd b) (True, append (''['' @ [LF]) out_empty)
                         (nodes_m (m_graph b))
      in written (flush (append ([LF] @ '']'' @ [LF]) o1)))"

section \<open>\<open>emitCommands\<close>\<close>

fun print_args :: "string list \<Rightarrow> string" where
  "print_args [] = []"
| "print_args (a # as) = a @ (if as = [] then [] else '' '') @ print_args as"

definition node_command :: "nat \<Rightarrow> world \<Rightarrow> string \<Rightarrow> COBBuilder \<Rightarrow> nat \<Rightarrow> string" where
  "node_command n w bf b node_idx =
     (case step_id (nodes_m (m_graph b) ! node_idx) of
        None \<Rightarrow> []
      | Some sid \<Rightarrow>
          print_args (fst (buildCommandArgs n bf w (steps_m (m_graph b) ! sid) True (toolchain_of b))) @ [LF])"

definition emitCommands :: "nat \<Rightarrow> world \<Rightarrow> string \<Rightarrow> COBBuilder \<Rightarrow> string result option" where
  "emitCommands n w bf b =
     do { res \<leftarrow> topoSort (m_graph b);
          Some (case res of
                  Inl e \<Rightarrow> unexpected e
                | Inr order \<Rightarrow> expected (concat (map (node_command n w bf b) order))) }"

section \<open>The graph that is printed\<close>

definition node_color :: "nat \<Rightarrow> world \<Rightarrow> string \<Rightarrow> build_graph \<Rightarrow> ToolchainFlags \<Rightarrow> nat \<Rightarrow> string" where
  "node_color n w bf g tf i =
     (case step_id (nodes_m g ! i) of
        None \<Rightarrow> ''0.9 0.9 0.9''
      | Some sid \<Rightarrow> if out_of_date n w bf (steps_m g ! sid) tf then ''green'' else ''white'')"

definition dot_lines :: "nat \<Rightarrow> world \<Rightarrow> string \<Rightarrow> build_graph \<Rightarrow> ToolchainFlags \<Rightarrow> nat \<Rightarrow> string" where
  "dot_lines n w bf g tf i =
     dot_node i (path (nodes_m g ! i)) (node_color n w bf g tf i) @ concat (map (dot_edge i) (succs g i))"

lemma contents_foldl: "contents (foldl (\<lambda>b x. append (f x) b) b xs) = contents b @ concat (map f xs)"
  by (induction xs arbitrary: b) simp_all

lemma graph_loop_contents:
  assumes "graph_ok h g" "world_ok w"
    and "coherent h w g nt" "build_file nt = bf" "set rest \<subseteq> {..<length (nodes_m g)}"
  shows "\<exists>b'. graph_loop threshold n w g tf rest nt b = Inr b' \<and>
    contents b' = contents b @ concat (map (dot_lines n w bf g tf) rest)"
  using assms(3-5)
proof (induction rest arbitrary: nt b)
  case (Cons i rest)
  have i: "i < length (nodes_m g)" using Cons.prems(3) by simp
  obtain nt' where c: "(case step_id (nodes_m g ! i) of
                 None \<Rightarrow> expected (''0.9 0.9 0.9'', nt)
               | Some sid \<Rightarrow>
                   (case needsRebuild n w g (steps_m g ! sid) i nt tf of
                      Inl e \<Rightarrow> unexpected e
                    | Inr (rebuild, nt, _) \<Rightarrow> expected (if rebuild then ''green'' else ''white'', nt))) =
      Inr (node_color n w bf g tf i, nt')" "coherent h w g nt'" "build_file nt' = bf"
  proof (cases "step_id (nodes_m g ! i)")
    case None
    then show ?thesis using that [of nt] Cons.prems by (simp add: node_color_def)
  next
    case (Some sid)
    obtain nt' args where "needsRebuild n w g (steps_m g ! sid) i nt tf =
        Inr (out_of_date n w (build_file nt) (steps_m g ! sid) tf, nt', args)"
      "coherent h w g nt'" "build_file nt' = build_file nt"
      using needsRebuild_ok [OF assms(1,2) Cons.prems(1) i Some, of n tf] by (auto simp: Let_def)
    then show ?thesis using that [of nt'] Some Cons.prems(2) by (simp add: node_color_def)
  qed
  let ?b = "flush_above threshold (foldl (\<lambda>b target_idx. append (dot_edge i target_idx) b)
      (append (dot_node i (path (nodes_m g ! i)) (node_color n w bf g tf i)) b) (el_data (out_edges (nodes_m g ! i))))"
  have "set rest \<subseteq> {..<length (nodes_m g)}" using Cons.prems(3) by simp
  from Cons.IH [OF c(2,3) this, of ?b] show ?case
    by (simp add: c(1) Let_def contents_foldl dot_lines_def succs_def)
qed simp

text \<open>The printed graph shows the build. On a well-formed graph emitGraph raises no exception,
  whatever the buffer threshold and the number of threads, and prints one line per node, in order,
  with its path as label, and one line per edge; a node is gray if nothing produces it, green if its
  step is out of date by the rule of the up-to-date check, and white otherwise.\<close>

theorem emitGraph_text:
  assumes "graph_ok h (m_graph b)" "world_ok w"
  shows "emitGraph h threshold n thread_count w bf b = Inr (dot_header @
    concat (map (dot_lines n w bf (m_graph b) (toolchain_of b)) [0..<length (nodes_m (m_graph b))]) @ ''}'' @ [LF])"
proof -
  let ?g = "m_graph b"
  have c: "coherent h w ?g (new_node_times h w ?g bf thread_count)"
    "build_file (new_node_times h w ?g bf thread_count) = bf"
    using new_node_times_coherent [OF graph_ok_range [OF assms(1)] graph_ok_sources [OF assms(1)] assms(2)] by blast+
  have "set [0..<length (nodes_m ?g)] \<subseteq> {..<length (nodes_m ?g)}" by auto
  from graph_loop_contents [OF assms c this, of threshold n "toolchain_of b" "append dot_header out_empty"]
  show ?thesis by (auto simp: emitGraph_def Let_def)
qed

lemma emitGraph_text_witness:
  "emitGraph (\<lambda>_. 7) 100 50 4 edited ''catalyst.build'' \<lparr>m_graph = compile_graph, m_definitions = []\<rparr> =
    Inr (dot_header @ concat (map (dot_lines 50 edited ''catalyst.build'' compile_graph (toolchain_of
      \<lparr>m_graph = compile_graph, m_definitions = []\<rparr>)) [0..<length (nodes_m compile_graph)]) @ ''}'' @ [LF])"
  using emitGraph_text [of "\<lambda>_. 7" "\<lparr>m_graph = compile_graph, m_definitions = []\<rparr>" edited] compile_graph_ok edited_ok
  by simp

section \<open>The compilation database\<close>

definition json_document :: "('d \<Rightarrow> string) \<Rightarrow> 'd jvalue \<Rightarrow> string \<Rightarrow> bool" where
  "json_document num v s \<longleftrightarrow> (\<exists>a t b. s = a @ t @ b \<and> blank a \<and> blank b \<and> json_text num v t)"

definition node_compile :: "build_step list \<Rightarrow> node \<Rightarrow> build_step list" where
  "node_compile steps node =
     (case step_id node of
        None \<Rightarrow> []
      | Some sid \<Rightarrow> filter (\<lambda>step. tool step = ''cc'' \<or> tool step = ''cxx'') [steps ! sid])"

definition compile_steps :: "build_graph \<Rightarrow> build_step list" where
  "compile_steps g = concat (map (node_compile (steps_m g)) (nodes_m g))"

definition compdb_members :: "string \<Rightarrow> string list \<Rightarrow> build_step \<Rightarrow> (string \<times> 'd jvalue) list" where
  "compdb_members cwd args step =
     [(''directory'', VStr cwd), (''arguments'', VArr (map VStr args))] @
     (if parsed_inputs step \<noteq> [] then [(''file'', VStr (parsed_inputs step ! 0))] else []) @
     [(''output'', VStr (output_path step))]"

definition compdb_texts :: "string \<Rightarrow> string list \<Rightarrow> build_step \<Rightarrow> (string \<times> string) list" where
  "compdb_texts cwd args step =
     [(''directory'', escapeJSONString cwd), (''arguments'', ''['' @ joined '', '' (map escapeJSONString args) @ '']'')] @
     (if parsed_inputs step \<noteq> [] then [(''file'', escapeJSONString (parsed_inputs step ! 0))] else []) @
     [(''output'', escapeJSONString (output_path step))]"

lemma escaped_keys:
  "escapeJSONString ''directory'' = QUOTE # ''directory'' @ [QUOTE]"
  "escapeJSONString ''arguments'' = QUOTE # ''arguments'' @ [QUOTE]"
  "escapeJSONString ''file'' = QUOTE # ''file'' @ [QUOTE]" "escapeJSONString ''output'' = QUOTE # ''output'' @ [QUOTE]"
  by code_simp+

definition compdb_body :: "string \<Rightarrow> string list \<Rightarrow> build_step \<Rightarrow> string" where
  "compdb_body cwd args step =
     ''{'' @ ((LF # ''    '') @ joined (CHR '','' # LF # ''    '') (map (member_text '' '') (compdb_texts cwd args step)) @
     (LF # ''  '')) @ ''}''"

lemma compdb_entry_body: "compdb_entry cwd args step = ''  '' @ compdb_body cwd args step"
  by (simp add: compdb_entry_def compdb_body_def compdb_texts_def member_text_def escaped_keys)

lemma arguments_text: "json_text num (VArr (map VStr args)) (''['' @ joined '', '' (map escapeJSONString args) @ '']'')"
proof (cases "args = []")
  case False
  have "list_all2 (json_text num) (map VStr args) (map escapeJSONString args)"
    by (simp add: list_all2_conv_all_nth json_text_string)
  from array [OF json_elements_joined [OF this, of "[]" "'' ''" "[]"]] False show ?thesis by simp
qed (use array_empty [of "[]" num] in simp)

lemma compdb_body_text: "json_text num (VObj (compdb_members cwd args step)) (compdb_body cwd args step)"
proof -
  have "list_all2 (\<lambda>kv ks. fst ks = fst kv \<and> json_text num (snd kv) (snd ks)) (compdb_members cwd args step)
      (compdb_texts cwd args step)"
    using arguments_text [of num args] by (simp add: compdb_members_def compdb_texts_def json_text_string)
  from object [OF json_members_joined [OF this, of "LF # ''    ''" "LF # ''    ''" "LF # ''  ''" "'' ''"]]
  show ?thesis by (simp add: compdb_body_def compdb_members_def)
qed

abbreviation step_args :: "nat \<Rightarrow> world \<Rightarrow> string \<Rightarrow> COBBuilder \<Rightarrow> build_step \<Rightarrow> string list" where
  "step_args n w bf b step \<equiv> fst (buildCommandArgs n bf w step True (toolchain_of b))"

lemma compdb_loop:
  assumes "foldl (compdb_node threshold n w bf cwd b) (True, append (''['' @ [LF]) out_empty) nodes = (first, o1)"
  shows "contents o1 = ''['' @ [LF] @ joined ('','' @ [LF]) (map (\<lambda>step. compdb_entry cwd (step_args n w bf b step) step)
      (concat (map (node_compile (steps_m (m_graph b))) nodes))) \<and>
    (first \<longleftrightarrow> concat (map (node_compile (steps_m (m_graph b))) nodes) = [])"
  using assms
proof (induction nodes arbitrary: first o1 rule: rev_induct)
  case Nil
  then show ?case by auto
next
  case (snoc node nodes)
  obtain first' o' where st: "foldl (compdb_node threshold n w bf cwd b) (True, append (''['' @ [LF]) out_empty) nodes = (first', o')"
    by fastforce
  from snoc.prems st have node: "compdb_node threshold n w bf cwd b (first', o') node = (first, o1)" by simp
  define before where "before = concat (map (node_compile (steps_m (m_graph b))) nodes)"
  note IH = snoc.IH [OF st, folded before_def]
  have all: "concat (map (node_compile (steps_m (m_graph b))) (nodes @ [node])) = before @ node_compile (steps_m (m_graph b)) node"
    by (simp add: before_def)
  show ?case
  proof (cases "step_id node")
    case None
    with IH node show ?thesis unfolding all by (simp add: compdb_node_def node_compile_def)
  next
    case (Some sid)
    with IH node show ?thesis unfolding all
      by (auto simp: compdb_node_def node_compile_def Let_def joined_snoc split: if_splits)
  qed
qed

lemma compdb_body_utf8:
  assumes "utf8 cwd" "\<forall>arg \<in> set args. utf8 arg" "\<forall>p \<in> set (parsed_inputs step). utf8 p" "utf8 (output_path step)"
  shows "utf8 (compdb_body cwd args step)"
proof -
  have "utf8 (''['' @ joined '', '' (map escapeJSONString args) @ '']'')"
    by (intro utf8_append utf8_joined) (use assms(2) in \<open>auto simp: utf8_nil intro: utf8_escape\<close>)
  moreover have "parsed_inputs step \<noteq> [] \<Longrightarrow> utf8 (parsed_inputs step ! 0)" using assms(3) by simp
  ultimately have texts: "\<forall>ks \<in> set (compdb_texts cwd args step). utf8 (snd ks)"
    using assms(1,4) by (auto simp: compdb_texts_def intro: utf8_escape)
  have keys: "\<forall>ks \<in> set (compdb_texts cwd args step). utf8 (fst ks)"
    by (auto simp: compdb_texts_def utf8_nil)
  have "utf8 (member_text '' '' ks)" if "ks \<in> set (compdb_texts cwd args step)" for ks
    unfolding member_text_def using texts keys that by (intro utf8_append utf8_escape) (auto simp: utf8_nil)
  then show ?thesis
    unfolding compdb_body_def by (intro utf8_append utf8_joined) (auto simp: utf8_nil)
qed

lemma emitCompDB_text:
  fixes cwd n w bf b
  defines "bodies \<equiv> map (\<lambda>step. compdb_body cwd (step_args n w bf b step) step) (compile_steps (m_graph b))"
  shows "emitCompDB threshold n w bf cwd b = ''['' @ [LF] @ joined ('','' @ [LF]) (map (\<lambda>s. ''  '' @ s) bodies) @ [LF] @ '']'' @ [LF]"
proof -
  obtain first o1 where st: "foldl (compdb_node threshold n w bf cwd b) (True, append (''['' @ [LF]) out_empty)
      (nodes_m (m_graph b)) = (first, o1)" by fastforce
  have entries: "map (\<lambda>step. compdb_entry cwd (step_args n w bf b step) step) (compile_steps (m_graph b)) = map (\<lambda>s. ''  '' @ s) bodies"
    by (simp add: compdb_entry_body bodies_def)
  have "emitCompDB threshold n w bf cwd b = contents o1 @ [LF] @ '']'' @ [LF]"
    unfolding emitCompDB_def st prod.case Let_def contents_simps by (rule refl)
  moreover have "contents o1 = ''['' @ [LF] @ joined ('','' @ [LF]) (map (\<lambda>s. ''  '' @ s) bodies)"
    using compdb_loop [OF st] unfolding compile_steps_def [symmetric] entries by (rule conjunct1)
  ultimately show ?thesis by (simp only: append_assoc)
qed

text \<open>The strings of a compile command.\<close>

definition step_utf8 :: "nat \<Rightarrow> world \<Rightarrow> string \<Rightarrow> COBBuilder \<Rightarrow> build_step \<Rightarrow> bool" where
  "step_utf8 n w bf b step \<longleftrightarrow> (\<forall>arg \<in> set (step_args n w bf b step). utf8 arg) \<and>
     (\<forall>p \<in> set (parsed_inputs step). utf8 p) \<and> utf8 (output_path step)"

text \<open>C38: The compilation database is the compile commands. Whatever bytes the paths and flags hold, the
  file emitCompDB writes follows the JSON grammar read byte by byte (where a string may hold any byte from
  0x20 on), and it denotes the array, in the order of the nodes, of one object per step whose tool is cc or cxx, with
  the working directory, the exact argument vector buildCommandArgs makes for the step, its first
  input if it has one, and its output. If the working directory and these steps' arguments, inputs and outputs are
  UTF-8, so is the file, and then it is a JSON text; for other bytes only the first part is claimed.\<close>

theorem emitCompDB_json:
  "json_document num (VArr (map (\<lambda>step. VObj (compdb_members cwd (fst (buildCommandArgs n bf w step True (toolchain_of b))) step))
      (compile_steps (m_graph b)))) (emitCompDB threshold n w bf cwd b) \<and>
   (utf8 cwd \<and> (\<forall>step \<in> set (compile_steps (m_graph b)). step_utf8 n w bf b step) \<longrightarrow> utf8 (emitCompDB threshold n w bf cwd b))"
proof -
  let ?steps = "compile_steps (m_graph b)"
  let ?bodies = "map (\<lambda>step. compdb_body cwd (step_args n w bf b step) step) ?steps"
  note out = emitCompDB_text [of threshold n w bf cwd b]
  have "utf8 (emitCompDB threshold n w bf cwd b)"
    if "utf8 cwd" "\<forall>step \<in> set ?steps. step_utf8 n w bf b step"
  proof -
    have "\<forall>body \<in> set ?bodies. utf8 body" using that by (auto simp: step_utf8_def intro!: compdb_body_utf8)
    then show ?thesis unfolding out by (intro utf8_append utf8_joined) (auto simp: utf8_nil)
  qed
  moreover have "json_document num (VArr (map (\<lambda>step. VObj (compdb_members cwd (step_args n w bf b step) step)) ?steps))
      (emitCompDB threshold n w bf cwd b)"
  proof (cases "?steps = []")
    case True
    have "json_text num (VArr []) (''['' @ [LF, LF] @ '']'')" by (rule array_empty) simp
    then show ?thesis unfolding json_document_def out
      by (intro exI [of _ "[]"] exI [of _ "''['' @ [LF, LF] @ '']''"] exI [of _ "[LF]"]) (simp add: True)
  next
    case False
    let ?entries_text = "map (\<lambda>step. VObj (compdb_members cwd (step_args n w bf b step) step)) ?steps :: 'a jvalue list"
    have "list_all2 (json_text num) ?entries_text ?bodies"
      by (simp add: list_all2_conv_all_nth compdb_body_text)
    from array [OF json_elements_joined [OF this, of "LF # ''  ''" "LF # ''  ''" "[LF]"]]
    have "json_text num (VArr ?entries_text) (''['' @ ((LF # ''  '') @ joined (CHR '','' # LF # ''  '') ?bodies @ [LF]) @ '']'')"
      using False by simp
    moreover have bodies: "joined ('','' @ [LF]) (map (\<lambda>s. ''  '' @ s) ?bodies) = ''  '' @ joined (('','' @ [LF]) @ ''  '') ?bodies"
      by (rule joined_prefixed) (simp add: False)
    then have "emitCompDB threshold n w bf cwd b =
        (''['' @ ((LF # ''  '') @ joined (CHR '','' # LF # ''  '') ?bodies @ [LF]) @ '']'') @ [LF]"
      unfolding out bodies by simp
    ultimately show ?thesis unfolding json_document_def
      by (intro exI [of _ "[]"] exI [of _ "''['' @ ((LF # ''  '') @ joined (CHR '','' # LF # ''  '') ?bodies @ [LF]) @ '']''"]
          exI [of _ "[LF]"]) simp
  qed
  ultimately show ?thesis by blast
qed

text \<open>An example: a directory with a character of two bytes.\<close>

lemma emitCompDB_json_witness:
  "utf8 (emitCompDB 100 50 edited ''catalyst.build'' [CHR ''/'', CHR 0xC3, CHR 0xA9]
    \<lparr>m_graph = compile_graph, m_definitions = []\<rparr>)"
proof -
  let ?b = "\<lparr>m_graph = compile_graph, m_definitions = []\<rparr>"
  have "utf8 ([CHR ''/''] @ [CHR 0xC3, CHR 0xA9] @ [])" by (intro utf8_cons utf8_nil) (simp_all add: utf8_char_def)
  then have cwd: "utf8 [CHR ''/'', CHR 0xC3, CHR 0xA9]" by simp
  have "\<forall>step \<in> set (compile_steps (m_graph ?b)). step_utf8 50 edited ''catalyst.build'' ?b step"
  proof
    fix step assume step: "step \<in> set (compile_steps (m_graph ?b))"
    have plain: "list_all (\<lambda>step. list_all (\<lambda>s. list_all (\<lambda>c. (of_char c :: nat) < 0x80) s)
        (step_args 50 edited ''catalyst.build'' ?b step @ parsed_inputs step @ [output_path step])) (compile_steps (m_graph ?b))"
      by code_simp
    with step show "step_utf8 50 edited ''catalyst.build'' ?b step"
      by (auto simp: step_utf8_def list_all_iff intro!: utf8_ascii)
  qed
  with cwd emitCompDB_json [of num "[CHR ''/'', CHR 0xC3, CHR 0xA9]" 50 "''catalyst.build''" edited ?b 100] show ?thesis by blast
qed

section \<open>The commands\<close>

text \<open>The printed commands are the build, in an order it can run in. On a graph without cycles
  emitCommands prints exactly one line for every node that a step produces, the arguments of the
  step separated by blanks, and a node's line comes after the lines of all nodes it depends on;
  with a cycle it prints nothing and reports the cycle.\<close>

theorem emitCommands_order:
  assumes "edges_in_range (m_graph b)"
  shows "returns (emitCommands n w bf b) (\<lambda>r.
    if acyclic (edge_rel (m_graph b)) then
      \<exists>order. r = Inr (concat (map (node_command n w bf b) order)) \<and> distinct order \<and>
        set order = {..<length (nodes_m (m_graph b))} \<and>
        (\<forall>i < length order. \<forall>j < length order. order ! j \<in> set (succs (m_graph b) (order ! i)) \<longrightarrow> i < j)
    else \<exists>v < length (nodes_m (m_graph b)). r = Inl (''Cycle detected in the build graph at: '' @ path (nodes_m (m_graph b) ! v)))"
proof -
  obtain r where r: "topoSort (m_graph b) = Some r" and ok: "case r of
      Inl e \<Rightarrow> on_cycle (m_graph b) e | Inr order \<Rightarrow> is_topological (m_graph b) order"
    using topoSort_ok [OF assms] by (rule returnsE)
  show ?thesis
  proof (cases r)
    case (Inl e)
    with ok r show ?thesis
      by (auto simp: emitCommands_def on_cycle_def cycle_error_def acyclic_def)
  next
    case (Inr order)
    with ok have "acyclic (edge_rel (m_graph b))" using topological_acyclic [OF _ assms] by simp
    with ok r Inr show ?thesis by (auto simp: emitCommands_def is_topological_def)
  qed
qed

lemma emitCommands_order_witness:
  "\<exists>e. emitCommands 50 no_files ''catalyst.build'' \<lparr>m_graph = loop_graph, m_definitions = []\<rparr> =
     Some (Inl (''Cycle detected in the build graph at: '' @ e))"
proof -
  have "(0, 0) \<in> edge_rel loop_graph"
    by (simp add: edge_rel_def loop_graph_def succs_def path_node_def)
  then have "\<not> acyclic (edge_rel loop_graph)" by (auto simp: acyclic_def)
  with emitCommands_order [of "\<lparr>m_graph = loop_graph, m_definitions = []\<rparr>" 50 no_files "''catalyst.build''"]
    example_graphs(2) show ?thesis by (auto simp: returns_def)
qed

end
