(* ===== verification/Sorted_Range.thy ===== *)
theory Sorted_Range
  imports Prelude
begin

text \<open>
  \<open>std::ranges::lower_bound\<close> with a projection, on a vector sorted by it, and what a search with it
  finds: the interface of the sorted vectors of the program (work estimates, stat cache).
\<close>

definition lower_bound :: "('a \<Rightarrow> 'k::linorder) \<Rightarrow> 'k \<Rightarrow> 'a list \<Rightarrow> nat" where
  "lower_bound proj k xs = length (takeWhile (\<lambda>x. proj x < k) xs)"

definition found_at :: "('a \<Rightarrow> 'k::linorder) \<Rightarrow> 'k \<Rightarrow> 'a list \<Rightarrow> 'a option" where
  "found_at proj k xs =
     (let i = lower_bound proj k xs in if i < length xs \<and> proj (xs ! i) = k then Some (xs ! i) else None)"

lemma found_at_simps:
  "found_at proj k [] = None"
  "found_at proj k (x # xs) = (if proj x < k then found_at proj k xs else if proj x = k then Some x else None)"
  by (simp_all add: found_at_def lower_bound_def Let_def)

text \<open>On a sorted vector the search finds the first element with the key, if there is one.\<close>

lemma found_at_first:
  "sorted (map proj xs) \<Longrightarrow> found_at proj k xs = List.find (\<lambda>x. proj x = k) xs"
proof (induction xs)
  case (Cons x xs)
  have "List.find (\<lambda>x. proj x = k) xs = None" if "k < proj x"
    using Cons.prems that by (auto simp: find_None_iff)
  with Cons show ?case by (auto simp: found_at_simps)
qed (simp add: found_at_simps)

lemma found_at_map_of:
  "sorted (map fst xs) \<Longrightarrow> map_option snd (found_at fst k xs) = map_of xs k"
  by (simp add: found_at_first) (induction xs; auto)

definition insert_at :: "nat \<Rightarrow> 'a \<Rightarrow> 'a list \<Rightarrow> 'a list" where
  "insert_at i x xs = take i xs @ x # drop i xs"

definition erase_at :: "nat \<Rightarrow> 'a list \<Rightarrow> 'a list" where
  "erase_at i xs = take i xs @ drop (i + 1) xs"

lemma lower_bound_split:
  obtains ys zs where "xs = ys @ zs" "lower_bound proj k xs = length ys" "\<forall>y \<in> set ys. proj y < k"
    "zs = [] \<or> \<not> proj (hd zs) < k"
proof
  show "xs = takeWhile (\<lambda>x. proj x < k) xs @ dropWhile (\<lambda>x. proj x < k) xs" by simp
  show "lower_bound proj k xs = length (takeWhile (\<lambda>x. proj x < k) xs)" by (simp add: lower_bound_def)
  show "\<forall>y \<in> set (takeWhile (\<lambda>x. proj x < k) xs). proj y < k" by (auto dest: set_takeWhileD)
  show "dropWhile (\<lambda>x. proj x < k) xs = [] \<or> \<not> proj (hd (dropWhile (\<lambda>x. proj x < k) xs)) < k"
    using hd_dropWhile by blast
qed

text \<open>Inserting where the search ends keeps the vector strictly sorted, and adds one entry.\<close>

lemma insert_at_bound:
  assumes "sorted_wrt (<) (map fst xs)" "k \<notin> set (map fst xs)"
  shows "sorted_wrt (<) (map fst (insert_at (lower_bound fst k xs) (k, v) xs)) \<and>
    map_of (insert_at (lower_bound fst k xs) (k, v) xs) = (map_of xs)(k \<mapsto> v)"
proof -
  obtain ys zs where x: "xs = ys @ zs" "lower_bound fst k xs = length ys" "\<forall>y \<in> set ys. fst y < k"
    "zs = [] \<or> \<not> fst (hd zs) < k" by (rule lower_bound_split)
  have above: "\<forall>z \<in> set zs. k < fst z"
    using assms x by (cases zs) (auto simp: sorted_wrt_append not_less order.order_iff_strict)
  have i: "insert_at (lower_bound fst k xs) (k, v) xs = ys @ (k, v) # zs" by (simp add: insert_at_def x(2)) (simp add: x(1))
  have "map_of ys k = None" using x(3) by (auto simp: map_of_eq_None_iff)
  with i above assms(1) x show ?thesis
    by (auto simp: sorted_wrt_append map_add_def fun_eq_iff split: option.split)
qed

lemma erase_at_bound:
  assumes "sorted_wrt (<) (map fst xs)" "found_at fst k xs = Some e"
  shows "sorted_wrt (<) (map fst (erase_at (lower_bound fst k xs) xs)) \<and>
    map_of (erase_at (lower_bound fst k xs) xs) = (map_of xs)(k := None)"
proof -
  obtain ys zs where x: "xs = ys @ zs" "lower_bound fst k xs = length ys" "\<forall>y \<in> set ys. fst y < k"
    "zs = [] \<or> \<not> fst (hd zs) < k" by (rule lower_bound_split)
  with assms(2) obtain z zs' where z: "zs = z # zs'" "fst z = k"
    by (cases zs) (auto simp: found_at_def Let_def split: if_splits)
  have i: "erase_at (lower_bound fst k xs) xs = ys @ zs'" by (simp add: erase_at_def x(2)) (simp add: x(1) z(1))
  have "\<forall>y \<in> set zs'. k < fst y" using assms(1) x(1) z by (auto simp: sorted_wrt_append)
  then have "map_of zs' k = None" "map_of ys k = None" using x(3) by (auto simp: map_of_eq_None_iff)
  with i assms(1) x(1) z show ?thesis
    by (cases z) (auto simp: sorted_wrt_append map_add_def fun_eq_iff split: option.split)
qed

end
