(* ===== verification/Stat_Cache.thy ===== *)
theory Stat_Cache
  imports Sorted_Range Commands
begin

text \<open>
  \<open>StatCache\<close> (include/cob/executor.hpp, src/executor_stat_cache.cpp): file times in buckets of sorted
  vectors, chosen by a hash that is a parameter. \<open>getOrUpdate\<close> takes the lock of its bucket twice; the
  two locked parts and \<open>invalidate\<close> are single steps here, a history of steps is an interleaving of the calls
  of any number of threads, and a call of \<open>getOrUpdate\<close> has the steps of the others between its parts
  as an argument.
\<close>

section \<open>Buckets\<close>

text \<open>An entry: the path, and the time or the error of \<open>last_write_time\<close>.\<close>

type_synonym stat_entry = "string \<times> int option"
type_synonym stat_buckets = "stat_entry list list"

definition NUM_BUCKETS :: nat where
  "NUM_BUCKETS = 128"

definition new_stat_cache :: stat_buckets where
  "new_stat_cache = replicate NUM_BUCKETS []"

definition getBucketIndex :: "(string \<Rightarrow> nat) \<Rightarrow> string \<Rightarrow> nat" where
  "getBucketIndex hash p = hash p mod NUM_BUCKETS"

text \<open>The first part of \<open>getOrUpdate\<close>, under the shared lock: a hit, or nothing.\<close>

definition stat_lookup :: "(string \<Rightarrow> nat) \<Rightarrow> string \<Rightarrow> stat_buckets \<Rightarrow> int option option" where
  "stat_lookup hash p bs = map_option snd (found_at fst p (bs ! getBucketIndex hash p))"

text \<open>The second part, under the exclusive lock: looks again, and stats the file if it is still missing.\<close>

definition stat_insert ::
  "(string \<Rightarrow> nat) \<Rightarrow> world \<Rightarrow> string \<Rightarrow> stat_buckets \<Rightarrow> stat_buckets \<times> int option" where
  "stat_insert hash w p bs =
     (let idx = getBucketIndex hash p; entries = bs ! idx
      in case found_at fst p entries of
           Some e \<Rightarrow> (bs, snd e)
         | None \<Rightarrow>
             let time = w_time w p
             in (bs[idx := insert_at (lower_bound fst p entries) (p, time) entries], time))"

definition stat_invalidate :: "(string \<Rightarrow> nat) \<Rightarrow> string \<Rightarrow> stat_buckets \<Rightarrow> stat_buckets" where
  "stat_invalidate hash p bs =
     (let idx = getBucketIndex hash p; entries = bs ! idx
      in case found_at fst p entries of
           Some e \<Rightarrow> bs[idx := erase_at (lower_bound fst p entries) entries]
         | None \<Rightarrow> bs)"

text \<open>The steps of the threads that change the buckets: the second part of \<open>getOrUpdate\<close>, with the files as
  they are at that time, and \<open>invalidate\<close>.\<close>

datatype stat_step = Insert world string | Invalidate string

fun stat_run :: "(string \<Rightarrow> nat) \<Rightarrow> stat_buckets \<Rightarrow> stat_step list \<Rightarrow> stat_buckets" where
  "stat_run hash bs [] = bs"
| "stat_run hash bs (Insert w p # steps) = stat_run hash (fst (stat_insert hash w p bs)) steps"
| "stat_run hash bs (Invalidate p # steps) = stat_run hash (stat_invalidate hash p bs) steps"

text \<open>A call: \<open>others\<close> are the steps of other threads between its first part and its second, if it comes to that.\<close>

definition getOrUpdate ::
  "(string \<Rightarrow> nat) \<Rightarrow> world \<Rightarrow> string \<Rightarrow> stat_step list \<Rightarrow> stat_buckets \<Rightarrow> stat_buckets \<times> int option" where
  "getOrUpdate hash w p others bs =
     (case stat_lookup hash p bs of
        Some time \<Rightarrow> (bs, time)
      | None \<Rightarrow> stat_insert hash w p (stat_run hash bs others))"

definition stat_changedSince ::
  "(string \<Rightarrow> nat) \<Rightarrow> world \<Rightarrow> string \<Rightarrow> int \<Rightarrow> stat_step list \<Rightarrow> stat_buckets \<Rightarrow> stat_buckets \<times> bool" where
  "stat_changedSince hash w p output_time others bs =
     (case getOrUpdate hash w p others bs of
        (bs, None) \<Rightarrow> (bs, True)
      | (bs, Some input_time) \<Rightarrow> (bs, input_time \<ge> output_time))"

definition getCacheSize :: "stat_buckets \<Rightarrow> nat" where
  "getCacheSize bs = sum_list (map length bs)"

section \<open>The cache as a map\<close>

definition stat_ok :: "(string \<Rightarrow> nat) \<Rightarrow> stat_buckets \<Rightarrow> bool" where
  "stat_ok hash bs \<longleftrightarrow> length bs = NUM_BUCKETS \<and>
     (\<forall>i < NUM_BUCKETS. sorted_wrt (<) (map fst (bs ! i)) \<and> (\<forall>p \<in> set (map fst (bs ! i)). getBucketIndex hash p = i))"

definition stat_map :: "(string \<Rightarrow> nat) \<Rightarrow> stat_buckets \<Rightarrow> string \<rightharpoonup> int option" where
  "stat_map hash bs p = map_of (bs ! getBucketIndex hash p) p"

lemma bucket_less: "getBucketIndex hash p < NUM_BUCKETS"
  by (simp add: getBucketIndex_def NUM_BUCKETS_def)

lemma stat_okD:
  assumes "stat_ok hash bs"
  shows "length bs = NUM_BUCKETS" "sorted_wrt (<) (map fst (bs ! getBucketIndex hash p))"
    "sorted (map fst (bs ! getBucketIndex hash p))"
  using assms bucket_less strict_sorted_imp_sorted by (auto simp: stat_ok_def)

lemma stat_lookup_map: "stat_ok hash bs \<Longrightarrow> stat_lookup hash p bs = stat_map hash bs p"
  by (simp add: stat_lookup_def stat_map_def found_at_map_of stat_okD(3))

lemma bucket_update:
  assumes "stat_ok hash bs" "sorted_wrt (<) (map fst es)" "map_of es = (map_of (bs ! getBucketIndex hash p))(p := v)"
  shows "stat_ok hash (bs[getBucketIndex hash p := es])"
    "stat_map hash (bs[getBucketIndex hash p := es]) = (stat_map hash bs)(p := v)"
proof -
  have keys: "set (map fst es) \<subseteq> insert p (set (map fst (bs ! getBucketIndex hash p)))"
  proof
    fix q assume "q \<in> set (map fst es)"
    then have "map_of es q \<noteq> None" by (simp add: map_of_eq_None_iff)
    then show "q \<in> insert p (set (map fst (bs ! getBucketIndex hash p)))"
      using assms(3) by (cases "q = p") (auto simp: map_of_eq_None_iff)
  qed
  show "stat_ok hash (bs[getBucketIndex hash p := es])"
  proof -
    have "\<forall>q \<in> set (map fst es). getBucketIndex hash q = getBucketIndex hash p"
      using keys assms(1) bucket_less [of hash p] unfolding stat_ok_def by blast
    with assms(1,2) bucket_less [of hash p] show ?thesis unfolding stat_ok_def by (auto simp: nth_list_update)
  qed
  show "stat_map hash (bs[getBucketIndex hash p := es]) = (stat_map hash bs)(p := v)"
    using stat_okD(1) [OF assms(1)] bucket_less [of hash p] assms(3)
    by (auto simp: stat_map_def fun_eq_iff nth_list_update)
qed

lemma stat_insert_map:
  assumes "stat_ok hash bs"
  shows "stat_ok hash (fst (stat_insert hash w p bs)) \<and>
    stat_map hash (fst (stat_insert hash w p bs)) =
      (stat_map hash bs)(p \<mapsto> case stat_map hash bs p of None \<Rightarrow> w_time w p | Some t \<Rightarrow> t) \<and>
    snd (stat_insert hash w p bs) = (case stat_map hash bs p of None \<Rightarrow> w_time w p | Some t \<Rightarrow> t)"
proof -
  let ?es = "bs ! getBucketIndex hash p"
  have find: "map_option snd (found_at fst p ?es) = stat_map hash bs p"
    by (simp add: stat_map_def found_at_map_of stat_okD(3) [OF assms])
  show ?thesis
  proof (cases "found_at fst p ?es")
    case None
    then have m: "map_of ?es p = None" using find by (simp add: stat_map_def)
    then have missing: "p \<notin> set (map fst ?es)" "stat_map hash bs p = None"
      unfolding map_of_eq_None_iff by (simp_all add: stat_map_def m)
    from insert_at_bound [OF stat_okD(2) [OF assms] missing(1), of "w_time w p"]
      bucket_update [OF assms, of "insert_at (lower_bound fst p ?es) (p, w_time w p) ?es" p "Some (w_time w p)"]
      None missing(2) show ?thesis by (simp add: stat_insert_def Let_def)
  next
    case (Some e)
    with find have "stat_map hash bs p = Some (snd e)" by simp
    with Some assms show ?thesis by (auto simp: stat_insert_def Let_def)
  qed
qed

lemma stat_invalidate_map:
  assumes "stat_ok hash bs"
  shows "stat_ok hash (stat_invalidate hash p bs) \<and> stat_map hash (stat_invalidate hash p bs) = (stat_map hash bs)(p := None)"
proof -
  let ?es = "bs ! getBucketIndex hash p"
  have find: "map_option snd (found_at fst p ?es) = stat_map hash bs p"
    by (simp add: stat_map_def found_at_map_of stat_okD(3) [OF assms])
  show ?thesis
  proof (cases "found_at fst p ?es")
    case None
    with find have "stat_map hash bs p = None" by simp
    with None assms show ?thesis by (auto simp: stat_invalidate_def Let_def)
  next
    case (Some e)
    from erase_at_bound [OF stat_okD(2) [OF assms] Some]
      bucket_update [OF assms, of "erase_at (lower_bound fst p ?es) ?es" p None] Some
    show ?thesis by (simp add: stat_invalidate_def Let_def)
  qed
qed

section \<open>Histories\<close>

text \<open>The same on maps: the first answer is remembered.\<close>

fun map_run :: "(string \<rightharpoonup> int option) \<Rightarrow> stat_step list \<Rightarrow> (string \<rightharpoonup> int option)" where
  "map_run m [] = m"
| "map_run m (Insert w p # steps) = map_run (m(p \<mapsto> case m p of None \<Rightarrow> w_time w p | Some t \<Rightarrow> t)) steps"
| "map_run m (Invalidate p # steps) = map_run (m(p := None)) steps"

lemma stat_run_map:
  "stat_ok hash bs \<Longrightarrow> stat_ok hash (stat_run hash bs steps) \<and>
    stat_map hash (stat_run hash bs steps) = map_run (stat_map hash bs) steps"
proof (induction steps arbitrary: bs)
  case (Cons step steps)
  show ?case
  proof (cases step)
    case (Insert w p)
    with stat_insert_map [OF Cons.prems, of w p] Cons.IH [of "fst (stat_insert hash w p bs)"] show ?thesis
      by (simp add: fun_upd_def)
  next
    case (Invalidate p)
    with stat_invalidate_map [OF Cons.prems, of p] Cons.IH [of "stat_invalidate hash p bs"] show ?thesis
      by (simp add: fun_upd_def)
  qed
qed simp

lemma new_stat_cache_ok: "stat_ok hash new_stat_cache" "stat_map hash new_stat_cache = Map.empty"
  using bucket_less [of hash] by (auto simp: stat_ok_def new_stat_cache_def stat_map_def fun_eq_iff)

lemma cache_size_card:
  assumes "stat_ok hash bs"
  shows "getCacheSize bs = card (dom (stat_map hash bs))"
proof -
  let ?keys = "\<lambda>i. set (map fst (bs ! i))"
  have len: "length bs = NUM_BUCKETS" and bucket: "i < NUM_BUCKETS \<Longrightarrow> q \<in> ?keys i \<Longrightarrow> getBucketIndex hash q = i"
    and sorted: "i < NUM_BUCKETS \<Longrightarrow> sorted_wrt (<) (map fst (bs ! i))" for i q
    using assms by (auto simp: stat_ok_def)
  have dist: "distinct (map fst (bs ! i))" if "i < NUM_BUCKETS" for i
    using sorted [OF that] by (simp add: strict_sorted_iff)
  have "dom (stat_map hash bs) = (\<Union>i < NUM_BUCKETS. ?keys i)"
  proof -
    have "q \<in> dom (stat_map hash bs) \<longleftrightarrow> q \<in> ?keys (getBucketIndex hash q)" for q
      by (simp add: domIff stat_map_def map_of_eq_None_iff)
    then show ?thesis using bucket bucket_less [of hash] by blast
  qed
  moreover have "card (\<Union>i < NUM_BUCKETS. ?keys i) = (\<Sum>i < NUM_BUCKETS. card (?keys i))"
  proof (rule card_UN_disjoint)
    show "\<forall>i \<in> {..<NUM_BUCKETS}. \<forall>j \<in> {..<NUM_BUCKETS}. i \<noteq> j \<longrightarrow> ?keys i \<inter> ?keys j = {}" using bucket by blast
  qed simp_all
  moreover have "(\<Sum>i < NUM_BUCKETS. card (?keys i)) = (\<Sum>i < NUM_BUCKETS. length (bs ! i))"
    using dist distinct_card by (intro sum.cong) fastforce+
  moreover have "getCacheSize bs = (\<Sum>i < NUM_BUCKETS. length (bs ! i))"
    using len by (simp add: getCacheSize_def sum_list_sum_nth atLeast0LessThan)
  ultimately show ?thesis by simp
qed

text \<open>What a call of \<open>getOrUpdate\<close> answers, and the map it leaves, when other steps come between its parts.\<close>

definition held_answer :: "(string \<rightharpoonup> int option) \<Rightarrow> world \<Rightarrow> string \<Rightarrow> stat_step list \<Rightarrow> int option" where
  "held_answer m w p others =
     (case m p of
        Some t \<Rightarrow> t
      | None \<Rightarrow> (case map_run m others p of Some t \<Rightarrow> t | None \<Rightarrow> w_time w p))"

definition held_after :: "(string \<rightharpoonup> int option) \<Rightarrow> world \<Rightarrow> string \<Rightarrow> stat_step list \<Rightarrow> (string \<rightharpoonup> int option)" where
  "held_after m w p others =
     (if m p = None then (map_run m others)(p \<mapsto> held_answer m w p others) else m)"

text \<open>C39: The stat cache is a map. However the locked parts of the threads' calls interleave, the buckets
  stay sorted, without a path twice or in a wrong bucket, and hold the map that remembers of each path
  the first answer since it was last invalidated. A call of getOrUpdate answers what the map holds when
  it looks first; if that is nothing, then what the map holds when it looks again, after any steps of other
  threads; and if that is nothing either, the time of the file, or that it has none, which it
  remembers. changedSince compares that answer, a missing file counting as changed, and getCacheSize counts the
  paths.\<close>

theorem stat_cache_is_map:
  "let bs = stat_run hash new_stat_cache steps; m = map_run Map.empty steps; answer = held_answer m w p others
   in stat_ok hash bs \<and> stat_map hash bs = m \<and> getCacheSize bs = card (dom m) \<and> stat_lookup hash p bs = m p \<and>
     snd (stat_insert hash w p bs) = (case m p of Some t \<Rightarrow> t | None \<Rightarrow> w_time w p) \<and>
     stat_map hash (fst (stat_insert hash w p bs)) = m(p \<mapsto> case m p of Some t \<Rightarrow> t | None \<Rightarrow> w_time w p) \<and>
     snd (getOrUpdate hash w p others bs) = answer \<and>
     stat_ok hash (fst (getOrUpdate hash w p others bs)) \<and>
     stat_map hash (fst (getOrUpdate hash w p others bs)) = held_after m w p others \<and>
     fst (stat_changedSince hash w p t0 others bs) = fst (getOrUpdate hash w p others bs) \<and>
     snd (stat_changedSince hash w p t0 others bs) = (case answer of None \<Rightarrow> True | Some t \<Rightarrow> t \<ge> t0)"
proof -
  let ?bs = "stat_run hash new_stat_cache steps"
  have bs: "stat_ok hash ?bs" "stat_map hash ?bs = map_run Map.empty steps"
    using stat_run_map [OF new_stat_cache_ok(1), of hash steps] by (simp_all add: new_stat_cache_ok(2))
  note later = stat_run_map [OF bs(1), of others]
  have get: "snd (getOrUpdate hash w p others ?bs) = held_answer (stat_map hash ?bs) w p others \<and>
      stat_ok hash (fst (getOrUpdate hash w p others ?bs)) \<and>
      stat_map hash (fst (getOrUpdate hash w p others ?bs)) = held_after (stat_map hash ?bs) w p others"
    using bs(1) stat_insert_map [of hash "stat_run hash ?bs others" w p] later stat_lookup_map [OF bs(1), of p]
    by (cases "stat_map hash ?bs p") (auto simp: getOrUpdate_def held_answer_def held_after_def cong: option.case_cong)
  have "fst (stat_changedSince hash w p t0 others ?bs) = fst (getOrUpdate hash w p others ?bs)"
    "snd (stat_changedSince hash w p t0 others ?bs) =
      (case snd (getOrUpdate hash w p others ?bs) of None \<Rightarrow> True | Some t \<Rightarrow> t \<ge> t0)"
    by (simp_all add: stat_changedSince_def split: prod.split option.split)
  with get bs cache_size_card [OF bs(1)] stat_lookup_map [OF bs(1), of p] stat_insert_map [OF bs(1), of w p] show ?thesis
    by (simp add: Let_def cong: option.case_cong)
qed

end
