(* ===== verification/Binary_Emission.thy ===== *)
theory Binary_Emission
  imports Binary_Cache
begin

text \<open>
  What the writer of the binary cache emits: one record per definition, node and step, each of
  which denotes its object in the final string pool, in exactly the bytes that were allocated.
\<close>

section \<open>Emitted records\<close>

text \<open>The bytes of one record denote a definition, a node or a step, given the string pool.\<close>

definition good_definition :: "string \<Rightarrow> string \<times> string \<Rightarrow> string \<Rightarrow> bool" where
  "good_definition strings kv bs \<longleftrightarrow>
     (\<exists>k v. bs = put_definition \<lparr>bd_key = k, bd_val = v\<rparr> \<and> refers strings k (fst kv) \<and> refers strings v (snd kv))"

definition good_node :: "string \<Rightarrow> node \<Rightarrow> string \<Rightarrow> bool" where
  "good_node strings n bs \<longleftrightarrow>
     (\<exists>r. bs = put_node \<lparr>bn_path = r, bn_step_id = step_id n, bn_edges = el_data (out_edges n)\<rparr> \<and>
       refers strings r (path n))"

definition step_header :: "StringRef \<Rightarrow> StringRef \<Rightarrow> StringRef \<Rightarrow> build_step \<Rightarrow> BinStepHeader" where
  "step_header i out x step =
     \<lparr>bs_inputs = i, bs_output = out, bs_extra_flags = x, bs_command_hash = command_hash step,
      bs_depfile_count = (if di_has_value (depfile_inputs step)
                          then Some (length (di_list (depfile_inputs step))) else None),
      bs_tool = tool_code (toolKindFromString (tool step))\<rparr>"

definition good_step :: "string \<Rightarrow> build_step \<Rightarrow> string \<Rightarrow> bool" where
  "good_step strings st bs \<longleftrightarrow>
     (\<exists>i out x refs. bs = put_step_header (step_header i out x st) @ concat (map put_ref refs) \<and>
       refers strings i (inputs st) \<and> refers strings out (output_path st) \<and> refers strings x (extra_flags st) \<and>
       list_all2 (refers strings) refs (di_list (depfile_inputs st)))"

definition monotone_good :: "(string \<Rightarrow> 'a \<Rightarrow> string \<Rightarrow> bool) \<Rightarrow> bool" where
  "monotone_good G \<longleftrightarrow> (\<forall>strings ext x bs. G strings x bs \<longrightarrow> G (strings @ ext) x bs)"

lemma refers_list_extend:
  "list_all2 (refers strings) rs ss \<Longrightarrow> list_all2 (refers (strings @ ext)) rs ss"
  by (erule list_all2_mono) (rule refers_extend)

lemma good_monotone: "monotone_good good_definition" "monotone_good good_node" "monotone_good good_step"
  unfolding monotone_good_def good_definition_def good_node_def good_step_def
  by (blast intro: refers_extend refers_list_extend)+

text \<open>From \<open>e\<close> to \<open>e'\<close> one piece of output per element was appended, and the pool only grew.\<close>

definition emitted :: "(string \<Rightarrow> 'a \<Rightarrow> string \<Rightarrow> bool) \<Rightarrow> emitter \<Rightarrow> 'a list \<Rightarrow> emitter \<Rightarrow> bool" where
  "emitted G e xs e' \<longleftrightarrow> (\<exists>bss ext. em_out e' = em_out e @ concat bss \<and>
     buffer_data (em_pool e') = buffer_data (em_pool e) @ ext \<and>
     list_all2 (G (buffer_data (em_pool e'))) xs bss)"

lemma emitted_Nil: "emitted G e [] e"
  by (simp add: emitted_def)

lemma emitted_append:
  assumes G: "monotone_good G" and 1: "emitted G e xs e1" and 2: "emitted G e1 ys e2"
  shows "emitted G e (xs @ ys) e2"
proof -
  obtain b1 x1 where e1: "em_out e1 = em_out e @ concat b1" "buffer_data (em_pool e1) = buffer_data (em_pool e) @ x1"
    "list_all2 (G (buffer_data (em_pool e1))) xs b1"
    using 1 by (auto simp: emitted_def)
  obtain b2 x2 where e2: "em_out e2 = em_out e1 @ concat b2" "buffer_data (em_pool e2) = buffer_data (em_pool e1) @ x2"
    "list_all2 (G (buffer_data (em_pool e2))) ys b2"
    using 2 by (auto simp: emitted_def)
  have "list_all2 (G (buffer_data (em_pool e2))) xs b1"
    using e1(3) by (rule list_all2_mono) (use G e2(2) in \<open>auto simp: monotone_good_def\<close>)
  with e2(3) have "list_all2 (G (buffer_data (em_pool e2))) (xs @ ys) (b1 @ b2)"
    by (intro list_all2_appendI)
  moreover have "em_out e2 = em_out e @ concat (b1 @ b2)" using e1(1) e2(1) by simp
  moreover have "buffer_data (em_pool e2) = buffer_data (em_pool e) @ (x1 @ x2)" using e1(2) e2(2) by simp
  ultimately show ?thesis unfolding emitted_def by blast
qed

text \<open>The invariant of the writer: the pool is consistent, and the address cache knows only references
  of node paths, under the address of that path.\<close>

definition path_entry :: "(view \<Rightarrow> u64) \<Rightarrow> node list \<Rightarrow> string \<Rightarrow> u64 \<times> nat \<times> StringRef \<Rightarrow> bool" where
  "path_entry addr nodes bytes e \<longleftrightarrow> (\<exists>i < length nodes. fst e = addr (NodePath i) \<and>
     fst (snd e) = length (path (nodes ! i)) \<and> refers bytes (snd (snd e)) (path (nodes ! i)))"

definition em_ok :: "(string \<Rightarrow> u64) \<Rightarrow> (view \<Rightarrow> u64) \<Rightarrow> node list \<Rightarrow> emitter \<Rightarrow> bool" where
  "em_ok h addr nodes e \<longleftrightarrow> sb_ok h (em_pool e) \<and> ac_inv (em_paths e) \<and>
     Ball (ac_entries (em_paths e)) (path_entry addr nodes (buffer_data (em_pool e)))"

lemma path_entry_extend: "path_entry addr nodes bytes e \<Longrightarrow> path_entry addr nodes (bytes @ ext) e"
  unfolding path_entry_def using refers_extend by blast

lemma path_entry_new:
  "i < length nodes \<Longrightarrow> refers bytes r (path (nodes ! i)) \<Longrightarrow>
    path_entry addr nodes bytes (addr (NodePath i), length (path (nodes ! i)), r)"
  unfolding path_entry_def by (intro exI [of _ i]) simp

lemma pool_add_ok:
  assumes "em_ok h addr nodes e"
  shows "\<exists>r e'. pool_add h e s = Some (r, e') \<and> em_ok h addr nodes e' \<and> em_out e' = em_out e \<and>
    em_paths e' = em_paths e \<and> refers (buffer_data (em_pool e')) r s \<and>
    (\<exists>ext. buffer_data (em_pool e') = buffer_data (em_pool e) @ ext)"
proof -
  have "sb_ok h (em_pool e)" using assms by (simp add: em_ok_def)
  from sb_add_ok [OF this, of s] obtain r sb ext where sb: "sb_add h (em_pool e) s = Some (r, sb)" "sb_ok h sb"
    "refers (buffer_data sb) r s" "buffer_data sb = buffer_data (em_pool e) @ ext" by blast
  moreover have "em_ok h addr nodes (e\<lparr>em_pool := sb\<rparr>)"
    using assms sb(2) path_entry_extend [of addr nodes "buffer_data (em_pool e)"]
    by (simp add: em_ok_def sb(4))
  ultimately show ?thesis by (auto simp: pool_add_def)
qed

lemma put_out_sel [simp]:
  "em_out (put_out bs e) = em_out e @ bs" "em_pool (put_out bs e) = em_pool e" "em_paths (put_out bs e) = em_paths e"
  by (simp_all add: put_out_def)

lemma em_ok_put_out [simp]: "em_ok h addr nodes (put_out bs e) = em_ok h addr nodes e"
  by (simp add: em_ok_def)

lemma emit_definition_ok:
  assumes "em_ok h addr nodes e"
  shows "returns (emit_definition h e kv) (\<lambda>e'. em_ok h addr nodes e' \<and> emitted good_definition e [kv] e')"
proof -
  obtain k e1 x1 where 1: "pool_add h e (fst kv) = Some (k, e1)" "em_ok h addr nodes e1" "em_out e1 = em_out e"
    "refers (buffer_data (em_pool e1)) k (fst kv)" "buffer_data (em_pool e1) = buffer_data (em_pool e) @ x1"
    using pool_add_ok [OF assms] by blast
  obtain v e2 x2 where 2: "pool_add h e1 (snd kv) = Some (v, e2)" "em_ok h addr nodes e2" "em_out e2 = em_out e1"
    "refers (buffer_data (em_pool e2)) v (snd kv)" "buffer_data (em_pool e2) = buffer_data (em_pool e1) @ x2"
    using pool_add_ok [OF 1(2)] by blast
  let ?bs = "put_definition \<lparr>bd_key = k, bd_val = v\<rparr>"
  have "refers (buffer_data (em_pool e2)) k (fst kv)" unfolding 2(5) by (rule refers_extend [OF 1(4)])
  with 2(4) have "good_definition (buffer_data (em_pool e2)) kv ?bs" by (auto simp: good_definition_def)
  with 1 2 have "emitted good_definition e [kv] (put_out ?bs e2)"
    unfolding emitted_def by (intro exI [of _ "[?bs]"] exI [of _ "x1 @ x2"]) simp
  with 1 2 show ?thesis by (simp add: emit_definition_def)
qed

lemma emit_node_ok:
  assumes "em_ok h addr nodes e" "i < length nodes"
  shows "returns (emit_node h addr e (i, nodes ! i)) (\<lambda>e'. em_ok h addr nodes e' \<and> emitted good_node e [nodes ! i] e')"
proof -
  let ?n = "nodes ! i"
  obtain r e1 x1 where 1: "pool_add h e (path ?n) = Some (r, e1)" "em_ok h addr nodes e1" "em_out e1 = em_out e"
    "refers (buffer_data (em_pool e1)) r (path ?n)" "buffer_data (em_pool e1) = buffer_data (em_pool e) @ x1"
    using pool_add_ok [OF assms(1)] by blast
  have "ac_inv (em_paths e1)" using 1(2) by (simp add: em_ok_def)
  from ac_insert_ok [OF this, of "addr (NodePath i)" "length (path ?n)" r] obtain c where
    c: "ac_insert (em_paths e1) (addr (NodePath i)) (length (path ?n)) r = Some c" "ac_inv c"
      "ac_entries c \<subseteq> insert (addr (NodePath i), length (path ?n), r) (ac_entries (em_paths e1))"
    by blast
  let ?bs = "put_node \<lparr>bn_path = r, bn_step_id = step_id ?n, bn_edges = el_data (out_edges ?n)\<rparr>"
  have "em_ok h addr nodes (e1\<lparr>em_paths := c\<rparr>)"
    using 1(2) c(2,3) path_entry_new [OF assms(2) 1(4), of addr] by (auto simp: em_ok_def)
  moreover have "good_node (buffer_data (em_pool e1)) ?n ?bs" using 1(4) by (auto simp: good_node_def)
  with 1 have "emitted good_node e [?n] (put_out ?bs (e1\<lparr>em_paths := c\<rparr>))"
    unfolding emitted_def by (intro exI [of _ "[?bs]"] exI [of _ x1]) simp
  ultimately show ?thesis using 1 c by (simp add: emit_node_def)
qed

text \<open>Equal addresses and sizes: the same bytes of memory, hence the same string.\<close>

definition views_ok :: "(view \<Rightarrow> u64) \<Rightarrow> build_graph \<Rightarrow> bool" where
  "views_ok addr g \<longleftrightarrow> (\<forall>i < length (nodes_m g). \<forall>s < length (steps_m g).
     \<forall>k < length (di_list (depfile_inputs (steps_m g ! s))).
       addr (DepInput s k) \<noteq> 0 \<and> addr (DepInput s k) = addr (NodePath i) \<and>
       length (di_list (depfile_inputs (steps_m g ! s)) ! k) = length (path (nodes_m g ! i)) \<longrightarrow>
       di_list (depfile_inputs (steps_m g ! s)) ! k = path (nodes_m g ! i))"

definition good_ref :: "string \<Rightarrow> string \<Rightarrow> string \<Rightarrow> bool" where
  "good_ref strings s bs \<longleftrightarrow> (\<exists>r. bs = put_ref r \<and> refers strings r s)"

lemma good_ref_monotone: "monotone_good good_ref"
  unfolding monotone_good_def good_ref_def by (blast intro: refers_extend)

lemma emit_depfile_input_ok:
  assumes e: "em_ok h addr (nodes_m g) e" and v: "views_ok addr g"
    and s: "s < length (steps_m g)" "k < length (di_list (depfile_inputs (steps_m g ! s)))"
  defines "input \<equiv> di_list (depfile_inputs (steps_m g ! s)) ! k"
  shows "returns (emit_depfile_input h addr s e (k, input))
    (\<lambda>e'. em_ok h addr (nodes_m g) e' \<and> emitted good_ref e [input] e')"
proof -
  have "ac_inv (em_paths e)" using e by (simp add: em_ok_def)
  from ac_find_ok [OF this, of "addr (DepInput s k)" "length input"] obtain known where
    known: "ac_find (em_paths e) (addr (DepInput s k)) (length input) = Some known"
      "\<And>ref. known = Some ref \<Longrightarrow> addr (DepInput s k) \<noteq> 0 \<and>
        (addr (DepInput s k), length input, ref) \<in> ac_entries (em_paths e)"
    by blast
  have one: "emitted good_ref e [input] (put_out (put_ref r) e')"
    if "em_out e' = em_out e" "refers (buffer_data (em_pool e')) r input"
      "buffer_data (em_pool e') = buffer_data (em_pool e) @ ext" for r e' ext
    unfolding emitted_def using that
    by (intro exI [of _ "[put_ref r]"] exI [of _ ext]) (auto simp: good_ref_def)
  show ?thesis
  proof (cases known)
    case None
    obtain r e1 x1 where "pool_add h e input = Some (r, e1)" "em_ok h addr (nodes_m g) e1" "em_out e1 = em_out e"
      "refers (buffer_data (em_pool e1)) r input" "buffer_data (em_pool e1) = buffer_data (em_pool e) @ x1"
      using pool_add_ok [OF e] by blast
    with None known(1) one show ?thesis by (simp add: emit_depfile_input_def)
  next
    case (Some r)
    with known(2) e have "path_entry addr (nodes_m g) (buffer_data (em_pool e)) (addr (DepInput s k), length input, r)"
      "addr (DepInput s k) \<noteq> 0"
      by (simp_all add: em_ok_def)
    then obtain i where i: "i < length (nodes_m g)" "addr (DepInput s k) = addr (NodePath i)"
      "length input = length (path (nodes_m g ! i))" "addr (DepInput s k) \<noteq> 0"
      "refers (buffer_data (em_pool e)) r (path (nodes_m g ! i))"
      by (auto simp: path_entry_def)
    then have "input = path (nodes_m g ! i)"
      using v s unfolding views_ok_def input_def by blast
    with i(5) one [of e r "[]"] Some known(1) e show ?thesis by (simp add: emit_depfile_input_def)
  qed
qed

text \<open>A loop that emits one record per element.\<close>

lemma foldM_emitted:
  assumes G: "monotone_good G"
    and step: "\<And>e j. em_ok h addr nodes e \<Longrightarrow> j < length xs \<Longrightarrow>
      returns (f e (ys ! j)) (\<lambda>e'. em_ok h addr nodes e' \<and> emitted G e [xs ! j] e')"
    and len: "length ys = length xs" and e: "em_ok h addr nodes e"
  shows "returns (foldM f e ys) (\<lambda>e'. em_ok h addr nodes e' \<and> emitted G e xs e')"
proof -
  have "returns (foldM f e ys) (\<lambda>e'. em_ok h addr nodes e' \<and> emitted G e (take (length ys) xs) e')"
  proof (rule foldM_invariant)
    show "em_ok h addr nodes e \<and> emitted G e (take (length []) xs) e" using e by (simp add: emitted_Nil)
  next
    fix pre y rest e1
    assume ys: "ys = pre @ y # rest" and e1: "em_ok h addr nodes e1 \<and> emitted G e (take (length pre) xs) e1"
    have j: "length pre < length xs" "ys ! length pre = y" using ys len by auto
    from step [of e1 "length pre"] e1 j
    obtain e2 where e2: "f e1 y = Some e2" "em_ok h addr nodes e2" "emitted G e1 [xs ! length pre] e2"
      by (auto simp: returns_def)
    have "emitted G e (take (length pre) xs @ [xs ! length pre]) e2"
      by (rule emitted_append [OF G conjunct2 [OF e1] e2(3)])
    with e2 j show "returns (f e1 y) (\<lambda>e2. em_ok h addr nodes e2 \<and> emitted G e (take (length (pre @ [y])) xs) e2)"
      by (simp add: take_Suc_conv_app_nth)
  qed
  then show ?thesis by (simp add: len)
qed

section \<open>A step and its dependency file inputs\<close>

lemma good_refs:
  assumes "list_all2 (good_ref strings) ss bss"
  shows "\<exists>refs. bss = map put_ref refs \<and> list_all2 (refers strings) refs ss"
  using assms
proof (induction rule: list_all2_induct)
  case Nil
  then show ?case by simp
next
  case (Cons s ss b bss)
  then obtain r refs where "b = put_ref r" "refers strings r s" "bss = map put_ref refs"
    "list_all2 (refers strings) refs ss"
    by (auto simp: good_ref_def)
  then show ?case by (intro exI [of _ "r # refs"]) simp
qed

lemma emit_step_ok:
  assumes e: "em_ok h addr (nodes_m g) e" and v: "views_ok addr g" and s: "s < length (steps_m g)"
  defines "st \<equiv> steps_m g ! s"
  shows "returns (emit_step h addr e (s, st)) (\<lambda>e'. em_ok h addr (nodes_m g) e' \<and> emitted good_step e [st] e')"
proof -
  let ?deps = "di_list (depfile_inputs st)"
  obtain i e1 x1 where 1: "pool_add h e (inputs st) = Some (i, e1)" "em_ok h addr (nodes_m g) e1"
    "em_out e1 = em_out e" "refers (buffer_data (em_pool e1)) i (inputs st)"
    "buffer_data (em_pool e1) = buffer_data (em_pool e) @ x1"
    using pool_add_ok [OF e] by blast
  obtain out e2 x2 where 2: "pool_add h e1 (output_path st) = Some (out, e2)" "em_ok h addr (nodes_m g) e2"
    "em_out e2 = em_out e1" "refers (buffer_data (em_pool e2)) out (output_path st)"
    "buffer_data (em_pool e2) = buffer_data (em_pool e1) @ x2"
    using pool_add_ok [OF 1(2)] by blast
  obtain x e3 x3 where 3: "pool_add h e2 (extra_flags st) = Some (x, e3)" "em_ok h addr (nodes_m g) e3"
    "em_out e3 = em_out e2" "refers (buffer_data (em_pool e3)) x (extra_flags st)"
    "buffer_data (em_pool e3) = buffer_data (em_pool e2) @ x3"
    using pool_add_ok [OF 2(2)] by blast
  let ?e = "put_out (put_step_header (step_header i out x st)) e3"
  have "returns (foldM (emit_depfile_input h addr s) ?e (List.enumerate 0 ?deps))
      (\<lambda>e'. em_ok h addr (nodes_m g) e' \<and> emitted good_ref ?e ?deps e')"
  proof (rule foldM_emitted [OF good_ref_monotone])
    fix e' j assume "em_ok h addr (nodes_m g) e'" "j < length ?deps"
    with emit_depfile_input_ok [OF _ v s, of h e' j]
    show "returns (emit_depfile_input h addr s e' (List.enumerate 0 ?deps ! j))
        (\<lambda>e''. em_ok h addr (nodes_m g) e'' \<and> emitted good_ref e' [?deps ! j] e'')"
      by (simp add: nth_enumerate_eq st_def)
  qed (use 3 in simp_all)
  then obtain e4 where e4: "foldM (emit_depfile_input h addr s) ?e (List.enumerate 0 ?deps) = Some e4"
    "em_ok h addr (nodes_m g) e4" "emitted good_ref ?e ?deps e4"
    by (auto simp: returns_def)
  obtain bss x4 where b: "em_out e4 = em_out ?e @ concat bss"
    "buffer_data (em_pool e4) = buffer_data (em_pool e3) @ x4"
    "list_all2 (good_ref (buffer_data (em_pool e4))) ?deps bss"
    using e4(3) by (auto simp: emitted_def)
  obtain refs where refs: "bss = map put_ref refs" "list_all2 (refers (buffer_data (em_pool e4))) refs ?deps"
    using good_refs [OF b(3)] by blast
  let ?bs = "put_step_header (step_header i out x st) @ concat (map put_ref refs)"
  have "refers (buffer_data (em_pool e4)) i (inputs st)"
    unfolding b(2) 3(5) 2(5) by (intro refers_extend 1(4))
  moreover have "refers (buffer_data (em_pool e4)) out (output_path st)"
    unfolding b(2) 3(5) by (intro refers_extend 2(4))
  moreover have "refers (buffer_data (em_pool e4)) x (extra_flags st)"
    unfolding b(2) by (intro refers_extend 3(4))
  ultimately have "good_step (buffer_data (em_pool e4)) st ?bs"
    using refs(2) unfolding good_step_def by blast
  moreover have "em_out e4 = em_out e @ concat [?bs]" using b(1) refs(1) 1(3) 2(3) 3(3) by simp
  moreover have "buffer_data (em_pool e4) = buffer_data (em_pool e) @ (x1 @ x2 @ x3 @ x4)"
    using b(2) 1(5) 2(5) 3(5) by simp
  ultimately have "emitted good_step e [st] e4" unfolding emitted_def by blast
  with 1 2 3 e4 show ?thesis by (simp add: emit_step_def Let_def step_header_def)
qed

section \<open>All records\<close>

definition records_denote :: "COBBuilder \<Rightarrow> string \<Rightarrow> string list \<Rightarrow> string list \<Rightarrow> string list \<Rightarrow> bool" where
  "records_denote b strings ds ns ss \<longleftrightarrow>
     list_all2 (good_definition strings) (m_definitions b) ds \<and>
     list_all2 (good_node strings) (nodes_m (m_graph b)) ns \<and>
     list_all2 (good_step strings) (steps_m (m_graph b)) ss"

lemma list_all2_grow:
  assumes "monotone_good G" "list_all2 (G strings) xs bs"
  shows "list_all2 (G (strings @ ext)) xs bs"
  using assms(2) by (rule list_all2_mono) (use assms(1) in \<open>auto simp: monotone_good_def\<close>)

lemma emit_records_ok:
  assumes v: "views_ok addr (m_graph b)"
  shows "\<exists>e ds ns ss. emit_records h cap addr b = Some e \<and>
    em_out e = concat ds @ concat ns @ concat ss \<and> records_denote b (buffer_data (em_pool e)) ds ns ss"
proof -
  let ?g = "m_graph b" and ?N = "nodes_m (m_graph b)" and ?S = "steps_m (m_graph b)"
  obtain sb where sb: "sb_reserve h (sb_new cap) (length ?N + 2 * length ?S + 2 * length (m_definitions b)) = Some sb"
    "sb_ok h sb"
    using sb_reserve_ok [OF sb_new_ok] by blast
  let ?e0 = "\<lparr>em_out = [], em_pool = sb, em_paths = ac_new (length ?N)\<rparr>"
  have e0: "em_ok h addr ?N ?e0"
    using sb(2) ac_new_inv [of "length ?N"] by (simp add: em_ok_def ac_entries_def ac_new_def Let_def)
  have "returns (foldM (emit_definition h) ?e0 (m_definitions b))
      (\<lambda>e'. em_ok h addr ?N e' \<and> emitted good_definition ?e0 (m_definitions b) e')"
    by (rule foldM_emitted [OF good_monotone(1) _ refl e0]) (rule emit_definition_ok)
  then obtain e1 where e1: "foldM (emit_definition h) ?e0 (m_definitions b) = Some e1" "em_ok h addr ?N e1"
    "emitted good_definition ?e0 (m_definitions b) e1" by (auto simp: returns_def)
  have "returns (foldM (emit_node h addr) e1 (List.enumerate 0 ?N))
      (\<lambda>e'. em_ok h addr ?N e' \<and> emitted good_node e1 ?N e')"
    by (rule foldM_emitted [OF good_monotone(2) _ _ e1(2)]) (simp_all add: nth_enumerate_eq emit_node_ok)
  then obtain e2 where e2: "foldM (emit_node h addr) e1 (List.enumerate 0 ?N) = Some e2" "em_ok h addr ?N e2"
    "emitted good_node e1 ?N e2" by (auto simp: returns_def)
  have "returns (foldM (emit_step h addr) e2 (List.enumerate 0 ?S))
      (\<lambda>e'. em_ok h addr ?N e' \<and> emitted good_step e2 ?S e')"
    by (rule foldM_emitted [OF good_monotone(3) _ _ e2(2)]) (simp_all add: nth_enumerate_eq emit_step_ok [OF _ v])
  then obtain e3 where e3: "foldM (emit_step h addr) e2 (List.enumerate 0 ?S) = Some e3"
    "emitted good_step e2 ?S e3" by (auto simp: returns_def)
  obtain ds x1 where 1: "em_out e1 = concat ds" "list_all2 (good_definition (buffer_data (em_pool e1))) (m_definitions b) ds"
    using e1(3) by (auto simp: emitted_def)
  obtain ns x2 where 2: "em_out e2 = em_out e1 @ concat ns" "buffer_data (em_pool e2) = buffer_data (em_pool e1) @ x2"
    "list_all2 (good_node (buffer_data (em_pool e2))) ?N ns"
    using e2(3) by (auto simp: emitted_def)
  obtain ss x3 where 3: "em_out e3 = em_out e2 @ concat ss" "buffer_data (em_pool e3) = buffer_data (em_pool e2) @ x3"
    "list_all2 (good_step (buffer_data (em_pool e3))) ?S ss"
    using e3(2) by (auto simp: emitted_def)
  have "list_all2 (good_definition (buffer_data (em_pool e3))) (m_definitions b) ds"
    unfolding 3(2) 2(2) by (intro list_all2_grow [OF good_monotone(1)] 1(2))
  moreover have "list_all2 (good_node (buffer_data (em_pool e3))) ?N ns"
    unfolding 3(2) by (intro list_all2_grow [OF good_monotone(2)] 2(3))
  ultimately have "records_denote b (buffer_data (em_pool e3)) ds ns ss"
    using 3(3) by (simp add: records_denote_def)
  moreover have "em_out e3 = concat ds @ concat ns @ concat ss" using 1(1) 2(1) 3(1) by simp
  moreover have "emit_records h cap addr b = Some e3"
    using sb(1) e1(1) e2(1) e3(1) by (simp add: emit_records_def Let_def)
  ultimately show ?thesis by blast
qed

section \<open>Sizes\<close>

lemma length_good:
  "good_definition strings kv bs \<Longrightarrow> length bs = 32"
  "good_node strings n bs \<Longrightarrow> length bs = 16 + 2 * 8 + length (el_data (out_edges n)) * 8"
  "good_step strings st bs \<Longrightarrow> length bs = 72 + length (di_list (depfile_inputs st)) * 16"
  by (auto simp: good_definition_def good_node_def good_step_def definition_codec.length_put
    put_node_def ref_codec.length_put opt_codec.length_put u64_codec.length_put u64_codec.length_put_list
    step_header_codec.length_put ref_codec.length_put_list dest: list_all2_lengthD)

lemma length_concat_good:
  assumes "list_all2 (G strings) xs bss" "\<And>x bs. G strings x bs \<Longrightarrow> length bs = f x"
  shows "length (concat bss) = (\<Sum>x \<leftarrow> xs. f x)"
  using assms(1) by (induction rule: list_all2_induct) (auto simp: assms(2))

lemma length_records:
  assumes "records_denote b strings ds ns ss"
  shows "length (concat ds @ concat ns @ concat ss) = records_size b"
proof -
  have "length (concat ds) = (\<Sum>kv \<leftarrow> m_definitions b. 32)"
    using assms by (intro length_concat_good [of good_definition strings])
      (auto simp: records_denote_def length_good(1))
  moreover have "length (concat ns) = (\<Sum>n \<leftarrow> nodes_m (m_graph b). 16 + 2 * 8 + length (el_data (out_edges n)) * 8)"
    using assms by (intro length_concat_good [of good_node strings])
      (auto simp: records_denote_def length_good(2))
  moreover have "length (concat ss) = (\<Sum>s \<leftarrow> steps_m (m_graph b). 72 + length (di_list (depfile_inputs s)) * 16)"
    using assms by (intro length_concat_good [of good_step strings])
      (auto simp: records_denote_def length_good(3))
  ultimately show ?thesis by (simp add: records_size_def sum_list_triv)
qed

text \<open>The pool is at most as long as all strings together.\<close>

definition pool_size :: "emitter \<Rightarrow> nat" where
  "pool_size e = length (buffer_data (em_pool e))"

definition step_strings :: "build_step \<Rightarrow> string list" where
  "step_strings st = [inputs st, output_path st, extra_flags st] @ di_list (depfile_inputs st)"

definition strings_total :: "COBBuilder \<Rightarrow> nat" where
  "strings_total b =
     (\<Sum>kv \<leftarrow> m_definitions b. length (fst kv) + length (snd kv)) +
     (\<Sum>n \<leftarrow> nodes_m (m_graph b). length (path n)) +
     (\<Sum>st \<leftarrow> steps_m (m_graph b). length (concat (step_strings st)))"

lemma pool_size_put_out [simp]: "pool_size (put_out bs e) = pool_size e"
  by (simp add: pool_size_def)

lemma pool_add_size: "pool_add h e s = Some (r, e') \<Longrightarrow> pool_size e' \<le> pool_size e + length s"
  by (auto simp: pool_add_def sb_add_def pool_size_def Let_def bind_eq_Some split: option.splits)

lemma foldM_size:
  assumes "\<And>e x e1. f e x = Some e1 \<Longrightarrow> pool_size e1 \<le> pool_size e + w x"
  shows "foldM f e xs = Some e' \<Longrightarrow> pool_size e' \<le> pool_size e + (\<Sum>x \<leftarrow> xs. w x)"
proof (induction xs arbitrary: e)
  case (Cons x xs)
  then obtain e1 where e1: "f e x = Some e1" "foldM f e1 xs = Some e'" by (auto simp: bind_eq_Some)
  from Cons.IH [OF e1(2)] assms [OF e1(1)] show ?case by simp
qed simp

lemma sum_enumerate: "(\<Sum>x \<leftarrow> List.enumerate n xs. w (snd x)) = (\<Sum>x \<leftarrow> xs. w x :: nat)"
  by (induction xs arbitrary: n) simp_all

lemma emit_definition_size:
  "emit_definition h e kv = Some e' \<Longrightarrow> pool_size e' \<le> pool_size e + (length (fst kv) + length (snd kv))"
  by (fastforce simp: emit_definition_def bind_eq_Some dest: pool_add_size)

lemma emit_node_size: "emit_node h addr e x = Some e' \<Longrightarrow> pool_size e' \<le> pool_size e + length (path (snd x))"
  by (cases x) (auto simp: emit_node_def bind_eq_Some pool_size_def dest: pool_add_size [unfolded pool_size_def])

lemma emit_depfile_input_size:
  "emit_depfile_input h addr s e x = Some e' \<Longrightarrow> pool_size e' \<le> pool_size e + length (snd x)"
  by (cases x) (auto simp: emit_depfile_input_def bind_eq_Some dest: pool_add_size split: option.splits)

lemma emit_step_size:
  assumes "emit_step h addr e x = Some e'"
  shows "pool_size e' \<le> pool_size e + length (concat (step_strings (snd x)))"
proof -
  obtain s st where x: "x = (s, st)" by force
  obtain i e1 out e2 f e3 hdr where a: "pool_add h e (inputs st) = Some (i, e1)"
    "pool_add h e1 (output_path st) = Some (out, e2)" "pool_add h e2 (extra_flags st) = Some (f, e3)"
    "foldM (emit_depfile_input h addr s) (put_out hdr e3) (List.enumerate 0 (di_list (depfile_inputs st))) = Some e'"
    using assms by (auto simp: x emit_step_def Let_def bind_eq_Some)
  have "pool_size e' \<le> pool_size (put_out hdr e3) + (\<Sum>y \<leftarrow> List.enumerate 0 (di_list (depfile_inputs st)). length (snd y))"
    by (rule foldM_size [OF _ a(4)]) (rule emit_depfile_input_size)
  with pool_add_size [OF a(1)] pool_add_size [OF a(2)] pool_add_size [OF a(3)] show ?thesis
    by (simp add: x step_strings_def sum_enumerate length_concat)
qed

lemma emit_records_size:
  assumes "emit_records h cap addr b = Some e"
  shows "pool_size e \<le> strings_total b"
proof -
  let ?N = "nodes_m (m_graph b)" and ?S = "steps_m (m_graph b)"
  obtain sb e1 e2 where a: "sb_reserve h (sb_new cap) (length ?N + 2 * length ?S + 2 * length (m_definitions b)) = Some sb"
    "foldM (emit_definition h) \<lparr>em_out = [], em_pool = sb, em_paths = ac_new (length ?N)\<rparr> (m_definitions b) = Some e1"
    "foldM (emit_node h addr) e1 (List.enumerate 0 ?N) = Some e2"
    "foldM (emit_step h addr) e2 (List.enumerate 0 ?S) = Some e"
    using assms by (auto simp: emit_records_def Let_def bind_eq_Some)
  have "buffer_data sb = []" using a(1) by (auto simp: sb_reserve_def sb_new_def bind_eq_Some)
  moreover have "pool_size e1 \<le> pool_size \<lparr>em_out = [], em_pool = sb, em_paths = ac_new (length ?N)\<rparr> +
      (\<Sum>kv \<leftarrow> m_definitions b. length (fst kv) + length (snd kv))"
    by (rule foldM_size [OF _ a(2)]) (rule emit_definition_size)
  ultimately have "pool_size e1 \<le> (\<Sum>kv \<leftarrow> m_definitions b. length (fst kv) + length (snd kv))"
    by (simp add: pool_size_def)
  moreover have "pool_size e2 \<le> pool_size e1 + (\<Sum>x \<leftarrow> List.enumerate 0 ?N. length (path (snd x)))"
    by (rule foldM_size [OF _ a(3)]) (rule emit_node_size)
  moreover have "pool_size e \<le> pool_size e2 + (\<Sum>x \<leftarrow> List.enumerate 0 ?S. length (concat (step_strings (snd x))))"
    by (rule foldM_size [OF _ a(4)]) (rule emit_step_size)
  moreover note sum_enumerate [of "\<lambda>n. length (path n)" 0 ?N]
    sum_enumerate [of "\<lambda>st. length (concat (step_strings st))" 0 ?S]
  ultimately show ?thesis unfolding strings_total_def by linarith
qed

end
