(* ===== verification/Binary_Roundtrip.thy ===== *)
theory Binary_Roundtrip
  imports Binary_Emission
begin

text \<open>
  What the binary cache preserves: \<open>parseBin\<close> reads back the graph and the definitions that
  \<open>emitBin\<close> wrote, the file is replaced as a whole or not at all, and nothing of a file is used
  before its header and checksum are accepted.
\<close>

section \<open>Sizes fit their fields\<close>

lemma refers_fits: "refers strings r s \<Longrightarrow> length strings < 2 ^ 64 \<Longrightarrow> ref_fits r"
  by (simp add: refers_def ref_fits_def u64_fits_def)

lemma refs_fit: "list_all2 (refers strings) refs ss \<Longrightarrow> length strings < 2 ^ 64 \<Longrightarrow> list_all ref_fits refs"
  by (induction rule: list_all2_induct) (auto intro: refers_fits)

lemma refers_get: "refers strings r s \<Longrightarrow> get_sv strings r = Some s"
  by (simp add: refers_def get_sv_def)

lemma sum_list_member: "x \<in> set xs \<Longrightarrow> f x \<le> (\<Sum>x \<leftarrow> xs. f x :: nat)"
  by (induction xs) auto

lemma sum_list_at_least: "(\<And>x. c \<le> f x) \<Longrightarrow> length xs * c \<le> (\<Sum>x \<leftarrow> xs. f x :: nat)"
  by (induction xs) (simp_all add: add_mono)

lemma sizes_fit:
  assumes "records_size b < 2 ^ 64"
  shows "length (m_definitions b) * 32 < 2 ^ 64" "length (nodes_m (m_graph b)) * 32 < 2 ^ 64"
    "length (steps_m (m_graph b)) * 72 < 2 ^ 64"
    "n \<in> set (nodes_m (m_graph b)) \<Longrightarrow> length (el_data (out_edges n)) * 8 < 2 ^ 64"
    "st \<in> set (steps_m (m_graph b)) \<Longrightarrow> length (di_list (depfile_inputs st)) * 16 < 2 ^ 64"
proof -
  let ?N = "nodes_m (m_graph b)" and ?S = "steps_m (m_graph b)"
  let ?f = "\<lambda>n. 16 + 2 * 8 + length (el_data (out_edges n)) * 8"
  let ?s = "\<lambda>s. 72 + length (di_list (depfile_inputs s)) * 16"
  have r: "length (m_definitions b) * 32 + (\<Sum>n \<leftarrow> ?N. ?f n) + (\<Sum>s \<leftarrow> ?S. ?s s) < 2 ^ 64"
    using assms by (simp only: records_size_def)
  show "length (m_definitions b) * 32 < 2 ^ 64" using r by linarith
  have "length ?N * 32 \<le> (\<Sum>n \<leftarrow> ?N. ?f n)" by (rule sum_list_at_least) simp
  then show "length ?N * 32 < 2 ^ 64" using r by linarith
  have "length ?S * 72 \<le> (\<Sum>s \<leftarrow> ?S. ?s s)" by (rule sum_list_at_least) simp
  then show "length ?S * 72 < 2 ^ 64" using r by linarith
  show "n \<in> set ?N \<Longrightarrow> length (el_data (out_edges n)) * 8 < 2 ^ 64"
    using sum_list_member [of n ?N ?f] r by linarith
  show "st \<in> set ?S \<Longrightarrow> length (di_list (depfile_inputs st)) * 16 < 2 ^ 64"
    using sum_list_member [of st ?S ?s] r by linarith
qed

section \<open>Reading the records back\<close>

lemma iterate_records:
  assumes "list_all2 (G strings) xs bss"
    and "\<And>x bs rest acc. x \<in> set xs \<Longrightarrow> G strings x bs \<Longrightarrow> f (bs @ rest, acc) = map_option (Pair rest) (upd acc x)"
  shows "iterate (length xs) f (concat bss @ rest, acc) = map_option (Pair rest) (foldM upd acc xs)"
  using assms
proof (induction arbitrary: acc rule: list_all2_induct)
  case (Cons x xs b bss)
  have f: "f (b @ concat bss @ rest, acc) = map_option (Pair (concat bss @ rest)) (upd acc x)"
    by (rule Cons.prems) (simp_all add: Cons.hyps)
  show ?case
  proof (cases "upd acc x")
    case None
    with f show ?thesis by simp
  next
    case (Some acc')
    with f Cons.IH [of acc'] Cons.prems show ?thesis by simp
  qed
qed simp

definition add_pair :: "COBBuilder \<Rightarrow> string \<times> string \<Rightarrow> COBBuilder option" where
  "add_pair b kv = Some (addDefinition b (fst kv) (snd kv))"

lemma parse_definition_good:
  assumes "good_definition strings kv bs" "length strings < 2 ^ 64"
  shows "parse_definition strings (bs @ rest, b) = map_option (Pair rest) (add_pair b kv)"
proof -
  obtain k v where kv: "bs = put_definition \<lparr>bd_key = k, bd_val = v\<rparr>" "refers strings k (fst kv)"
    "refers strings v (snd kv)"
    using assms(1) by (auto simp: good_definition_def)
  then have "definition_fits \<lparr>bd_key = k, bd_val = v\<rparr>"
    using refers_fits assms(2) by (simp add: definition_fits_def)
  with kv show ?thesis
    by (simp add: parse_definition_def add_pair_def definition_codec.get_put refers_get)
qed

definition borrowed_node :: "node \<Rightarrow> node" where
  "borrowed_node n = \<lparr>path = path n, out_edges = el_borrow (el_data (out_edges n)), step_id = step_id n\<rparr>"

definition load_node ::
  "(string \<Rightarrow> u64) \<Rightarrow> node list \<times> index_map \<Rightarrow> node \<Rightarrow> (node list \<times> index_map) option" where
  "load_node h acc n =
     do { ix \<leftarrow> fm_emplace h (snd acc) (path n) (length (fst acc)); Some (fst acc @ [borrowed_node n], ix) }"

lemma parse_node_good:
  assumes "good_node strings n bs" "length strings < 2 ^ 64" "opt_fits (step_id n)"
    "length (el_data (out_edges n)) < 2 ^ 64" "\<forall>v \<in> set (el_data (out_edges n)). v < 2 ^ 64"
  shows "parse_node h strings (bs @ rest, acc) = map_option (Pair rest) (load_node h acc n)"
proof -
  let ?r = "\<lambda>r. \<lparr>bn_path = r, bn_step_id = step_id n, bn_edges = el_data (out_edges n)\<rparr>"
  obtain r where r: "bs = put_node (?r r)" "refers strings r (path n)"
    using assms(1) by (auto simp: good_node_def)
  have "node_fits (?r r)"
    using refers_fits [OF r(2) assms(2)] assms(3-5) by (simp add: node_fits_def u64_fits_def list_all_iff)
  from node_codec.get_put [OF this, of rest] r show ?thesis
    by (cases acc) (simp add: parse_node_def load_node_def borrowed_node_def refers_get split: bind_split)
qed

text \<open>A loaded step differs from the original one only in how its lists are stored.\<close>

definition same_step :: "build_step \<Rightarrow> build_step \<Rightarrow> bool" where
  "same_step st st' \<longleftrightarrow>
     st'\<lparr>opaque_inputs := opaque_inputs st, depfile_inputs := depfile_inputs st\<rparr> = st \<and>
     ov_list (opaque_inputs st') = ov_list (opaque_inputs st) \<and>
     di_list (depfile_inputs st') = di_list (depfile_inputs st) \<and>
     di_has_value (depfile_inputs st') = di_has_value (depfile_inputs st)"

lemma refs_views: "list_all2 (refers strings) refs ss \<Longrightarrow> map (ref_view strings) refs = ss"
  by (induction rule: list_all2_induct) (auto simp: refers_def)

lemma di_no_value: "\<not> di_has_value d \<Longrightarrow> di_list d = []"
  by (cases "di_borrowed d") (simp_all add: di_has_value_def di_list_def)

lemma di_has_value_new: "di_has_value (di_borrow refs strings)" "\<not> di_has_value di_empty"
  by (simp_all add: di_has_value_def di_borrow_def di_empty_def)

lemma parse_step_good:
  assumes "good_step strings st bs" and len: "length strings < 2 ^ 64"
    and tool: "toolKindFromString (tool st) \<noteq> INVALID"
    and deps: "length (di_list (depfile_inputs st)) * 16 < 2 ^ 64" and split: "inputs_split st"
  shows "\<exists>st'. parse_step strings (bs @ rest) = Some (Inr (rest, st')) \<and> same_step st st'"
proof -
  obtain i out x refs where b: "bs = put_step_header (step_header i out x st) @ concat (map put_ref refs)"
    "refers strings i (inputs st)" "refers strings out (output_path st)" "refers strings x (extra_flags st)"
    "list_all2 (refers strings) refs (di_list (depfile_inputs st))"
    using assms(1) by (auto simp: good_step_def)
  let ?h = "step_header i out x st"
  have code: "tool_code k < 256" for k by (cases k) simp_all
  have fits: "step_header_fits ?h"
    using b(2-4) deps len code by (simp add: step_header_fits_def step_header_def refers_fits opt_fits_def UINT64_MAX_def)
  have hdr: "get_step_header (bs @ rest) = Some (?h, concat (map put_ref refs) @ rest)"
    using step_header_codec.get_put [OF fits, of "concat (map put_ref refs) @ rest"] b(1) by simp
  have len_refs: "length refs = length (di_list (depfile_inputs st))"
    using b(5) by (rule list_all2_lengthD)
  have refs: "get_list get_ref (length refs) (concat (map put_ref refs) @ rest) = Some (refs, rest)"
    by (rule ref_codec.get_list_put [OF refs_fit [OF b(5) len]])
  define di where "di = (if di_has_value (depfile_inputs st) then di_borrow refs strings else di_empty)"
  have di: "(case bs_depfile_count ?h of None \<Rightarrow> Some (di_empty, concat (map put_ref refs) @ rest)
      | Some n \<Rightarrow> map_option (\<lambda>(refs, s). (di_borrow refs strings, s)) (get_list get_ref n (concat (map put_ref refs) @ rest)))
      = Some (di, rest)"
  proof (cases "di_has_value (depfile_inputs st)")
    case True
    then show ?thesis using refs len_refs by (simp add: di_def step_header_def)
  next
    case False
    then have "di_list (depfile_inputs st) = []" by (rule di_no_value)
    with len_refs False show ?thesis by (simp add: di_def step_header_def)
  qed
  let ?base = "\<lparr>tool = tool st, inputs = inputs st, output_path = output_path st, opaque_inputs = None,
     depfile_inputs = di, parsed_inputs = [], extra_flags = extra_flags st, command_hash = command_hash st\<rparr>"
  let ?st = "split_inputs (inputs st) ?base"
  have t: "stringFromToolKind (bs_tool ?h) = tool st" "tool st \<noteq> []"
    using tool_roundtrip [OF tool] tool by (auto simp: step_header_def toolKindFromString_def)
  have "parse_step strings (bs @ rest) = Some (Inr (rest, ?st))"
    unfolding parse_step_def hdr Option.bind.bind_lunit prod.case Let_def t di
    using t(2) refers_get [OF b(2)] refers_get [OF b(3)] refers_get [OF b(4)]
    by (simp add: step_header_def)
  moreover have "same_step st ?st"
  proof -
    have "di_list di = di_list (depfile_inputs st)" "di_has_value di = di_has_value (depfile_inputs st)"
      using refs_views [OF b(5)] by (simp_all add: di_def di_no_value di_has_value_new)
    moreover have "parsed_inputs ?st = parsed_inputs st" "ov_list (opaque_inputs ?st) = ov_list (opaque_inputs st)"
      using split split_inputs_segments(1,2) [of "inputs st" ?base] by (simp_all add: inputs_split_def)
    ultimately show ?thesis
      using split_inputs_segments(3) [of "inputs st" ?base]
      by (cases st; cases ?st) (simp add: same_step_def)
  qed
  ultimately show ?thesis by blast
qed

section \<open>The whole graph\<close>

lemma emplace_last:
  "\<forall>k' \<in> set (map fst ds). k' < k \<Longrightarrow> defs_emplace k v ds = ds @ [(k, v)]"
proof (induction ds)
  case (Cons d ds)
  obtain k' v' where d: "d = (k', v')" by (cases d)
  with Cons.prems have "k' < k" by simp
  then have "\<not> k < k'" "k \<noteq> k'" by auto
  with Cons d show ?case by simp
qed simp

lemma load_definitions:
  assumes "defs_ok (acc @ ds)" "m_definitions b = acc"
  shows "foldM add_pair b ds = Some (b\<lparr>m_definitions := acc @ ds\<rparr>)"
  using assms
proof (induction ds arbitrary: acc b)
  case (Cons d ds)
  have "\<forall>k' \<in> set (map fst acc). k' < fst d"
    using Cons.prems(1) by (auto simp: defs_ok_def sorted_wrt_append)
  then have e: "defs_emplace (fst d) (snd d) acc = acc @ [d]" using emplace_last [of acc "fst d" "snd d"] by simp
  have "foldM add_pair (b\<lparr>m_definitions := acc @ [d]\<rparr>) ds = Some (b\<lparr>m_definitions := (acc @ [d]) @ ds\<rparr>)"
    using Cons.IH [of "acc @ [d]" "b\<lparr>m_definitions := acc @ [d]\<rparr>"] Cons.prems(1) by simp
  moreover have "add_pair b d = Some (b\<lparr>m_definitions := acc @ [d]\<rparr>)"
    by (simp add: add_pair_def addDefinition_def e Cons.prems(2))
  ultimately show ?case by simp
qed simp

lemma load_nodes:
  assumes ix: "fm_inv h ix" "\<And>p. fm_find h ix p = None" and d: "distinct (map path ns)"
  shows "returns (foldM (load_node h) ([], ix) ns) (\<lambda>(ns', ix'). ns' = map borrowed_node ns \<and> fm_inv h ix' \<and>
    (\<forall>p i. fm_find h ix' p = Some i \<longleftrightarrow> i < length ns \<and> path (ns ! i) = p))"
proof (rule foldM_invariant)
  show "case ([], ix) of (ns', ix') \<Rightarrow> ns' = map borrowed_node [] \<and> fm_inv h ix' \<and>
    (\<forall>p i. fm_find h ix' p = Some i \<longleftrightarrow> i < length ([] :: node list) \<and> path ([] ! i) = p)"
    using ix by simp
next
  fix pre n rest and acc :: "node list \<times> index_map"
  assume ns: "ns = pre @ n # rest" and acc: "case acc of (ns', ix') \<Rightarrow> ns' = map borrowed_node pre \<and> fm_inv h ix' \<and>
    (\<forall>p i. fm_find h ix' p = Some i \<longleftrightarrow> i < length pre \<and> path (pre ! i) = p)"
  obtain ix1 where a: "acc = (map borrowed_node pre, ix1)" "fm_inv h ix1"
    "\<And>p i. fm_find h ix1 p = Some i \<longleftrightarrow> i < length pre \<and> path (pre ! i) = p"
    using acc by (cases acc) auto
  obtain ix2 where e: "fm_emplace h ix1 (path n) (length pre) = Some ix2" using fm.emplace_returns [OF a(2)] by blast
  note e' = fm.emplace_SomeD [OF a(2) e]
  have new: "path (pre ! i) \<noteq> path n" if "i < length pre" for i
    using d imageI [OF nth_mem [OF that], of path] by (auto simp: ns)
  have "fm_find h ix2 p = Some i \<longleftrightarrow> i < length (pre @ [n]) \<and> path ((pre @ [n]) ! i) = p" for p i
    using a(3) new by (auto simp: e'(2) nth_append less_Suc_eq)
  with a(1) e e'(1) show "returns (load_node h acc n) (\<lambda>(ns', ix'). ns' = map borrowed_node (pre @ [n]) \<and> fm_inv h ix' \<and>
    (\<forall>p i. fm_find h ix' p = Some i \<longleftrightarrow> i < length (pre @ [n]) \<and> path ((pre @ [n]) ! i) = p))"
    by (simp add: load_node_def)
qed

lemma parse_steps_good:
  assumes "list_all2 (good_step strings) sts bss" "length strings < 2 ^ 64"
    and "\<And>st. st \<in> set sts \<Longrightarrow> toolKindFromString (tool st) \<noteq> INVALID \<and> inputs_split st \<and>
      length (di_list (depfile_inputs st)) * 16 < 2 ^ 64"
  shows "\<exists>sts'. parse_steps strings (length sts) (concat bss @ rest) acc = Some (Inr (acc @ sts')) \<and>
    list_all2 same_step sts sts'"
  using assms
proof (induction arbitrary: acc rule: list_all2_induct)
  case Nil
  then show ?case by simp
next
  case (Cons st sts b bss)
  obtain st' where 1: "parse_step strings (b @ concat bss @ rest) = Some (Inr (concat bss @ rest, st'))" "same_step st st'"
    using parse_step_good [OF Cons.hyps(1) Cons.prems(1)] Cons.prems(2) by (meson list.set_intros(1))
  obtain sts' where 2: "parse_steps strings (length sts) (concat bss @ rest) (acc @ [st']) = Some (Inr ((acc @ [st']) @ sts'))"
    "list_all2 same_step sts sts'"
    using Cons.IH [of "acc @ [st']"] Cons.prems by auto
  from 1 2 show ?case by (intro exI [of _ "st' # sts'"]) simp
qed

text \<open>The same graph, up to the storage of lists.\<close>

definition same_graph :: "build_graph \<Rightarrow> build_graph \<Rightarrow> bool" where
  "same_graph g g' \<longleftrightarrow> map path (nodes_m g') = map path (nodes_m g) \<and>
     map step_id (nodes_m g') = map step_id (nodes_m g) \<and>
     map (el_data \<circ> out_edges) (nodes_m g') = map (el_data \<circ> out_edges) (nodes_m g) \<and>
     list_all2 same_step (steps_m g) (steps_m g')"

lemma same_graphD:
  assumes "same_graph g g'"
  shows "length (nodes_m g') = length (nodes_m g)" "length (steps_m g') = length (steps_m g)"
    "v < length (nodes_m g) \<Longrightarrow> path (nodes_m g' ! v) = path (nodes_m g ! v)"
    "v < length (nodes_m g) \<Longrightarrow> step_id (nodes_m g' ! v) = step_id (nodes_m g ! v)"
    "v < length (nodes_m g) \<Longrightarrow> succs g' v = succs g v"
    "s < length (steps_m g) \<Longrightarrow> same_step (steps_m g ! s) (steps_m g' ! s)"
proof -
  show n: "length (nodes_m g') = length (nodes_m g)"
    using assms unfolding same_graph_def by (metis length_map)
  show "length (steps_m g') = length (steps_m g)"
    using assms by (auto simp: same_graph_def dest: list_all2_lengthD)
  show "v < length (nodes_m g) \<Longrightarrow> path (nodes_m g' ! v) = path (nodes_m g ! v)"
    using assms n unfolding same_graph_def by (metis nth_map)
  show "v < length (nodes_m g) \<Longrightarrow> step_id (nodes_m g' ! v) = step_id (nodes_m g ! v)"
    using assms n unfolding same_graph_def by (metis nth_map)
  show "v < length (nodes_m g) \<Longrightarrow> succs g' v = succs g v"
    using assms n unfolding same_graph_def succs_def by (metis nth_map comp_apply)
  show "s < length (steps_m g) \<Longrightarrow> same_step (steps_m g ! s) (steps_m g' ! s)"
    using assms by (auto simp: same_graph_def dest: list_all2_nthD)
qed

lemma same_step_fields:
  assumes "same_step st st'"
  shows "output_path st' = output_path st" "step_inputs st' = step_inputs st" "tool st' = tool st"
    "inputs st' = inputs st" "extra_flags st' = extra_flags st" "command_hash st' = command_hash st"
    "parsed_inputs st' = parsed_inputs st"
  using assms by (cases st; cases st'; simp add: same_step_def step_inputs_def)+

lemma same_graph_ok:
  assumes g: "graph_ok h g" and s: "same_graph g g'" and ix: "index_ok h g'"
  shows "graph_ok h g'"
proof -
  note D = same_graphD [OF s]
  have inputs: "node_inputs g' v = node_inputs g v" if "v < length (nodes_m g)" for v
  proof (cases "step_id (nodes_m g ! v)")
    case (Some sid)
    then have "sid < length (steps_m g)" using g that by (auto simp: graph_ok_def producers_ok_def)
    with Some D(4) [OF that] show ?thesis
      by (simp add: node_inputs_def same_step_fields(2) [OF D(6)])
  qed (simp add: node_inputs_def D(4) [OF that])
  have "edges_in_range g'" using g D(1,5) by (simp add: graph_ok_def edges_in_range_def)
  moreover have "producers_ok g'"
  proof -
    have "output_path (steps_m g' ! sid) = output_path (steps_m g ! sid)" if "sid < length (steps_m g)" for sid
      by (rule same_step_fields(1) [OF D(6) [OF that]])
    then show ?thesis using g D(1-4) by (simp add: graph_ok_def producers_ok_def) metis
  qed
  moreover have "edges_match g' (node_inputs g')"
    using g D(1,3,5) inputs by (simp add: graph_ok_def edges_match_def) metis
  ultimately show ?thesis using ix by (simp add: graph_ok_def)
qed

section \<open>The image as a whole\<close>

lemma bin_image_ok:
  assumes v: "views_ok addr (m_graph b)"
  shows "\<exists>sb ds ns ss. bin_image h cap addr b = Some (bin_header b sb (concat ds @ concat ns @ concat ss @ buffer_data sb),
      concat ds @ concat ns @ concat ss @ buffer_data sb) \<and>
    records_denote b (buffer_data sb) ds ns ss \<and>
    length (concat ds @ concat ns @ concat ss @ buffer_data sb) = records_size b + length (buffer_data sb) \<and>
    length (buffer_data sb) \<le> strings_total b"
proof -
  obtain e ds ns ss where e: "emit_records h cap addr b = Some e" "em_out e = concat ds @ concat ns @ concat ss"
    "records_denote b (buffer_data (em_pool e)) ds ns ss"
    using emit_records_ok [OF v] by blast
  with length_records [OF e(3)] emit_records_size [OF e(1), unfolded pool_size_def] show ?thesis
    by (intro exI [of _ "em_pool e"] exI [of _ ds] exI [of _ ns] exI [of _ ss]) (simp add: bin_image_def Let_def)
qed

lemma bin_header_sel [simp]:
  "bh_magic (bin_header b sb p) = MAGIC" "endian_marker (bin_header b sb p) = EXPECTED"
  "num_definitions (bin_header b sb p) = length (m_definitions b)"
  "num_nodes (bin_header b sb p) = length (nodes_m (m_graph b))"
  "num_steps (bin_header b sb p) = length (steps_m (m_graph b))"
  "strings_size (bin_header b sb p) = length (buffer_data sb)"
  by (simp_all add: bin_header_def Let_def)

lemma bin_header_checksum: "bh_checksum (bin_header b sb p) = calculateChecksum (bin_header b sb p) p"
  by (simp add: bin_header_def Let_def calculateChecksum_def)

lemma length_header: "length (put_header hdr) = length (bh_magic hdr) + 48"
  by (simp add: put_header_def u64_codec.length_put word_codec.length_put)

lemma parse_header_ok:
  assumes "length (buffer_data sb) \<le> length p"
  shows "parse_header (put_header (bin_header b sb p) @ p) (bin_header b sb p) =
    Inr (drop (length p - length (buffer_data sb)) p)"
proof -
  have "length (put_header (bin_header b sb p)) = 56" by (simp add: length_header MAGIC_def)
  with assms show ?thesis by (simp add: parse_header_def bin_header_checksum)
qed

lemma loaded_graph:
  assumes g: "graph_ok h g" and s: "list_all2 same_step (steps_m g) sts"
    and ix: "fm_inv h ix" "\<And>p i. fm_find h ix p = Some i \<longleftrightarrow> i < length (nodes_m g) \<and> path (nodes_m g ! i) = p"
  defines "g' \<equiv> \<lparr>nodes_m = map borrowed_node (nodes_m g), steps_m = sts, index = ix\<rparr>"
  shows "same_graph g g' \<and> graph_ok h g'"
proof -
  have same: "same_graph g g'" using s by (simp add: same_graph_def g'_def borrowed_node_def comp_def)
  have "index_ok h g'" using ix by (auto simp: index_ok_def g'_def borrowed_node_def)
  with same_graph_ok [OF g same] same show ?thesis by blast
qed

definition cacheable :: "(string \<Rightarrow> u64) \<Rightarrow> COBBuilder \<Rightarrow> bool" where
  "cacheable h b \<longleftrightarrow> builder_ok h b \<and> invalid_tools b = []"

lemma graph_paths_distinct:
  assumes "graph_ok h g"
  shows "distinct (map path (nodes_m g))"
  using path_unique [of h g] assms by (auto simp: distinct_conv_nth graph_ok_def)

lemma node_fields_fit:
  assumes g: "graph_ok h g" and "length (nodes_m g) * 32 < 2 ^ 64" "length (steps_m g) * 72 < 2 ^ 64" "n \<in> set (nodes_m g)"
  shows "opt_fits (step_id n)" "\<forall>v \<in> set (el_data (out_edges n)). v < 2 ^ 64"
proof -
  obtain i where i: "i < length (nodes_m g)" "n = nodes_m g ! i" using assms(4) by (auto simp: in_set_conv_nth)
  have "sid < length (steps_m g)" if "step_id n = Some sid" for sid
    using g i that by (auto simp: graph_ok_def producers_ok_def)
  with assms(3) show "opt_fits (step_id n)"
    by (fastforce simp: opt_fits_def UINT64_MAX_def split: option.split)
  have "\<forall>v \<in> set (el_data (out_edges n)). v < length (nodes_m g)"
    using g i by (auto simp: graph_ok_def edges_in_range_def succs_def)
  with assms(2) show "\<forall>v \<in> set (el_data (out_edges n)). v < 2 ^ 64" by fastforce
qed

lemma parse_image:
  assumes b: "cacheable h b" and r: "records_denote b strings ds ns ss"
    and fits: "records_size b < 2 ^ 64" "length strings < 2 ^ 64"
  shows "\<exists>nodes ix steps s. iterate (length (m_definitions b)) (parse_definition strings)
      (concat ds @ concat ns @ concat ss @ rest, new_builder cap) =
      Some (concat ns @ concat ss @ rest, (new_builder cap)\<lparr>m_definitions := m_definitions b\<rparr>) \<and>
    parse_nodes h cap strings (length (nodes_m (m_graph b))) (concat ns @ concat ss @ rest) =
      Some (concat ss @ rest, nodes, ix) \<and>
    parse_steps strings (length (steps_m (m_graph b))) (concat ss @ rest) [] = Some (Inr steps) \<and>
    same_graph (m_graph b) \<lparr>nodes_m = nodes, steps_m = steps, index = ix\<rparr> \<and>
    graph_ok h \<lparr>nodes_m = nodes, steps_m = steps, index = ix\<rparr>"
proof -
  let ?g = "m_graph b"
  have g: "graph_ok h ?g" and defs: "defs_ok (m_definitions b)" using b by (simp_all add: cacheable_def builder_ok_def)
  note sizes = sizes_fit [OF fits(1)]
  have "iterate (length (m_definitions b)) (parse_definition strings)
      (concat ds @ concat ns @ concat ss @ rest, new_builder cap) =
    map_option (Pair (concat ns @ concat ss @ rest)) (foldM add_pair (new_builder cap) (m_definitions b))"
    using r parse_definition_good fits(2)
    by (intro iterate_records [of good_definition strings]) (auto simp: records_denote_def)
  moreover have "foldM add_pair (new_builder cap) (m_definitions b) =
      Some ((new_builder cap)\<lparr>m_definitions := m_definitions b\<rparr>)"
    using load_definitions [of "[]" "m_definitions b" "new_builder cap"] defs by (simp add: new_builder_def)
  moreover
  obtain ix0 where ix0: "fm_reserve h (fm_new cap :: index_map) (length (nodes_m ?g)) = Some ix0" "fm_inv h ix0"
    "fm_find h ix0 = fm_find h (fm_new cap)"
    using fm_reserve_ok [OF fm_new_inv] by blast
  have "returns (foldM (load_node h) ([], ix0) (nodes_m ?g)) (\<lambda>(ns', ix'). ns' = map borrowed_node (nodes_m ?g) \<and>
      fm_inv h ix' \<and> (\<forall>p i. fm_find h ix' p = Some i \<longleftrightarrow> i < length (nodes_m ?g) \<and> path (nodes_m ?g ! i) = p))"
    using ix0 graph_paths_distinct [OF g] by (intro load_nodes) (simp_all add: fm_new_find)
  then obtain ix where ix: "foldM (load_node h) ([], ix0) (nodes_m ?g) = Some (map borrowed_node (nodes_m ?g), ix)"
    "fm_inv h ix" "\<And>p i. fm_find h ix p = Some i \<longleftrightarrow> i < length (nodes_m ?g) \<and> path (nodes_m ?g ! i) = p"
    by (auto simp: returns_def)
  have "iterate (length (nodes_m ?g)) (parse_node h strings) (concat ns @ concat ss @ rest, [], ix0) =
      map_option (Pair (concat ss @ rest)) (foldM (load_node h) ([], ix0) (nodes_m ?g))"
  proof (rule iterate_records [of good_node strings])
    show "list_all2 (good_node strings) (nodes_m ?g) ns" using r by (simp add: records_denote_def)
    fix n bs rest and acc :: "node list \<times> index_map"
    assume n: "n \<in> set (nodes_m ?g)" and gn: "good_node strings n bs"
    have "length (el_data (out_edges n)) < 2 ^ 64" using sizes(4) [OF n] by simp
    then show "parse_node h strings (bs @ rest, acc) = map_option (Pair rest) (load_node h acc n)"
      using parse_node_good [OF gn fits(2) node_fields_fit(1) [OF g sizes(2,3) n]] node_fields_fit(2) [OF g sizes(2,3) n]
      by blast
  qed
  with ix0(1) ix(1) have "parse_nodes h cap strings (length (nodes_m ?g)) (concat ns @ concat ss @ rest) =
      Some (concat ss @ rest, map borrowed_node (nodes_m ?g), ix)"
    by (simp add: parse_nodes_def)
  moreover
  have "toolKindFromString (tool st) \<noteq> INVALID \<and> inputs_split st \<and> length (di_list (depfile_inputs st)) * 16 < 2 ^ 64"
    if "st \<in> set (steps_m ?g)" for st
    using b sizes(5) [OF that] that by (auto simp: cacheable_def builder_ok_def invalid_tools_def filter_empty_conv list_all_iff)
  then obtain steps where "parse_steps strings (length (steps_m ?g)) (concat ss @ rest) [] = Some (Inr steps)"
    "list_all2 same_step (steps_m ?g) steps"
    using parse_steps_good [of strings "steps_m ?g" ss rest "[]"] r fits(2) by (auto simp: records_denote_def)
  moreover note loaded_graph [OF g this(2) ix(2,3)]
  ultimately show ?thesis by fastforce
qed

lemma cache_image_roundtrip:
  assumes b: "cacheable h b" and v: "views_ok addr (m_graph b)"
    and i: "bin_image h cap addr b = Some (hdr, payload)" and fits: "records_size b + strings_total b < 2 ^ 64"
  shows "\<exists>g'. parseBin h cap' (Inr (put_header hdr @ payload)) (new_builder cap') =
      Some (\<lparr>m_graph = g', m_definitions = m_definitions b\<rparr>, Inr ()) \<and>
    same_graph (m_graph b) g' \<and> graph_ok h g'"
proof -
  obtain sb ds ns ss where p: "payload = concat ds @ concat ns @ concat ss @ buffer_data sb" "hdr = bin_header b sb payload"
    "records_denote b (buffer_data sb) ds ns ss" "length payload = records_size b + length (buffer_data sb)"
    "length (buffer_data sb) \<le> strings_total b"
    using bin_image_ok [OF v, of h cap] i by auto
  have small: "records_size b < 2 ^ 64" "length (buffer_data sb) < 2 ^ 64" using p(5) fits by linarith+
  note sizes = sizes_fit [OF small(1)]
  have "header_fits hdr"
    using sizes(1-3) small(2) by (simp add: p(2) header_fits_def u64_fits_def MAGIC_def EXPECTED_def)
  then have get: "get_header (put_header hdr @ payload) = Some (hdr, payload)" by (rule header_codec.get_put)
  have len: "\<not> length (put_header hdr @ payload) < 56" by (simp add: length_header p(2) MAGIC_def)
  have "drop (length payload - length (buffer_data sb)) payload = buffer_data sb" by (simp add: p(1))
  with p(4) parse_header_ok [of sb payload b] have ph: "parse_header (put_header hdr @ payload) hdr = Inr (buffer_data sb)"
    by (simp add: p(2))
  obtain nodes ix steps where
    1: "iterate (num_definitions hdr) (parse_definition (buffer_data sb)) (payload, new_builder cap') =
      Some (concat ns @ concat ss @ buffer_data sb, (new_builder cap')\<lparr>m_definitions := m_definitions b\<rparr>)"
    and 2: "parse_nodes h cap' (buffer_data sb) (num_nodes hdr) (concat ns @ concat ss @ buffer_data sb) =
      Some (concat ss @ buffer_data sb, nodes, ix)"
    and 3: "parse_steps (buffer_data sb) (num_steps hdr) (concat ss @ buffer_data sb) [] = Some (Inr steps)"
    and 4: "same_graph (m_graph b) \<lparr>nodes_m = nodes, steps_m = steps, index = ix\<rparr>"
      "graph_ok h \<lparr>nodes_m = nodes, steps_m = steps, index = ix\<rparr>"
    using parse_image [OF b p(3) small, of "buffer_data sb" cap'] by (auto simp: p(2) p(1) [symmetric])
  have "parseBin h cap' (Inr (put_header hdr @ payload)) (new_builder cap') =
      Some (\<lparr>m_graph = \<lparr>nodes_m = nodes, steps_m = steps, index = ix\<rparr>, m_definitions = m_definitions b\<rparr>, Inr ())"
    using len unfolding parseBin_def sum.case
    by (simp add: get ph 1 2 3 del: length_append)
  with 4 show ?thesis by blast
qed

end
