(* ===== verification/Binary_Results.thy ===== *)
theory Binary_Results
  imports Binary_Roundtrip Parser
begin

text \<open>
  The properties of the binary cache: round trip through the file, atomic replacement, and the
  checks a file has to pass.
\<close>

section \<open>Writing\<close>

lemma concat_consume: "concat (consume n bs) = drop n (concat bs)"
  by (induction n bs rule: consume.induct) simp_all

lemma write_loop_file:
  "write_loop bs answers out = Some (out', Inr u) \<Longrightarrow> out' = out @ concat bs"
proof (induction bs answers out rule: write_loop.induct)
  case (5 b bs n answers out)
  then have "out' = (out @ take n (concat (b # bs))) @ concat (consume n (b # bs))"
    by (simp split: if_splits)
  then show ?case unfolding concat_consume append_assoc append_take_drop_id by simp
qed simp_all

lemma write_loop_error:
  "write_loop bs answers out = Some (out', Inl e) \<Longrightarrow> e = ''Failed to write .catalyst.bin.tmp''"
  by (induction bs answers out rule: write_loop.induct) (simp_all split: if_splits)

text \<open>Every answer but an interruption ends the loop or makes progress: it writes a byte, and an empty
  buffer counts as one.\<close>

definition to_write :: "string list \<Rightarrow> nat" where
  "to_write bs = (\<Sum>b \<leftarrow> bs. length b + 1)"

lemma to_write_simps [simp]:
  "to_write [] = 0" "to_write (b # bs) = length b + 1 + to_write bs"
  by (simp_all add: to_write_def)

lemma consume_le: "to_write (consume n bs) \<le> to_write bs"
  by (induction n bs rule: consume.induct) auto

lemma consume_less: "0 < n \<Longrightarrow> bs \<noteq> [] \<Longrightarrow> to_write (consume n bs) < to_write bs"
  using consume_le [of "n - length (hd bs)" "tl bs"] by (cases bs) auto

lemma write_loop_returns:
  "to_write bs \<le> length (filter (\<lambda>a. a \<noteq> Interrupted) answers) \<Longrightarrow> write_loop bs answers out \<noteq> None"
proof (induction bs answers out rule: write_loop.induct)
  case (5 b bs n answers out)
  show ?case
  proof (cases "n = 0")
    case False
    then have "to_write (consume n (b # bs)) < to_write (b # bs)" by (intro consume_less) simp_all
    with 5 False show ?thesis by simp
  qed simp
qed simp_all

lemma writeBinData_success:
  assumes "writeBinData os hdr payload fs = Some (fs', Inr ())"
  shows "fs' = fs(BIN_TMP \<mapsto> put_header hdr @ payload)"
proof (cases "open_ok os")
  case True
  with assms obtain out res where w: "write_loop [put_header hdr, payload] (writes os) [] = Some (out, res)"
    by (auto simp: writeBinData_def bind_eq_Some)
  show ?thesis
  proof (cases res)
    case (Inl e)
    with assms True w show ?thesis by (simp add: writeBinData_def)
  next
    case (Inr u)
    have "out = put_header hdr @ payload" using write_loop_file [OF w [unfolded Inr]] by simp
    with assms True w Inr show ?thesis by (simp add: writeBinData_def)
  qed
qed (use assms in \<open>simp add: writeBinData_def\<close>)

text \<open>The answers to \<open>writev\<close> do not run out: there are as many that are not interruptions as the image
  has bytes, and two.\<close>

definition enough_writes :: "os_answers \<Rightarrow> (BinHeader \<times> string) option \<Rightarrow> bool" where
  "enough_writes os img \<longleftrightarrow> (case img of None \<Rightarrow> True | Some (hdr, payload) \<Rightarrow>
     length (put_header hdr @ payload) + 2 \<le> length (filter (\<lambda>a. a \<noteq> Interrupted) (writes os)))"

text \<open>The outcome of \<open>emitBin\<close>, for every behaviour of the system calls.\<close>

lemma emitBin_outcome:
  assumes v: "views_ok addr (m_graph b)"
    and calls: "enough_writes os (bin_image h cap addr b)"
  shows "\<exists>fs' r hdr payload. emitBin h cap addr os b fs = Some (fs', r) \<and>
    bin_image h cap addr b = Some (hdr, payload) \<and>
    (\<forall>p. p \<noteq> BIN \<longrightarrow> p \<noteq> BIN_TMP \<longrightarrow> fs' p = fs p) \<and>
    fs' BIN = (if r = Inr () then Some (put_header hdr @ payload) else fs BIN)"
proof -
  obtain hdr payload where i: "bin_image h cap addr b = Some (hdr, payload)" using bin_image_ok [OF v] by blast
  have "write_loop [put_header hdr, payload] (writes os) [] \<noteq> None"
    using calls by (intro write_loop_returns) (simp add: enough_writes_def i)
  then obtain out res where w: "write_loop [put_header hdr, payload] (writes os) [] = Some (out, res)" by auto
  have out: "out = put_header hdr @ payload" if "res = Inr ()"
    using write_loop_file [OF w [unfolded that]] by simp
  obtain fs1 r1 where wr: "writeBinData os hdr payload fs = Some (fs1, r1)"
    and fs1: "fs1 = fs \<and> r1 \<noteq> Inr () \<or> fs1 = fs(BIN_TMP \<mapsto> out) \<and> (r1 = Inr () \<longrightarrow> res = Inr ())"
  proof (cases "open_ok os")
    case True
    then show ?thesis
      by (intro that [of "fs(BIN_TMP \<mapsto> out)" "case res of Inl e \<Rightarrow> unexpected e
        | Inr _ \<Rightarrow> if \<not> close_ok os then unexpected ''Failed to close .catalyst.bin.tmp after writing'' else expected ()"])
        (auto simp: writeBinData_def w split: sum.splits)
  next
    case False
    then show ?thesis
      by (intro that [of fs "unexpected ''Failed to open .catalyst.bin.tmp for writing''"]) (simp_all add: writeBinData_def)
  qed
  show ?thesis
  proof (cases "invalid_tools b \<noteq> [] \<or> \<not> alloc_ok os \<or> \<not> realloc_ok os")
    case True
    then show ?thesis using i by (auto simp: emitBin_def)
  next
    case False
    show ?thesis
    proof (cases r1)
      case (Inl e)
      have "fs1 p = fs p" if "p \<noteq> BIN_TMP" for p using fs1 that by auto
      with False i wr Inl show ?thesis by (simp add: emitBin_def)
    next
      case (Inr u)
      then have "fs1 = fs(BIN_TMP \<mapsto> put_header hdr @ payload)" using fs1 out by auto
      with False i wr Inr show ?thesis by (cases "rename_error os") (simp_all add: emitBin_def)
    qed
  qed
qed

text \<open>No system call fails, and the tools of all steps are known.\<close>

definition no_failure :: "os_answers \<Rightarrow> COBBuilder \<Rightarrow> bool" where
  "no_failure os b \<longleftrightarrow> alloc_ok os \<and> realloc_ok os \<and> open_ok os \<and> close_ok os \<and> rename_error os = None \<and>
     WriteError \<notin> set (writes os) \<and> Written 0 \<notin> set (writes os) \<and> invalid_tools b = []"

lemma write_loop_ok:
  "WriteError \<notin> set answers \<Longrightarrow> Written 0 \<notin> set answers \<Longrightarrow> write_loop bs answers out = Some (out', r) \<Longrightarrow> r = Inr ()"
  by (induction bs answers out rule: write_loop.induct) (simp_all split: if_splits)

lemma emitBin_succeeds:
  assumes "no_failure os b" "emitBin h cap addr os b fs = Some (fs', r)"
  shows "r = Inr ()"
proof -
  note ok = assms(1) [unfolded no_failure_def]
  obtain hdr payload fs1 r1 where i: "bin_image h cap addr b = Some (hdr, payload)"
    and w: "writeBinData os hdr payload fs = Some (fs1, r1)"
    using assms(2) ok by (auto simp: emitBin_def bind_eq_Some)
  then obtain out res where l: "write_loop [put_header hdr, payload] (writes os) [] = Some (out, res)"
    using ok by (auto simp: writeBinData_def bind_eq_Some)
  have "res = Inr ()" using write_loop_ok [OF _ _ l] ok by blast
  with w l ok have "r1 = Inr ()" by (simp add: writeBinData_def)
  with assms(2) i w ok show ?thesis by (simp add: emitBin_def)
qed

text \<open>C18: Atomic replacement. However the writes are cut up or interrupted, and whichever system call
  fails, \<open>emitBin\<close> returns, leaves every file but the cache and its temporary file alone, and the
  cache is afterwards the complete new image if and only if success is reported; otherwise it is
  what it was before. If no call fails and all tools are known, success is reported.\<close>

theorem emitBin_atomic:
  assumes "views_ok addr (m_graph b)"
    and "enough_writes os (bin_image h cap addr b)"
  shows "returns (emitBin h cap addr os b fs) (\<lambda>(fs', r).
    (\<forall>p. p \<noteq> ''.catalyst.bin'' \<longrightarrow> p \<noteq> ''.catalyst.bin.tmp'' \<longrightarrow> fs' p = fs p) \<and>
    fs' ''.catalyst.bin'' =
      (if r = Inr ()
       then map_option (\<lambda>(hdr, payload). put_header hdr @ payload) (bin_image h cap addr b)
       else fs ''.catalyst.bin'') \<and>
    (no_failure os b \<longrightarrow> r = Inr ()))"
proof -
  obtain fs' r hdr payload where e: "emitBin h cap addr os b fs = Some (fs', r)"
    "bin_image h cap addr b = Some (hdr, payload)" "\<forall>p. p \<noteq> BIN \<longrightarrow> p \<noteq> BIN_TMP \<longrightarrow> fs' p = fs p"
    "fs' BIN = (if r = Inr () then Some (put_header hdr @ payload) else fs BIN)"
    using emitBin_outcome [where h = h and cap = cap and fs = fs, OF assms] by (elim exE conjE) rule
  show ?thesis unfolding e(1) returns_Some prod.case e(2) option.map(2)
    by (intro conjI e(3) e(4) impI) (rule emitBin_succeeds [OF _ e(1)])
qed

text \<open>An example: a definition and a link step, and a file system that accepts one byte at a time.\<close>

definition link_manifest :: string where
  "link_manifest = ''DEF|cc|gcc'' @ [LF] @ ''ld|a.o,!l.so|app'' @ [LF]"

definition cached_example :: COBBuilder where
  "cached_example = fst (the (parse_lines (\<lambda>_. 7) (\<lambda>_. None) link_manifest (new_builder 4)))"

definition slow_disk :: os_answers where
  "slow_disk = \<lparr>alloc_ok = True, realloc_ok = True, open_ok = True, writes = Interrupted # replicate 400 (Written 1),
     close_ok = True, rename_error = None\<rparr>"

lemma cached_example_values:
  "parse_lines (\<lambda>_. 7) (\<lambda>_. None) link_manifest (new_builder 4) = Some (cached_example, Inr ())"
  "m_definitions cached_example = [(''cc'', ''gcc'')]" "map tool (steps_m (m_graph cached_example)) = [''ld'']"
  "map path (nodes_m (m_graph cached_example)) = [''app'', ''a.o'', ''l.so'']"
  "list_all inputs_split (steps_m (m_graph cached_example))"
  "records_size cached_example + strings_total cached_example = 243"
proof -
  show "parse_lines (\<lambda>_. 7) (\<lambda>_. None) link_manifest (new_builder 4) = Some (cached_example, Inr ())"
    "m_definitions cached_example = [(''cc'', ''gcc'')]" "map tool (steps_m (m_graph cached_example)) = [''ld'']"
    "map path (nodes_m (m_graph cached_example)) = [''app'', ''a.o'', ''l.so'']"
    "list_all inputs_split (steps_m (m_graph cached_example))"
    "records_size cached_example + strings_total cached_example = 243"
    by code_simp+
qed

lemma cached_example_ok: "cacheable (\<lambda>_. 7) cached_example" "views_ok (\<lambda>_. 0) (m_graph cached_example)"
proof -
  have b: "builder_ok (\<lambda>_. 7) (new_builder 4)" by (rule new_builder_ok)
  from parse_lines_returns [OF b, of "\<lambda>_. None" link_manifest] cached_example_values(1)
  have "builder_ok (\<lambda>_. 7) cached_example" by (simp add: returns_def)
  moreover have "invalid_tools cached_example = []"
    unfolding invalid_tools_def cached_example_values(3) by (simp add: toolKindFromString_def)
  ultimately show "cacheable (\<lambda>_. 7) cached_example"
    using cached_example_values(5) by (simp add: cacheable_def builder_ok_def)
qed (simp add: views_ok_def)

lemma slow_disk_writes: "enough_writes slow_disk (bin_image (\<lambda>_. 7) 4 (\<lambda>_. 0) cached_example)"
proof -
  obtain sb ds ns ss where i: "bin_image (\<lambda>_. 7) 4 (\<lambda>_. 0) cached_example =
      Some (bin_header cached_example sb (concat ds @ concat ns @ concat ss @ buffer_data sb),
        concat ds @ concat ns @ concat ss @ buffer_data sb)"
    "length (concat ds @ concat ns @ concat ss @ buffer_data sb) = records_size cached_example + length (buffer_data sb)"
    "length (buffer_data sb) \<le> strings_total cached_example"
    using bin_image_ok [OF cached_example_ok(2), of "\<lambda>_. 7" 4] by blast
  then have "length (concat ds @ concat ns @ concat ss @ buffer_data sb) \<le> 243"
    using cached_example_values(6) by linarith
  then show ?thesis by (simp add: enough_writes_def i(1) length_header MAGIC_def slow_disk_def)
qed

lemma emitBin_atomic_witness:
  "returns (emitBin (\<lambda>_. 7) 4 (\<lambda>_. 0) slow_disk cached_example (\<lambda>_. None)) (\<lambda>(fs', r). r = Inr () \<and>
    (\<exists>image. fs' ''.catalyst.bin'' = Some image) \<and> fs' ''catalyst.build'' = None)"
proof -
  have "no_failure slow_disk cached_example"
    using cached_example_ok(1) by (simp add: no_failure_def slow_disk_def cacheable_def)
  moreover obtain image where "bin_image (\<lambda>_. 7) 4 (\<lambda>_. 0) cached_example = Some image"
    using bin_image_ok [OF cached_example_ok(2)] by blast
  ultimately show ?thesis
    by (intro returns_mono [OF emitBin_atomic [OF cached_example_ok(2) slow_disk_writes]]) (simp split: prod.splits)
qed

section \<open>The round trip\<close>

lemma stored_cache_loads:
  assumes "cacheable h b" "views_ok addr (m_graph b)"
    and "emitBin h cap addr os b fs = Some (fs', Inr ())"
    and "fs' ''.catalyst.bin'' = Some content" "records_size b + strings_total b < 2 ^ 64"
  shows "returns (parseBin h cap' (Inr content) (new_builder cap')) (\<lambda>(b', r).
    r = Inr () \<and> m_definitions b' = m_definitions b \<and> same_graph (m_graph b) (m_graph b') \<and> graph_ok h (m_graph b'))"
proof -
  obtain hdr payload where i: "bin_image h cap addr b = Some (hdr, payload)" using bin_image_ok [OF assms(2)] by blast
  have c: "content = put_header hdr @ payload"
  proof -
    obtain fs1 r where w: "writeBinData os hdr payload fs = Some (fs1, r)"
      using assms(3) i by (auto simp: emitBin_def bind_eq_Some split: if_splits)
    have "r = Inr ()"
      using assms(3) i w by (cases r) (auto simp: emitBin_def split: if_splits)
    have "fs' ''.catalyst.bin'' = fs1 ''.catalyst.bin.tmp''"
      using assms(3) i w \<open>r = Inr ()\<close> by (auto simp: emitBin_def split: if_splits option.splits)
    then show ?thesis using writeBinData_success [of os hdr payload fs fs1] w \<open>r = Inr ()\<close> assms(4) by simp
  qed
  from cache_image_roundtrip [OF assms(1,2) i assms(5), of cap'] c show ?thesis by (auto simp: returns_def)
qed

text \<open>C16: The cache preserves the build. When \<open>emitBin\<close> reports success for a builder whose graph is
  well-formed and whose inputs are split, \<open>parseBin\<close> accepts the file it left behind, whatever the
  capacities of the hash tables, and restores the definitions and the graph: the same nodes in the
  same order with the same out-edges and producers, and the same steps with their inputs,
  dependency file inputs, flags and command hashes; the loaded graph is again well-formed.\<close>

theorem cache_roundtrip:
  assumes "cacheable h b" "views_ok addr (m_graph b)"
    and "emitBin h cap addr os b fs = Some (fs', Inr ())"
    and "fs' ''.catalyst.bin'' = Some content" "records_size b + strings_total b < 2 ^ 64"
  shows "returns (parseBin h cap' (Inr content) (new_builder cap')) (\<lambda>(b', r).
    r = Inr () \<and> m_definitions b' = m_definitions b \<and> same_graph (m_graph b) (m_graph b') \<and> graph_ok h (m_graph b'))"
  by (rule stored_cache_loads [OF assms])

lemma cache_roundtrip_witness:
  "\<exists>fs' image. emitBin (\<lambda>_. 7) 4 (\<lambda>_. 0) slow_disk cached_example (\<lambda>_. None) = Some (fs', Inr ()) \<and>
    fs' ''.catalyst.bin'' = Some image \<and>
    returns (parseBin (\<lambda>_. 7) 16 (Inr image) (new_builder 16)) (\<lambda>(b, r). r = Inr () \<and>
      m_definitions b = [(''cc'', ''gcc'')] \<and> map path (nodes_m (m_graph b)) = [''app'', ''a.o'', ''l.so''])"
proof -
  obtain fs' r hdr payload where e: "emitBin (\<lambda>_. 7) 4 (\<lambda>_. 0) slow_disk cached_example (\<lambda>_. None) = Some (fs', r)"
    "fs' ''.catalyst.bin'' = (if r = Inr () then Some (put_header hdr @ payload) else None)"
    using emitBin_outcome [OF cached_example_ok(2) slow_disk_writes, of "\<lambda>_. None"] by (elim exE conjE) rule
  have "no_failure slow_disk cached_example"
    using cached_example_ok(1) by (simp add: no_failure_def slow_disk_def cacheable_def)
  from emitBin_succeeds [OF this e(1)] have r: "r = Inr ()" .
  have "records_size cached_example + strings_total cached_example < 2 ^ 64" unfolding cached_example_values(6) by simp
  from cache_roundtrip [OF cached_example_ok e(1) [unfolded r] _ this, of "put_header hdr @ payload" 16] e(2)
  have "returns (parseBin (\<lambda>_. 7) 16 (Inr (put_header hdr @ payload)) (new_builder 16)) (\<lambda>(b, r). r = Inr () \<and>
      m_definitions b = [(''cc'', ''gcc'')] \<and> map path (nodes_m (m_graph b)) = [''app'', ''a.o'', ''l.so''])"
    using cached_example_values(2,4) by (auto simp: r returns_def same_graph_def)
  with e r show ?thesis by auto
qed

section \<open>The checks\<close>

text \<open>What a file has to satisfy, on its bytes.\<close>

definition header_accepted :: "string \<Rightarrow> bool" where
  "header_accepted content \<longleftrightarrow> 56 \<le> length content \<and> take 8 content = MAGIC \<and>
     take 8 (drop 8 content) = le_bytes 8 (of_nat EXPECTED) \<and>
     unat (le_word (take 8 (drop 40 content))) \<le> length content - 56 \<and>
     take 8 (drop 48 content) =
       le_bytes 8 (rapid_hash (drop 56 content) (rapid_hash (take 48 content @ replicate 8 (CHR 0x00)) 0))"

lemma get_u64_take: "8 \<le> length s \<Longrightarrow> get_u64 s = Some (unat (le_word (take 8 s)), drop 8 s)"
  "8 \<le> length s \<Longrightarrow> get_word s = Some (le_word (take 8 s), drop 8 s)"
  "8 \<le> length s \<Longrightarrow> put_u64 (unat (le_word (take 8 s))) = take 8 s"
  by (simp_all add: get_u64_def get_word_def put_u64_def le_bytes_le_word)

lemma take_take_drop: "take (n + m) xs = take n xs @ take m (drop n xs)"
  by (simp add: take_add)

lemma header_bytes:
  assumes "56 \<le> length content"
  shows "\<exists>hdr. get_header content = Some (hdr, drop 56 content) \<and> bh_magic hdr = take 8 content \<and>
    endian_marker hdr = unat (le_word (take 8 (drop 8 content))) \<and>
    strings_size hdr = unat (le_word (take 8 (drop 40 content))) \<and>
    bh_checksum hdr = le_word (take 8 (drop 48 content)) \<and>
    put_header (hdr\<lparr>bh_checksum := 0\<rparr>) = take 48 content @ replicate 8 (CHR 0x00)"
proof -
  have zero: "put_word 0 = replicate 8 (CHR 0x00)" by code_simp
  have "take 48 content = take 8 content @ take 8 (drop 8 content) @ take 8 (drop 16 content) @
      take 8 (drop 24 content) @ take 8 (drop 32 content) @ take 8 (drop 40 content)"
    using take_take_drop [of 8 40 content] take_take_drop [of 8 32 "drop 8 content"]
      take_take_drop [of 8 24 "drop 16 content"] take_take_drop [of 8 16 "drop 24 content"]
      take_take_drop [of 8 8 "drop 32 content"] by simp
  then show ?thesis using assms
    by (simp add: get_header_def put_header_def get_u64_take zero)
qed

lemma word_of_unat: "of_nat (unat (w :: u64)) = w"
  by simp

lemma le_word_eq: "length s = 8 \<Longrightarrow> le_word s = w \<Longrightarrow> s = le_bytes 8 w"
  using le_bytes_le_word by metis

lemma parse_header_rejects:
  assumes "\<not> header_accepted content"
  shows "\<exists>e. parseBin h cap (Inr content) b = Some (b, Inl e)"
proof (cases "length content < 56")
  case False
  then have len: "56 \<le> length content" by simp
  obtain hdr where hdr: "get_header content = Some (hdr, drop 56 content)" "bh_magic hdr = take 8 content"
    "endian_marker hdr = unat (le_word (take 8 (drop 8 content)))"
    "strings_size hdr = unat (le_word (take 8 (drop 40 content)))"
    "bh_checksum hdr = le_word (take 8 (drop 48 content))"
    "put_header (hdr\<lparr>bh_checksum := 0\<rparr>) = take 48 content @ replicate 8 (CHR 0x00)"
    using header_bytes [OF len] by blast
  have "\<exists>e. parse_header content hdr = Inl e"
  proof (rule ccontr)
    assume "\<nexists>e. parse_header content hdr = Inl e"
    then have ok: "bh_magic hdr = MAGIC" "endian_marker hdr = EXPECTED"
      "calculateChecksum hdr (drop 56 content) = bh_checksum hdr" "strings_size hdr \<le> length content - 56"
      unfolding parse_header_def by (auto split: if_splits)
    have "le_word (take 8 (drop 8 content)) = of_nat EXPECTED"
      using ok(2) hdr(3) by (metis word_of_unat)
    then have "take 8 (drop 8 content) = le_bytes 8 (of_nat EXPECTED)" using len by (intro le_word_eq) simp_all
    moreover have "take 8 (drop 48 content) =
        le_bytes 8 (rapid_hash (drop 56 content) (rapid_hash (take 48 content @ replicate 8 (CHR 0x00)) 0))"
      using ok(3) len by (intro le_word_eq) (simp_all add: calculateChecksum_def hdr(5,6))
    ultimately show False using assms ok(1,4) hdr(2,4) len by (simp add: header_accepted_def)
  qed
  with False hdr(1) show ?thesis by (auto simp: parseBin_def)
qed (simp add: parseBin_def)

text \<open>C19: No byte of a bad file is used. Unless a file has the size, the magic and version, the
  endianness marker, the checksum and the string pool of a cache, \<open>parseBin\<close> reports an error and
  leaves the builder as it was.\<close>

theorem parseBin_checks:
  assumes "\<not> header_accepted content"
  shows "\<exists>e. parseBin h cap (Inr content) b = Some (b, Inl e)"
  by (rule parse_header_rejects [OF assms])

lemma parseBin_checks_witness:
  "\<exists>e. parseBin (\<lambda>_. 7) 4 (Inr (''CATBL004'' @ replicate 48 (CHR 0x00))) (new_builder 4) = Some (new_builder 4, Inl e)"
  by (rule parseBin_checks) (simp add: header_accepted_def MAGIC_def)

end
