(* ===== verification/Parse.thy ===== *)
theory Parse
  imports Binary_Results
begin

text \<open>
  \<open>parse\<close> (src/parser.cpp): the choice between the binary cache and the text manifest, the fallback,
  and the cache that a successful text parse leaves; \<open>MappedFile\<close> (include/cob/file_handle.hpp), on
  Linux. A disk holds the contents and the times of its files; what a call of the system answers
  besides is a parameter. Dependency files that exist can be mapped.
\<close>

section \<open>Files\<close>

datatype map_answer = MapOk | OpenFails | StatFails | MmapFails

record disk =
  files_of :: files
  mtime :: "string \<Rightarrow> int option"
  map_answers :: "string \<Rightarrow> map_answer"

text \<open>The constructor of \<open>MappedFile\<close> and \<open>content\<close>: the message of the exception, or the bytes. An
  empty file is not mapped.\<close>

definition mapped :: "disk \<Rightarrow> string \<Rightarrow> string + string" where
  "mapped d p =
     (case files_of d p of
        None \<Rightarrow> Inl (''Failed to open file: '' @ p)
      | Some bytes \<Rightarrow>
          if map_answers d p = OpenFails then Inl (''Failed to open file: '' @ p)
          else if map_answers d p = StatFails then Inl (''Failed to stat file: '' @ p)
          else if bytes = [] then Inr []
          else if map_answers d p = MmapFails then Inl (''Failed to mmap file: '' @ p)
          else Inr bytes)"

section \<open>The choice\<close>

text \<open>\<open>last_write_time\<close> throws for a file that is missing; nothing in \<open>parse\<close> catches that.\<close>

datatype parse_result = Parsed "unit result" | Escaped

definition cache_is_newer :: "disk \<Rightarrow> string \<Rightarrow> bool option" where
  "cache_is_newer d manifest =
     (if files_of d BIN = None then Some False
      else do { cached \<leftarrow> mtime d BIN; written \<leftarrow> mtime d manifest; Some (written < cached) })"

record parsed =
  pd_files :: files
  pd_console :: "string list \<times> string list"
  pd_builder :: COBBuilder
  pd_result :: parse_result

text \<open>The part of \<open>parse\<close> behind the cache. The console is what was printed, on the two streams.\<close>

definition parse_manifest ::
  "(string \<Rightarrow> u64) \<Rightarrow> nat \<Rightarrow> (view \<Rightarrow> u64) \<Rightarrow> os_answers \<Rightarrow> disk \<Rightarrow> string \<Rightarrow> string list \<times> string list \<Rightarrow>
    COBBuilder \<Rightarrow> parsed option" where
  "parse_manifest h cap addr os d manifest console b =
     (case mapped d manifest of
        Inl what \<Rightarrow> Some \<lparr>pd_files = files_of d, pd_console = console, pd_builder = b, pd_result = Parsed (unexpected what)\<rparr>
      | Inr content \<Rightarrow>
          do { (b, res) \<leftarrow> parse_lines h (files_of d) content b;
               (case res of
                  Inl e \<Rightarrow>
                    Some \<lparr>pd_files = files_of d, pd_console = console, pd_builder = b, pd_result = Parsed (unexpected e)\<rparr>
                | Inr _ \<Rightarrow>
                    do { (fs, _) \<leftarrow> emitBin h cap addr os b (files_of d);
                         Some \<lparr>pd_files = fs, pd_console = console, pd_builder = b, pd_result = Parsed (expected ())\<rparr> }) })"

definition parse ::
  "(string \<Rightarrow> u64) \<Rightarrow> nat \<Rightarrow> (view \<Rightarrow> u64) \<Rightarrow> os_answers \<Rightarrow> disk \<Rightarrow> string \<Rightarrow> COBBuilder \<Rightarrow> parsed option" where
  "parse h cap addr os d manifest b =
     (case cache_is_newer d manifest of
        None \<Rightarrow> Some \<lparr>pd_files = files_of d, pd_console = ([], []), pd_builder = b, pd_result = Escaped\<rparr>
      | Some False \<Rightarrow> parse_manifest h cap addr os d manifest ([], []) b
      | Some True \<Rightarrow>
          do { (b, res) \<leftarrow> parseBin h cap (mapped d BIN) b;
               (case res of
                  Inl e \<Rightarrow> parse_manifest h cap addr os d manifest
                    ([''Falling back to configuration.''], [''Failed to parse binary (.catalyst.bin): '' @ e]) b
                | Inr _ \<Rightarrow>
                    Some \<lparr>pd_files = files_of d, pd_console = ([], []), pd_builder = b, pd_result = Parsed (expected ())\<rparr>) })"

section \<open>A second run\<close>

lemma emitBin_failure:
  assumes "emitBin h cap addr os b fs = Some (fs', Inl e)"
  shows "fs' BIN = fs BIN"
proof -
  have kept: "fs1 BIN = fs BIN" if "writeBinData os hdr payload fs = Some (fs1, r)" for hdr payload fs1 r
    using that by (auto simp: writeBinData_def bind_eq_Some split: if_splits)
  show ?thesis
  proof (cases "invalid_tools b = [] \<and> alloc_ok os \<and> realloc_ok os")
    case True
    then obtain hdr payload fs1 r where i: "bin_image h cap addr b = Some (hdr, payload)"
      and w: "writeBinData os hdr payload fs = Some (fs1, r)"
      using assms by (auto simp: emitBin_def bind_eq_Some)
    show ?thesis
    proof (cases r)
      case (Inl e')
      with assms True i w kept [OF w] show ?thesis by (auto simp: emitBin_def)
    next
      case (Inr u)
      with assms True i w kept [OF w] show ?thesis by (cases "rename_error os") (auto simp: emitBin_def)
    qed
  next
    case False
    with assms show ?thesis by (cases "invalid_tools b = []"; cases "alloc_ok os") (auto simp: emitBin_def bind_eq_Some)
  qed
qed

lemma parse_manifest_success:
  assumes "parse_manifest h cap addr os d manifest console b = Some out" "pd_result out = Parsed (Inr ())"
  obtains content r where "mapped d manifest = Inr content"
    "parse_lines h (files_of d) content b = Some (pd_builder out, Inr ())"
    "emitBin h cap addr os (pd_builder out) (files_of d) = Some (pd_files out, r)"
proof -
  obtain content where content: "mapped d manifest = Inr content"
    using assms by (cases "mapped d manifest") (auto simp: parse_manifest_def)
  obtain b' res where lines: "parse_lines h (files_of d) content b = Some (b', res)"
    using assms content by (auto simp: parse_manifest_def bind_eq_Some)
  have "res = Inr ()" using assms content lines by (cases res) (auto simp: parse_manifest_def)
  with assms content lines that show ?thesis by (auto simp: parse_manifest_def bind_eq_Some)
qed

text \<open>The next run sees the same build. After a successful parse that took the text manifest and
  left a new cache behind, a second parse that finds this cache newer than the manifest, and can map
  it, succeeds without a message, changes no file, and builds the same definitions and the same
  graph, node for node and step for step with all inputs, whatever the capacities of its hash tables
  and whatever the other files are by then. In particular it sees no dependency file that a compiler
  has written since the first parse.\<close>

theorem parse_again_same_build:
  assumes "cache_is_newer d manifest = Some False" "parse h cap addr os d manifest (new_builder cap) = Some out"
    and "pd_result out = Parsed (Inr ())" "pd_files out ''.catalyst.bin'' \<noteq> files_of d ''.catalyst.bin''"
    and "invalid_tools (pd_builder out) = []" "views_ok addr (m_graph (pd_builder out))"
    and "records_size (pd_builder out) + strings_total (pd_builder out) < 2 ^ 64"
    and "files_of d' ''.catalyst.bin'' = pd_files out ''.catalyst.bin''" "map_answers d' ''.catalyst.bin'' = MapOk" "cache_is_newer d' manifest = Some True"
  shows "returns (parse h cap' addr' os' d' manifest (new_builder cap')) (\<lambda>again.
    pd_result again = Parsed (Inr ()) \<and> pd_console again = ([], []) \<and> pd_files again = files_of d' \<and>
    m_definitions (pd_builder again) = m_definitions (pd_builder out) \<and>
    same_graph (m_graph (pd_builder out)) (m_graph (pd_builder again)))"
proof -
  let ?b = "pd_builder out"
  have "parse_manifest h cap addr os d manifest ([], []) (new_builder cap) = Some out" using assms(1,2) by (simp add: parse_def)
  then obtain content r where lines: "parse_lines h (files_of d) content (new_builder cap) = Some (?b, Inr ())"
    and emit: "emitBin h cap addr os ?b (files_of d) = Some (pd_files out, r)"
    using parse_manifest_success assms(3) by blast
  have r: "r = Inr ()"
    using emitBin_failure [of h cap addr os ?b "files_of d"] emit assms(4) by (cases r) auto
  have "builder_ok h ?b" using parse_lines_returns [OF new_builder_ok, of h "files_of d" content cap] lines by (simp add: returns_def)
  then have "cacheable h ?b" using assms(5) by (simp add: cacheable_def)
  note loaded = stored_cache_loads [OF this assms(6) emit [unfolded r] _ assms(7)]
  obtain image where image: "pd_files out BIN = Some image"
    using assms(10) by (auto simp: cache_is_newer_def assms(8) split: if_splits)
  then have "mapped d' BIN = Inr image" using assms(8,9) by (simp add: mapped_def)
  with loaded [OF image, of cap'] assms(10) show ?thesis
    by (auto simp: parse_def returns_def)
qed

text \<open>An example: the manifest of a link step, on a disk without a cache.\<close>

definition link_disk :: disk where
  "link_disk = \<lparr>files_of = [''catalyst.build'' \<mapsto> link_manifest], mtime = \<lambda>p. Some 1, map_answers = \<lambda>p. MapOk\<rparr>"

lemma link_disk_parse:
  "parse_lines (\<lambda>_. 7) (files_of link_disk) link_manifest (new_builder 4) = Some (cached_example, Inr ())"
  by code_simp

lemma link_disk_run:
  "\<exists>fs image. fs ''.catalyst.bin'' = Some image \<and> fs ''catalyst.build'' = Some link_manifest \<and>
     parse (\<lambda>_. 7) 4 (\<lambda>_. 0) slow_disk link_disk ''catalyst.build'' (new_builder 4) =
       Some \<lparr>pd_files = fs, pd_console = ([], []), pd_builder = cached_example, pd_result = Parsed (Inr ())\<rparr>"
proof -
  obtain fs r hdr payload where emit: "emitBin (\<lambda>_. 7) 4 (\<lambda>_. 0) slow_disk cached_example (files_of link_disk) = Some (fs, r)"
    "\<forall>p. p \<noteq> BIN \<longrightarrow> p \<noteq> BIN_TMP \<longrightarrow> fs p = files_of link_disk p"
    "fs BIN = (if r = Inr () then Some (put_header hdr @ payload) else files_of link_disk BIN)"
    using emitBin_outcome [OF cached_example_ok(2) slow_disk_writes, of "files_of link_disk"] by (elim exE conjE) rule
  have "no_failure slow_disk cached_example"
    using cached_example_ok(1) by (simp add: no_failure_def slow_disk_def cacheable_def)
  from emitBin_succeeds [OF this emit(1)] have r: "r = Inr ()" .
  have old: "cache_is_newer link_disk ''catalyst.build'' = Some False" by (simp add: cache_is_newer_def link_disk_def)
  have "link_manifest \<noteq> []" by (simp add: link_manifest_def)
  then have "mapped link_disk ''catalyst.build'' = Inr link_manifest" by (simp add: mapped_def link_disk_def)
  then have "parse (\<lambda>_. 7) 4 (\<lambda>_. 0) slow_disk link_disk ''catalyst.build'' (new_builder 4) =
      Some \<lparr>pd_files = fs, pd_console = ([], []), pd_builder = cached_example, pd_result = Parsed (Inr ())\<rparr>"
    using emit(1) by (simp add: parse_def old parse_manifest_def link_disk_parse)
  moreover have "fs ''catalyst.build'' = Some link_manifest" using emit(2) by (simp add: link_disk_def)
  ultimately show ?thesis using emit(3) r by (intro exI [of _ fs] exI [of _ "put_header hdr @ payload"]) simp
qed

lemma parse_again_same_build_witness:
  "\<exists>out. parse (\<lambda>_. 7) 4 (\<lambda>_. 0) slow_disk link_disk ''catalyst.build'' (new_builder 4) = Some out \<and>
     returns (parse (\<lambda>_. 7) 16 (\<lambda>_. 0) slow_disk
         (link_disk\<lparr>files_of := pd_files out, mtime := \<lambda>p. Some (if p = ''.catalyst.bin'' then 2 else 1)\<rparr>)
         ''catalyst.build'' (new_builder 16)) (\<lambda>again.
       pd_result again = Parsed (Inr ()) \<and> m_definitions (pd_builder again) = [(''cc'', ''gcc'')])"
proof -
  obtain fs image where fs: "fs BIN = Some image"
    and run: "parse (\<lambda>_. 7) 4 (\<lambda>_. 0) slow_disk link_disk ''catalyst.build'' (new_builder 4) =
      Some \<lparr>pd_files = fs, pd_console = ([], []), pd_builder = cached_example, pd_result = Parsed (Inr ())\<rparr>"
    using link_disk_run by blast
  let ?again = "link_disk\<lparr>files_of := fs, mtime := \<lambda>p. Some (if p = BIN then 2 else 1)\<rparr>"
  have old: "cache_is_newer link_disk ''catalyst.build'' = Some False" by (simp add: cache_is_newer_def link_disk_def)
  have newer: "cache_is_newer ?again ''catalyst.build'' = Some True" by (simp add: cache_is_newer_def fs)
  have tools: "invalid_tools cached_example = []" using cached_example_ok(1) by (simp add: cacheable_def)
  have "records_size cached_example + strings_total cached_example < 2 ^ 64" unfolding cached_example_values(6) by simp
  with parse_again_same_build [OF old run _ _ _ _ _ _ _ newer, of 16 "\<lambda>_. 0" slow_disk] fs run tools
    cached_example_ok(2) cached_example_values(2) show ?thesis by (auto simp: link_disk_def returns_def)
qed

text \<open>C17: A bad or an old cache does not matter. If there is no cache, or it is not newer than the
  manifest, or its header, size or checksum is not accepted, or it cannot be mapped, then the files,
  the builder and the result are those of the parse of the text manifest alone; a rejected cache is
  reported on the console.\<close>

theorem parse_ignores_bad_cache:
  assumes "cache_is_newer d manifest \<noteq> None"
    and "cache_is_newer d manifest = Some False \<or> (\<forall>image. mapped d ''.catalyst.bin'' = Inr image \<longrightarrow> \<not> header_accepted image)"
  shows "\<exists>console. parse h cap addr os d manifest b = parse_manifest h cap addr os d manifest console b \<and>
    (console = ([], []) \<longleftrightarrow> cache_is_newer d manifest = Some False)"
proof (cases "cache_is_newer d manifest = Some False")
  case False
  with assms(1) have newer: "cache_is_newer d manifest = Some True" by auto
  have "\<exists>e. parseBin h cap (mapped d BIN) b = Some (b, Inl e)"
  proof (cases "mapped d BIN")
    case (Inr image)
    with newer assms(2) show ?thesis using parse_header_rejects by simp
  qed (simp add: parseBin_def)
  then obtain e where "parseBin h cap (mapped d BIN) b = Some (b, Inl e)" by blast
  with newer show ?thesis
    by (intro exI [of _ "([''Falling back to configuration.''], [''Failed to parse binary (.catalyst.bin): '' @ e])"])
      (simp add: parse_def)
qed (auto simp: parse_def)

lemma parse_ignores_bad_cache_witness:
  "\<exists>console. parse (\<lambda>_. 7) 4 (\<lambda>_. 0) slow_disk
      (link_disk\<lparr>files_of := [''catalyst.build'' \<mapsto> link_manifest, ''.catalyst.bin'' \<mapsto> ''CATBL''],
         mtime := \<lambda>p. Some (if p = ''.catalyst.bin'' then 2 else 1)\<rparr>) ''catalyst.build'' (new_builder 4) =
    parse_manifest (\<lambda>_. 7) 4 (\<lambda>_. 0) slow_disk
      (link_disk\<lparr>files_of := [''catalyst.build'' \<mapsto> link_manifest, ''.catalyst.bin'' \<mapsto> ''CATBL''],
         mtime := \<lambda>p. Some (if p = ''.catalyst.bin'' then 2 else 1)\<rparr>) ''catalyst.build'' console (new_builder 4) \<and>
    console \<noteq> ([], [])"
  (is "\<exists>console. parse _ _ _ _ ?d _ _ = _ \<and> _")
proof -
  have newer: "cache_is_newer ?d ''catalyst.build'' = Some True" by (simp add: cache_is_newer_def)
  have "mapped ?d ''.catalyst.bin'' = Inr ''CATBL''" by (simp add: mapped_def link_disk_def)
  then have "\<forall>image. mapped ?d ''.catalyst.bin'' = Inr image \<longrightarrow> \<not> header_accepted image"
    by (simp add: header_accepted_def MAGIC_def)
  from parse_ignores_bad_cache [of ?d "''catalyst.build''", OF _ disjI2 [OF this]] newer show ?thesis by fastforce
qed

end
