(* ===== verification/Process_Exec.thy ===== *)
theory Process_Exec
  imports Prelude
begin

text \<open>
  Running a command on Linux (src/process_exec.cpp, src/process_exec_linux.cpp,
  src/process_environment.hpp). The answers of the system calls are parameters: the pipe, the errors
  of the calls that prepare the spawn, the spawn itself, and the sequences of answers of read and
  waitpid, in order; \<open>None\<close> as an outcome means that one of these sequences ends too early, that is,
  the call blocks for ever. An error is its number; \<open>strerror\<close> is its text. The open descriptors
  of the process are a map to what they refer to.
\<close>

abbreviation (input) EINTR_NO :: int where "EINTR_NO \<equiv> 4"
abbreviation (input) STDOUT_FILENO :: int where "STDOUT_FILENO \<equiv> 1"
abbreviation (input) STDERR_FILENO :: int where "STDERR_FILENO \<equiv> 2"

section \<open>The environment\<close>

abbreviation (input) NUL :: char where "NUL \<equiv> CHR 0x00"

definition invalid_key :: "string \<Rightarrow> string" where
  "invalid_key key = ''Invalid environment variable key: '' @ [CHR 0x27] @ key @ [CHR 0x27]"

definition invalid_value :: "string \<Rightarrow> string" where
  "invalid_value key = ''Invalid environment variable value for key '' @ [CHR 0x27] @ key @ [CHR 0x27]"

fun validateEnvironment :: "(string \<times> string) list \<Rightarrow> unit result" where
  "validateEnvironment [] = expected ()"
| "validateEnvironment ((key, val) # rest) =
     (if key = [] \<or> CHR ''='' \<in> set key \<or> NUL \<in> set key then unexpected (invalid_key key)
      else if NUL \<in> set val then unexpected (invalid_value key)
      else validateEnvironment rest)"

definition environmentEntryHasKey :: "string \<Rightarrow> string \<Rightarrow> bool" where
  "environmentEntryHasKey entry key \<longleftrightarrow>
     length entry > length key \<and> entry ! length key = CHR ''='' \<and> starts_with entry key"

definition isOverridden :: "string \<Rightarrow> (string \<times> string) list \<Rightarrow> bool" where
  "isOverridden entry overrides \<longleftrightarrow> list_ex (\<lambda>(key, val). environmentEntryHasKey entry key) overrides"

definition buildEnvironment :: "string list \<Rightarrow> (string \<times> string) list \<Rightarrow> string list" where
  "buildEnvironment env overrides =
     filter (\<lambda>entry. \<not> isOverridden entry overrides) env @ map (\<lambda>(key, val). key @ ''='' @ val) overrides"

section \<open>The spawn request\<close>

datatype spawn_action = AddChdir string | AddDup2 int int | AddClose int | AddCloseFrom int

record spawn_attributes =
  sigmask :: u64
  sigdefault :: u64
  attr_flags :: int

definition POSIX_SPAWN_SETSIGDEF :: int where "POSIX_SPAWN_SETSIGDEF = 4"
definition POSIX_SPAWN_SETSIGMASK :: int where "POSIX_SPAWN_SETSIGMASK = 8"

record spawn_request =
  sp_file :: string
  sp_actions :: "spawn_action list"
  sp_attributes :: spawn_attributes
  sp_argv :: "string list"
  sp_envp :: "string list"

text \<open>The errors of the calls on the file actions: their initialisation, addchdir, the two adddup2, the two
  addclose and addclosefrom; and of the calls on the attributes: their initialisation, sigemptyset,
  sigfillset, setsigmask, setsigdefault and setflags.\<close>

record 'o exec_os =
  sys_environ :: "string list"
  strerror :: "int \<Rightarrow> string"
  os_pipe2 :: "int + (int \<times> 'o) \<times> (int \<times> 'o)"
  actions_init :: int
  add_chdir :: int
  add_dup_out :: int
  add_dup_err :: int
  add_close_read :: int
  add_close_write :: int
  add_closefrom :: int
  attr_calls :: "int list"
  os_spawn :: "spawn_request \<Rightarrow> int + nat"
  os_read :: "(int + string) list"
  os_wait :: "(int + u32) list"

definition formatSystemError :: "'o exec_os \<Rightarrow> string \<Rightarrow> int \<Rightarrow> string" where
  "formatSystemError os operation error = operation @ '': '' @ strerror os error"

text \<open>The first error in a list of calls, or 0.\<close>

fun first_error :: "int list \<Rightarrow> int" where
  "first_error [] = 0"
| "first_error (e # es) = (if e \<noteq> 0 then e else first_error es)"

definition configureAttributes :: "'o exec_os \<Rightarrow> int + spawn_attributes" where
  "configureAttributes os =
     (let error = first_error (attr_calls os)
      in if error \<noteq> 0 then Inl error
         else Inr \<lparr>sigmask = 0, sigdefault = - 1, attr_flags = POSIX_SPAWN_SETSIGDEF OR POSIX_SPAWN_SETSIGMASK\<rparr>)"

text \<open>The calls of \<open>configureFileActions\<close>, each with its error and the action it adds.\<close>

definition file_action_calls :: "'o exec_os \<Rightarrow> string option \<Rightarrow> int \<Rightarrow> int \<Rightarrow> (int \<times> spawn_action list) list" where
  "file_action_calls os working_dir capture_read capture_write =
     (actions_init os, []) #
     (case working_dir of Some dir \<Rightarrow> [(add_chdir os, [AddChdir dir])] | None \<Rightarrow> []) @
     (if capture_write \<ge> 0
      then [(add_dup_out os, [AddDup2 capture_write STDOUT_FILENO]), (add_dup_err os, [AddDup2 capture_write STDERR_FILENO]),
            (add_close_read os, [AddClose capture_read]), (add_close_write os, [AddClose capture_write])]
      else []) @
     [(add_closefrom os, [AddCloseFrom (STDERR_FILENO + 1)])]"

definition configureFileActions :: "'o exec_os \<Rightarrow> string option \<Rightarrow> int \<Rightarrow> int \<Rightarrow> int + spawn_action list" where
  "configureFileActions os working_dir capture_read capture_write =
     (let calls = file_action_calls os working_dir capture_read capture_write; error = first_error (map fst calls)
      in if error \<noteq> 0 then Inl error else Inr (concat (map snd calls)))"

section \<open>Output and exit status\<close>

fun drainOutput :: "'o exec_os \<Rightarrow> (int + string) list \<Rightarrow> string \<Rightarrow> (unit result \<times> string) option" where
  "drainOutput os [] captured = None"
| "drainOutput os (Inr chunk # rs) captured =
     (if chunk \<noteq> [] then drainOutput os rs (captured @ chunk) else Some (expected (), captured))"
| "drainOutput os (Inl errno # rs) captured =
     (if errno \<noteq> EINTR_NO
      then Some (unexpected (formatSystemError os ''Failed to read captured process output'' errno), captured)
      else drainOutput os rs captured)"

text \<open>The macros of \<open>sys/wait.h\<close> on the status word.\<close>

definition WIFEXITED :: "u32 \<Rightarrow> bool" where "WIFEXITED status \<longleftrightarrow> status AND 0x7F = 0"
definition WEXITSTATUS :: "u32 \<Rightarrow> nat" where "WEXITSTATUS status = unat (drop_bit 8 (status AND 0xFF00))"
definition WTERMSIG :: "u32 \<Rightarrow> nat" where "WTERMSIG status = unat (status AND 0x7F)"
definition WIFSIGNALED :: "u32 \<Rightarrow> bool" where
  "WIFSIGNALED status \<longleftrightarrow> status AND 0x7F \<noteq> 0 \<and> status AND 0x7F \<noteq> 0x7F"

definition exit_code :: "u32 \<Rightarrow> nat result" where
  "exit_code status =
     (if WIFEXITED status then expected (WEXITSTATUS status)
      else if WIFSIGNALED status then expected (128 + WTERMSIG status)
      else unexpected ''Process stopped without exiting or being terminated by a signal'')"

text \<open>The loop, with whether the process was collected.\<close>

fun waitForProcess :: "'o exec_os \<Rightarrow> (int + u32) list \<Rightarrow> (nat result \<times> bool) option" where
  "waitForProcess os [] = None"
| "waitForProcess os (Inl errno # ws) =
     (if errno \<noteq> EINTR_NO then Some (unexpected (formatSystemError os ''Failed to wait for process'' errno), False)
      else waitForProcess os ws)"
| "waitForProcess os (Inr status # ws) = Some (exit_code status, WIFEXITED status \<or> WIFSIGNALED status)"

section \<open>\<open>processExecLinux\<close>\<close>

record 'o exec_end =
  ee_result :: "(nat \<times> string) result"
  ee_fds :: "int \<rightharpoonup> 'o"
  ee_spawned :: "spawn_request option"
  ee_uncollected :: "nat option"

text \<open>\<open>FileDescriptor::reset\<close> and its destructor: what is left of the open descriptors.\<close>

definition close_fd :: "int \<Rightarrow> (int \<rightharpoonup> 'o) \<Rightarrow> (int \<rightharpoonup> 'o)" where
  "close_fd fd fds = (if fd \<ge> 0 then fds(fd := None) else fds)"

definition give_up :: "string \<Rightarrow> (int \<rightharpoonup> 'o) \<Rightarrow> 'o exec_end option" where
  "give_up e fds = Some \<lparr>ee_result = unexpected e, ee_fds = fds, ee_spawned = None, ee_uncollected = None\<rparr>"

text \<open>After the spawn: the write end is closed, the output is read if it is captured, the read end is
  closed, and the process is waited for whether reading failed or not.\<close>

definition collect :: "'o exec_os \<Rightarrow> bool \<Rightarrow> int \<Rightarrow> int \<Rightarrow> spawn_request \<Rightarrow> nat \<Rightarrow> (int \<rightharpoonup> 'o) \<Rightarrow> 'o exec_end option" where
  "collect os capture_output capture_read capture_write request process fds =
     do { let fds = close_fd capture_write fds;
          (read_result, captured) \<leftarrow> (if capture_output then drainOutput os (os_read os) [] else Some (expected (), []));
          let fds = close_fd capture_read fds;
          (status, collected) \<leftarrow> waitForProcess os (os_wait os);
          Some \<lparr>ee_result =
                  (case read_result of
                     Inl e \<Rightarrow> unexpected e
                   | Inr _ \<Rightarrow> (case status of Inl e \<Rightarrow> unexpected e | Inr st \<Rightarrow> expected (st, captured))),
                ee_fds = fds, ee_spawned = Some request, ee_uncollected = (if collected then None else Some process)\<rparr> }"

definition spawn_process ::
  "'o exec_os \<Rightarrow> string list \<Rightarrow> string option \<Rightarrow> (string \<times> string) list option \<Rightarrow> bool \<Rightarrow> int \<Rightarrow> int \<Rightarrow> (int \<rightharpoonup> 'o) \<Rightarrow>
    'o exec_end option" where
  "spawn_process os args working_dir env capture_output capture_read capture_write fds =
     (let closed = close_fd capture_write (close_fd capture_read fds)
      in case configureFileActions os working_dir capture_read capture_write of
           Inl error \<Rightarrow> give_up (formatSystemError os ''Failed to configure file actions for posix_spawn'' error) closed
         | Inr actions \<Rightarrow>
             (case configureAttributes os of
                Inl error \<Rightarrow> give_up (formatSystemError os ''Failed to configure attributes for posix_spawn'' error) closed
              | Inr attributes \<Rightarrow>
                  let environment = (case env of Some overrides \<Rightarrow> buildEnvironment (sys_environ os) overrides
                                     | None \<Rightarrow> sys_environ os);
                      request = \<lparr>sp_file = hd args, sp_actions = actions, sp_attributes = attributes, sp_argv = args,
                        sp_envp = environment\<rparr>
                  in (case os_spawn os request of
                        Inl error \<Rightarrow>
                          give_up (formatSystemError os (''Failed to spawn process '' @ [CHR 0x27] @ hd args @ [CHR 0x27]) error) closed
                      | Inr process \<Rightarrow> collect os capture_output capture_read capture_write request process fds)))"

definition processExecLinux ::
  "'o exec_os \<Rightarrow> (int \<rightharpoonup> 'o) \<Rightarrow> string list \<Rightarrow> string option \<Rightarrow> (string \<times> string) list option \<Rightarrow> bool \<Rightarrow>
    'o exec_end option" where
  "processExecLinux os fds args working_dir env capture_output =
     (if args = [] then give_up ''Cannot execute empty command'' fds
      else case (case env of Some overrides \<Rightarrow> validateEnvironment overrides | None \<Rightarrow> expected ()) of
             Inl e \<Rightarrow> give_up e fds
           | Inr _ \<Rightarrow>
               if capture_output then
                 (case os_pipe2 os of
                    Inl errno \<Rightarrow> give_up (formatSystemError os ''Failed to create pipe for capturing output'' errno) fds
                  | Inr ((capture_read, ro), (capture_write, wo)) \<Rightarrow>
                      spawn_process os args working_dir env True capture_read capture_write
                        (fds(capture_read \<mapsto> ro, capture_write \<mapsto> wo)))
               else spawn_process os args working_dir env False (- 1) (- 1) fds)"

text \<open>\<open>process_exec\<close> on Linux.\<close>

definition process_exec ::
  "'o exec_os \<Rightarrow> (int \<rightharpoonup> 'o) \<Rightarrow> string list \<Rightarrow> string option \<Rightarrow> (string \<times> string) list option \<Rightarrow> bool \<Rightarrow>
    'o exec_end option" where
  "process_exec = processExecLinux"

section \<open>What the child sees\<close>

text \<open>The value of a variable: the first entry with the key counts.\<close>

definition getenv :: "string list \<Rightarrow> string \<Rightarrow> string option" where
  "getenv env key = map_option (drop (length key + 1)) (List.find (\<lambda>entry. environmentEntryHasKey entry key) env)"

lemma has_key_split: "environmentEntryHasKey entry key \<longleftrightarrow> (\<exists>val. entry = key @ ''='' @ val)"
proof
  assume "environmentEntryHasKey entry key"
  then have k: "length key < length entry" "entry ! length key = CHR ''=''" "take (length key) entry = key"
    by (simp_all add: environmentEntryHasKey_def starts_with_def)
  from id_take_nth_drop [OF k(1)] k show "\<exists>val. entry = key @ ''='' @ val"
    by (intro exI [of _ "drop (Suc (length key)) entry"]) simp
qed (auto simp: environmentEntryHasKey_def starts_with_def nth_append)

lemma same_key:
  assumes "k @ ''='' @ v = key @ ''='' @ v'" "CHR ''='' \<notin> set k" "CHR ''='' \<notin> set key"
  shows "k = key \<and> v = v'"
proof -
  have "takeWhile (\<lambda>c. c \<noteq> CHR ''='') (k @ ''='' @ v) = takeWhile (\<lambda>c. c \<noteq> CHR ''='') (key @ ''='' @ v')"
    by (simp only: assms(1))
  moreover have "takeWhile (\<lambda>c. c \<noteq> CHR ''='') (x @ ''='' @ y) = x" if "CHR ''='' \<notin> set x" for x y
    using that by (subst takeWhile_append2) auto
  ultimately have "k = key" using assms(2,3) by metis
  with assms(1) show ?thesis by simp
qed

lemma validate_keys: "validateEnvironment overrides = expected () \<Longrightarrow> (k, v) \<in> set overrides \<Longrightarrow> CHR ''='' \<notin> set k"
  by (induction overrides rule: validateEnvironment.induct) (auto split: if_splits)

lemma find_overrides:
  assumes "\<forall>(k, v) \<in> set overrides. CHR ''='' \<notin> set k" "CHR ''='' \<notin> set key"
  shows "getenv (map (\<lambda>(key, val). key @ ''='' @ val) overrides) key = map_of overrides key"
  using assms(1)
proof (induction overrides)
  case (Cons kv overrides)
  obtain k v where kv: "kv = (k, v)" by fastforce
  have "CHR ''='' \<notin> set k" using Cons.prems kv by simp
  then have "environmentEntryHasKey (k @ ''='' @ v) key \<longleftrightarrow> k = key"
    using same_key [OF _ _ assms(2), of k v] by (auto simp: has_key_split)
  with Cons kv show ?case by (auto simp: getenv_def)
qed (simp add: getenv_def)

lemma find_append: "List.find P (xs @ ys) = (case List.find P xs of None \<Rightarrow> List.find P ys | Some x \<Rightarrow> Some x)"
  by (induction xs) auto

lemma find_filter_other:
  "(\<And>x. x \<in> set xs \<Longrightarrow> P x \<Longrightarrow> Q x) \<Longrightarrow> List.find P (filter Q xs) = List.find P xs"
  by (induction xs) auto

text \<open>The environment of a command. With overrides that pass the validation, the child sees the
  overridden value of every overridden variable (the first, if a key is given twice), whatever the
  parent's environment says, and the parent's value of every other variable.\<close>

theorem child_environment:
  assumes "validateEnvironment overrides = expected ()" "CHR ''='' \<notin> set key"
  shows "getenv (buildEnvironment env overrides) key =
    (case map_of overrides key of Some val \<Rightarrow> Some val | None \<Rightarrow> getenv env key)"
proof -
  let ?kept = "filter (\<lambda>entry. \<not> isOverridden entry overrides) env"
  have keys: "\<forall>(k, v) \<in> set overrides. CHR ''='' \<notin> set k" using validate_keys [OF assms(1)] by blast
  have over: "getenv (map (\<lambda>(key, val). key @ ''='' @ val) overrides) key = map_of overrides key"
    by (rule find_overrides [OF keys assms(2)])
  show ?thesis
  proof (cases "map_of overrides key")
    case None
    have "\<not> isOverridden entry overrides" if "environmentEntryHasKey entry key" for entry
    proof
      assume "isOverridden entry overrides"
      then obtain k v where kv: "(k, v) \<in> set overrides" "environmentEntryHasKey entry k"
        by (auto simp: isOverridden_def list_ex_iff)
      from kv(2) that obtain v1 v2 where "k @ ''='' @ v1 = key @ ''='' @ v2" by (metis has_key_split)
      then have "k = key" using same_key [OF _ _ assms(2)] keys kv(1) by blast
      with kv(1) None show False by (auto simp: map_of_eq_None_iff rev_image_eqI)
    qed
    then have "List.find (\<lambda>entry. environmentEntryHasKey entry key) ?kept = List.find (\<lambda>entry. environmentEntryHasKey entry key) env"
      by (intro find_filter_other) auto
    moreover have "List.find (\<lambda>entry. environmentEntryHasKey entry key) (map (\<lambda>(key, val). key @ ''='' @ val) overrides) = None"
      using over None by (simp add: getenv_def)
    ultimately show ?thesis using None
      by (simp add: getenv_def buildEnvironment_def find_append split: option.split)
  next
    case (Some val)
    have "List.find (\<lambda>entry. environmentEntryHasKey entry key) ?kept = None"
      using map_of_SomeD [OF Some] by (auto simp: find_None_iff isOverridden_def list_ex_iff)
    with over Some show ?thesis by (simp add: getenv_def buildEnvironment_def find_append)
  qed
qed

lemma child_environment_witness:
  "getenv (buildEnvironment [''A=1'', ''AB=2'', ''C=x=y''] [(''A'', ''9''), (''N'', [])]) ''A'' = Some ''9'' \<and>
   getenv (buildEnvironment [''A=1'', ''AB=2'', ''C=x=y''] [(''A'', ''9''), (''N'', [])]) ''AB'' = Some ''2''"
proof -
  have v: "validateEnvironment [(''A'', ''9''), (''N'', [])] = expected ()" by simp
  have "getenv [''A=1'', ''AB=2'', ''C=x=y''] ''AB'' = Some ''2''" by code_simp
  with child_environment [OF v, of "''A''"] child_environment [OF v, of "''AB''"] show ?thesis by simp
qed

section \<open>Descriptors and processes are released\<close>

lemma fds_restored:
  assumes "r \<notin> dom fds" "w \<notin> dom fds" "0 \<le> r" "0 \<le> w"
  shows "close_fd w (close_fd r (fds(r \<mapsto> ro, w \<mapsto> wo))) = fds" "close_fd r (close_fd w (fds(r \<mapsto> ro, w \<mapsto> wo))) = fds"
  using assms by (auto simp: close_fd_def fun_eq_iff domIff)

text \<open>The first answer of waitpid that is not an interruption, and whether it ends the process.\<close>

definition wait_answer :: "(int + u32) list \<Rightarrow> int + u32 \<Rightarrow> bool" where
  "wait_answer ws a \<longleftrightarrow> a \<noteq> Inl EINTR_NO \<and> (\<exists>k rest. ws = replicate k (Inl EINTR_NO) @ a # rest)"

definition ends_process :: "int + u32 \<Rightarrow> bool" where
  "ends_process a \<longleftrightarrow> (\<exists>status. a = Inr status \<and> (WIFEXITED status \<or> WIFSIGNALED status))"

definition tidy :: "'o exec_os \<Rightarrow> (int \<rightharpoonup> 'o) \<Rightarrow> 'o exec_end \<Rightarrow> bool" where
  "tidy os fds e \<longleftrightarrow> ee_fds e = fds \<and>
     (case ee_spawned e of
        None \<Rightarrow> ee_uncollected e = None \<and> isl (ee_result e)
      | Some request \<Rightarrow> \<exists>process a. os_spawn os request = Inr process \<and> wait_answer (os_wait os) a \<and>
          ee_uncollected e = (if ends_process a then None else Some process) \<and> (\<not> ends_process a \<longrightarrow> isl (ee_result e)))"

lemma give_up_tidy: "give_up what fds = Some e \<Longrightarrow> tidy os fds e"
  by (auto simp: give_up_def tidy_def)

lemma wait_first:
  "waitForProcess os ws = Some (status, collected) \<Longrightarrow>
    \<exists>a. wait_answer ws a \<and> (collected \<longleftrightarrow> ends_process a) \<and> (\<not> collected \<longrightarrow> isl status)"
proof (induction os ws rule: waitForProcess.induct)
  case (2 os errno ws)
  show ?case
  proof (cases "errno = EINTR_NO")
    case True
    with 2 obtain a where a: "wait_answer ws a" "collected \<longleftrightarrow> ends_process a" "\<not> collected \<longrightarrow> isl status" by auto
    obtain k rest where "ws = replicate k (Inl EINTR_NO) @ a # rest" using a(1) by (auto simp: wait_answer_def)
    then have "Inl errno # ws = replicate (Suc k) (Inl EINTR_NO) @ a # rest" by (simp add: True)
    with a show ?thesis unfolding wait_answer_def by blast
  next
    case False
    then have "wait_answer (Inl errno # ws) (Inl errno)"
      unfolding wait_answer_def by (auto intro: exI [of _ 0])
    with False 2 show ?thesis by (auto simp: ends_process_def)
  qed
next
  case (3 os status' ws)
  have "wait_answer (Inr status' # ws) (Inr status')" unfolding wait_answer_def by (auto intro: exI [of _ 0])
  moreover have "collected \<longleftrightarrow> ends_process (Inr status')" "\<not> collected \<longrightarrow> isl status"
    using 3 by (auto simp: ends_process_def exit_code_def)
  ultimately show ?case by blast
qed simp

lemma collect_tidy:
  assumes "collect os cap r w request process fds' = Some e" "os_spawn os request = Inr process"
  shows "tidy os (close_fd r (close_fd w fds')) e"
proof -
  obtain read_result captured where rd: "(if cap then drainOutput os (os_read os) [] else Some (expected (), [])) = Some (read_result, captured)"
    using assms by (auto simp: collect_def Let_def bind_eq_Some simp del: drainOutput.simps)
  obtain status collected where st: "waitForProcess os (os_wait os) = Some (status, collected)"
    using assms by (auto simp: collect_def Let_def bind_eq_Some simp del: drainOutput.simps)
  have e: "ee_fds e = close_fd r (close_fd w fds')" "ee_spawned e = Some request"
    "ee_uncollected e = (if collected then None else Some process)" "isl status \<Longrightarrow> isl (ee_result e)"
    using assms(1) rd st by (auto simp: collect_def split: sum.splits)
  obtain a where "wait_answer (os_wait os) a" "collected \<longleftrightarrow> ends_process a" "\<not> collected \<longrightarrow> isl status"
    using wait_first [OF st] by blast
  with e assms(2) show ?thesis unfolding tidy_def by auto
qed

lemma spawn_process_tidy:
  assumes "spawn_process os args wd env cap r w fds' = Some e"
    and "close_fd w (close_fd r fds') = fds" "close_fd r (close_fd w fds') = fds"
  shows "tidy os fds e"
proof (cases "configureFileActions os wd r w")
  case (Inl error)
  with assms(1,2) show ?thesis by (simp add: spawn_process_def Let_def give_up_tidy)
next
  case actions: (Inr actions)
  show ?thesis
  proof (cases "configureAttributes os")
    case (Inl error)
    with actions assms(1,2) show ?thesis by (simp add: spawn_process_def Let_def give_up_tidy)
  next
    case (Inr attributes)
    define request where "request = \<lparr>sp_file = hd args, sp_actions = actions, sp_attributes = attributes, sp_argv = args,
      sp_envp = (case env of Some overrides \<Rightarrow> buildEnvironment (sys_environ os) overrides | None \<Rightarrow> sys_environ os)\<rparr>"
    show ?thesis
    proof (cases "os_spawn os request")
      case (Inl error)
      with actions Inr assms(1,2) show ?thesis by (simp add: spawn_process_def Let_def request_def give_up_tidy)
    next
      case process: (Inr process)
      with actions Inr assms(1) have "collect os cap r w request process fds' = Some e"
        by (simp add: spawn_process_def Let_def request_def)
      from collect_tidy [OF this process] show ?thesis by (simp add: assms(3))
    qed
  qed
qed

text \<open>C34: Running a command leaks nothing. However the system calls answer, provided a pipe gets numbers
  that were free and not negative: when process_exec returns, on any of its error paths or with a
  result, the descriptors that are open are those that were open before; if no process was spawned, it
  reports an error; and if one was spawned, then waitpid was asked for it until it answered other than with an
  interruption, also when reading the output failed, and the process is left uncollected exactly if that
  answer was an error or a status that is neither an exit nor a signal, which is reported as an error.\<close>

theorem process_exec_releases:
  assumes "process_exec os fds args working_dir env capture_output = Some e"
    and "\<And>r ro w wo. os_pipe2 os = Inr ((r, ro), (w, wo)) \<Longrightarrow> r \<notin> dom fds \<and> w \<notin> dom fds \<and> 0 \<le> r \<and> 0 \<le> w"
  shows "ee_fds e = fds \<and>
    (case ee_spawned e of
       None \<Rightarrow> ee_uncollected e = None \<and> isl (ee_result e)
     | Some request \<Rightarrow> \<exists>process a k rest. os_spawn os request = Inr process \<and>
         os_wait os = replicate k (Inl EINTR_NO) @ a # rest \<and> a \<noteq> Inl EINTR_NO \<and>
         ee_uncollected e = (if \<exists>status. a = Inr status \<and> (WIFEXITED status \<or> WIFSIGNALED status) then None else Some process) \<and>
         (ee_uncollected e \<noteq> None \<longrightarrow> isl (ee_result e)))"
proof -
  have "tidy os fds e"
  proof (cases "args = []")
    case True
    with assms(1) show ?thesis by (simp add: process_exec_def processExecLinux_def give_up_tidy)
  next
    case nonempty: False
    show ?thesis
    proof (cases "case env of Some overrides \<Rightarrow> validateEnvironment overrides | None \<Rightarrow> expected ()")
      case (Inl what)
      with nonempty assms(1) show ?thesis by (simp add: process_exec_def processExecLinux_def give_up_tidy)
    next
      case ok: (Inr u)
      show ?thesis
      proof (cases capture_output)
        case False
        have "close_fd (- 1) (close_fd (- 1) fds) = fds" by (simp add: close_fd_def)
        with nonempty ok False assms(1) spawn_process_tidy show ?thesis
          by (fastforce simp: process_exec_def processExecLinux_def)
      next
        case capture: True
        show ?thesis
        proof (cases "os_pipe2 os")
          case (Inl errno)
          with nonempty ok capture assms(1) show ?thesis by (simp add: process_exec_def processExecLinux_def give_up_tidy)
        next
          case (Inr p)
          obtain r ro w wo where p: "p = ((r, ro), (w, wo))" by (metis surj_pair)
          from assms(2) Inr p have "r \<notin> dom fds" "w \<notin> dom fds" "0 \<le> r" "0 \<le> w" by blast+
          from spawn_process_tidy [OF _ fds_restored [OF this]] Inr p nonempty ok capture assms(1) show ?thesis
            by (simp add: process_exec_def processExecLinux_def)
        qed
      qed
    qed
  qed
  then show ?thesis
    by (cases "ee_spawned e") (auto simp: tidy_def wait_answer_def ends_process_def, blast+)
qed

definition sample_os :: "nat exec_os" where
  "sample_os = \<lparr>sys_environ = [''PATH=/bin''], strerror = (\<lambda>_. ''error''), os_pipe2 = Inr ((3, 10), (4, 11)),
     actions_init = 0, add_chdir = 0, add_dup_out = 0, add_dup_err = 0, add_close_read = 0, add_close_write = 0,
     add_closefrom = 0, attr_calls = [0, 0, 0, 0, 0, 0], os_spawn = (\<lambda>_. Inr 77),
     os_read = [Inr ''ab'', Inl 4, Inr ''c'', Inr []], os_wait = [Inl 4, Inr 0x100]\<rparr>"

definition sample_fds :: "int \<rightharpoonup> nat" where
  "sample_fds = [0 \<mapsto> 0, 1 \<mapsto> 1, 2 \<mapsto> 2]"

lemma process_exec_releases_witness:
  "\<exists>e. process_exec (sample_os\<lparr>os_wait := [Inl 10]\<rparr>) sample_fds [''cc''] None None True = Some e \<and> ee_fds e = sample_fds \<and>
     ee_uncollected e = Some 77 \<and> isl (ee_result e)"
proof -
  let ?os = "sample_os\<lparr>os_wait := [Inl 10]\<rparr>"
  have "\<exists>e. process_exec ?os sample_fds [''cc''] None None True = Some e \<and> ee_uncollected e = Some 77"
    by (simp add: sample_os_def process_exec_def processExecLinux_def spawn_process_def collect_def Let_def
        configureFileActions_def file_action_calls_def configureAttributes_def)
  then obtain e where e: "process_exec ?os sample_fds [''cc''] None None True = Some e" "ee_uncollected e = Some 77" by blast
  have "ee_fds e = sample_fds \<and> isl (ee_result e)"
    using process_exec_releases [OF e(1)] e(2) by (auto simp: sample_os_def sample_fds_def split: option.splits)
  with e show ?thesis by blast
qed

section \<open>A run that succeeds\<close>

text \<open>What the spawn does with the descriptors of the child, before the exec. \<open>None\<close>: it fails.\<close>

fun run_action :: "spawn_action \<Rightarrow> (int \<rightharpoonup> 'o) \<Rightarrow> (int \<rightharpoonup> 'o) option" where
  "run_action (AddChdir dir) fds = Some fds"
| "run_action (AddDup2 old new) fds = (if fds old = None then None else Some (fds(new := fds old)))"
| "run_action (AddClose fd) fds = Some (fds(fd := None))"
| "run_action (AddCloseFrom low) fds = Some (\<lambda>fd. if fd < low then fds fd else None)"

fun run_actions :: "spawn_action list \<Rightarrow> (int \<rightharpoonup> 'o) \<Rightarrow> (int \<rightharpoonup> 'o) option" where
  "run_actions [] fds = Some fds"
| "run_actions (a # as) fds = (run_action a fds \<bind> run_actions as)"

definition spawn_succeeds :: "'o exec_os \<Rightarrow> bool" where
  "spawn_succeeds os \<longleftrightarrow>
     actions_init os = 0 \<and> add_chdir os = 0 \<and> add_dup_out os = 0 \<and> add_dup_err os = 0 \<and> add_close_read os = 0 \<and>
     add_close_write os = 0 \<and> add_closefrom os = 0 \<and> (\<forall>e \<in> set (attr_calls os). e = 0) \<and>
     (\<forall>request. \<exists>process. os_spawn os request = Inr process)"

text \<open>Answers of read that are interrupted or bring a part of the output.\<close>

definition reads_ok :: "(int + string) list \<Rightarrow> bool" where
  "reads_ok reads \<longleftrightarrow> (\<forall>r \<in> set reads. r = Inl EINTR_NO \<or> (\<exists>chunk. r = Inr chunk \<and> chunk \<noteq> []))"

definition read_text :: "(int + string) list \<Rightarrow> string" where
  "read_text reads = concat (map (case_sum (\<lambda>_. []) (\<lambda>chunk. chunk)) reads)"

lemma drain_all:
  "reads_ok reads \<Longrightarrow> drainOutput os (reads @ Inr [] # rest) captured = Some (expected (), captured @ read_text reads)"
  by (induction reads arbitrary: captured) (auto simp: reads_ok_def read_text_def)

lemma wait_all:
  "waitForProcess os (replicate k (Inl EINTR_NO) @ Inr status # rest) =
     Some (exit_code status, WIFEXITED status \<or> WIFSIGNALED status)"
  by (induction k) auto

lemma first_error_zero: "\<forall>e \<in> set es. e = 0 \<Longrightarrow> first_error es = 0"
  by (induction es) auto

lemma actions_succeed:
  assumes "spawn_succeeds os"
  shows "configureFileActions os working_dir r w = Inr (concat (map snd (file_action_calls os working_dir r w)))"
    "\<exists>at. configureAttributes os = Inr at"
proof -
  have "\<forall>e \<in> set (map fst (file_action_calls os working_dir r w)). e = 0"
    using assms by (auto simp: spawn_succeeds_def file_action_calls_def split: option.splits if_splits)
  from first_error_zero [OF this]
  show "configureFileActions os working_dir r w = Inr (concat (map snd (file_action_calls os working_dir r w)))"
    by (simp add: configureFileActions_def Let_def)
  show "\<exists>at. configureAttributes os = Inr at"
    using assms by (simp add: configureAttributes_def spawn_succeeds_def first_error_zero)
qed

text \<open>The descriptors of the child.\<close>

lemma captured_fds:
  assumes "2 < r" "2 < w" "0 \<le> fd"
  shows "\<exists>child. run_actions (concat (map snd (file_action_calls os working_dir r w))) (fds(r \<mapsto> ro, w \<mapsto> wo)) = Some child \<and>
    child fd = (if fd = 0 then fds 0 else if fd \<le> 2 then Some wo else None)"
  using assms by (cases working_dir) (auto simp: file_action_calls_def)

lemma inherited_fds:
  assumes "0 \<le> fd"
  shows "\<exists>child. run_actions (concat (map snd (file_action_calls os working_dir (- 1) (- 1)))) fds = Some child \<and>
    child fd = (if fd \<le> 2 then fds fd else None)"
  by (cases working_dir) (auto simp: file_action_calls_def)



end
