(* ===== verification/File_Access.thy ===== *)
theory File_Access
  imports Parse Process_Exec
begin

text \<open>
  The lifetime of files (src/include/cob/file_handle.hpp, src/include/cob/file_descriptor.hpp, and the
  descriptor in \<open>writeBinData\<close> of src/binary.cpp), on Linux: the constructor of \<open>MappedFile\<close> call by
  call, its contents and destructor; \<open>FileDescriptor\<close>. The state of the process is its open
  descriptors and its mappings; what the system calls answer is a parameter.
\<close>

section \<open>Memory mapped files\<close>

text \<open>Descriptors refer to the bytes of a file; a mapping is known by its address. 0 is the null pointer.\<close>

record process_files =
  fds :: "int \<rightharpoonup> string"
  mappings :: "nat \<rightharpoonup> string"

record map_calls =
  open_call :: "int option"
  fstat_call :: "bool"
  mmap_call :: "int \<Rightarrow> nat option"

record MappedFile =
  mf_descriptor :: int
  file_data :: nat
  file_size :: nat

definition MAP_PRIVATE :: int where "MAP_PRIVATE = 2"
definition MAP_POPULATE :: int where "MAP_POPULATE = 0x8000"

definition new_MappedFile :: "map_calls \<Rightarrow> string \<Rightarrow> string \<Rightarrow> bool \<Rightarrow> process_files \<Rightarrow> (string + MappedFile) \<times> process_files" where
  "new_MappedFile os bytes p populate s =
     (case open_call os of
        None \<Rightarrow> (Inl (''Failed to open file: '' @ p), s)
      | Some fd \<Rightarrow>
          let s = s\<lparr>fds := (fds s)(fd \<mapsto> bytes)\<rparr>
          in if \<not> fstat_call os then (Inl (''Failed to stat file: '' @ p), s\<lparr>fds := (fds s)(fd := None)\<rparr>)
             else if length bytes = 0 then (Inr \<lparr>mf_descriptor = fd, file_data = 0, file_size = 0\<rparr>, s)
             else let flags = (if populate then MAP_POPULATE OR MAP_PRIVATE else MAP_PRIVATE)
                  in case mmap_call os flags of
                       None \<Rightarrow> (Inl (''Failed to mmap file: '' @ p), s\<lparr>fds := (fds s)(fd := None)\<rparr>)
                     | Some addr \<Rightarrow>
                         (Inr \<lparr>mf_descriptor = fd, file_data = addr, file_size = length bytes\<rparr>,
                          s\<lparr>mappings := (mappings s)(addr \<mapsto> bytes)\<rparr>))"

definition new_MappedUnfaultedFile :: "map_calls \<Rightarrow> string \<Rightarrow> string \<Rightarrow> process_files \<Rightarrow> (string + MappedFile) \<times> process_files" where
  "new_MappedUnfaultedFile os bytes p s = new_MappedFile os bytes p False s"

text \<open>\<open>content\<close>; \<open>None\<close>: the memory behind the view is not mapped.\<close>

definition file_content :: "MappedFile \<Rightarrow> process_files \<Rightarrow> string option" where
  "file_content f s =
     (if file_data f = 0 then Some [] else map_option (take (file_size f)) (mappings s (file_data f)))"

definition delete_MappedFile :: "MappedFile \<Rightarrow> process_files \<Rightarrow> process_files" where
  "delete_MappedFile f s =
     (let s = (if file_data f \<noteq> 0 then s\<lparr>mappings := (mappings s)(file_data f := None)\<rparr> else s)
      in if mf_descriptor f \<noteq> -1 then s\<lparr>fds := (fds s)(mf_descriptor f := None)\<rparr> else s)"

text \<open>The kernel hands out descriptors that are not open, and addresses that are not mapped.\<close>

definition kernel_ok :: "map_calls \<Rightarrow> process_files \<Rightarrow> bool" where
  "kernel_ok os s \<longleftrightarrow> (\<forall>fd. open_call os = Some fd \<longrightarrow> 0 \<le> fd \<and> fds s fd = None) \<and>
     (\<forall>flags addr. mmap_call os flags = Some addr \<longrightarrow> addr \<noteq> 0 \<and> mappings s addr = None)"

text \<open>The calls that answer as \<open>mapped\<close> of Parse.thy describes them.\<close>

definition calls_of :: "disk \<Rightarrow> string \<Rightarrow> int \<Rightarrow> nat \<Rightarrow> map_calls" where
  "calls_of d p fd addr =
     \<lparr>open_call = (if files_of d p = None \<or> map_answers d p = OpenFails then None else Some fd),
      fstat_call = (map_answers d p \<noteq> StatFails),
      mmap_call = (\<lambda>flags. if map_answers d p = MmapFails then None else Some addr)\<rparr>"

lemma process_files_eqI:
  "fds s = fds s' \<Longrightarrow> mappings s = mappings s' \<Longrightarrow> (s :: process_files) = s'"
  by simp

text \<open>Where the contents are to be read while the object lives.\<close>

definition still_mapped :: "process_files \<Rightarrow> process_files \<Rightarrow> bool" where
  "still_mapped s s' \<longleftrightarrow> (\<forall>addr bytes. mappings s addr = Some bytes \<longrightarrow> mappings s' addr = Some bytes)"



text \<open>\<open>mapped\<close> of Parse.thy is the outcome of the constructor.\<close>

lemma mapped_is_constructor:
  assumes "kernel_ok (calls_of d p fd addr) s" "addr \<noteq> 0"
  shows "mapped d p = (case new_MappedFile (calls_of d p fd addr) (the (files_of d p)) p populate s of
      (Inl what, s') \<Rightarrow> Inl what | (Inr f, s') \<Rightarrow> Inr (the (file_content f s')))"
  using assms
  by (cases "files_of d p"; cases "map_answers d p")
    (auto simp: mapped_def new_MappedFile_def calls_of_def file_content_def Let_def)

section \<open>File descriptors\<close>

text \<open>\<open>FileDescriptor\<close> of file_descriptor.hpp: the object is its number. \<open>close\<close> answers whether the
  call succeeded; the kernel releases the descriptor in any case. Closing a number that is not
  open fails.\<close>

definition delete_FileDescriptor :: "int \<Rightarrow> (int \<rightharpoonup> 'o) \<Rightarrow> (int \<rightharpoonup> 'o)" where
  "delete_FileDescriptor descriptor open_fds = close_fd descriptor open_fds"

definition FileDescriptor_close :: "bool \<Rightarrow> int \<Rightarrow> (int \<rightharpoonup> 'o) \<Rightarrow> bool \<times> int \<times> (int \<rightharpoonup> 'o)" where
  "FileDescriptor_close answer descriptor open_fds =
     (let descriptor_to_close = descriptor; descriptor = -1
      in (answer \<and> open_fds descriptor_to_close \<noteq> None, descriptor, open_fds(descriptor_to_close := None)))"

text \<open>The descriptor in \<open>writeBinData\<close>: opened at the start, closed before the successful return, and
  destroyed on every return. Between the close and the destructor other threads may open files:
  \<open>meanwhile\<close>.\<close>

definition writeBinData_fds ::
  "os_answers \<Rightarrow> BinHeader \<Rightarrow> string \<Rightarrow> int \<Rightarrow> 'o \<Rightarrow> ((int \<rightharpoonup> 'o) \<Rightarrow> (int \<rightharpoonup> 'o)) \<Rightarrow> (int \<rightharpoonup> 'o) \<Rightarrow>
    ((int \<rightharpoonup> 'o) \<times> unit result) option" where
  "writeBinData_fds os hdr payload fd object meanwhile open_fds =
     (if \<not> open_ok os then Some (delete_FileDescriptor (- 1) open_fds, unexpected ''Failed to open .catalyst.bin.tmp for writing'')
      else
        let open_fds = open_fds(fd \<mapsto> object)
        in do { (written, res) \<leftarrow> write_loop [put_header hdr, payload] (writes os) [];
                (case res of
                   Inl e \<Rightarrow> Some (delete_FileDescriptor fd (meanwhile open_fds), unexpected e)
                 | Inr _ \<Rightarrow>
                     let (ok, descriptor, open_fds) = FileDescriptor_close (close_ok os) fd open_fds
                     in Some (delete_FileDescriptor descriptor (meanwhile open_fds),
                          if \<not> ok then unexpected ''Failed to close .catalyst.bin.tmp after writing'' else expected ())) })"

text \<open>The cache file is closed once. On every path of writeBinData, with the results of the model of
  the writes in Binary_Cache.thy, the descriptor of the temporary file is closed exactly once: what
  other threads open in the meantime, also under the same number once it is free, stays open, and
  nothing else is left open.\<close>

theorem cache_file_closed_once:
  assumes "0 \<le> fd" "open_fds fd = None"
    and "\<And>a. a fd \<noteq> None \<Longrightarrow> meanwhile a = a ++ others |` (- {fd})" "\<And>a. a fd = None \<Longrightarrow> meanwhile a = a ++ others"
  shows "map_option snd (writeBinData_fds os hdr payload fd object meanwhile open_fds) =
      map_option snd (writeBinData os hdr payload fs) \<and>
    (\<forall>after res. writeBinData_fds os hdr payload fd object meanwhile open_fds = Some (after, res) \<longrightarrow>
       after = (if \<not> open_ok os then open_fds
                else if \<exists>file. write_loop [put_header hdr, payload] (writes os) [] = Some (file, Inr ()) then open_fds ++ others
                else open_fds ++ others |` (- {fd})))"
proof (cases "open_ok os")
  case False
  then show ?thesis by (simp add: writeBinData_fds_def writeBinData_def delete_FileDescriptor_def close_fd_def)
next
  case True
  have free: "open_fds(fd := None) = open_fds" using assms(2) by (simp add: fun_eq_iff)
  have closed: "meanwhile open_fds = open_fds ++ others" using assms(2) by (intro assms(4)) simp
  have failed: "(meanwhile (open_fds(fd \<mapsto> object)))(fd := None) = open_fds ++ others |` (- {fd})"
    using assms(2) assms(3) [of "open_fds(fd \<mapsto> object)"] by (auto simp: fun_eq_iff map_add_def restrict_map_def split: option.split)
  show ?thesis
  proof (cases "write_loop [put_header hdr, payload] (writes os) []")
    case None
    with True show ?thesis by (simp add: writeBinData_fds_def writeBinData_def)
  next
    case (Some x)
    obtain written res where x: "x = (written, res)" by fastforce
    show ?thesis
    proof (cases res)
      case (Inl e)
      with True Some x failed assms(1) show ?thesis
        by (simp add: writeBinData_fds_def writeBinData_def delete_FileDescriptor_def close_fd_def Let_def)
    next
      case (Inr u)
      with True Some x closed free show ?thesis
        by (simp add: writeBinData_fds_def writeBinData_def delete_FileDescriptor_def close_fd_def FileDescriptor_close_def Let_def)
    qed
  qed
qed

lemma cache_file_closed_once_witness:
  "writeBinData_fds (slow_disk\<lparr>writes := [WriteError]\<rparr>) (bin_header cached_example (sb_new 4) []) [] 3 ''tmp''
     (\<lambda>a. if a 3 \<noteq> None then a ++ [7 \<mapsto> ''log''] |` (- {3}) else a ++ [7 \<mapsto> ''log'']) [0 \<mapsto> ''in''] =
   Some ([0 \<mapsto> ''in'', 7 \<mapsto> ''log''], unexpected ''Failed to write .catalyst.bin.tmp'')"
  (is "?run = _")
proof -
  let ?os = "slow_disk\<lparr>writes := [WriteError]\<rparr>" and ?hdr = "bin_header cached_example (sb_new 4) []"
  have loop: "write_loop [put_header ?hdr, []] (writes ?os) [] = Some ([], unexpected ''Failed to write .catalyst.bin.tmp'')"
    by simp
  have open_ok: "open_ok ?os" by (simp add: slow_disk_def)
  have "map_option snd ?run = map_option snd (writeBinData ?os ?hdr [] Map.empty) \<and>
    (\<forall>after res. ?run = Some (after, res) \<longrightarrow> after =
       (if \<not> open_ok ?os then [0 \<mapsto> ''in'']
        else if \<exists>file. write_loop [put_header ?hdr, []] (writes ?os) [] = Some (file, Inr ()) then [0 \<mapsto> ''in''] ++ [7 \<mapsto> ''log'']
        else [0 \<mapsto> ''in''] ++ [7 \<mapsto> ''log''] |` (- {3})))"
    by (rule cache_file_closed_once [where others = "[7 \<mapsto> ''log'']"]) simp_all
  then show ?thesis using loop open_ok by (cases ?run) (auto simp: writeBinData_def)
qed

end
