(* ===== verification/Process_Step.thy ===== *)
theory Process_Step
  imports NodeTimes Formatting
begin

text \<open>
  One step of the build (src/executor.cpp): \<open>printMessage\<close> and \<open>processStep\<close>, with the progress
  messages they enqueue, the update of the command hash and the invalidation of the time cache.
  \<open>process_exec\<close> is a parameter: it maps the arguments and the file system to an error, or to an
  exit code and the captured output, and to the file system afterwards. The variant with
  \<open>FF_cob__logging\<close> and without \<open>FF_cob__profiling\<close> is modelled.
\<close>

section \<open>Configuration and context\<close>

record ExecutorConfig =
  dry_run :: bool
  clean_mode :: bool
  clean_cc_only :: bool
  silent :: bool
  keep_going :: bool
  jobs :: nat
  cfg_build_file :: string
  estimates_file :: string
  build_log_file :: string

record LogEvent =
  console_message :: string
  log_message :: string
  is_error :: bool
  is_poison_pill :: bool

record step_ctx =
  x_graph :: build_graph
  x_times :: node_times
  x_world :: world
  steps_completed :: nat
  hashes_changed :: bool
  progress :: "LogEvent list"
  stderr_text :: string

definition enqueue_message :: "string \<Rightarrow> string \<Rightarrow> bool \<Rightarrow> step_ctx \<Rightarrow> step_ctx" where
  "enqueue_message con lg err ctx =
     ctx\<lparr>progress := progress ctx @
       [\<lparr>console_message = con, log_message = lg, is_error = err, is_poison_pill = False\<rparr>]\<rparr>"

section \<open>\<open>printMessage\<close>\<close>

abbreviation (input) ESC :: char where "ESC \<equiv> CHR 0x1B"

definition action_name :: "build_step \<Rightarrow> string" where
  "action_name step =
     (if tool step = ''cc'' \<or> tool step = ''cxx'' then ''Compiling''
      else if tool step = ''ld'' then ''Linking''
      else if tool step = ''sld'' then ''Linking library''
      else if tool step = ''ar'' then ''Archiving''
      else tool step)"

definition target_name :: "build_step \<Rightarrow> string" where
  "target_name step =
     (if (tool step = ''cc'' \<or> tool step = ''cxx'') \<and> parsed_inputs step \<noteq> []
      then hd (parsed_inputs step) else output_path step)"

definition color_code :: "build_step \<Rightarrow> string" where
  "color_code step =
     (if tool step = ''cc'' \<or> tool step = ''cxx'' then ESC # ''[36m''
      else if tool step = ''ld'' then ESC # ''[32m''
      else if tool step = ''sld'' then ESC # ''[35m''
      else if tool step = ''ar'' then ESC # ''[33m''
      else [])"

definition action_text :: "bool \<Rightarrow> build_step \<Rightarrow> string" where
  "action_text is_tty step =
     (if is_tty then
        let padded = pad15 (action_name step)
        in if color_code step \<noteq> [] then color_code step @ padded @ ESC # ''[0m'' else padded
      else action_name step)"

definition printMessage :: "ExecutorConfig \<Rightarrow> build_step \<Rightarrow> bool \<Rightarrow> step_ctx \<Rightarrow> step_ctx" where
  "printMessage cfg step is_tty ctx =
     (if silent cfg then ctx
      else
        let action = action_text is_tty step; target = target_name step
        in if dry_run cfg
           then enqueue_message (''[DRY RUN] '' @ action @ '' '' @ target @ [LF]) [] False ctx
           else
             let current = decimal (steps_completed ctx + 1);
                 msg = (if is_tty then [CR, ESC] @ ''[K['' @ current @ ''] '' @ action @ '' '' @ target
                        else ''['' @ current @ ''] '' @ pad15 action @ '' '' @ target @ [LF])
             in enqueue_message msg [] False (ctx\<lparr>steps_completed := steps_completed ctx + 1\<rparr>))"

section \<open>\<open>processStep\<close>\<close>

text \<open>An error message goes to the progress thread, or to the standard error when there is none.\<close>

definition report_error :: "bool \<Rightarrow> string \<Rightarrow> step_ctx \<Rightarrow> step_ctx" where
  "report_error start_progress msg ctx =
     (if start_progress then enqueue_message msg [] True ctx
      else ctx\<lparr>stderr_text := stderr_text ctx @ msg\<rparr>)"

definition log_output :: "ExecutorConfig \<Rightarrow> build_step \<Rightarrow> int \<Rightarrow> string \<Rightarrow> step_ctx \<Rightarrow> step_ctx" where
  "log_output cfg step ec out ctx =
     (if build_log_file cfg \<noteq> [] \<and> out \<noteq> [] then
        enqueue_message (if \<not> silent cfg \<or> ec \<noteq> 0 then out else [])
          (''=== '' @ tool step @ '' -> '' @ output_path step @ '' ==='' @ [LF] @ out @
             (if last out \<noteq> LF then [LF] else []) @ [LF]) (ec \<noteq> 0) ctx
      else ctx)"

type_synonym exec_result = "string + int \<times> string"

definition write_file :: "int \<Rightarrow> (string \<times> string) option \<Rightarrow> world \<Rightarrow> world" where
  "write_file now f w =
     (case f of
        None \<Rightarrow> w
      | Some (p, _) \<Rightarrow> w\<lparr>w_exists := (w_exists w)(p := True), w_time := (w_time w)(p \<mapsto> now)\<rparr>)"

text \<open>After a successful command: a new hash is stored and noted, and the cached time is dropped.\<close>

definition step_succeeded :: "nat \<Rightarrow> nat \<Rightarrow> u64 \<Rightarrow> step_ctx \<Rightarrow> step_ctx" where
  "step_succeeded node_idx sid step_hash ctx =
     (let step = steps_m (x_graph ctx) ! sid;
          ctx = (if command_hash step \<noteq> step_hash
                 then ctx\<lparr>x_graph := (x_graph ctx)\<lparr>steps_m := (steps_m (x_graph ctx))
                            [sid := step\<lparr>command_hash := step_hash\<rparr>]\<rparr>, hashes_changed := True\<rparr>
                 else ctx)
      in ctx\<lparr>x_times := invalidate (x_times ctx) node_idx\<rparr>)"

text \<open>A link step recomputes its arguments, which may write the response file.\<close>

definition final_args ::
  "nat \<Rightarrow> ExecutorConfig \<Rightarrow> ToolchainFlags \<Rightarrow> int \<Rightarrow> build_step \<Rightarrow> string list \<Rightarrow> world \<Rightarrow> string list \<times> world" where
  "final_args rsp_threshold cfg tf now step args w =
     (if tool step = ''ld''
      then let (args, f) = buildCommandArgs rsp_threshold (cfg_build_file cfg) w step False tf
           in (args, write_file now f w)
      else (args, w))"

definition run_command ::
  "ExecutorConfig \<Rightarrow> build_step \<Rightarrow> nat \<Rightarrow> nat \<Rightarrow> u64 \<Rightarrow> exec_result \<Rightarrow> step_ctx \<Rightarrow> int \<times> step_ctx" where
  "run_command cfg step node_idx sid step_hash res ctx =
     (let start_progress = (\<not> silent cfg \<or> build_log_file cfg \<noteq> [])
      in case res of
           Inr (ec, out) \<Rightarrow>
             let ctx = log_output cfg step ec out ctx
             in if ec \<noteq> 0
                then (ec, report_error start_progress
                       (''Build failed: '' @ tool step @ '' -> '' @ output_path step @
                        '' (exit code '' @ decimal_int ec @ '')'' @ [LF]) ctx)
                else (0, step_succeeded node_idx sid step_hash ctx)
         | Inl err \<Rightarrow> (1, report_error start_progress (''Failed to execute: '' @ err @ [LF]) ctx))"

definition processStep ::
  "nat \<Rightarrow> ExecutorConfig \<Rightarrow> ToolchainFlags \<Rightarrow> (string list \<Rightarrow> world \<Rightarrow> exec_result \<times> world) \<Rightarrow> int \<Rightarrow> bool
    \<Rightarrow> nat \<Rightarrow> step_ctx \<Rightarrow> (int \<times> step_ctx) result" where
  "processStep rsp_threshold cfg tf process_exec now is_tty node_idx ctx =
     (case step_id (nodes_m (x_graph ctx) ! node_idx) of
        None \<Rightarrow> expected (0, ctx)
      | Some sid \<Rightarrow>
          let step = steps_m (x_graph ctx) ! sid
          in case needsRebuild rsp_threshold (x_world ctx) (x_graph ctx) step node_idx (x_times ctx) tf of
               Inl e \<Rightarrow> unexpected e
             | Inr (rebuild, nt, step_hash, args) \<Rightarrow>
                 let ctx = ctx\<lparr>x_times := nt\<rparr>
                 in if rebuild then
                      let ctx = printMessage cfg step is_tty ctx
                      in if dry_run cfg then expected (0, ctx)
                         else
                           let (args, w) = final_args rsp_threshold cfg tf now step args (x_world ctx);
                               (res, w) = process_exec args w
                           in expected (run_command cfg step node_idx sid step_hash res (ctx\<lparr>x_world := w\<rparr>))
                    else
                      expected (0, if \<not> silent cfg \<or> build_log_file cfg \<noteq> []
                                   then enqueue_message (''Skipping '' @ output_path step @ '' (up to date)'' @ [LF]) [] False ctx
                                   else ctx))"

section \<open>Frames\<close>

text \<open>Messages leave the build state alone.\<close>

definition same_build :: "step_ctx \<Rightarrow> step_ctx \<Rightarrow> bool" where
  "same_build c c' \<longleftrightarrow> x_graph c' = x_graph c \<and> x_times c' = x_times c \<and> x_world c' = x_world c \<and>
     hashes_changed c' = hashes_changed c"

lemma same_build_messages [simp]:
  "same_build c (enqueue_message con lg err c)" "same_build c (printMessage cfg step tty c)"
  "same_build c (report_error b m c)" "same_build c (log_output cfg step ec out c)" "same_build c c"
  by (auto simp: same_build_def enqueue_message_def printMessage_def report_error_def log_output_def Let_def)

lemma same_buildD:
  assumes "same_build c c'"
  shows "x_graph c' = x_graph c" "x_times c' = x_times c" "x_world c' = x_world c" "hashes_changed c' = hashes_changed c"
  using assms by (auto simp: same_build_def)

lemmas message_frame [simp] =
  same_buildD [OF same_build_messages(1)] same_buildD [OF same_build_messages(2)]
  same_buildD [OF same_build_messages(3)] same_buildD [OF same_build_messages(4)]

lemma same_build_sel_upd [simp]:
  "x_graph (c\<lparr>x_times := nt\<rparr>) = x_graph c" "x_world (c\<lparr>x_times := nt\<rparr>) = x_world c"
  by simp_all

lemma log_output_world [simp]:
  "x_graph (log_output cfg step ec out (c\<lparr>x_world := w\<rparr>)) = x_graph c"
  "x_times (log_output cfg step ec out (c\<lparr>x_world := w\<rparr>)) = x_times c"
  "hashes_changed (log_output cfg step ec out (c\<lparr>x_world := w\<rparr>)) = hashes_changed c"
  by simp_all

text \<open>The command of a step that is not a link step depends neither on the file system nor on the
  stored hash.\<close>

lemma command_independent:
  "tool step \<noteq> ''ld'' \<Longrightarrow> buildCommandArgs n bf w step dry tf = buildCommandArgs n bf w' (step\<lparr>command_hash := x\<rparr>) dry' tf"
  by (simp add: buildCommandArgs_def compile_args_def archive_args_def shared_args_def cong: if_cong)

definition ready_ctx :: "(string \<Rightarrow> u64) \<Rightarrow> ExecutorConfig \<Rightarrow> nat \<Rightarrow> nat \<Rightarrow> step_ctx \<Rightarrow> bool" where
  "ready_ctx h cfg node_idx sid ctx \<longleftrightarrow>
     graph_ok h (x_graph ctx) \<and> world_ok (x_world ctx) \<and> coherent h (x_world ctx) (x_graph ctx) (x_times ctx) \<and>
     build_file (x_times ctx) = cfg_build_file cfg \<and>
     node_idx < length (nodes_m (x_graph ctx)) \<and> step_id (nodes_m (x_graph ctx) ! node_idx) = Some sid"

definition step_command :: "nat \<Rightarrow> ExecutorConfig \<Rightarrow> ToolchainFlags \<Rightarrow> world \<Rightarrow> build_step \<Rightarrow> string list" where
  "step_command n cfg tf w step = fst (buildCommandArgs n (cfg_build_file cfg) w step True tf)"

text \<open>The two branches of \<open>processStep\<close>.\<close>

lemma ready_needs:
  assumes "ready_ctx h cfg v sid ctx"
  obtains nt args where "needsRebuild n (x_world ctx) (x_graph ctx) (steps_m (x_graph ctx) ! sid) v (x_times ctx) tf =
      Inr (out_of_date n (x_world ctx) (cfg_build_file cfg) (steps_m (x_graph ctx) ! sid) tf, nt,
        hashCommand (step_command n cfg tf (x_world ctx) (steps_m (x_graph ctx) ! sid)), args)"
    "coherent h (x_world ctx) (x_graph ctx) nt" "build_file nt = cfg_build_file cfg"
    "out_of_date n (x_world ctx) (cfg_build_file cfg) (steps_m (x_graph ctx) ! sid) tf \<Longrightarrow>
      args = step_command n cfg tf (x_world ctx) (steps_m (x_graph ctx) ! sid)"
  using assms needsRebuild_ok [of h "x_graph ctx" "x_world ctx" "x_times ctx" v sid n tf]
  by (auto simp: ready_ctx_def step_command_def)

lemma skipped_step:
  assumes "ready_ctx h cfg v sid ctx"
    and "\<not> out_of_date n (x_world ctx) (cfg_build_file cfg) (steps_m (x_graph ctx) ! sid) tf"
  shows "\<exists>ctx'. processStep n cfg tf pe now tty v ctx = Inr (0, ctx') \<and> x_graph ctx' = x_graph ctx \<and>
    x_world ctx' = x_world ctx \<and> hashes_changed ctx' = hashes_changed ctx \<and>
    command_hash (steps_m (x_graph ctx) ! sid) = hashCommand (step_command n cfg tf (x_world ctx) (steps_m (x_graph ctx) ! sid)) \<and>
    coherent h (x_world ctx) (x_graph ctx) (x_times ctx')"
proof -
  have sid: "step_id (nodes_m (x_graph ctx) ! v) = Some sid" using assms(1) by (simp add: ready_ctx_def)
  obtain nt args where nr: "needsRebuild n (x_world ctx) (x_graph ctx) (steps_m (x_graph ctx) ! sid) v (x_times ctx) tf =
      Inr (out_of_date n (x_world ctx) (cfg_build_file cfg) (steps_m (x_graph ctx) ! sid) tf, nt,
        hashCommand (step_command n cfg tf (x_world ctx) (steps_m (x_graph ctx) ! sid)), args)"
    "coherent h (x_world ctx) (x_graph ctx) nt"
    using ready_needs [OF assms(1), of n tf] by blast
  have "command_hash (steps_m (x_graph ctx) ! sid) = hashCommand (step_command n cfg tf (x_world ctx) (steps_m (x_graph ctx) ! sid))"
    using assms(2) by (auto simp: out_of_date_def step_command_def split: option.splits)
  then show ?thesis
    using nr assms(2) unfolding processStep_def sid by (simp add: Let_def)
qed

lemma run_command_cases:
  "fst (run_command cfg step v sid hash res ctx) = (case res of Inl e \<Rightarrow> 1 | Inr (ec, out) \<Rightarrow> ec)"
  "fst (run_command cfg step v sid hash res ctx) = 0 \<Longrightarrow>
    \<exists>ctx1. same_build ctx ctx1 \<and> snd (run_command cfg step v sid hash res ctx) = step_succeeded v sid hash ctx1"
  "fst (run_command cfg step v sid hash res ctx) \<noteq> 0 \<Longrightarrow>
    x_graph (snd (run_command cfg step v sid hash res ctx)) = x_graph ctx \<and>
    hashes_changed (snd (run_command cfg step v sid hash res ctx)) = hashes_changed ctx \<and>
    x_world (snd (run_command cfg step v sid hash res ctx)) = x_world ctx \<and>
    (stderr_text (snd (run_command cfg step v sid hash res ctx)) \<noteq> [] \<or>
     (\<exists>m \<in> set (progress (snd (run_command cfg step v sid hash res ctx))). is_error m \<and> console_message m \<noteq> []))"
proof -
  have msg: "m \<noteq> [] \<Longrightarrow> stderr_text (report_error b m c) \<noteq> [] \<or>
      (\<exists>x \<in> set (progress (report_error b m c)). is_error x \<and> console_message x \<noteq> [])" for b m c
    by (simp add: report_error_def enqueue_message_def)
  show "fst (run_command cfg step v sid hash res ctx) = (case res of Inl e \<Rightarrow> 1 | Inr (ec, out) \<Rightarrow> ec)"
    by (auto simp: run_command_def Let_def split: sum.split)
  show "fst (run_command cfg step v sid hash res ctx) = 0 \<Longrightarrow>
    \<exists>ctx1. same_build ctx ctx1 \<and> snd (run_command cfg step v sid hash res ctx) = step_succeeded v sid hash ctx1"
    by (auto simp: run_command_def Let_def split: sum.splits if_splits intro: same_build_messages(4))
  assume f: "fst (run_command cfg step v sid hash res ctx) \<noteq> 0"
  then obtain b m c where r: "snd (run_command cfg step v sid hash res ctx) = report_error b m c" "m \<noteq> []" "same_build ctx c"
  proof (cases res)
    case (Inl e)
    then show ?thesis by (intro that [of _ _ ctx]) (auto simp: run_command_def Let_def)
  next
    case (Inr x)
    obtain ec out where x: "x = (ec, out)" by force
    have "same_build ctx (log_output cfg step ec out ctx)" by simp
    with f Inr x show ?thesis by (intro that [of _ _ "log_output cfg step ec out ctx"]) (auto simp: run_command_def Let_def)
  qed
  then show "x_graph (snd (run_command cfg step v sid hash res ctx)) = x_graph ctx \<and>
    hashes_changed (snd (run_command cfg step v sid hash res ctx)) = hashes_changed ctx \<and>
    x_world (snd (run_command cfg step v sid hash res ctx)) = x_world ctx \<and>
    (stderr_text (snd (run_command cfg step v sid hash res ctx)) \<noteq> [] \<or>
     (\<exists>m \<in> set (progress (snd (run_command cfg step v sid hash res ctx))). is_error m \<and> console_message m \<noteq> []))"
    using msg [of m b c] same_buildD [OF r(3)] by simp
qed

lemma step_succeeded_sel:
  "steps_m (x_graph (step_succeeded v sid hash c)) =
     (steps_m (x_graph c))[sid := (steps_m (x_graph c) ! sid)\<lparr>command_hash := hash\<rparr>]"
  "nodes_m (x_graph (step_succeeded v sid hash c)) = nodes_m (x_graph c)"
  "index (x_graph (step_succeeded v sid hash c)) = index (x_graph c)"
  "x_world (step_succeeded v sid hash c) = x_world c"
  "hashes_changed (step_succeeded v sid hash c) \<longleftrightarrow> hashes_changed c \<or> command_hash (steps_m (x_graph c) ! sid) \<noteq> hash"
  "x_times (step_succeeded v sid hash c) = invalidate (x_times c) v"
  by (auto simp: step_succeeded_def Let_def)

lemma rebuilt_step:
  assumes "ready_ctx h cfg v sid ctx"
    and "out_of_date n (x_world ctx) (cfg_build_file cfg) (steps_m (x_graph ctx) ! sid) tf"
  obtains nt ctx1 where "coherent h (x_world ctx) (x_graph ctx) nt" "build_file nt = cfg_build_file cfg"
    "same_build (ctx\<lparr>x_times := nt\<rparr>) ctx1"
    "processStep n cfg tf pe now tty v ctx = Inr
      (if dry_run cfg then (0, ctx1)
       else let step = steps_m (x_graph ctx) ! sid; command = step_command n cfg tf (x_world ctx) step;
                (args, w) = final_args n cfg tf now step command (x_world ctx);
                (res, w) = pe args w
            in run_command cfg step v sid (hashCommand command) res (ctx1\<lparr>x_world := w\<rparr>))"
proof -
  let ?step = "steps_m (x_graph ctx) ! sid"
  have sid: "step_id (nodes_m (x_graph ctx) ! v) = Some sid" using assms(1) by (simp add: ready_ctx_def)
  obtain nt args where nr: "needsRebuild n (x_world ctx) (x_graph ctx) ?step v (x_times ctx) tf =
      Inr (True, nt, hashCommand (step_command n cfg tf (x_world ctx) ?step), args)"
    "coherent h (x_world ctx) (x_graph ctx) nt" "args = step_command n cfg tf (x_world ctx) ?step"
    "build_file nt = cfg_build_file cfg"
    using ready_needs [OF assms(1), of n tf] assms(2) by metis
  let ?ctx1 = "printMessage cfg ?step tty (ctx\<lparr>x_times := nt\<rparr>)"
  show ?thesis
  proof (rule that [OF nr(2,4), of ?ctx1])
    show "same_build (ctx\<lparr>x_times := nt\<rparr>) ?ctx1" by (rule same_build_messages(2))
    show "processStep n cfg tf pe now tty v ctx = Inr
      (if dry_run cfg then (0, ?ctx1)
       else let step = steps_m (x_graph ctx) ! sid; command = step_command n cfg tf (x_world ctx) step;
                (args, w) = final_args n cfg tf now step command (x_world ctx);
                (res, w) = pe args w
            in run_command cfg step v sid (hashCommand command) res (?ctx1\<lparr>x_world := w\<rparr>))"
      unfolding processStep_def sid using nr(1,3) by (simp add: Let_def split: prod.split)
  qed
qed

section \<open>Properties\<close>

definition plain_config :: "bool \<Rightarrow> ExecutorConfig" where
  "plain_config dry = \<lparr>dry_run = dry, clean_mode = False, clean_cc_only = False, silent = False, keep_going = False,
     jobs = 1, cfg_build_file = ''catalyst.build'', estimates_file = [], build_log_file = []\<rparr>"

definition start_ctx :: step_ctx where
  "start_ctx = \<lparr>x_graph = compile_graph,
     x_times = new_node_times (\<lambda>_. 7) edited compile_graph ''catalyst.build'' 1, x_world = edited,
     steps_completed = 0, hashes_changed = False, progress = [], stderr_text = []\<rparr>"

definition compiler :: "bool \<Rightarrow> string list \<Rightarrow> world \<Rightarrow> exec_result \<times> world" where
  "compiler works args w =
     (if works then (Inr (0, []), w\<lparr>w_time := (w_time w)(''a.o'' \<mapsto> 12)\<rparr>) else (Inr (2, []), w))"

lemma start_ctx_ready: "ready_ctx (\<lambda>_. 7) (plain_config dry) 0 0 start_ctx"
  using new_node_times_coherent [OF graph_ok_range graph_ok_sources edited_ok, of "\<lambda>_. 7" compile_graph]
    compile_graph_ok edited_ok
  by (auto simp: ready_ctx_def start_ctx_def plain_config_def compile_graph_values)

lemma start_ctx_out_of_date: "out_of_date n edited ''catalyst.build'' (steps_m compile_graph ! 0) tf"
proof -
  have "''a.cpp'' \<in> set (step_inputs (steps_m compile_graph ! 0))" by code_simp
  moreover have "stale edited ''a.cpp'' 5" "w_time edited ''a.o'' = Some 5" by (simp_all add: stale_def edited_def)
  ultimately show ?thesis by (auto simp: out_of_date_def compile_graph_values)
qed

lemma compile_step_values:
  "tool (steps_m compile_graph ! 0) = ''cxx''" "step_inputs (steps_m compile_graph ! 0) = [''a.cpp'']"
  "length (steps_m compile_graph) = 1"
  by code_simp+

lemma start_ctx_run:
  obtains ctx' where "processStep 50 (plain_config False) plain_tools (compiler works) 20 False 0 start_ctx =
      Inr (if works then 0 else 2, ctx')"
    "x_world ctx' = snd (compiler works [] edited)"
proof -
  have d: "out_of_date 50 (x_world start_ctx) (cfg_build_file (plain_config False)) (steps_m (x_graph start_ctx) ! 0) plain_tools"
    using start_ctx_out_of_date by (simp add: start_ctx_def plain_config_def)
  obtain nt ctx1 where c: "same_build (start_ctx\<lparr>x_times := nt\<rparr>) ctx1"
    "processStep 50 (plain_config False) plain_tools (compiler works) 20 False 0 start_ctx = Inr
      (if dry_run (plain_config False) then (0, ctx1)
       else let step = steps_m (x_graph start_ctx) ! 0;
                command = step_command 50 (plain_config False) plain_tools (x_world start_ctx) step;
                (args, w) = final_args 50 (plain_config False) plain_tools 20 step command (x_world start_ctx);
                (res, w) = compiler works args w
            in run_command (plain_config False) step 0 0 (hashCommand command) res (ctx1\<lparr>x_world := w\<rparr>))"
    by (rule rebuilt_step [OF start_ctx_ready d])
  let ?w = "snd (compiler works [] edited)" and ?res = "fst (compiler works [] edited)"
  let ?step = "steps_m compile_graph ! 0"
  let ?command = "step_command 50 (plain_config False) plain_tools edited ?step"
  let ?run = "run_command (plain_config False) ?step 0 0 (hashCommand ?command) ?res (ctx1\<lparr>x_world := ?w\<rparr>)"
  have "processStep 50 (plain_config False) plain_tools (compiler works) 20 False 0 start_ctx = Inr ?run"
    unfolding c(2) by (simp add: Let_def start_ctx_def final_args_def compile_step_values plain_config_def compiler_def)
  moreover have "fst ?run = (if works then 0 else 2)" by (simp add: run_command_cases(1) compiler_def)
  moreover have "x_world (snd ?run) = ?w"
    using run_command_cases(2,3) [of "plain_config False" ?step 0 0 "hashCommand ?command" ?res "ctx1\<lparr>x_world := ?w\<rparr>"]
    by (cases "fst ?run = 0") (auto simp: step_succeeded_sel same_build_def)
  ultimately show ?thesis by (intro that [of "snd ?run"]) (simp_all add: prod_eq_iff)
qed

text \<open>A step that succeeds is not run again. After \<open>processStep\<close> has returned 0 outside of a dry
  run, the graph is as before except that the step carries the hash of its command; if the output
  is then newer than the build file and the inputs, a compile, archive or shared-library step is up
  to date.\<close>

theorem successful_step_up_to_date:
  assumes "ready_ctx h cfg v sid ctx" "\<not> dry_run cfg"
    and "processStep n cfg tf pe now tty v ctx = Inr (0, ctx')"
    and "sid < length (steps_m (x_graph ctx))" "tool (steps_m (x_graph ctx) ! sid) \<noteq> ''ld''"
    and "w_time (x_world ctx') (output_path (steps_m (x_graph ctx) ! sid)) = Some t"
    and "\<forall>p \<in> set (cfg_build_file cfg # step_inputs (steps_m (x_graph ctx) ! sid)). \<not> stale (x_world ctx') p t"
  shows "\<not> out_of_date n (x_world ctx') (cfg_build_file cfg) (steps_m (x_graph ctx') ! sid) tf \<and>
    nodes_m (x_graph ctx') = nodes_m (x_graph ctx) \<and>
    steps_m (x_graph ctx') = (steps_m (x_graph ctx))[sid := (steps_m (x_graph ctx) ! sid)
      \<lparr>command_hash := hashCommand (step_command n cfg tf (x_world ctx) (steps_m (x_graph ctx) ! sid))\<rparr>]"
proof -
  let ?step = "steps_m (x_graph ctx) ! sid"
  let ?hash = "hashCommand (step_command n cfg tf (x_world ctx) ?step)"
  have g: "nodes_m (x_graph ctx') = nodes_m (x_graph ctx) \<and>
      steps_m (x_graph ctx') = (steps_m (x_graph ctx))[sid := ?step\<lparr>command_hash := ?hash\<rparr>]"
  proof (cases "out_of_date n (x_world ctx) (cfg_build_file cfg) ?step tf")
    case False
    then have "?step\<lparr>command_hash := ?hash\<rparr> = ?step" "x_graph ctx' = x_graph ctx"
      using skipped_step [OF assms(1) False, of pe now tty] assms(3) by auto
    then show ?thesis by (simp only: list_update_id)
  next
    case True
    obtain nt ctx1 where c: "same_build (ctx\<lparr>x_times := nt\<rparr>) ctx1"
      "processStep n cfg tf pe now tty v ctx = Inr
        (if dry_run cfg then (0, ctx1)
         else let step = steps_m (x_graph ctx) ! sid; command = step_command n cfg tf (x_world ctx) step;
                (args, w) = final_args n cfg tf now step command (x_world ctx);
                (res, w) = pe args w
            in run_command cfg step v sid (hashCommand command) res (ctx1\<lparr>x_world := w\<rparr>))"
      by (rule rebuilt_step [OF assms(1) True])
    obtain a w res w' where "final_args n cfg tf now ?step (step_command n cfg tf (x_world ctx) ?step) (x_world ctx) = (a, w)"
      "pe a w = (res, w')" by (metis surj_pair)
    with c(2) assms(2,3) have run: "run_command cfg ?step v sid ?hash res (ctx1\<lparr>x_world := w'\<rparr>) = (0, ctx')"
      by (simp add: Let_def)
    then obtain ctx2 where "same_build (ctx1\<lparr>x_world := w'\<rparr>) ctx2" "ctx' = step_succeeded v sid ?hash ctx2"
      using run_command_cases(2) [of cfg ?step v sid ?hash res "ctx1\<lparr>x_world := w'\<rparr>"] by auto
    then show ?thesis using same_buildD [OF c(1)] by (simp add: step_succeeded_sel same_build_def)
  qed
  have "out_of_date n (x_world ctx') (cfg_build_file cfg) (?step\<lparr>command_hash := ?hash\<rparr>) tf = False"
    using assms(6,7) command_independent [OF assms(5), of n "cfg_build_file cfg" "x_world ctx" True tf "x_world ctx'" ?hash True]
    by (auto simp: out_of_date_def step_command_def step_inputs_def)
  then show ?thesis using g assms(4) by simp
qed

lemma successful_step_up_to_date_witness:
  "\<exists>ctx'. processStep 50 (plain_config False) plain_tools (compiler True) 20 False 0 start_ctx = Inr (0, ctx') \<and>
    \<not> out_of_date 50 (x_world ctx') ''catalyst.build'' (steps_m (x_graph ctx') ! 0) plain_tools"
proof -
  obtain ctx' where c: "processStep 50 (plain_config False) plain_tools (compiler True) 20 False 0 start_ctx = Inr (0, ctx')"
    "x_world ctx' = snd (compiler True [] edited)"
    using start_ctx_run [of True] by auto
  have "\<not> out_of_date 50 (x_world ctx') (cfg_build_file (plain_config False)) (steps_m (x_graph ctx') ! 0) plain_tools"
    by (rule successful_step_up_to_date [where t = 12, OF start_ctx_ready _ c(1), THEN conjunct1])
      (simp_all add: plain_config_def start_ctx_def compile_step_values compile_graph_values c(2) compiler_def stale_def edited_def)
  with c(1) show ?thesis by (auto simp: plain_config_def)
qed

text \<open>A step that fails stays to be done. When \<open>processStep\<close> returns a non-zero code, the graph
  with its hashes and the flag that decides about saving them are as before, and an error message
  was issued.\<close>

theorem failed_step_keeps_state:
  assumes "ready_ctx h cfg v sid ctx" "processStep n cfg tf pe now tty v ctx = Inr (r, ctx')" "r \<noteq> 0"
  shows "x_graph ctx' = x_graph ctx \<and> hashes_changed ctx' = hashes_changed ctx \<and>
    (stderr_text ctx' \<noteq> [] \<or> (\<exists>m \<in> set (progress ctx'). is_error m \<and> console_message m \<noteq> []))"
proof -
  let ?step = "steps_m (x_graph ctx) ! sid"
  have out: "out_of_date n (x_world ctx) (cfg_build_file cfg) ?step tf"
    using skipped_step [OF assms(1), of n tf pe now tty] assms(2,3) by auto
  obtain nt ctx1 where c: "same_build (ctx\<lparr>x_times := nt\<rparr>) ctx1"
    "processStep n cfg tf pe now tty v ctx = Inr
      (if dry_run cfg then (0, ctx1)
       else let step = steps_m (x_graph ctx) ! sid; command = step_command n cfg tf (x_world ctx) step;
                (args, w) = final_args n cfg tf now step command (x_world ctx);
                (res, w) = pe args w
            in run_command cfg step v sid (hashCommand command) res (ctx1\<lparr>x_world := w\<rparr>))"
    by (rule rebuilt_step [OF assms(1) out])
  obtain a w res w' where "final_args n cfg tf now ?step (step_command n cfg tf (x_world ctx) ?step) (x_world ctx) = (a, w)"
    "pe a w = (res, w')" by (metis surj_pair)
  with c(2) assms(2,3)
  have run: "run_command cfg ?step v sid (hashCommand (step_command n cfg tf (x_world ctx) ?step)) res
      (ctx1\<lparr>x_world := w'\<rparr>) = (r, ctx')"
    by (auto simp: Let_def split: if_splits)
  let ?r = "run_command cfg ?step v sid (hashCommand (step_command n cfg tf (x_world ctx) ?step)) res (ctx1\<lparr>x_world := w'\<rparr>)"
  have "fst ?r \<noteq> 0" unfolding run using assms(3) by simp
  from run_command_cases(3) [OF this] show ?thesis
    unfolding run snd_conv using same_buildD [OF c(1)] by simp
qed

lemma failed_step_keeps_state_witness:
  "\<exists>ctx'. processStep 50 (plain_config False) plain_tools (compiler False) 20 False 0 start_ctx = Inr (2, ctx') \<and>
    x_graph ctx' = compile_graph"
proof -
  obtain ctx' where c: "processStep 50 (plain_config False) plain_tools (compiler False) 20 False 0 start_ctx = Inr (2, ctx')"
    using start_ctx_run [of False] by auto
  then show ?thesis using failed_step_keeps_state [OF start_ctx_ready c] by (simp add: start_ctx_def)
qed

text \<open>A dry run does nothing. It returns 0 for every step, executes no process (its result does not
  depend on \<open>process_exec\<close>), and leaves the graph and the file system as they are.\<close>

theorem dry_run_changes_nothing:
  assumes "ready_ctx h cfg v sid ctx" "dry_run cfg"
  shows "\<exists>ctx'. (\<forall>pe. processStep n cfg tf pe now tty v ctx = Inr (0, ctx')) \<and>
    x_graph ctx' = x_graph ctx \<and> x_world ctx' = x_world ctx \<and> hashes_changed ctx' = hashes_changed ctx"
proof -
  have sid: "step_id (nodes_m (x_graph ctx) ! v) = Some sid" using assms(1) by (simp add: ready_ctx_def)
  obtain b nt args where nr: "needsRebuild n (x_world ctx) (x_graph ctx) (steps_m (x_graph ctx) ! sid) v (x_times ctx) tf =
      Inr (b, nt, hashCommand (step_command n cfg tf (x_world ctx) (steps_m (x_graph ctx) ! sid)), args)"
    using ready_needs [OF assms(1), of n tf] by metis
  show ?thesis unfolding processStep_def sid using assms(2) nr by (cases b) (simp_all add: Let_def)
qed

lemma dry_run_changes_nothing_witness:
  "\<exists>ctx'. processStep 50 (plain_config True) plain_tools (compiler True) 20 False 0 start_ctx = Inr (0, ctx') \<and>
    x_world ctx' = edited"
  using dry_run_changes_nothing [OF start_ctx_ready, of True 50 plain_tools 20 False]
  by (auto simp: start_ctx_def plain_config_def)

end
