(* ===== verification/Rebuild.thy ===== *)
theory Rebuild
  imports Process_Step TopoSort
begin

text \<open>
  A whole build by one worker: \<open>processStep\<close> on the nodes in an order the scheduler can choose, until
  a step fails. The commands are a parameter with the behaviour that is expected of a tool: of the
  files the build looks at (the nodes, the build file and the names of response files) it writes its
  output and nothing else, and an output it has written is newer than the others. It may write
  whatever else it likes, such as a dependency file.
\<close>

section \<open>A run\<close>

fun run_steps ::
  "nat \<Rightarrow> ExecutorConfig \<Rightarrow> ToolchainFlags \<Rightarrow> (string list \<Rightarrow> world \<Rightarrow> exec_result \<times> world) \<Rightarrow> int \<Rightarrow> bool \<Rightarrow> nat list \<Rightarrow>
    step_ctx \<Rightarrow> (int \<times> step_ctx) result" where
  "run_steps n cfg tf pe now tty [] ctx = expected (0, ctx)"
| "run_steps n cfg tf pe now tty (v # vs) ctx =
     (case processStep n cfg tf pe now tty v ctx of
        Inl e \<Rightarrow> unexpected e
      | Inr (r, ctx) \<Rightarrow> if r \<noteq> 0 then expected (r, ctx) else run_steps n cfg tf pe now tty vs ctx)"

definition fresh_ctx :: "(string \<Rightarrow> u64) \<Rightarrow> ExecutorConfig \<Rightarrow> nat \<Rightarrow> build_graph \<Rightarrow> world \<Rightarrow> step_ctx" where
  "fresh_ctx h cfg thread_count g w =
     \<lparr>x_graph = g, x_times = new_node_times h w g (cfg_build_file cfg) thread_count, x_world = w,
      steps_completed = 0, hashes_changed = False, progress = [], stderr_text = []\<rparr>"

section \<open>What is expected of the tools and the files\<close>

definition known_files :: "ExecutorConfig \<Rightarrow> build_graph \<Rightarrow> string list" where
  "known_files cfg g = cfg_build_file cfg # map path (nodes_m g)"

abbreviation rsp_of :: "build_step \<Rightarrow> string" where
  "rsp_of step \<equiv> replace_extension (output_path step) ''.rsp''"

definition watched_files :: "ExecutorConfig \<Rightarrow> build_graph \<Rightarrow> string list" where
  "watched_files cfg g = known_files cfg g @ map rsp_of (steps_m g)"

definition writes_only :: "string list \<Rightarrow> string \<Rightarrow> world \<Rightarrow> world \<Rightarrow> bool" where
  "writes_only files p w w' \<longleftrightarrow>
     (\<forall>q \<in> set files. q \<noteq> p \<longrightarrow> w_time w' q = w_time w q \<and> w_exists w' q = w_exists w q)"

definition is_newest :: "string list \<Rightarrow> string \<Rightarrow> world \<Rightarrow> bool" where
  "is_newest files p w \<longleftrightarrow> (\<exists>t. w_time w p = Some t \<and> (\<forall>q \<in> set files. \<forall>x. q \<noteq> p \<longrightarrow> w_time w q = Some x \<longrightarrow> x < t))"

definition tool_contract ::
  "nat \<Rightarrow> ExecutorConfig \<Rightarrow> ToolchainFlags \<Rightarrow> build_graph \<Rightarrow> (string list \<Rightarrow> world \<Rightarrow> exec_result \<times> world) \<Rightarrow> bool" where
  "tool_contract n cfg tf g pe \<longleftrightarrow>
     (\<forall>step \<in> set (steps_m g). \<forall>w res w'. world_ok w \<longrightarrow> pe (step_command n cfg tf w step) w = (res, w') \<longrightarrow>
        world_ok w' \<and> writes_only (watched_files cfg g) (output_path step) w w' \<and>
        (\<forall>out. res = Inr (0, out) \<longrightarrow> is_newest (known_files cfg g) (output_path step) w'))"

text \<open>The build file and the sources exist, and no step makes the build file.\<close>

definition inputs_there :: "ExecutorConfig \<Rightarrow> build_graph \<Rightarrow> world \<Rightarrow> bool" where
  "inputs_there cfg g w \<longleftrightarrow> w_time w (cfg_build_file cfg) \<noteq> None \<and>
     (\<forall>v < length (nodes_m g). \<not> produced g v \<longrightarrow> w_time w (path (nodes_m g ! v)) \<noteq> None)"

definition build_file_is_source :: "ExecutorConfig \<Rightarrow> build_graph \<Rightarrow> bool" where
  "build_file_is_source cfg g \<longleftrightarrow> (\<forall>v < length (nodes_m g). path (nodes_m g ! v) = cfg_build_file cfg \<longrightarrow> \<not> produced g v)"

text \<open>Link steps pass their inputs on the command line.\<close>

definition plain_links :: "nat \<Rightarrow> build_graph \<Rightarrow> world \<Rightarrow> bool" where
  "plain_links n g w \<longleftrightarrow> (\<forall>step \<in> set (steps_m g). tool step = ''ld'' \<longrightarrow>
     length (parsed_inputs step) \<le> n \<and> \<not> w_exists w (rsp_of step) \<and> (\<forall>other \<in> set (steps_m g). output_path other \<noteq> rsp_of step))"

section \<open>The hashes of a graph change, its shape does not\<close>

definition same_shape :: "build_graph \<Rightarrow> build_graph \<Rightarrow> bool" where
  "same_shape g g' \<longleftrightarrow> nodes_m g' = nodes_m g \<and> index g' = index g \<and> length (steps_m g') = length (steps_m g) \<and>
     (\<forall>i < length (steps_m g). \<exists>c. steps_m g' ! i = (steps_m g ! i)\<lparr>command_hash := c\<rparr>)"

lemma same_shapeD:
  assumes "same_shape g g'"
  shows "nodes_m g' = nodes_m g" "index g' = index g" "length (steps_m g') = length (steps_m g)"
    "i < length (steps_m g) \<Longrightarrow> \<exists>c. steps_m g' ! i = (steps_m g ! i)\<lparr>command_hash := c\<rparr>"
  using assms by (auto simp: same_shape_def)

lemma same_shape_refl: "same_shape g g"
proof -
  have "s = s\<lparr>command_hash := command_hash s\<rparr>" for s :: build_step by simp
  then show ?thesis unfolding same_shape_def by blast
qed

lemma hash_fields [simp]:
  "step_inputs (s\<lparr>command_hash := c\<rparr>) = step_inputs s"
  by (simp add: step_inputs_def)

lemma same_shape_fields:
  assumes "same_shape g g'" "i < length (steps_m g)"
  shows "output_path (steps_m g' ! i) = output_path (steps_m g ! i)" "tool (steps_m g' ! i) = tool (steps_m g ! i)"
    "step_inputs (steps_m g' ! i) = step_inputs (steps_m g ! i)"
  using same_shapeD(4) [OF assms] by auto

lemma same_shape_update:
  assumes "same_shape g g0" "nodes_m g' = nodes_m g" "index g' = index g"
    and "steps_m g' = (steps_m g0)[sid := (steps_m g0 ! sid)\<lparr>command_hash := c\<rparr>]"
  shows "same_shape g g'"
proof -
  have "\<exists>c. steps_m g' ! i = (steps_m g ! i)\<lparr>command_hash := c\<rparr>" if i: "i < length (steps_m g)" for i
  proof -
    obtain c0 where c0: "steps_m g0 ! i = (steps_m g ! i)\<lparr>command_hash := c0\<rparr>"
      using same_shapeD(4) [OF assms(1) i] by blast
    show ?thesis
    proof (cases "i = sid")
      case True
      with c0 i same_shapeD(3) [OF assms(1)] have "steps_m g' ! i = (steps_m g ! i)\<lparr>command_hash := c\<rparr>"
        by (simp add: assms(4))
      then show ?thesis by blast
    next
      case False
      with c0 show ?thesis by (auto simp: assms(4))
    qed
  qed
  with assms same_shapeD(3) [OF assms(1)] show ?thesis by (simp add: same_shape_def)
qed

lemma same_shape_ok:
  assumes "graph_ok h g" "same_shape g g'"
  shows "graph_ok h g'"
proof -
  note D = same_shapeD [OF assms(2)] and F = same_shape_fields [OF assms(2)]
  have s: "succs g' = succs g" using D(1) by (simp add: succs_def fun_eq_iff)
  have p: "producers_ok g" using assms(1) by (simp add: graph_ok_def)
  have inputs: "node_inputs g' v = node_inputs g v" if "v < length (nodes_m g)" for v
    using that p F(3) D(1) by (auto simp: node_inputs_def producers_ok_def split: option.split)
  have "producers_ok g'" using p D F(1) by (auto simp: producers_ok_def)
  moreover have "edges_match g' (node_inputs g')"
    using assms(1) D(1) inputs s by (simp add: graph_ok_def edges_match_def)
  ultimately show ?thesis using assms(1) D s by (simp add: graph_ok_def index_ok_def edges_in_range_def)
qed

lemma coherent_cong:
  assumes "nodes_m g' = nodes_m g" "index g' = index g"
  shows "coherent h w g' nt = coherent h w g nt"
proof -
  have p: "produced g' = produced g" "succs g' = succs g"
    using assms(1) by (simp_all add: produced_def succs_def fun_eq_iff)
  moreover have "produced_edges g' = produced_edges g" unfolding produced_edges_def p assms(1) by (rule refl)
  moreover have "source_stale w g' = source_stale w g" by (intro ext) (simp add: source_stale_def p assms(1))
  ultimately show ?thesis using assms p by (simp add: coherent_def findNode_def)
qed

text \<open>The command of a step does not depend on its stored hash, nor on the files.\<close>

lemma command_stable:
  assumes "tool step = ''ld'' \<longrightarrow> length (parsed_inputs step) \<le> n \<and> \<not> w_exists w (rsp_of step) \<and> \<not> w_exists w' (rsp_of step)"
  shows "buildCommandArgs n bf w' (step\<lparr>command_hash := c\<rparr>) dry tf = (fst (buildCommandArgs n bf w step True tf), None)"
  using assms
  by (auto simp: buildCommandArgs_def link_args_def choose_rsp_def compile_args_def archive_args_def shared_args_def Let_def
      cong: if_cong)

lemma out_of_date_frame:
  assumes "fst (buildCommandArgs n bf w' step True tf) = fst (buildCommandArgs n bf w step True tf)"
    and "\<forall>p \<in> set (output_path step # bf # step_inputs step). w_time w' p = w_time w p"
  shows "out_of_date n w' bf step tf = out_of_date n w bf step tf"
  using assms by (auto simp: out_of_date_def stale_def split: option.split)

section \<open>One step of a run\<close>

definition built ::
  "(string \<Rightarrow> u64) \<Rightarrow> nat \<Rightarrow> ExecutorConfig \<Rightarrow> ToolchainFlags \<Rightarrow> build_graph \<Rightarrow> nat set \<Rightarrow> step_ctx \<Rightarrow> bool" where
  "built h n cfg tf g finished ctx \<longleftrightarrow>
     same_shape g (x_graph ctx) \<and> world_ok (x_world ctx) \<and> coherent h (x_world ctx) (x_graph ctx) (x_times ctx) \<and>
     build_file (x_times ctx) = cfg_build_file cfg \<and> inputs_there cfg g (x_world ctx) \<and> plain_links n g (x_world ctx) \<and>
     (\<forall>v \<in> finished. \<forall>sid. step_id (nodes_m g ! v) = Some sid \<longrightarrow>
        \<not> out_of_date n (x_world ctx) (cfg_build_file cfg) (steps_m (x_graph ctx) ! sid) tf)"

lemma builtD:
  assumes "built h n cfg tf g finished ctx"
  shows "same_shape g (x_graph ctx)" "world_ok (x_world ctx)" "coherent h (x_world ctx) (x_graph ctx) (x_times ctx)"
    "build_file (x_times ctx) = cfg_build_file cfg" "inputs_there cfg g (x_world ctx)" "plain_links n g (x_world ctx)"
    "v \<in> finished \<Longrightarrow> step_id (nodes_m g ! v) = Some sid \<Longrightarrow>
      \<not> out_of_date n (x_world ctx) (cfg_build_file cfg) (steps_m (x_graph ctx) ! sid) tf"
  using assms unfolding built_def by blast+

lemma built_ready:
  assumes "graph_ok h g" "built h n cfg tf g finished ctx" "v < length (nodes_m g)" "step_id (nodes_m g ! v) = Some sid"
  shows "ready_ctx h cfg v sid ctx"
  using assms(3,4) builtD [OF assms(2)] same_shape_ok [OF assms(1)] same_shapeD(1) [OF builtD(1) [OF assms(2)]]
  by (simp add: ready_ctx_def)

lemma up_to_date_exists: "\<not> out_of_date n w bf step tf \<Longrightarrow> w_time w (output_path step) \<noteq> None"
  by (auto simp: out_of_date_def split: option.splits)

text \<open>A step that is up to date is skipped, and nothing changes but the messages and the caches.\<close>

lemma skip_step:
  assumes "graph_ok h g" "built h n cfg tf g finished ctx" "v < length (nodes_m g)" "step_id (nodes_m g ! v) = Some sid"
    and "\<not> out_of_date n (x_world ctx) (cfg_build_file cfg) (steps_m (x_graph ctx) ! sid) tf"
  shows "\<exists>ctx'. processStep n cfg tf pe now tty v ctx = Inr (0, ctx') \<and> x_graph ctx' = x_graph ctx \<and>
    x_world ctx' = x_world ctx \<and> hashes_changed ctx' = hashes_changed ctx \<and> built h n cfg tf g (insert v finished) ctx'"
proof -
  note ready = built_ready [OF assms(1-4)]
  have sid: "step_id (nodes_m (x_graph ctx) ! v) = Some sid" using ready by (simp add: ready_ctx_def)
  obtain nt args where nr: "needsRebuild n (x_world ctx) (x_graph ctx) (steps_m (x_graph ctx) ! sid) v (x_times ctx) tf =
      Inr (out_of_date n (x_world ctx) (cfg_build_file cfg) (steps_m (x_graph ctx) ! sid) tf, nt,
        hashCommand (step_command n cfg tf (x_world ctx) (steps_m (x_graph ctx) ! sid)), args)"
    "coherent h (x_world ctx) (x_graph ctx) nt" "build_file nt = cfg_build_file cfg"
    using ready_needs [OF ready, of n tf] by blast
  let ?ctx = "ctx\<lparr>x_times := nt\<rparr>"
  let ?ctx' = "if \<not> silent cfg \<or> build_log_file cfg \<noteq> []
    then enqueue_message (''Skipping '' @ output_path (steps_m (x_graph ctx) ! sid) @ '' (up to date)'' @ [LF]) [] False ?ctx
    else ?ctx"
  have run: "processStep n cfg tf pe now tty v ctx = Inr (0, ?ctx')"
    using nr(1) assms(5) unfolding processStep_def sid by (simp add: Let_def)
  have same: "x_graph ?ctx' = x_graph ctx" "x_world ?ctx' = x_world ctx" "x_times ?ctx' = nt"
    "hashes_changed ?ctx' = hashes_changed ctx"
    by (simp_all add: enqueue_message_def)
  have "built h n cfg tf g (insert v finished) ?ctx'"
    unfolding built_def same using builtD [OF assms(2)] nr(2,3) assms(4,5) by auto
  with run same show ?thesis by blast
qed

text \<open>What a successful command leaves.\<close>

lemma rebuilt:
  assumes "graph_ok h g" "built h n cfg tf g finished ctx" "v < length (nodes_m g)" "step_id (nodes_m g ! v) = Some sid"
    and "tool_contract n cfg tf g pe" "\<not> dry_run cfg"
    and "out_of_date n (x_world ctx) (cfg_build_file cfg) (steps_m (x_graph ctx) ! sid) tf"
    and "processStep n cfg tf pe now tty v ctx = Inr (0, ctx')"
  obtains nt where "coherent h (x_world ctx) (x_graph ctx) nt" "build_file nt = cfg_build_file cfg"
    "x_times ctx' = invalidate nt v" "nodes_m (x_graph ctx') = nodes_m g" "index (x_graph ctx') = index g"
    "steps_m (x_graph ctx') = (steps_m (x_graph ctx))[sid := (steps_m (x_graph ctx) ! sid)
       \<lparr>command_hash := hashCommand (step_command n cfg tf (x_world ctx) (steps_m g ! sid))\<rparr>]"
    "world_ok (x_world ctx')" "writes_only (watched_files cfg g) (path (nodes_m g ! v)) (x_world ctx) (x_world ctx')"
    "is_newest (known_files cfg g) (path (nodes_m g ! v)) (x_world ctx')"
proof -
  note B = builtD [OF assms(2)]
  let ?w = "x_world ctx" and ?step = "steps_m g ! sid" and ?st = "steps_m (x_graph ctx) ! sid"
  have sid: "sid < length (steps_m g)" "output_path ?step = path (nodes_m g ! v)"
    using assms(1,3,4) by (auto simp: graph_ok_def producers_ok_def)
  obtain c where st: "?st = ?step\<lparr>command_hash := c\<rparr>" using same_shapeD(4) [OF B(1) sid(1)] by blast
  have mem: "?step \<in> set (steps_m g)" using sid(1) by simp
  then have link: "tool ?step = ''ld'' \<longrightarrow> length (parsed_inputs ?step) \<le> n \<and> \<not> w_exists ?w (rsp_of ?step) \<and> \<not> w_exists ?w (rsp_of ?step)"
    using B(6) by (auto simp: plain_links_def)
  let ?command = "step_command n cfg tf ?w ?step"
  have command: "buildCommandArgs n (cfg_build_file cfg) ?w ?st dry tf = (?command, None)" for dry
    unfolding st step_command_def by (rule command_stable [OF link])
  obtain nt ctx1 where c: "coherent h ?w (x_graph ctx) nt" "build_file nt = cfg_build_file cfg"
    "same_build (ctx\<lparr>x_times := nt\<rparr>) ctx1"
    "processStep n cfg tf pe now tty v ctx = Inr
      (if dry_run cfg then (0, ctx1)
       else let step = ?st; command = step_command n cfg tf ?w step;
                (args, w) = final_args n cfg tf now step command ?w;
                (res, w) = pe args w
            in run_command cfg step v sid (hashCommand command) res (ctx1\<lparr>x_world := w\<rparr>))"
    by (rule rebuilt_step [OF built_ready [OF assms(1-4)] assms(7)])
  obtain res w' where pe: "pe ?command ?w = (res, w')" by fastforce
  have "final_args n cfg tf now ?st ?command ?w = (?command, ?w)"
    by (simp add: final_args_def command write_file_def)
  with c(4) assms(6,8) pe have run: "run_command cfg ?st v sid (hashCommand ?command) res (ctx1\<lparr>x_world := w'\<rparr>) = (0, ctx')"
    by (simp add: Let_def step_command_def [of n cfg tf ?w ?st] command)
  then have "fst (run_command cfg ?st v sid (hashCommand ?command) res (ctx1\<lparr>x_world := w'\<rparr>)) = 0" by simp
  then obtain out where out: "res = Inr (0, out)" by (auto simp: run_command_cases(1) split: sum.splits)
  obtain ctx2 where c2: "same_build (ctx1\<lparr>x_world := w'\<rparr>) ctx2" "ctx' = step_succeeded v sid (hashCommand ?command) ctx2"
    using run_command_cases(2) [of cfg ?st v sid "hashCommand ?command" res "ctx1\<lparr>x_world := w'\<rparr>"] run by auto
  have same: "x_graph ctx2 = x_graph ctx" "x_times ctx2 = nt" "x_world ctx2 = w'"
    using same_buildD [OF c2(1)] same_buildD [OF c(3)] by simp_all
  have "world_ok w' \<and> writes_only (watched_files cfg g) (output_path ?step) ?w w' \<and> is_newest (known_files cfg g) (output_path ?step) w'"
    using assms(5) mem B(2) pe out unfolding tool_contract_def by blast
  then show ?thesis
    using that [OF c(1,2)] c2(2) same same_shapeD(1,2) [OF B(1)] sid(2) by (simp add: step_succeeded_sel)
qed

text \<open>The inputs of a step that are nodes processed before it, or sources, exist.\<close>

lemma inputs_exist:
  assumes g: "graph_ok h g" and B: "built h n cfg tf g finished ctx" and v: "v < length (nodes_m g)" "step_id (nodes_m g ! v) = Some sid"
    and before: "\<forall>u < length (nodes_m g). v \<in> set (succs g u) \<longrightarrow> u \<in> finished"
    and p: "p \<in> set (step_inputs (steps_m g ! sid))"
  shows "w_time (x_world ctx) p \<noteq> None \<and> p \<in> set (known_files cfg g)"
proof -
  obtain u where u: "u < length (nodes_m g)" "v \<in> set (succs g u)" "path (nodes_m g ! u) = p"
    using inputs_are_edges [OF g v, of "\<lambda>q. q = p"] p by auto
  have "w_time (x_world ctx) p \<noteq> None"
  proof (cases "step_id (nodes_m g ! u)")
    case None
    with builtD(5) [OF B] u show ?thesis by (auto simp: inputs_there_def produced_def)
  next
    case (Some s)
    have "s < length (steps_m g)" "output_path (steps_m g ! s) = p"
      using g u(1,3) Some by (auto simp: graph_ok_def producers_ok_def)
    with same_shape_fields(1) [OF builtD(1) [OF B]] have "output_path (steps_m (x_graph ctx) ! s) = p" by simp
    with up_to_date_exists [OF builtD(7) [OF B _ Some]] before u show ?thesis by auto
  qed
  with u show ?thesis by (auto simp: known_files_def)
qed

lemma run_one:
  assumes g: "graph_ok h g" "build_file_is_source cfg g" and B: "built h n cfg tf g finished ctx"
    and v: "v < length (nodes_m g)" and contract: "tool_contract n cfg tf g pe" "\<not> dry_run cfg"
    and before: "\<forall>u < length (nodes_m g). v \<in> set (succs g u) \<longrightarrow> u \<in> finished"
    and after: "\<forall>u \<in> finished. u < length (nodes_m g) \<and> u \<noteq> v \<and> u \<notin> set (succs g v)"
    and self: "v \<notin> set (succs g v)"
    and run: "processStep n cfg tf pe now tty v ctx = Inr (0, ctx')"
  shows "built h n cfg tf g (insert v finished) ctx'"
proof (cases "step_id (nodes_m g ! v)")
  case None
  with run same_shapeD(1) [OF builtD(1) [OF B]] have "ctx' = ctx" by (simp add: processStep_def)
  with B None show ?thesis by (auto simp: built_def)
next
  case sid: (Some sid)
  note D = builtD [OF B]
  show ?thesis
  proof (cases "out_of_date n (x_world ctx) (cfg_build_file cfg) (steps_m (x_graph ctx) ! sid) tf")
    case False
    with skip_step [OF g(1) B v sid False, of pe now tty] run show ?thesis by auto
  next
    case True
    let ?w = "x_world ctx" and ?w' = "x_world ctx'" and ?p = "path (nodes_m g ! v)" and ?step = "steps_m g ! sid"
    obtain nt where r: "coherent h ?w (x_graph ctx) nt" "build_file nt = cfg_build_file cfg"
      "x_times ctx' = invalidate nt v" "nodes_m (x_graph ctx') = nodes_m g" "index (x_graph ctx') = index g"
      "steps_m (x_graph ctx') = (steps_m (x_graph ctx))[sid := (steps_m (x_graph ctx) ! sid)
         \<lparr>command_hash := hashCommand (step_command n cfg tf ?w ?step)\<rparr>]"
      "world_ok ?w'" "writes_only (watched_files cfg g) ?p ?w ?w'" "is_newest (known_files cfg g) ?p ?w'"
      by (rule rebuilt [OF g(1) B v sid contract True run])
    have step: "sid < length (steps_m g)" "output_path ?step = ?p" using g(1) v sid by (auto simp: graph_ok_def producers_ok_def)
    have bf: "?p \<noteq> cfg_build_file cfg" using g(2) v sid by (auto simp: build_file_is_source_def produced_def)
    have time: "q \<noteq> ?p \<Longrightarrow> q \<in> set (watched_files cfg g) \<Longrightarrow> w_time ?w' q = w_time ?w q"
      "q \<noteq> ?p \<Longrightarrow> q \<in> set (watched_files cfg g) \<Longrightarrow> w_exists ?w' q = w_exists ?w q" for q
      using r(8) by (auto simp: writes_only_def)
    have seen: "cfg_build_file cfg \<in> set (watched_files cfg g)"
      "q \<in> set (known_files cfg g) \<Longrightarrow> q \<in> set (watched_files cfg g)"
      "u < length (nodes_m g) \<Longrightarrow> path (nodes_m g ! u) \<in> set (watched_files cfg g)"
      "st \<in> set (steps_m g) \<Longrightarrow> rsp_of st \<in> set (watched_files cfg g)" for q u st
      by (auto simp: watched_files_def known_files_def)
    have other: "u < length (nodes_m g) \<Longrightarrow> u \<noteq> v \<Longrightarrow> path (nodes_m g ! u) \<noteq> ?p" for u
      using path_unique [of h g u v] g(1) v by (auto simp: graph_ok_def)
    have shape: "same_shape g (x_graph ctx')" by (rule same_shape_update [OF D(1) r(4-6)])
    have coh: "coherent h ?w' (x_graph ctx') (x_times ctx')"
    proof -
      have "coherent h ?w' (x_graph ctx) (invalidate nt v)"
        by (rule invalidate_coherent [OF same_shape_ok [OF g(1) D(1)] r(1)])
          (use v sid r(2) time(1) seen(1,2) in \<open>auto simp: same_shapeD(1) [OF D(1)] produced_def known_files_def\<close>)
      then show ?thesis
        unfolding r(3) using coherent_cong [of "x_graph ctx'" "x_graph ctx"] r(4,5) same_shapeD(1,2) [OF D(1)] by simp
    qed
    have there: "inputs_there cfg g ?w'"
      unfolding inputs_there_def
    proof (intro conjI allI impI)
      show "w_time ?w' (cfg_build_file cfg) \<noteq> None"
        using D(5) time(1) [of "cfg_build_file cfg"] bf seen(1) by (simp add: inputs_there_def)
      fix u assume u: "u < length (nodes_m g)" "\<not> produced g u"
      then have "u \<noteq> v" using sid by (auto simp: produced_def)
      then show "w_time ?w' (path (nodes_m g ! u)) \<noteq> None"
        using u D(5) time(1) [OF other [OF u(1)] seen(3) [OF u(1)]] by (simp add: inputs_there_def)
    qed
    have links: "plain_links n g ?w'"
    proof -
      have "?step \<in> set (steps_m g)" using step(1) by simp
      then show ?thesis using D(6) time(2) seen(4) step(2) unfolding plain_links_def by metis
    qed
    have stable: "buildCommandArgs n (cfg_build_file cfg) w1 (st\<lparr>command_hash := c\<rparr>) True tf =
        (step_command n cfg tf ?w st, None)" if "st \<in> set (steps_m g)" "w1 = ?w \<or> w1 = ?w'" for st c w1
      using command_stable [of st n ?w w1 "cfg_build_file cfg" c True tf] D(6) links that
      by (auto simp: plain_links_def step_command_def)
    have no_input: "?p \<notin> set (step_inputs (steps_m g ! s))"
      if "u < length (nodes_m g)" "step_id (nodes_m g ! u) = Some s" "u \<notin> set (succs g v)" for u s
      using inputs_are_edges [OF g(1) that(1,2), of "\<lambda>q. q = ?p"] that(3) other by auto
    have new: "\<not> out_of_date n ?w' (cfg_build_file cfg) (steps_m (x_graph ctx') ! sid) tf"
    proof -
      let ?hash = "hashCommand (step_command n cfg tf ?w ?step)"
      obtain c0 where "steps_m (x_graph ctx) ! sid = ?step\<lparr>command_hash := c0\<rparr>"
        using same_shapeD(4) [OF D(1) step(1)] by blast
      then have st: "steps_m (x_graph ctx') ! sid = ?step\<lparr>command_hash := ?hash\<rparr>"
        using step(1) same_shapeD(3) [OF D(1)] by (simp add: r(6))
      obtain t where t: "w_time ?w' ?p = Some t"
        "\<And>q x. q \<in> set (known_files cfg g) \<Longrightarrow> q \<noteq> ?p \<Longrightarrow> w_time ?w' q = Some x \<Longrightarrow> x < t"
        using r(9) by (auto simp: is_newest_def)
      have fresh: "\<not> stale ?w' q t" if "q \<in> set (known_files cfg g)" "q \<noteq> ?p" "w_time ?w q \<noteq> None" for q
        using t(2) [OF that(1,2)] that(3) time(1) [OF that(2) seen(2) [OF that(1)]] by (auto simp: stale_def)
      have "\<not> stale ?w' q t" if q: "q \<in> set (step_inputs ?step)" for q
      proof (rule fresh)
        show "q \<in> set (known_files cfg g)" "w_time ?w q \<noteq> None" using inputs_exist [OF g(1) B v sid before q] by simp_all
        show "q \<noteq> ?p" using no_input [OF v sid self] q by auto
      qed
      moreover have "\<not> stale ?w' (cfg_build_file cfg) t"
        by (rule fresh) (use bf D(5) in \<open>auto simp: known_files_def inputs_there_def\<close>)
      moreover have "?step \<in> set (steps_m g)" using step(1) by simp
      ultimately show ?thesis
        unfolding st using t(1) step(2) stable [of ?step ?w' ?hash] by (simp add: out_of_date_def)
    qed
    have old: "\<not> out_of_date n ?w' (cfg_build_file cfg) (steps_m (x_graph ctx') ! s) tf"
      if u: "u \<in> finished" "step_id (nodes_m g ! u) = Some s" for u s
    proof -
      have un: "u < length (nodes_m g)" "u \<noteq> v" "u \<notin> set (succs g v)" using after u(1) by blast+
      have s: "s < length (steps_m g)" "output_path (steps_m g ! s) = path (nodes_m g ! u)"
        using g(1) un(1) u(2) by (auto simp: graph_ok_def producers_ok_def)
      then have ne: "s \<noteq> sid" "output_path (steps_m g ! s) \<noteq> ?p" using other [OF un(1,2)] step(2) by auto
      obtain c0 where c0: "steps_m (x_graph ctx) ! s = (steps_m g ! s)\<lparr>command_hash := c0\<rparr>"
        using same_shapeD(4) [OF D(1) s(1)] by blast
      have "steps_m g ! s \<in> set (steps_m g)" using s(1) by simp
      note cmd = stable [OF this, of ?w c0] stable [OF this, of ?w' c0]
      have kept: "q \<in> set (output_path (steps_m g ! s) # cfg_build_file cfg # step_inputs (steps_m g ! s)) \<Longrightarrow>
          w_time ?w' q = w_time ?w q" for q
        using ne(2) s(2) bf no_input [OF un(1) u(2) un(3)] inputs_are_edges [OF g(1) un(1) u(2), of "\<lambda>p. p = q"] seen(1,3) un(1)
        by (intro time(1)) auto
      have "out_of_date n ?w' (cfg_build_file cfg) (steps_m (x_graph ctx) ! s) tf =
          out_of_date n ?w (cfg_build_file cfg) (steps_m (x_graph ctx) ! s) tf"
        unfolding c0
        by (rule out_of_date_frame) (use cmd kept in auto)
      then show ?thesis using D(7) [OF u] ne(1) by (simp add: r(6))
    qed
    have "build_file (x_times ctx') = cfg_build_file cfg" using r(2,3) by (simp add: invalidate_def Let_def)
    moreover have "\<forall>u \<in> insert v finished. \<forall>s. step_id (nodes_m g ! u) = Some s \<longrightarrow>
        \<not> out_of_date n ?w' (cfg_build_file cfg) (steps_m (x_graph ctx') ! s) tf"
      using new old sid by simp
    ultimately show ?thesis unfolding built_def using shape r(7) coh there links by blast
  qed
qed

section \<open>Whole runs\<close>

lemma topological_split:
  assumes "is_topological g (xs @ v # rest)"
  shows "v < length (nodes_m g)" "\<forall>u < length (nodes_m g). v \<in> set (succs g u) \<longrightarrow> u \<in> set xs"
    "\<forall>u \<in> set xs. u < length (nodes_m g) \<and> u \<noteq> v \<and> u \<notin> set (succs g v)" "v \<notin> set (succs g v)"
proof -
  let ?order = "xs @ v # rest"
  have T: "distinct ?order" "set ?order = {..<length (nodes_m g)}"
    "\<And>i j. i < length ?order \<Longrightarrow> j < length ?order \<Longrightarrow> ?order ! j \<in> set (succs g (?order ! i)) \<Longrightarrow> i < j"
    using assms unfolding is_topological_def by blast+
  have v: "?order ! length xs = v" "length xs < length ?order" by simp_all
  show "v < length (nodes_m g)" using T(2) by auto
  show "v \<notin> set (succs g v)" using T(3) [OF v(2) v(2)] v(1) by auto
  show "\<forall>u < length (nodes_m g). v \<in> set (succs g u) \<longrightarrow> u \<in> set xs"
  proof (intro allI impI)
    fix u assume u: "u < length (nodes_m g)" "v \<in> set (succs g u)"
    then have "u \<in> set ?order" using T(2) by simp
    then obtain i where i: "i < length ?order" "?order ! i = u" unfolding in_set_conv_nth by blast
    with T(3) [OF i(1) v(2)] v(1) u(2) have "i < length xs" by simp
    with i(2) show "u \<in> set xs" by (auto simp: nth_append)
  qed
  show "\<forall>u \<in> set xs. u < length (nodes_m g) \<and> u \<noteq> v \<and> u \<notin> set (succs g v)"
  proof (intro ballI conjI)
    fix u assume u: "u \<in> set xs"
    then show "u < length (nodes_m g)" using T(2) by auto
    show "u \<noteq> v" using u T(1) by auto
    obtain i where i: "i < length xs" "xs ! i = u" using u by (auto simp: in_set_conv_nth)
    then have "?order ! i = u" "i < length ?order" by (simp_all add: nth_append)
    with T(3) [OF v(2), of i] v(1) i(1) show "u \<notin> set (succs g v)" by auto
  qed
qed

lemma run_builds:
  assumes "graph_ok h g" "build_file_is_source cfg g" "tool_contract n cfg tf g pe" "\<not> dry_run cfg"
    and "is_topological g (xs @ rest)" "built h n cfg tf g (set xs) ctx" "run_steps n cfg tf pe now tty rest ctx = Inr (0, ctx')"
  shows "built h n cfg tf g (set (xs @ rest)) ctx'"
  using assms(5-7)
proof (induction rest arbitrary: xs ctx)
  case (Cons v rest)
  obtain ctx1 where step: "processStep n cfg tf pe now tty v ctx = Inr (0, ctx1)"
    "run_steps n cfg tf pe now tty rest ctx1 = Inr (0, ctx')"
    using Cons.prems(3) by (auto split: sum.splits if_splits)
  note T = topological_split [OF Cons.prems(1)]
  have "built h n cfg tf g (insert v (set xs)) ctx1"
    by (rule run_one [OF assms(1,2) Cons.prems(2) T(1) assms(3,4) T(2-4) step(1)])
  then have "built h n cfg tf g (set (xs @ [v])) ctx1" by simp
  from Cons.IH [OF _ this step(2)] Cons.prems(1) show ?case by simp
qed simp

lemma run_skips:
  assumes "graph_ok h g" "built h n cfg tf g {..<length (nodes_m g)} ctx" "set vs \<subseteq> {..<length (nodes_m g)}"
  shows "\<exists>ctx'. run_steps n cfg tf pe now tty vs ctx = Inr (0, ctx') \<and> x_graph ctx' = x_graph ctx \<and>
    x_world ctx' = x_world ctx \<and> hashes_changed ctx' = hashes_changed ctx"
  using assms(2,3)
proof (induction vs arbitrary: ctx)
  case (Cons v vs)
  have v: "v < length (nodes_m g)" using Cons.prems(2) by simp
  obtain ctx1 where step: "processStep n cfg tf pe now tty v ctx = Inr (0, ctx1)" "x_graph ctx1 = x_graph ctx"
    "x_world ctx1 = x_world ctx" "hashes_changed ctx1 = hashes_changed ctx" "built h n cfg tf g {..<length (nodes_m g)} ctx1"
  proof (cases "step_id (nodes_m g ! v)")
    case None
    then show ?thesis using that [of ctx] Cons.prems(1) same_shapeD(1) [OF builtD(1) [OF Cons.prems(1)]]
      by (simp add: processStep_def)
  next
    case (Some sid)
    from builtD(7) [OF Cons.prems(1) _ Some] v
    have "\<not> out_of_date n (x_world ctx) (cfg_build_file cfg) (steps_m (x_graph ctx) ! sid) tf" by simp
    from skip_step [OF assms(1) Cons.prems(1) v Some this, of pe now tty] v that show ?thesis
      by (auto simp: insert_absorb)
  qed
  have "set vs \<subseteq> {..<length (nodes_m g)}" using Cons.prems(2) by simp
  from Cons.IH [OF step(5) this] step show ?case by simp
qed simp

lemma fresh_built:
  assumes "graph_ok h g" "same_shape g g1" "world_ok w" "inputs_there cfg g w" "plain_links n g w"
    and "\<forall>v \<in> finished. \<forall>sid. step_id (nodes_m g ! v) = Some sid \<longrightarrow> \<not> out_of_date n w (cfg_build_file cfg) (steps_m g1 ! sid) tf"
  shows "built h n cfg tf g finished (fresh_ctx h cfg tc g1 w)"
proof -
  have g1: "graph_ok h g1" by (rule same_shape_ok [OF assms(1,2)])
  from new_node_times_coherent [OF graph_ok_range [OF g1] graph_ok_sources [OF g1] assms(3), of h "cfg_build_file cfg" tc]
  show ?thesis using assms(2-6) by (simp add: built_def fresh_ctx_def)
qed

lemma run_built:
  assumes "graph_ok h g" "world_ok w" "inputs_there cfg g w" "build_file_is_source cfg g" "plain_links n g w"
    and "tool_contract n cfg tf g pe" "\<not> dry_run cfg" "is_topological g order"
    and "run_steps n cfg tf pe now tty order (fresh_ctx h cfg threads g w) = Inr (0, ctx)"
  shows "built h n cfg tf g {..<length (nodes_m g)} ctx"
proof -
  have "built h n cfg tf g (set []) (fresh_ctx h cfg threads g w)"
    by (rule fresh_built [OF assms(1) same_shape_refl assms(2,3,5)]) simp
  with run_builds [OF assms(1,4,6,7), of "[]" order "fresh_ctx h cfg threads g w" now tty ctx] assms(8,9)
  show ?thesis by (simp add: is_topological_def)
qed

text \<open>A build that succeeded has nothing left to do. Take a well-formed graph without cycles whose
  sources and build file exist, and tools that change, of the files the build looks at, only their
  output, and make it newer than the others when they succeed. If one worker has processed all nodes, in an order that respects the
  dependencies, and every step returned 0, then every output exists, and the next build, which starts
  with empty caches, the files and the hashes the first one left, whatever the commands would do, in
  any order of the nodes: runs no command, changes no file and no hash, and succeeds.\<close>

theorem second_build_does_nothing:
  assumes "graph_ok h g" "world_ok w" "inputs_there cfg g w" "build_file_is_source cfg g" "plain_links n g w"
    and "tool_contract n cfg tf g pe" "\<not> dry_run cfg" "is_topological g order"
    and "run_steps n cfg tf pe now tty order (fresh_ctx h cfg threads g w) = Inr (0, ctx)"
  shows "(\<forall>v < length (nodes_m g). produced g v \<longrightarrow> w_time (x_world ctx) (path (nodes_m g ! v)) \<noteq> None) \<and>
    (\<forall>pe' now' tty' threads' nodes'. set nodes' \<subseteq> {..<length (nodes_m g)} \<longrightarrow>
       (\<exists>ctx'. run_steps n cfg tf pe' now' tty' nodes' (fresh_ctx h cfg threads' (x_graph ctx) (x_world ctx)) = Inr (0, ctx') \<and>
          x_world ctx' = x_world ctx \<and> x_graph ctx' = x_graph ctx \<and> \<not> hashes_changed ctx'))"
proof -
  note B = run_built [OF assms]
  have outputs: "w_time (x_world ctx) (path (nodes_m g ! v)) \<noteq> None" if v: "v < length (nodes_m g)" "produced g v" for v
  proof -
    obtain sid where sid: "step_id (nodes_m g ! v) = Some sid" using v(2) by (auto simp: produced_def)
    have "sid < length (steps_m g)" "output_path (steps_m g ! sid) = path (nodes_m g ! v)"
      using assms(1) v(1) sid by (auto simp: graph_ok_def producers_ok_def)
    with same_shape_fields(1) [OF builtD(1) [OF B]] up_to_date_exists [OF builtD(7) [OF B _ sid]] v(1) show ?thesis by simp
  qed
  have again: "\<exists>ctx'. run_steps n cfg tf pe' now' tty' nodes' (fresh_ctx h cfg threads' (x_graph ctx) (x_world ctx)) = Inr (0, ctx') \<and>
      x_world ctx' = x_world ctx \<and> x_graph ctx' = x_graph ctx \<and> \<not> hashes_changed ctx'"
    if "set nodes' \<subseteq> {..<length (nodes_m g)}" for pe' now' tty' threads' nodes'
  proof -
    have "built h n cfg tf g {..<length (nodes_m g)} (fresh_ctx h cfg threads' (x_graph ctx) (x_world ctx))"
      by (rule fresh_built [OF assms(1) builtD(1,2,5,6) [OF B]]) (use builtD(7) [OF B] in blast)
    from run_skips [OF assms(1) this that, of pe' now' tty'] show ?thesis
      unfolding fresh_ctx_def by simp blast
  qed
  from outputs again show ?thesis by blast
qed

text \<open>An example: a compiler with a clock, which also leaves a dependency file behind.\<close>

definition clock_compiler :: "string list \<Rightarrow> world \<Rightarrow> exec_result \<times> world" where
  "clock_compiler args w =
     (let seen = List.map_filter (w_time w) [''a.cpp'', ''catalyst.build''];
          t = 1 + foldr max seen 0
      in (Inr (0, []), w\<lparr>w_exists := (w_exists w)(''a.o'' := True, ''a.o.d'' := True),
            w_time := (w_time w)(''a.o'' \<mapsto> t, ''a.o.d'' \<mapsto> t)\<rparr>))"

lemma foldr_max_ge: "x \<in> set xs \<or> x = a \<Longrightarrow> (x :: int) \<le> foldr max xs a"
  by (induction xs) (auto simp: le_max_iff_disj)

lemma compile_known: "known_files (plain_config False) compile_graph = [''catalyst.build'', ''a.o'', ''a.cpp'']"
  by code_simp

lemma compile_watched:
  "watched_files (plain_config False) compile_graph = [''catalyst.build'', ''a.o'', ''a.cpp'', ''a.rsp'']"
  by code_simp

lemma clock_compiler_ok: "tool_contract 50 (plain_config False) tf compile_graph clock_compiler"
proof -
  have one: "step = steps_m compile_graph ! 0" if "step \<in> set (steps_m compile_graph)" for step
    using that compile_step_values(3) by (auto simp: in_set_conv_nth)
  have "world_ok w' \<and> writes_only (watched_files (plain_config False) compile_graph) ''a.o'' w w' \<and> is_newest (known_files (plain_config False) compile_graph) ''a.o'' w'"
    if w: "world_ok w" "clock_compiler args w = (res, w')" for args w res w'
  proof -
    define t where "t = 1 + foldr max (List.map_filter (w_time w) [''a.cpp'', ''catalyst.build'']) (0 :: int)"
    have w': "w' = w\<lparr>w_exists := (w_exists w)(''a.o'' := True, ''a.o.d'' := True), w_time := (w_time w)(''a.o'' \<mapsto> t, ''a.o.d'' \<mapsto> t)\<rparr>"
      using w(2) by (simp add: clock_compiler_def Let_def t_def)
    have "0 < t" using foldr_max_ge [of 0] by (simp add: t_def add.commute add_strict_increasing)
    moreover have "x < t" if "w_time w q = Some x" "q \<in> {''a.cpp'', ''catalyst.build''}" for q x
    proof -
      have "x \<in> set (List.map_filter (w_time w) [''a.cpp'', ''catalyst.build''])"
        using that by (auto simp: List.map_filter_simps split: option.split)
      then have "x \<le> foldr max (List.map_filter (w_time w) [''a.cpp'', ''catalyst.build'']) 0" by (intro foldr_max_ge disjI1)
      then show ?thesis by (simp add: t_def)
    qed
    ultimately show ?thesis
      using w(1) unfolding w' by (auto simp: world_ok_def writes_only_def is_newest_def compile_known compile_watched min_time_def)
  qed
  then show ?thesis unfolding tool_contract_def using one compile_graph_values(6) by metis
qed

lemma example_run:
  "\<exists>ctx. run_steps 50 (plain_config False) tf clock_compiler 20 False [1, 0]
     (fresh_ctx (\<lambda>_. 7) (plain_config False) 1 compile_graph edited) = Inr (0, ctx)"
proof -
  let ?cfg = "plain_config False" and ?start = "fresh_ctx (\<lambda>_. 7) (plain_config False) 1 compile_graph edited"
  have start: "?start = start_ctx" by (simp add: fresh_ctx_def start_ctx_def plain_config_def)
  have d: "out_of_date 50 (x_world start_ctx) (cfg_build_file ?cfg) (steps_m (x_graph start_ctx) ! 0) tf"
    using start_ctx_out_of_date by (simp add: start_ctx_def plain_config_def)
  have "\<exists>ctx. processStep 50 ?cfg tf clock_compiler 20 False 0 start_ctx = Inr (0, ctx)"
  proof (rule rebuilt_step [OF start_ctx_ready d])
    fix nt ctx1
    assume "processStep 50 ?cfg tf clock_compiler 20 False 0 start_ctx = Inr
      (if dry_run ?cfg then (0, ctx1)
       else let step = steps_m (x_graph start_ctx) ! 0; command = step_command 50 ?cfg tf (x_world start_ctx) step;
                (args, w) = final_args 50 ?cfg tf 20 step command (x_world start_ctx);
                (res, w) = clock_compiler args w
            in run_command ?cfg step 0 0 (hashCommand command) res (ctx1\<lparr>x_world := w\<rparr>))"
    moreover have "fst (run_command ?cfg step 0 0 hash (Inr (0, [])) c) = 0" for step hash c
      by (simp add: run_command_cases(1))
    ultimately show ?thesis
      by (simp add: plain_config_def start_ctx_def final_args_def compile_step_values clock_compiler_def Let_def)
        (metis prod.collapse)
  qed
  then obtain ctx where ctx: "processStep 50 ?cfg tf clock_compiler 20 False 0 start_ctx = Inr (0, ctx)" by blast
  have "processStep 50 ?cfg tf clock_compiler 20 False 1 start_ctx = Inr (0, start_ctx)"
    by (simp add: processStep_def start_ctx_def compile_graph_values)
  with ctx have run: "run_steps 50 ?cfg tf clock_compiler 20 False [1, 0] ?start = Inr (0, ctx)"
    unfolding start by simp
  then show ?thesis by blast
qed

lemma example_setting:
  "inputs_there (plain_config False) compile_graph edited" "build_file_is_source (plain_config False) compile_graph"
  "plain_links 50 compile_graph edited" "\<not> dry_run (plain_config False)" "is_topological compile_graph [1, 0]"
proof -
  show "inputs_there (plain_config False) compile_graph edited"
    by (auto simp: inputs_there_def plain_config_def compile_graph_values edited_def produced_def less_2_cases_iff)
  show "build_file_is_source (plain_config False) compile_graph"
    by (auto simp: build_file_is_source_def plain_config_def compile_graph_values less_2_cases_iff)
  show "plain_links 50 compile_graph edited"
    using compile_step_values by (auto simp: plain_links_def in_set_conv_nth)
  show "is_topological compile_graph [1, 0]"
    by (auto simp: is_topological_def compile_graph_values less_Suc_eq)
qed (simp add: plain_config_def)

lemma second_build_does_nothing_witness:
  "\<exists>ctx ctx'. run_steps 50 (plain_config False) plain_tools clock_compiler 20 False [1, 0]
       (fresh_ctx (\<lambda>_. 7) (plain_config False) 1 compile_graph edited) = Inr (0, ctx) \<and>
     run_steps 50 (plain_config False) plain_tools (compiler False) 20 False [0, 1]
       (fresh_ctx (\<lambda>_. 7) (plain_config False) 4 (x_graph ctx) (x_world ctx)) = Inr (0, ctx') \<and> x_world ctx' = x_world ctx"
proof -
  let ?cfg = "plain_config False"
  obtain ctx where run: "run_steps 50 ?cfg plain_tools clock_compiler 20 False [1, 0]
      (fresh_ctx (\<lambda>_. 7) ?cfg 1 compile_graph edited) = Inr (0, ctx)" using example_run by blast
  note again = second_build_does_nothing
    [OF compile_graph_ok edited_ok example_setting(1-3) clock_compiler_ok example_setting(4,5) run, THEN conjunct2]
  have "set [0, 1] \<subseteq> {..<length (nodes_m compile_graph)}" by (simp add: compile_graph_values)
  with again [THEN spec, of "compiler False", THEN spec, of 20, THEN spec, of False, THEN spec, of 4, THEN spec, of "[0, 1]"]
  have "\<exists>ctx'. run_steps 50 ?cfg plain_tools (compiler False) 20 False [0, 1]
      (fresh_ctx (\<lambda>_. 7) ?cfg 4 (x_graph ctx) (x_world ctx)) = Inr (0, ctx') \<and> x_world ctx' = x_world ctx"
    by blast
  with run show ?thesis by blast
qed

section \<open>Response files of different outputs\<close>

text \<open>The name of a response file replaces the extension of the output, so outputs that differ only there
  share one. Once the first link step has written it, the second one takes it as its own, because it
  exists and is newer than the build file: its command names the inputs of the other step, however
  many inputs it has, and no response file is written for it.\<close>

lemma response_file_collision:
  assumes "tool s1 = ''ld''" "tool s2 = ''ld''" "rsp_of s1 = rsp_of s2" "n < length (parsed_inputs s1)"
    and "\<not> (w_exists w (rsp_of s1) \<and> isNewer w (rsp_of s1) bf)"
    and "isNewer (write_file now (Some (rsp_of s1, rsp_content s1)) w) (rsp_of s1) bf"
  shows "snd (buildCommandArgs n bf w s1 False tf) = Some (rsp_of s1, rsp_content s1) \<and>
    snd (buildCommandArgs n bf (write_file now (Some (rsp_of s1, rsp_content s1)) w) s2 False tf) = None \<and>
    (CHR ''@'' # rsp_of s1) \<in> set (fst (buildCommandArgs n bf (write_file now (Some (rsp_of s1, rsp_content s1)) w) s2 False tf))"
proof -
  let ?w = "write_file now (Some (rsp_of s1, rsp_content s1)) w"
  have "x \<in> set xs \<Longrightarrow> x \<in> set (add_parts xs ys)" for x :: string and xs ys by (simp add: add_parts_def)
  moreover have "w_exists ?w (rsp_of s1)" by (simp add: write_file_def)
  ultimately show ?thesis
    using assms by (simp add: buildCommandArgs_def link_args_def choose_rsp_def Let_def)
qed

end
