(* ===== verification/Incremental.thy ===== *)
theory Incremental
  imports Rebuild
begin

text \<open>
  What an incremental build does, without its order: the steps whose command \<open>processStep\<close> runs are the
  ones that were out of date at the start and everything that depends on them. The run is that of
  Rebuild.thy, with the same contract for the tools.
\<close>

section \<open>The commands of a run\<close>

definition runs_command :: "nat \<Rightarrow> ToolchainFlags \<Rightarrow> nat \<Rightarrow> step_ctx \<Rightarrow> bool" where
  "runs_command n tf v ctx =
     (case step_id (nodes_m (x_graph ctx) ! v) of
        None \<Rightarrow> False
      | Some sid \<Rightarrow>
          (case needsRebuild n (x_world ctx) (x_graph ctx) (steps_m (x_graph ctx) ! sid) v (x_times ctx) tf of
             Inl _ \<Rightarrow> False
           | Inr (needed, _) \<Rightarrow> needed))"

fun commands_run ::
  "nat \<Rightarrow> ExecutorConfig \<Rightarrow> ToolchainFlags \<Rightarrow> (string list \<Rightarrow> world \<Rightarrow> exec_result \<times> world) \<Rightarrow> int \<Rightarrow> bool \<Rightarrow> nat list \<Rightarrow>
    step_ctx \<Rightarrow> nat list" where
  "commands_run n cfg tf pe now tty [] ctx = []"
| "commands_run n cfg tf pe now tty (v # vs) ctx =
     (case processStep n cfg tf pe now tty v ctx of
        Inl e \<Rightarrow> []
      | Inr (r, ctx') \<Rightarrow>
          (if runs_command n tf v ctx then [v] else []) @
          (if r \<noteq> 0 then [] else commands_run n cfg tf pe now tty vs ctx'))"

section \<open>Affected nodes\<close>

definition initially_stale :: "nat \<Rightarrow> ExecutorConfig \<Rightarrow> ToolchainFlags \<Rightarrow> build_graph \<Rightarrow> world \<Rightarrow> nat \<Rightarrow> bool" where
  "initially_stale n cfg tf g w v \<longleftrightarrow>
     (\<exists>sid. step_id (nodes_m g ! v) = Some sid \<and> out_of_date n w (cfg_build_file cfg) (steps_m g ! sid) tf)"

inductive affected :: "build_graph \<Rightarrow> (nat \<Rightarrow> bool) \<Rightarrow> nat \<Rightarrow> bool" for g stale_node where
  affected_start: "v < length (nodes_m g) \<Longrightarrow> stale_node v \<Longrightarrow> affected g stale_node v"
| affected_input: "affected g stale_node u \<Longrightarrow> v \<in> set (succs g u) \<Longrightarrow> affected g stale_node v"

inductive_simps affected_iff: "affected g stale_node v"

definition affected_paths :: "build_graph \<Rightarrow> (nat \<Rightarrow> bool) \<Rightarrow> nat set \<Rightarrow> string set" where
  "affected_paths g stale_node vs = {path (nodes_m g ! v) | v. v \<in> vs \<and> affected g stale_node v}"

lemma affected_pathsI: "v \<in> vs \<Longrightarrow> affected g d v \<Longrightarrow> path (nodes_m g ! v) \<in> affected_paths g d vs"
  by (auto simp: affected_paths_def)

lemma affected_paths_insert:
  "affected_paths g d (insert v vs) =
     (if affected g d v then insert (path (nodes_m g ! v)) (affected_paths g d vs) else affected_paths g d vs)"
  by (auto simp: affected_paths_def)

lemma edge_produced:
  assumes "graph_ok h g" "u < length (nodes_m g)" "v \<in> set (succs g u)"
  shows "v < length (nodes_m g) \<and> produced g v"
proof -
  have v: "v < length (nodes_m g)" using assms by (auto simp: graph_ok_def edges_in_range_def)
  have "count_list (succs g u) v \<noteq> 0" using assms(3) by (simp add: count_list_0_iff)
  then have "node_inputs g v \<noteq> []"
    using assms(1,2) v by (auto simp: graph_ok_def edges_match_def)
  with v show ?thesis by (auto simp: node_inputs_def produced_def split: option.splits)
qed

lemma affected_in_range:
  assumes "affected g d v" "graph_ok h g"
  shows "v < length (nodes_m g)"
  using assms by (induction rule: affected.induct) (use edge_produced in blast)+

lemma affected_range:
  assumes "affected g (initially_stale n cfg tf g w) v" "graph_ok h g"
  shows "v < length (nodes_m g) \<and> produced g v"
  using assms
proof (induction rule: affected.induct)
  case (affected_start v)
  then show ?case by (auto simp: initially_stale_def produced_def)
next
  case (affected_input u v)
  then show ?case using edge_produced [of h g u v] by blast
qed

section \<open>The state during a run\<close>

text \<open>What is processed and affected is newer than everything else that is known; the rest is as it was.\<close>

definition progressed ::
  "ExecutorConfig \<Rightarrow> build_graph \<Rightarrow> world \<Rightarrow> (nat \<Rightarrow> bool) \<Rightarrow> nat set \<Rightarrow> step_ctx \<Rightarrow> bool" where
  "progressed cfg g w d finished ctx \<longleftrightarrow>
     (\<forall>q \<in> set (watched_files cfg g). q \<notin> affected_paths g d finished \<longrightarrow> w_time (x_world ctx) q = w_time w q) \<and>
     (\<forall>v < length (nodes_m g). \<forall>sid. \<not> (v \<in> finished \<and> affected g d v) \<longrightarrow> step_id (nodes_m g ! v) = Some sid \<longrightarrow>
        steps_m (x_graph ctx) ! sid = steps_m g ! sid) \<and>
     (\<forall>p \<in> affected_paths g d finished. \<exists>t. w_time (x_world ctx) p = Some t \<and>
        (\<forall>q \<in> set (known_files cfg g) - affected_paths g d finished. \<forall>x. w_time w q = Some x \<longrightarrow> x < t))"

lemma progressedD:
  assumes "progressed cfg g w d finished ctx"
  shows "q \<in> set (watched_files cfg g) \<Longrightarrow> q \<notin> affected_paths g d finished \<Longrightarrow> w_time (x_world ctx) q = w_time w q"
    "v < length (nodes_m g) \<Longrightarrow> \<not> (v \<in> finished \<and> affected g d v) \<Longrightarrow> step_id (nodes_m g ! v) = Some sid \<Longrightarrow>
      steps_m (x_graph ctx) ! sid = steps_m g ! sid"
    "p \<in> affected_paths g d finished \<Longrightarrow> \<exists>t. w_time (x_world ctx) p = Some t \<and>
        (\<forall>q \<in> set (known_files cfg g) - affected_paths g d finished. \<forall>x. w_time w q = Some x \<longrightarrow> x < t)"
  using assms unfolding progressed_def by blast+

lemma watched:
  "cfg_build_file cfg \<in> set (watched_files cfg g)" "q \<in> set (known_files cfg g) \<Longrightarrow> q \<in> set (watched_files cfg g)"
  "u < length (nodes_m g) \<Longrightarrow> path (nodes_m g ! u) \<in> set (watched_files cfg g)"
  by (auto simp: watched_files_def known_files_def)

lemma progressed_start: "x_world ctx = w \<Longrightarrow> x_graph ctx = g \<Longrightarrow> progressed cfg g w d {} ctx"
  by (simp add: progressed_def affected_paths_def)

lemma affected_paths_other:
  assumes "graph_ok h g" "vs \<subseteq> {..<length (nodes_m g)}" "v < length (nodes_m g)" "v \<notin> vs"
  shows "path (nodes_m g ! v) \<notin> affected_paths g d vs"
  using assms path_unique [of h g v] by (auto simp: affected_paths_def graph_ok_def)

lemma affected_paths_source:
  assumes "graph_ok h g" "build_file_is_source cfg g"
  shows "cfg_build_file cfg \<notin> affected_paths g (initially_stale n cfg tf g w) vs"
  using assms affected_range [OF _ assms(1)] by (fastforce simp: affected_paths_def build_file_is_source_def)

text \<open>When the turn of a step comes, it is out of date if and only if it is affected.\<close>

lemma turn:
  assumes g: "graph_ok h g" "build_file_is_source cfg g" "plain_links n g w"
    and links: "plain_links n g (x_world ctx)" and P: "progressed cfg g w (initially_stale n cfg tf g w) finished ctx"
    and v: "v < length (nodes_m g)" "step_id (nodes_m g ! v) = Some sid" "v \<notin> finished" "finished \<subseteq> {..<length (nodes_m g)}"
    and before: "\<forall>u < length (nodes_m g). v \<in> set (succs g u) \<longrightarrow> u \<in> finished"
  shows "out_of_date n (x_world ctx) (cfg_build_file cfg) (steps_m (x_graph ctx) ! sid) tf \<longleftrightarrow>
    affected g (initially_stale n cfg tf g w) v"
proof -
  let ?d = "initially_stale n cfg tf g w" and ?st = "steps_m g ! sid" and ?bf = "cfg_build_file cfg"
  let ?new = "affected_paths g ?d finished" and ?w = "x_world ctx" and ?p = "path (nodes_m g ! v)"
  have st: "steps_m (x_graph ctx) ! sid = ?st" by (rule progressedD(2) [OF P v(1)]) (use v(2,3) in auto)
  have sid: "sid < length (steps_m g)" "output_path ?st = ?p" using g(1) v(1,2) by (auto simp: graph_ok_def producers_ok_def)
  have p: "?p \<notin> ?new" by (rule affected_paths_other [OF g(1) v(4,1,3)])
  then have time: "w_time ?w ?p = w_time w ?p" by (rule progressedD(1) [OF P watched(3) [OF v(1)]])
  have known: "?p \<in> set (known_files cfg g) - ?new" using p v(1) by (simp add: known_files_def)
  have inputs: "q \<in> set (step_inputs ?st) \<longleftrightarrow> (\<exists>u < length (nodes_m g). v \<in> set (succs g u) \<and> path (nodes_m g ! u) = q)" for q
    using inputs_are_edges [OF g(1) v(1,2), of "\<lambda>p. p = q"] by blast
  have mem: "?st \<in> set (steps_m g)" using sid(1) by simp
  show ?thesis
  proof (cases "\<exists>u. affected g ?d u \<and> v \<in> set (succs g u)")
    case True
    then obtain u where u: "affected g ?d u" "v \<in> set (succs g u)" by blast
    have un: "u < length (nodes_m g)" using affected_range [OF u(1) g(1)] by blast
    with before u have "path (nodes_m g ! u) \<in> ?new" by (intro affected_pathsI) auto
    from progressedD(3) [OF P this] known obtain t where t: "w_time ?w (path (nodes_m g ! u)) = Some t"
      "\<forall>x. w_time w ?p = Some x \<longrightarrow> x < t" by blast
    have "path (nodes_m g ! u) \<in> set (step_inputs ?st)" using inputs u(2) un by blast
    with t time sid(2) have "out_of_date n ?w ?bf ?st tf"
      by (fastforce simp: out_of_date_def stale_def split: option.split)
    with st u affected_input show ?thesis by metis
  next
    case False
    have kept: "w_time ?w q = w_time w q" if "q \<in> set (output_path ?st # ?bf # step_inputs ?st)" for q
    proof -
      have "q \<notin> ?new" if "q \<in> set (step_inputs ?st)"
      proof
        assume "q \<in> ?new"
        then obtain u' where u': "path (nodes_m g ! u') = q" "affected g ?d u'" by (auto simp: affected_paths_def)
        obtain u where u: "u < length (nodes_m g)" "v \<in> set (succs g u)" "path (nodes_m g ! u) = q" using inputs \<open>q \<in> set (step_inputs ?st)\<close> by blast
        have "u' = u" using path_unique [of h g u' u] g(1) u u' affected_range [OF u'(2) g(1)] by (simp add: graph_ok_def)
        with False u' u show False by blast
      qed
      then have "q \<notin> ?new" using that p sid(2) affected_paths_source [OF g(1,2)] by auto
      moreover have "q \<in> set (watched_files cfg g)" using that sid(2) v(1) inputs watched(1) [of cfg g] watched(3) [of _ g cfg] by auto
      ultimately show ?thesis by (intro progressedD(1) [OF P])
    qed
    have "fst (buildCommandArgs n ?bf ?w ?st True tf) = fst (buildCommandArgs n ?bf w ?st True tf)"
      using command_stable [of ?st n w ?w ?bf "command_hash ?st" True tf] g(3) links mem by (simp add: plain_links_def)
    from out_of_date_frame [OF this] kept have "out_of_date n ?w ?bf ?st tf = out_of_date n w ?bf ?st tf" by blast
    then show ?thesis using False v(1,2) st by (subst affected_iff) (auto simp: initially_stale_def)
  qed
qed

lemma progressed_unaffected:
  assumes "progressed cfg g w d finished ctx" "\<not> affected g d v" "x_world ctx' = x_world ctx" "x_graph ctx' = x_graph ctx"
  shows "progressed cfg g w d (insert v finished) ctx'"
proof -
  have "affected_paths g d (insert v finished) = affected_paths g d finished" by (simp add: affected_paths_insert assms(2))
  moreover have "u \<in> insert v finished \<and> affected g d u \<longleftrightarrow> u \<in> finished \<and> affected g d u" for u using assms(2) by auto
  ultimately show ?thesis using assms(1,3,4) unfolding progressed_def by simp
qed

lemma progressed_affected:
  assumes g: "graph_ok h g" and P: "progressed cfg g w d finished ctx" and v: "v < length (nodes_m g)" "affected g d v"
    and sid: "step_id (nodes_m g ! v) = Some sid"
    and steps: "steps_m (x_graph ctx') = (steps_m (x_graph ctx))[sid := st]"
    and files: "writes_only (watched_files cfg g) (path (nodes_m g ! v)) (x_world ctx) (x_world ctx')"
      "is_newest (known_files cfg g) (path (nodes_m g ! v)) (x_world ctx')"
  shows "progressed cfg g w d (insert v finished) ctx'"
proof -
  let ?p = "path (nodes_m g ! v)" and ?new = "affected_paths g d finished"
  have new: "affected_paths g d (insert v finished) = insert ?p ?new" by (simp add: affected_paths_insert v(2))
  have time: "q \<noteq> ?p \<Longrightarrow> q \<in> set (watched_files cfg g) \<Longrightarrow> w_time (x_world ctx') q = w_time (x_world ctx) q" for q using files(1) by (simp add: writes_only_def)
  have kept: "w_time (x_world ctx') q = w_time w q" if "q \<in> set (watched_files cfg g)" "q \<notin> insert ?p ?new" for q
    using that time [of q] progressedD(1) [OF P, of q] by simp
  have hash: "steps_m (x_graph ctx') ! s = steps_m g ! s"
    if u: "u < length (nodes_m g)" "\<not> (u \<in> insert v finished \<and> affected g d u)" "step_id (nodes_m g ! u) = Some s" for u s
  proof -
    have "u \<noteq> v" using u(2) v(2) by blast
    then have "path (nodes_m g ! u) \<noteq> path (nodes_m g ! v)" using path_unique [of h g u v] g u(1) v(1) by (auto simp: graph_ok_def)
    then have "s \<noteq> sid" using g u(1,3) v(1) sid unfolding graph_ok_def producers_ok_def by metis
    with progressedD(2) [OF P u(1) _ u(3)] u(2) show ?thesis by (auto simp: steps)
  qed
  have newer: "\<exists>t. w_time (x_world ctx') p = Some t \<and>
      (\<forall>q \<in> set (known_files cfg g) - insert ?p ?new. \<forall>x. w_time w q = Some x \<longrightarrow> x < t)" if p: "p \<in> insert ?p ?new" for p
  proof (cases "p = ?p")
    case True
    obtain t where t: "w_time (x_world ctx') ?p = Some t"
      "\<forall>q \<in> set (known_files cfg g). \<forall>x. q \<noteq> ?p \<longrightarrow> w_time (x_world ctx') q = Some x \<longrightarrow> x < t"
      using files(2) by (auto simp: is_newest_def)
    with True kept watched(2) show ?thesis by (intro exI [of _ t]) auto
  next
    case False
    with p have "p \<in> ?new" by simp
    moreover from this have "p \<in> set (watched_files cfg g)" using affected_in_range [OF _ g] watched(3) by (auto simp: affected_paths_def)
    ultimately show ?thesis using progressedD(3) [OF P, of p] time [OF False] by auto
  qed
  show ?thesis unfolding progressed_def new using kept hash newer by blast
qed

lemma run_one_progressed:
  assumes g: "graph_ok h g" "build_file_is_source cfg g" "plain_links n g w"
    and B: "built h n cfg tf g finished ctx" and P: "progressed cfg g w (initially_stale n cfg tf g w) finished ctx"
    and v: "v < length (nodes_m g)" "v \<notin> finished" "finished \<subseteq> {..<length (nodes_m g)}"
    and before: "\<forall>u < length (nodes_m g). v \<in> set (succs g u) \<longrightarrow> u \<in> finished"
    and contract: "tool_contract n cfg tf g pe" "\<not> dry_run cfg"
    and run: "processStep n cfg tf pe now tty v ctx = Inr (0, ctx')"
  shows "progressed cfg g w (initially_stale n cfg tf g w) (insert v finished) ctx' \<and>
    (runs_command n tf v ctx \<longleftrightarrow> affected g (initially_stale n cfg tf g w) v)"
proof (cases "step_id (nodes_m g ! v)")
  case None
  then have "\<not> affected g (initially_stale n cfg tf g w) v" using affected_range [OF _ g(1), of n cfg tf w v] by (auto simp: produced_def)
  moreover have "step_id (nodes_m (x_graph ctx) ! v) = None" using None same_shapeD(1) [OF builtD(1) [OF B]] by simp
  moreover from this run have "ctx' = ctx" by (simp add: processStep_def)
  ultimately show ?thesis using progressed_unaffected [OF P] by (simp add: runs_command_def)
next
  case sid: (Some sid)
  let ?st = "steps_m (x_graph ctx) ! sid" and ?d = "initially_stale n cfg tf g w"
  have turn: "out_of_date n (x_world ctx) (cfg_build_file cfg) ?st tf \<longleftrightarrow> affected g ?d v"
    by (rule turn [OF g builtD(6) [OF B] P v(1) sid v(2,3) before])
  have "runs_command n tf v ctx \<longleftrightarrow> out_of_date n (x_world ctx) (cfg_build_file cfg) ?st tf"
    using ready_needs [OF built_ready [OF g(1) B v(1) sid], of n tf] sid same_shapeD(1) [OF builtD(1) [OF B]]
    by (fastforce simp: runs_command_def)
  moreover have "progressed cfg g w ?d (insert v finished) ctx'"
  proof (cases "affected g ?d v")
    case False
    with turn have "\<not> out_of_date n (x_world ctx) (cfg_build_file cfg) ?st tf" by simp
    from skip_step [OF g(1) B v(1) sid this, of pe now tty] run
    have "x_world ctx' = x_world ctx" "x_graph ctx' = x_graph ctx" by auto
    with progressed_unaffected [OF P False] show ?thesis by blast
  next
    case True
    with turn have stale: "out_of_date n (x_world ctx) (cfg_build_file cfg) ?st tf" by simp
    show ?thesis
      by (rule rebuilt [OF g(1) B v(1) sid contract stale run]) (rule progressed_affected [OF g(1) P v(1) True sid])
  qed
  ultimately show ?thesis using turn by simp
qed

section \<open>Whole runs\<close>

lemma run_progressed:
  assumes "graph_ok h g" "build_file_is_source cfg g" "plain_links n g w" "tool_contract n cfg tf g pe" "\<not> dry_run cfg"
    and "is_topological g (xs @ rest)" "built h n cfg tf g (set xs) ctx"
    and "progressed cfg g w (initially_stale n cfg tf g w) (set xs) ctx"
    and "run_steps n cfg tf pe now tty rest ctx = Inr (0, ctx')"
  shows "progressed cfg g w (initially_stale n cfg tf g w) (set (xs @ rest)) ctx' \<and>
    commands_run n cfg tf pe now tty rest ctx = filter (affected g (initially_stale n cfg tf g w)) rest"
  using assms(6-9)
proof (induction rest arbitrary: xs ctx)
  case (Cons v rest)
  obtain ctx1 where step: "processStep n cfg tf pe now tty v ctx = Inr (0, ctx1)"
    "run_steps n cfg tf pe now tty rest ctx1 = Inr (0, ctx')"
    using Cons.prems(4) by (auto split: sum.splits if_splits)
  note T = topological_split [OF Cons.prems(1)]
  have new: "v \<notin> set xs" "set xs \<subseteq> {..<length (nodes_m g)}" using T(3) by auto
  have "built h n cfg tf g (insert v (set xs)) ctx1"
    by (rule run_one [OF assms(1,2) Cons.prems(2) T(1) assms(4,5) T(2-4) step(1)])
  moreover note one = run_one_progressed [OF assms(1-3) Cons.prems(2,3) T(1) new T(2) assms(4,5) step(1)]
  ultimately have "progressed cfg g w (initially_stale n cfg tf g w) (set ((xs @ [v]) @ rest)) ctx' \<and>
      commands_run n cfg tf pe now tty rest ctx1 = filter (affected g (initially_stale n cfg tf g w)) rest"
    by (intro Cons.IH) (use Cons.prems(1) step(2) in auto)
  with step(1) one show ?case by simp
qed simp

text \<open>C5: An incremental build is exact, without response files. Take a well-formed graph without
  cycles; files of which those that exist have times, with the sources and the build file there, the
  build file made by no step; link steps with no more inputs than the threshold, whose response files
  neither exist nor are outputs; tools that, of the files the build looks at, change only their output,
  and make it newest when they succeed; and no dry run. If one worker has processed all nodes, in an
  order that respects the dependencies, and each returned 0, it ran, each once and in that order, the
  commands of the affected steps: those out of date at the start (output missing, another command than
  the recorded one, or an input or the build file not older than the output) and, transitively, every
  step with an affected input. Their outputs are newer than every known file that is no such output was
  at the start; every other file the build looks at keeps its time, every other recorded hash is as it
  was.\<close>

theorem incremental_build_exact:
  assumes "graph_ok h g" "world_ok w" "inputs_there cfg g w" "build_file_is_source cfg g" "plain_links n g w"
    and "tool_contract n cfg tf g pe" "\<not> dry_run cfg" "is_topological g order"
    and "run_steps n cfg tf pe now tty order (fresh_ctx h cfg threads g w) = Inr (0, ctx)"
  defines "hit \<equiv> affected g (initially_stale n cfg tf g w)"
  shows "commands_run n cfg tf pe now tty order (fresh_ctx h cfg threads g w) = filter hit order \<and>
    (\<forall>v < length (nodes_m g). hit v \<longrightarrow> (\<exists>t. w_time (x_world ctx) (path (nodes_m g ! v)) = Some t \<and>
       (\<forall>q \<in> set (known_files cfg g). (\<forall>u < length (nodes_m g). hit u \<longrightarrow> path (nodes_m g ! u) \<noteq> q) \<longrightarrow>
          (\<forall>x. w_time w q = Some x \<longrightarrow> x < t)))) \<and>
    (\<forall>q \<in> set (watched_files cfg g). (\<forall>u < length (nodes_m g). hit u \<longrightarrow> path (nodes_m g ! u) \<noteq> q) \<longrightarrow>
       w_time (x_world ctx) q = w_time w q) \<and>
    (\<forall>v < length (nodes_m g). \<forall>sid. \<not> hit v \<longrightarrow> step_id (nodes_m g ! v) = Some sid \<longrightarrow>
       steps_m (x_graph ctx) ! sid = steps_m g ! sid)"
proof -
  let ?d = "initially_stale n cfg tf g w" and ?all = "{..<length (nodes_m g)}"
  have B: "built h n cfg tf g (set []) (fresh_ctx h cfg threads g w)"
    by (rule fresh_built [OF assms(1) same_shape_refl assms(2,3,5)]) simp
  have P: "progressed cfg g w ?d (set []) (fresh_ctx h cfg threads g w)"
    unfolding list.set by (rule progressed_start) (simp_all add: fresh_ctx_def)
  have "is_topological g ([] @ order)" using assms(8) by simp
  from run_progressed [OF assms(1,4,5,6,7) this B P assms(9)]
  have R: "progressed cfg g w ?d ?all ctx"
    "commands_run n cfg tf pe now tty order (fresh_ctx h cfg threads g w) = filter hit order"
    using assms(8) by (simp_all add: is_topological_def hit_def)
  have paths: "q \<in> affected_paths g ?d ?all \<longleftrightarrow> (\<exists>u < length (nodes_m g). hit u \<and> path (nodes_m g ! u) = q)" for q
    by (auto simp: affected_paths_def hit_def)
  have "\<exists>t. w_time (x_world ctx) (path (nodes_m g ! v)) = Some t \<and>
       (\<forall>q \<in> set (known_files cfg g). (\<forall>u < length (nodes_m g). hit u \<longrightarrow> path (nodes_m g ! u) \<noteq> q) \<longrightarrow>
          (\<forall>x. w_time w q = Some x \<longrightarrow> x < t))" if "v < length (nodes_m g)" "hit v" for v
  proof -
    have "path (nodes_m g ! v) \<in> affected_paths g ?d ?all" using that paths by blast
    from progressedD(3) [OF R(1) this] paths show ?thesis by blast
  qed
  moreover have "w_time (x_world ctx) q = w_time w q"
    if "q \<in> set (watched_files cfg g)" "\<forall>u < length (nodes_m g). hit u \<longrightarrow> path (nodes_m g ! u) \<noteq> q" for q
    using progressedD(1) [OF R(1), of q] that paths by blast
  moreover have "steps_m (x_graph ctx) ! sid = steps_m g ! sid"
    if "v < length (nodes_m g)" "\<not> hit v" "step_id (nodes_m g ! v) = Some sid" for v sid
    by (rule progressedD(2) [OF R(1) that(1) _ that(3)]) (use that(2) in \<open>simp add: hit_def\<close>)
  ultimately show ?thesis using R(2) by blast
qed

text \<open>The example of Rebuild.thy: the source was edited, so the one command is run.\<close>

lemma incremental_build_exact_witness:
  "commands_run 50 (plain_config False) plain_tools clock_compiler 20 False [1, 0]
     (fresh_ctx (\<lambda>_. 7) (plain_config False) 1 compile_graph edited) = [0]"
proof -
  let ?cfg = "plain_config False" and ?d = "initially_stale 50 (plain_config False) plain_tools compile_graph edited"
  obtain ctx where run: "run_steps 50 ?cfg plain_tools clock_compiler 20 False [1, 0]
      (fresh_ctx (\<lambda>_. 7) ?cfg 1 compile_graph edited) = Inr (0, ctx)" using example_run by blast
  have exact: "commands_run 50 ?cfg plain_tools clock_compiler 20 False [1, 0] (fresh_ctx (\<lambda>_. 7) ?cfg 1 compile_graph edited) =
      filter (affected compile_graph ?d) [1, 0]"
    using incremental_build_exact [OF compile_graph_ok edited_ok example_setting(1-3) clock_compiler_ok example_setting(4,5) run]
    by (rule conjunct1)
  have "?d 0" using start_ctx_out_of_date by (simp add: initially_stale_def start_ctx_def compile_graph_values plain_config_def)
  then have "affected compile_graph ?d 0" by (intro affected_start) (simp_all add: compile_graph_values)
  moreover have "\<not> affected compile_graph ?d 1"
    using affected_range [OF _ compile_graph_ok, of 50 ?cfg plain_tools edited 1] by (auto simp: produced_def compile_graph_values)
  ultimately show ?thesis unfolding exact by simp
qed

end
