(* ===== verification/Command_Line.thy ===== *)
theory Command_Line
  imports Process_Step Parse
begin

text \<open>
  The command line (src/cli_args.cpp) and \<open>main\<close> (src/cob.cpp). Built with \<open>FF_cob__estimates\<close> and
  \<open>FF_cob__logging\<close>; the name of the program is the default of the source, its version is a
  parameter.
\<close>

section \<open>\<open>cliArgs\<close>\<close>

record CliArgs =
  args_config :: ExecutorConfig
  compdb :: bool
  graph_tool :: bool
  commands_tool :: bool
  work_dir :: string
  definition_overrides :: "(string \<times> string) list"

definition default_args :: CliArgs where
  "default_args =
     \<lparr>args_config = \<lparr>dry_run = False, clean_mode = False, clean_cc_only = False, silent = False, keep_going = False,
        jobs = 0, cfg_build_file = ''catalyst.build'', estimates_file = ''catalyst.estimates'', build_log_file = []\<rparr>,
      compdb = False, graph_tool = False, commands_tool = False, work_dir = ''.'', definition_overrides = []\<rparr>"

definition printHelp :: "string list" where
  "printHelp =
     [''Usage: cob [options]'',
      ''Options:'',
      ''  -h, --help                    Show this help message'',
      ''  -v, --version                 Show version'',
      ''  -C <dir>                      Change working directory before doing anything'',
      ''  -f <file>                     Use <file> as the build manifest (default: catalyst.build)'',
      ''  -j, --jobs <N>                Set number of parallel jobs (default: auto)'',
      ''  -k, --keep-going              Continue the build after error (default: false)'',
      ''  -n, --dry-run                 Print commands without executing them'',
      ''  -s, --silent                  Suppress cli output, only print errors'',
      ''  -t <tool>                     Run a subtool. Valid tools are:'',
      ''                                  clean    - remove build artifacts'',
      ''                                             (-i: clean only compiler outputs)'',
      ''                                  compdb   - generate compile_commands.json'',
      ''                                  graph    - generate DOT graph of build'',
      ''                                  commands - print commands that would be executed'',
      ''  --estimates <estimate>        Use <estimate> as the estimate file (default: catalyst.estimates)'',
      ''  --build-log <file>            Log build stdout/stderr to <file>'']"

definition printVersion :: "string \<Rightarrow> string list" where
  "printVersion version = [''cob version '' @ version]"

definition missing_argument :: "string \<Rightarrow> CliArgs result" where
  "missing_argument arg = unexpected (''Missing argument for '' @ arg)"

abbreviation set_config :: "(ExecutorConfig \<Rightarrow> ExecutorConfig) \<Rightarrow> CliArgs \<Rightarrow> CliArgs" where
  "set_config f par \<equiv> par\<lparr>args_config := f (args_config par)\<rparr>"

text \<open>The loop over \<open>argv\<close>: what is printed, and the arguments or an error.\<close>

fun cli_loop :: "string \<Rightarrow> string \<Rightarrow> string list \<Rightarrow> CliArgs \<Rightarrow> string list \<times> CliArgs result" where
  "cli_loop version prog [] par = ([], expected par)"
| "cli_loop version prog (arg # rest) par =
     (if arg = ''-h'' \<or> arg = ''--help'' then (printHelp, unexpected [])
      else if arg = ''-v'' \<or> arg = ''--version'' then (printVersion version, unexpected [])
      else if arg = ''-C'' then
        (case rest of [] \<Rightarrow> ([], missing_argument arg)
         | v # rest \<Rightarrow> cli_loop version prog rest (par\<lparr>work_dir := v\<rparr>))
      else if arg = ''-f'' then
        (case rest of [] \<Rightarrow> ([], missing_argument arg)
         | v # rest \<Rightarrow> cli_loop version prog rest (set_config (cfg_build_file_update (\<lambda>_. v)) par))
      else if arg = ''--estimates'' then
        (case rest of [] \<Rightarrow> ([], missing_argument arg)
         | v # rest \<Rightarrow> cli_loop version prog rest (set_config (estimates_file_update (\<lambda>_. v)) par))
      else if arg = ''--build-log'' \<or> arg = ''--error-log'' then
        (case rest of [] \<Rightarrow> ([], missing_argument arg)
         | v # rest \<Rightarrow> cli_loop version prog rest (set_config (build_log_file_update (\<lambda>_. v)) par))
      else if arg = ''-j'' \<or> arg = ''--jobs'' then
        (case rest of [] \<Rightarrow> ([], missing_argument arg)
         | v # rest \<Rightarrow>
             (case from_chars v of
                None \<Rightarrow> ([], unexpected (''Invalid job count: '' @ v))
              | Some n \<Rightarrow> cli_loop version prog rest (set_config (jobs_update (\<lambda>_. n)) par)))
      else if arg = ''-n'' \<or> arg = ''--dry-run'' then
        cli_loop version prog rest (set_config (dry_run_update (\<lambda>_. True)) par)
      else if arg = ''-i'' then cli_loop version prog rest (set_config (clean_cc_only_update (\<lambda>_. True)) par)
      else if arg = ''-t'' then
        (case rest of [] \<Rightarrow> ([], missing_argument arg)
         | t # rest \<Rightarrow>
             if t = ''clean'' then cli_loop version prog rest (set_config (clean_mode_update (\<lambda>_. True)) par)
             else if t = ''compdb'' then cli_loop version prog rest (par\<lparr>compdb := True\<rparr>)
             else if t = ''graph'' then cli_loop version prog rest (par\<lparr>graph_tool := True\<rparr>)
             else if t = ''commands'' then cli_loop version prog rest (par\<lparr>commands_tool := True\<rparr>)
             else ([], unexpected (''Unknown tool: '' @ t)))
      else if arg = ''-s'' \<or> arg = ''--silent'' then
        cli_loop version prog rest (set_config (silent_update (\<lambda>_. True)) par)
      else if arg = ''-k'' \<or> arg = ''--keep-going'' then
        cli_loop version prog rest (set_config (keep_going_update (\<lambda>_. True)) par)
      else
        (case find_char (CHR ''='') arg of
           Some p \<Rightarrow>
             cli_loop version prog rest
               (par\<lparr>definition_overrides := definition_overrides par @ [(take p arg, drop (p + 1) arg)]\<rparr>)
         | None \<Rightarrow>
             ([], unexpected (''Unknown argument: '' @ arg @ ''. Run '' @ prog @ '' --help for more information.''))))"

declare cli_loop.simps [simp del]

definition cliArgs :: "string \<Rightarrow> string list \<Rightarrow> string list \<times> CliArgs result" where
  "cliArgs version argv = cli_loop version (hd argv) (tl argv) default_args"

section \<open>Options and their spellings\<close>

datatype subtool = ToolClean | ToolCompdb | ToolGraph | ToolCommands

datatype cli_option =
  ChangeDir string | BuildFile string | EstimatesFile string | BuildLog string | Jobs nat | DryRun | CcOnly
| Subtool subtool | Silent | KeepGoing | Override string string

fun subtool_name :: "subtool \<Rightarrow> string" where
  "subtool_name ToolClean = ''clean''"
| "subtool_name ToolCompdb = ''compdb''"
| "subtool_name ToolGraph = ''graph''"
| "subtool_name ToolCommands = ''commands''"

fun spellings :: "cli_option \<Rightarrow> string list list" where
  "spellings (ChangeDir d) = [[''-C'', d]]"
| "spellings (BuildFile f) = [[''-f'', f]]"
| "spellings (EstimatesFile f) = [[''--estimates'', f]]"
| "spellings (BuildLog f) = [[''--build-log'', f], [''--error-log'', f]]"
| "spellings (Jobs n) = [[''-j'', decimal n], [''--jobs'', decimal n]]"
| "spellings DryRun = [[''-n''], [''--dry-run'']]"
| "spellings CcOnly = [[''-i'']]"
| "spellings (Subtool t) = [[''-t'', subtool_name t]]"
| "spellings Silent = [[''-s''], [''--silent'']]"
| "spellings KeepGoing = [[''-k''], [''--keep-going'']]"
| "spellings (Override k v) = [[k @ ''='' @ v]]"

fun option_ok :: "cli_option \<Rightarrow> bool" where
  "option_ok (Jobs n) \<longleftrightarrow> n < 2 ^ 64"
| "option_ok (Override k v) \<longleftrightarrow> CHR ''='' \<notin> set k"
| "option_ok opt \<longleftrightarrow> True"

fun apply_option :: "cli_option \<Rightarrow> CliArgs \<Rightarrow> CliArgs" where
  "apply_option (ChangeDir d) par = par\<lparr>work_dir := d\<rparr>"
| "apply_option (BuildFile f) par = set_config (cfg_build_file_update (\<lambda>_. f)) par"
| "apply_option (EstimatesFile f) par = set_config (estimates_file_update (\<lambda>_. f)) par"
| "apply_option (BuildLog f) par = set_config (build_log_file_update (\<lambda>_. f)) par"
| "apply_option (Jobs n) par = set_config (jobs_update (\<lambda>_. n)) par"
| "apply_option DryRun par = set_config (dry_run_update (\<lambda>_. True)) par"
| "apply_option CcOnly par = set_config (clean_cc_only_update (\<lambda>_. True)) par"
| "apply_option (Subtool ToolClean) par = set_config (clean_mode_update (\<lambda>_. True)) par"
| "apply_option (Subtool ToolCompdb) par = par\<lparr>compdb := True\<rparr>"
| "apply_option (Subtool ToolGraph) par = par\<lparr>graph_tool := True\<rparr>"
| "apply_option (Subtool ToolCommands) par = par\<lparr>commands_tool := True\<rparr>"
| "apply_option Silent par = set_config (silent_update (\<lambda>_. True)) par"
| "apply_option KeepGoing par = set_config (keep_going_update (\<lambda>_. True)) par"
| "apply_option (Override k v) par = par\<lparr>definition_overrides := definition_overrides par @ [(k, v)]\<rparr>"

definition flags :: "string list" where
  "flags = [''-h'', ''--help'', ''-v'', ''--version'', ''-C'', ''-f'', ''--estimates'', ''--build-log'', ''--error-log'',
     ''-j'', ''--jobs'', ''-n'', ''--dry-run'', ''-i'', ''-t'', ''-s'', ''--silent'', ''-k'', ''--keep-going'']"

lemma cli_loop_other:
  assumes "arg \<notin> set flags"
  shows "cli_loop version prog (arg # rest) par =
    (case find_char (CHR ''='') arg of
       Some p \<Rightarrow> cli_loop version prog rest
         (par\<lparr>definition_overrides := definition_overrides par @ [(take p arg, drop (p + 1) arg)]\<rparr>)
     | None \<Rightarrow> ([], unexpected (''Unknown argument: '' @ arg @ ''. Run '' @ prog @ '' --help for more information.'')))"
  using assms by (subst cli_loop.simps(2)) (simp only: flags_def list.set insert_iff empty_iff de_Morgan_disj if_False simp_thms)

lemma flags_no_equals: "\<forall>f \<in> set flags. CHR ''='' \<notin> set f"
  by (simp add: flags_def)

lemma find_char_first: "c \<notin> set k \<Longrightarrow> find_char c (k @ c # v) = Some (length k)"
  by (auto simp: find_char_split)

lemma cli_loop_option:
  assumes "option_ok opt" "words \<in> set (spellings opt)"
  shows "cli_loop version prog (words @ rest) par = cli_loop version prog rest (apply_option opt par)"
proof (cases opt)
  case (Jobs n)
  have "from_chars (decimal n) = Some n" using from_chars_decimal [of n "[]"] assms(1) Jobs by simp
  with assms(2) Jobs show ?thesis by (auto simp: cli_loop.simps(2))
next
  case (Override k v)
  have "k @ ''='' @ v \<notin> set flags" using flags_no_equals by auto
  from cli_loop_other [OF this] assms Override find_char_first [of "CHR ''=''" k v] show ?thesis by simp
next
  case (Subtool t)
  with assms(2) show ?thesis by (cases t) (auto simp: cli_loop.simps(2))
qed (use assms(2) in \<open>auto simp: cli_loop.simps(2)\<close>)

text \<open>C26: The command line says what it means. Whatever options other than those for help and version
  are given, with job counts below 2^64 and definitions NAME=VALUE whose name has no equals sign, in whichever of their spellings and in any order, cliArgs prints
  nothing and returns the defaults changed by the options from left to right: later values replace earlier
  ones, definition overrides are collected in order, and a job count is the number its decimal digits
  denote. If -h, --help, -v or --version comes next, it prints the help or the version instead and returns no
  configuration, with an empty error, and what follows is not looked at.\<close>

theorem cliArgs_options:
  assumes "list_all option_ok opts" "list_all2 (\<lambda>opt words. words \<in> set (spellings opt)) opts words"
  shows "cliArgs version (prog # concat words) = ([], Inr (fold apply_option opts default_args)) \<and>
    (\<forall>arg \<in> {''-h'', ''--help''}. cliArgs version (prog # concat words @ arg # rest) = (printHelp, Inl [])) \<and>
    (\<forall>arg \<in> {''-v'', ''--version''}. cliArgs version (prog # concat words @ arg # rest) = (printVersion version, Inl []))"
proof -
  have "cli_loop version prog (concat words @ more_words) par = cli_loop version prog more_words (fold apply_option opts par)"
    for par more_words
    using assms(2,1)
    by (induction opts words arbitrary: par rule: list_all2_induct) (simp_all, metis cli_loop_option)
  from this [of "[]"] this show ?thesis by (simp add: cliArgs_def cli_loop.simps)
qed

lemma cliArgs_options_witness:
  "cliArgs ''1.0'' [''cob'', ''-j'', ''12'', ''--keep-going'', ''cc=clang'', ''-t'', ''clean'', ''cc=gcc=x''] =
     ([], Inr (default_args\<lparr>args_config := (args_config default_args)\<lparr>jobs := 12, keep_going := True, clean_mode := True\<rparr>,
       definition_overrides := [(''cc'', ''clang''), (''cc'', ''gcc=x'')]\<rparr>))"
proof -
  have "decimal 12 = ''12''" by code_simp
  then show ?thesis
    using cliArgs_options [of "[Jobs 12, KeepGoing, Override ''cc'' ''clang'', Subtool ToolClean, Override ''cc'' ''gcc=x'']"
        "[[''-j'', ''12''], [''--keep-going''], [''cc=clang''], [''-t'', ''clean''], [''cc=gcc=x'']]" "''1.0''" "''cob''"]
    by (simp add: default_args_def)
qed

section \<open>\<open>main\<close>\<close>

datatype action = EmitCompDB | EmitGraph | EmitCommands | Clean | Execute

text \<open>What \<open>main\<close> reaches: an exit code, an exception, or the executor, with the part of it that runs.\<close>

datatype start = Exit nat | Uncaught | Start action ExecutorConfig COBBuilder

record startup =
  su_out :: "string list"
  su_err :: "string list"
  su_files :: files
  su_start :: start

definition action_of :: "CliArgs \<Rightarrow> action" where
  "action_of par =
     (if compdb par then EmitCompDB else if graph_tool par then EmitGraph else if commands_tool par then EmitCommands
      else if clean_mode (args_config par) then Clean else Execute)"

definition override_all :: "(string \<times> string) list \<Rightarrow> COBBuilder \<Rightarrow> COBBuilder" where
  "override_all overrides b = foldl (\<lambda>b (variable, value). overrideDefinition b variable value) b overrides"

text \<open>The disk is the one of the directory named by \<open>-C\<close>: \<open>chdir\<close> answers an error or that disk.\<close>

definition cob_start ::
  "string \<Rightarrow> (string \<Rightarrow> u64) \<Rightarrow> nat \<Rightarrow> (view \<Rightarrow> u64) \<Rightarrow> os_answers \<Rightarrow> (string \<Rightarrow> string + disk) \<Rightarrow> disk \<Rightarrow> string list \<Rightarrow>
    startup option" where
  "cob_start version h cap addr os chdir d argv =
     (case cliArgs version argv of
        (printed, Inl e) \<Rightarrow>
          Some \<lparr>su_out = printed, su_err = (if e \<noteq> [] then [e] else []), su_files = files_of d,
            su_start = Exit (if e \<noteq> [] then 1 else 0)\<rparr>
      | (printed, Inr par) \<Rightarrow>
          (case (if work_dir par \<noteq> ''.'' then chdir (work_dir par) else Inr d) of
             Inl message \<Rightarrow>
               Some \<lparr>su_out = printed, su_err = [''Failed to change directory to '' @ work_dir par @ '': '' @ message],
                 su_files = files_of d, su_start = Exit 1\<rparr>
           | Inr d \<Rightarrow>
               let manifest = cfg_build_file (args_config par)
               in if files_of d manifest = None then
                    Some \<lparr>su_out = printed, su_err = [''Build File: '' @ manifest @ '' does not exist.''],
                      su_files = files_of d, su_start = Exit 1\<rparr>
                  else
                    do { p \<leftarrow> parse h cap addr os d manifest (new_builder cap);
                         Some \<lparr>su_out = printed @ fst (pd_console p),
                              su_err = snd (pd_console p) @
                                (case pd_result p of Parsed (Inl e) \<Rightarrow> [''Failed to parse: '' @ e] | _ \<Rightarrow> []),
                              su_files = pd_files p,
                              su_start =
                                (case pd_result p of
                                   Escaped \<Rightarrow> Uncaught
                                 | Parsed (Inl e) \<Rightarrow> Exit 1
                                 | Parsed (Inr _) \<Rightarrow>
                                     Start (action_of par) (args_config par)
                                       (override_all (definition_overrides par) (pd_builder p)))\<rparr> }))"

text \<open>The exit code and the last message, from the result of the part that ran.\<close>

definition cob_finish :: "action \<Rightarrow> unit result \<Rightarrow> string list \<times> nat" where
  "cob_finish a res =
     (case (a, res) of
        (Clean, Inl e) \<Rightarrow> ([''Clean failed: '' @ e], 1)
      | (Execute, Inl e) \<Rightarrow> ([''Execution failed: '' @ e], 1)
      | _ \<Rightarrow> ([], 0))"

section \<open>Overrides\<close>

lemma override_all_lookup:
  "defs_ok (m_definitions b) \<Longrightarrow>
    map_of (m_definitions (override_all overrides b)) = map_of (m_definitions b) ++ map_of (rev overrides) \<and>
    m_graph (override_all overrides b) = m_graph b \<and> defs_ok (m_definitions (override_all overrides b))"
proof (induction overrides arbitrary: b)
  case (Cons kv overrides)
  obtain k v where kv: "kv = (k, v)" by fastforce
  have step: "map_of (m_definitions (overrideDefinition b k v)) = (map_of (m_definitions b))(k \<mapsto> v)"
    "m_graph (overrideDefinition b k v) = m_graph b" "defs_ok (m_definitions (overrideDefinition b k v))"
    using Cons.prems by (simp_all add: overrideDefinition_def map_of_assign defs_ok_assign)
  have "override_all (kv # overrides) b = override_all overrides (overrideDefinition b k v)"
    by (simp add: override_all_def kv)
  with Cons.IH [OF step(3)] step kv show ?case
    by (auto simp: map_add_def fun_eq_iff split: option.split)
qed (simp add: override_all_def)

text \<open>Whatever the cache and the manifest hold, the definitions stay sorted.\<close>

lemma iterate_invariant:
  assumes "iterate n f s = Some s'" "I s" "\<And>s s'. I s \<Longrightarrow> f s = Some s' \<Longrightarrow> I s'"
  shows "I s'"
  using assms(1,2) by (induction n arbitrary: s) (auto simp: bind_eq_Some intro: assms(3))

lemma parse_definitions_keep:
  assumes "iterate n (parse_definition strings) (s, b) = Some (s', b')" "defs_ok (m_definitions b)"
  shows "defs_ok (m_definitions b') \<and> m_graph b' = m_graph b"
proof -
  have "defs_ok (m_definitions (snd (s', b'))) \<and> m_graph (snd (s', b')) = m_graph b"
    by (rule iterate_invariant [OF assms(1), where I = "\<lambda>(s, b1). defs_ok (m_definitions b1) \<and> m_graph b1 = m_graph b",
          unfolded case_prod_beta])
      (use assms(2) in \<open>auto simp: parse_definition_def bind_eq_Some addDefinition_def defs_ok_emplace\<close>)
  then show ?thesis by simp
qed

lemma parseBin_defs:
  assumes "parseBin h cap bin b = Some (b', r)" "defs_ok (m_definitions b)"
  shows "defs_ok (m_definitions b') \<and> (r \<noteq> Inr () \<longrightarrow> m_graph b' = m_graph b)"
proof (cases "\<exists>content hdr body strings. bin = Inr content \<and> \<not> length content < 56 \<and>
    get_header content = Some (hdr, body) \<and> parse_header content hdr = Inr strings")
  case True
  then obtain content hdr body strings where c: "bin = Inr content" "\<not> length content < 56"
    "get_header content = Some (hdr, body)" "parse_header content hdr = Inr strings" by blast
  with assms(1) obtain s1 b1 s2 nodes ix res where
      i: "iterate (num_definitions hdr) (parse_definition strings) (body, b) = Some (s1, b1)"
    and n: "parse_nodes h cap strings (num_nodes hdr) s1 = Some (s2, nodes, ix)"
    and st: "parse_steps strings (num_steps hdr) s2 [] = Some res"
    by (auto simp: parseBin_def bind_eq_Some)
  from assms(1) c i n st parse_definitions_keep [OF i assms(2)] show ?thesis
    by (cases res) (auto simp: parseBin_def)
next
  case False
  show ?thesis
  proof (cases "bin")
    case (Inr content)
    show ?thesis
    proof (cases "length content < 56")
      case long: False
      with assms(1) Inr obtain hdr body where h: "get_header content = Some (hdr, body)"
        by (auto simp: parseBin_def bind_eq_Some)
      with False Inr long obtain e where "parse_header content hdr = Inl e"
        by (cases "parse_header content hdr") auto
      with assms Inr long h show ?thesis by (auto simp: parseBin_def)
    qed (use assms Inr in \<open>simp add: parseBin_def\<close>)
  qed (use assms in \<open>simp add: parseBin_def\<close>)
qed

lemma parse_manifest_ok:
  assumes "parse_manifest h cap addr os d manifest console b = Some p" "builder_ok h b"
  shows "builder_ok h (pd_builder p)"
proof (cases "mapped d manifest")
  case (Inr content)
  obtain b' r where l: "parse_lines h (files_of d) content b = Some (b', r)" "builder_ok h b'"
    using parse_lines_returns [OF assms(2), of "files_of d" content] by (auto simp: returns_def)
  with assms(1) Inr show ?thesis by (cases r) (auto simp: parse_manifest_def bind_eq_Some)
qed (use assms in \<open>auto simp: parse_manifest_def\<close>)

lemma parse_defs:
  assumes "parse h cap addr os d manifest (new_builder cap) = Some p"
  shows "defs_ok (m_definitions (pd_builder p))"
proof -
  have start: "defs_ok (m_definitions (new_builder cap))" by (simp add: new_builder_def defs_ok_def)
  have manifest: "defs_ok (m_definitions (pd_builder p))"
    if "parse_manifest h cap addr os d manifest console b = Some p" "builder_ok h b" for console b
    using parse_manifest_ok [OF that] by (simp add: builder_ok_def)
  show ?thesis
  proof (cases "cache_is_newer d manifest = Some True")
    case True
    then obtain b r where b: "parseBin h cap (mapped d BIN) (new_builder cap) = Some (b, r)"
      using assms by (auto simp: parse_def bind_eq_Some)
    note keep = parseBin_defs [OF b start]
    show ?thesis
    proof (cases r)
      case (Inl e)
      with keep new_builder_ok [of h cap] have "builder_ok h b" by (simp add: builder_ok_def)
      with manifest True assms b Inl show ?thesis by (simp add: parse_def)
    next
      case (Inr u)
      with True assms b keep show ?thesis by (auto simp: parse_def)
    qed
  next
    case False
    with assms manifest [OF _ new_builder_ok] start show ?thesis
      by (auto simp: parse_def split: option.splits bool.splits)
  qed
qed

section \<open>The end of a build\<close>

text \<open>The last lines of \<open>execute\<close>: when a command hash has changed, the cache is written again, from
  the builder of the executor and the graph of the build.\<close>

definition save_cache ::
  "(string \<Rightarrow> u64) \<Rightarrow> nat \<Rightarrow> (view \<Rightarrow> u64) \<Rightarrow> os_answers \<Rightarrow> ExecutorConfig \<Rightarrow> step_ctx \<Rightarrow> COBBuilder \<Rightarrow> files \<Rightarrow>
    (files \<times> string list) option" where
  "save_cache h cap addr os cfg ctx b fs =
     (if \<not> dry_run cfg \<and> hashes_changed ctx then
        do { (fs, res) \<leftarrow> emitBin h cap addr os (b\<lparr>m_graph := x_graph ctx\<rparr>) fs;
             Some (fs, case res of Inl e \<Rightarrow> [''Warning: Failed to write .catalyst.bin: '' @ e] | Inr _ \<Rightarrow> []) }
      else Some (fs, []))"

text \<open>Overrides win. When main gets as far as the executor, the graph is the one parse built, and
  a name means what the last override of the command line says, or, without one, what the parsed
  definitions say; the executor gets the configuration of the command line.\<close>

theorem overrides_win:
  assumes "cob_start version h cap addr os chdir d argv = Some st" "su_start st = Start a cfg b"
  shows "\<exists>out par d' p. cliArgs version argv = (out, Inr par) \<and> cfg = args_config par \<and> a = action_of par \<and>
    parse h cap addr os d' (cfg_build_file cfg) (new_builder cap) = Some p \<and> pd_result p = Parsed (Inr ()) \<and>
    m_graph b = m_graph (pd_builder p) \<and>
    map_of (m_definitions b) = map_of (m_definitions (pd_builder p)) ++ map_of (rev (definition_overrides par))"
proof -
  obtain out par where par: "cliArgs version argv = (out, Inr par)"
    using assms by (cases "cliArgs version argv"; cases "snd (cliArgs version argv)") (auto simp: cob_start_def)
  then obtain d' where d': "(if work_dir par \<noteq> ''.'' then chdir (work_dir par) else Inr d) = Inr d'"
    using assms by (cases "if work_dir par \<noteq> ''.'' then chdir (work_dir par) else Inr d") (auto simp: cob_start_def)
  have exists: "files_of d' (cfg_build_file (args_config par)) \<noteq> None"
  proof
    assume "files_of d' (cfg_build_file (args_config par)) = None"
    with assms par d' show False by (auto simp: cob_start_def)
  qed
  with assms(1) par d' obtain p where p: "parse h cap addr os d' (cfg_build_file (args_config par)) (new_builder cap) = Some p"
    by (auto simp: cob_start_def bind_eq_Some Let_def)
  have "su_start st = (case pd_result p of Escaped \<Rightarrow> Uncaught | Parsed (Inl e) \<Rightarrow> Exit 1
      | Parsed (Inr _) \<Rightarrow> Start (action_of par) (args_config par) (override_all (definition_overrides par) (pd_builder p)))"
    using assms(1) par d' exists p by (auto simp: cob_start_def Let_def)
  with assms(2) have "pd_result p = Parsed (Inr ())" "a = action_of par" "cfg = args_config par"
    "b = override_all (definition_overrides par) (pd_builder p)"
    by (auto split: parse_result.splits sum.splits)
  with par p override_all_lookup [OF parse_defs [OF p], of "definition_overrides par"] show ?thesis by auto
qed

lemma overrides_win_witness:
  "\<exists>st a cfg b. cob_start ''1.0'' (\<lambda>_. 7) 4 (\<lambda>_. 0) slow_disk (\<lambda>_. Inl []) link_disk [''cob'', ''cc=clang''] = Some st \<and>
     su_start st = Start a cfg b \<and> map_of (m_definitions b) ''cc'' = Some ''clang''"
proof -
  obtain fs image where run: "parse (\<lambda>_. 7) 4 (\<lambda>_. 0) slow_disk link_disk ''catalyst.build'' (new_builder 4) =
      Some \<lparr>pd_files = fs, pd_console = ([], []), pd_builder = cached_example, pd_result = Parsed (Inr ())\<rparr>"
    using link_disk_run by blast
  have args: "cliArgs ''1.0'' [''cob'', ''cc=clang''] =
      ([], Inr (default_args\<lparr>definition_overrides := [(''cc'', ''clang'')]\<rparr>))"
    by code_simp
  have "files_of link_disk ''catalyst.build'' \<noteq> None" by (simp add: link_disk_def)
  with run args obtain st where st: "cob_start ''1.0'' (\<lambda>_. 7) 4 (\<lambda>_. 0) slow_disk (\<lambda>_. Inl []) link_disk [''cob'', ''cc=clang''] = Some st"
      "su_start st = Start Execute (args_config default_args) (override_all [(''cc'', ''clang'')] cached_example)"
    by (auto simp: cob_start_def default_args_def action_of_def)
  from overrides_win [OF st] args show ?thesis using st by auto
qed


text \<open>An example: a link step whose hash changed, with the linker overridden.\<close>

definition overridden :: COBBuilder where
  "overridden = override_all [(''cc'', ''clang'')] cached_example"

definition relinked :: step_ctx where
  "relinked = start_ctx\<lparr>x_graph := m_graph cached_example, hashes_changed := True\<rparr>"

lemma overridden_facts:
  "overridden\<lparr>m_graph := x_graph relinked\<rparr> = overridden" "m_definitions overridden = [(''cc'', ''clang'')]"
  "cacheable (\<lambda>_. 7) overridden" "m_graph overridden = m_graph cached_example"
  "records_size overridden + strings_total overridden = 245"
proof -
  have o: "overridden = cached_example\<lparr>m_definitions := [(''cc'', ''clang'')]\<rparr>"
    by (simp add: overridden_def override_all_def overrideDefinition_def cached_example_values(2))
  show g: "m_graph overridden = m_graph cached_example" by (simp add: o)
  show "m_definitions overridden = [(''cc'', ''clang'')]" by (simp add: o)
  show "overridden\<lparr>m_graph := x_graph relinked\<rparr> = overridden" by (simp add: o relinked_def)
  have "builder_ok (\<lambda>_. 7) overridden"
    unfolding overridden_def override_all_def
    using overrideDefinition_ok [of "\<lambda>_. 7" cached_example] cached_example_ok(1) by (simp add: cacheable_def)
  then show "cacheable (\<lambda>_. 7) overridden"
    using cached_example_ok(1) by (simp add: cacheable_def invalid_tools_def g)
  show "records_size overridden + strings_total overridden = 245"
    using cached_example_values(6) by (simp add: records_size_def strings_total_def o cached_example_values(2))
qed


end
