(* ===== verification/Build_Report.thy ===== *)
theory Build_Report
  imports Rebuild
begin

text \<open>
  What a build prints (\<open>Executor::execute\<close> in src/executor.cpp): the progress thread, which writes the
  messages of the workers to the console and the build log, the name of the final output, and the
  messages and the result at the end. The text of a stream is what was written to it; flushing does not
  change it. The local time is a parameter.
\<close>

section \<open>The progress thread\<close>

record streams =
  out_text :: string
  err_text :: string
  log_text :: string

text \<open>One turn of the loop, after an event was dequeued. \<open>log_open\<close>: there is a log file and it is open.\<close>

definition print_event :: "bool \<Rightarrow> LogEvent \<Rightarrow> streams \<Rightarrow> streams" where
  "print_event log_open ev s =
     (let s = (if is_error ev
               then (if console_message ev \<noteq> [] then s\<lparr>err_text := err_text s @ console_message ev\<rparr> else s)
               else (if console_message ev \<noteq> [] then s\<lparr>out_text := out_text s @ console_message ev\<rparr> else s))
      in if log_message ev \<noteq> [] \<and> log_open then s\<lparr>log_text := log_text s @ log_message ev\<rparr> else s)"

text \<open>\<open>None\<close>: the thread waits for ever, as there is no poison pill.\<close>

fun progress_loop :: "bool \<Rightarrow> LogEvent list \<Rightarrow> streams \<Rightarrow> streams option" where
  "progress_loop log_open [] s = None"
| "progress_loop log_open (ev # evs) s =
     (if is_poison_pill ev then Some s else progress_loop log_open evs (print_event log_open ev s))"

definition poison :: LogEvent where
  "poison = \<lparr>console_message = [], log_message = [], is_error = False, is_poison_pill = True\<rparr>"

section \<open>The final output\<close>

definition final_output_step :: "build_graph \<Rightarrow> string \<Rightarrow> nat \<Rightarrow> string" where
  "final_output_step g found i =
     (case step_id (nodes_m g ! i) of
        None \<Rightarrow> found
      | Some sid \<Rightarrow> if el_data (out_edges (nodes_m g ! i)) = [] then output_path (steps_m g ! sid) else found)"

definition final_output_name :: "bool \<Rightarrow> build_graph \<Rightarrow> string" where
  "final_output_name silent_mode g =
     (if silent_mode then [] else foldl (final_output_step g) [] [0..<length (nodes_m g)])"

section \<open>The end of \<open>execute\<close>\<close>

record local_time =
  tm_year :: nat
  tm_mon :: nat
  tm_mday :: nat
  tm_hour :: nat
  tm_min :: nat
  tm_sec :: nat
  subsec_ns :: nat

definition pad_zero :: "nat \<Rightarrow> nat \<Rightarrow> string" where
  "pad_zero width n = replicate (width - length (decimal n)) (CHR ''0'') @ decimal n"

definition timestamp :: "local_time \<Rightarrow> string" where
  "timestamp t = pad_zero 4 (tm_year t + 1900) @ ''-'' @ pad_zero 2 (tm_mon t + 1) @ ''-'' @ pad_zero 2 (tm_mday t) @ '' '' @
     pad_zero 2 (tm_hour t) @ '':'' @ pad_zero 2 (tm_min t) @ '':'' @ pad_zero 2 (tm_sec t) @ ''.'' @ pad_zero 9 (subsec_ns t)"

definition finished_line :: "bool \<Rightarrow> local_time \<Rightarrow> string \<Rightarrow> string" where
  "finished_line is_tty t name =
     (if is_tty
      then [CR, ESC] @ ''[K['' @ timestamp t @ ''] '' @ [ESC] @ ''[32m[COB FINISHED: '' @ name @ '']'' @ [ESC] @ ''[0m'' @ [LF]
      else ''['' @ timestamp t @ ''] [COB FINISHED: '' @ name @ '']'' @ [LF])"

text \<open>The text printed after the workers and the progress thread have ended, and the result.\<close>

definition execute_end ::
  "ExecutorConfig \<Rightarrow> bool \<Rightarrow> local_time \<Rightarrow> bool \<Rightarrow> nat \<Rightarrow> nat \<Rightarrow> nat \<Rightarrow> string \<Rightarrow> string \<times> unit result" where
  "execute_end cfg is_tty t error completed node_total printed name =
     (let newline = (if \<not> silent cfg \<and> is_tty \<and> printed > 0 then [LF] else [])
      in if error then (newline, unexpected ''Build Failed'')
         else if completed \<noteq> node_total then (newline, unexpected ''Build stalled: Concurrency or scheduling bug detected.'')
         else (if \<not> silent cfg \<and> name \<noteq> [] then finished_line is_tty t name else [], expected ()))"

section \<open>Properties\<close>

lemma print_event_texts [simp]:
  "out_text (print_event lo ev s) = out_text s @ (if is_error ev then [] else console_message ev)"
  "err_text (print_event lo ev s) = err_text s @ (if is_error ev then console_message ev else [])"
  "log_text (print_event lo ev s) = log_text s @ (if lo then log_message ev else [])"
  by (auto simp: print_event_def Let_def)

lemma progress_loop_texts:
  "\<forall>ev \<in> set evs. \<not> is_poison_pill ev \<Longrightarrow> returns (progress_loop lo (evs @ poison # rest) s) (\<lambda>s'.
     out_text s' = out_text s @ concat (map console_message (filter (\<lambda>ev. \<not> is_error ev) evs)) \<and>
     err_text s' = err_text s @ concat (map console_message (filter is_error evs)) \<and>
     log_text s' = log_text s @ (if lo then concat (map log_message evs) else []))"
proof (induction evs arbitrary: s)
  case (Cons ev evs)
  then have "\<not> is_poison_pill ev" "\<forall>ev \<in> set evs. \<not> is_poison_pill ev" by simp_all
  with Cons.IH [of "print_event lo ev s"] show ?case by (auto elim!: returns_mono)
qed (simp add: poison_def)

text \<open>Nothing a worker does puts a poison pill into the queue.\<close>

definition only_messages :: "step_ctx \<Rightarrow> step_ctx \<Rightarrow> bool" where
  "only_messages c c' \<longleftrightarrow> (\<exists>evs. progress c' = progress c @ evs \<and> (\<forall>ev \<in> set evs. \<not> is_poison_pill ev))"

lemma only_messages_refl [simp]: "only_messages c c"
  by (simp add: only_messages_def)

lemma only_messages_trans: "only_messages c c' \<Longrightarrow> only_messages c' c'' \<Longrightarrow> only_messages c c''"
  unfolding only_messages_def by (metis Un_iff append.assoc set_append)

lemma only_messages_parts [simp]:
  "only_messages c (enqueue_message con lg err c)" "only_messages c (printMessage cfg step tty c)"
  "only_messages c (report_error b m c)" "only_messages c (log_output cfg step ec out c)"
  "only_messages c (step_succeeded v sid hash c)"
  by (auto simp: only_messages_def enqueue_message_def printMessage_def report_error_def log_output_def step_succeeded_def Let_def)

lemma only_messages_then:
  "only_messages c c0 \<Longrightarrow> only_messages c (report_error b m c0)"
  "only_messages c c0 \<Longrightarrow> only_messages c (step_succeeded v sid hash c0)"
  by (erule only_messages_trans, simp)+

lemma run_command_messages: "only_messages c (snd (run_command cfg step v sid hash res c))"
  by (auto simp: run_command_def Let_def split: sum.split intro!: only_messages_then)

lemma run_after_messages:
  assumes "only_messages c c0"
  shows "only_messages c (snd (run_command cfg step v sid hash res (c0\<lparr>x_world := w\<rparr>)))"
proof -
  have "only_messages c (c0\<lparr>x_world := w\<rparr>)" using assms by (simp add: only_messages_def)
  then show ?thesis by (rule only_messages_trans) (rule run_command_messages)
qed

lemma processStep_messages:
  assumes "processStep n cfg tf pe now tty v ctx = Inr (r, ctx')"
  shows "only_messages ctx ctx'"
proof (cases "step_id (nodes_m (x_graph ctx) ! v)")
  case None
  with assms show ?thesis by (simp add: processStep_def)
next
  case (Some sid)
  let ?step = "steps_m (x_graph ctx) ! sid"
  obtain rebuild nt hash args where nr:
    "needsRebuild n (x_world ctx) (x_graph ctx) ?step v (x_times ctx) tf = Inr (rebuild, nt, hash, args)"
    using assms Some by (auto simp: processStep_def Let_def split: sum.splits)
  let ?ctx = "ctx\<lparr>x_times := nt\<rparr>"
  have start: "only_messages ctx ?ctx" by (simp add: only_messages_def)
  have print: "only_messages ctx (printMessage cfg ?step tty ?ctx)"
    by (rule only_messages_trans [OF start]) simp
  have skip: "only_messages ctx (enqueue_message m [] False ?ctx)" for m
    by (rule only_messages_trans [OF start]) simp
  have run: "only_messages ctx (snd (run_command cfg ?step v sid hash res ((printMessage cfg ?step tty ?ctx)\<lparr>x_world := w\<rparr>)))" for res w
    by (rule run_after_messages [OF print])
  show ?thesis
    using assms Some nr start print skip run
    by (auto simp: processStep_def Let_def split: if_splits prod.splits) (metis snd_conv)+
qed

lemma run_messages: "run_steps n cfg tf pe now tty vs ctx = Inr (r, ctx') \<Longrightarrow> only_messages ctx ctx'"
proof (induction vs arbitrary: ctx)
  case (Cons v vs)
  then obtain r1 ctx1 where step: "processStep n cfg tf pe now tty v ctx = Inr (r1, ctx1)"
    by (auto split: sum.splits)
  from processStep_messages [OF step] Cons step show ?case
    by (auto split: if_splits intro: only_messages_trans)
qed simp

text \<open>The console and the build log show everything, in order. When a build by one worker has ended,
  in success or with a failed step, and the poison pill follows its messages, the progress thread ends;
  the standard output then holds the messages that are no errors, in the order in which they were
  reported, the standard error the errors, and the log file, if there is one, all captured output.\<close>

theorem progress_shows_everything:
  assumes "run_steps n cfg tf pe now tty vs (fresh_ctx h cfg threads g w) = Inr (r, ctx)"
  shows "returns (progress_loop log_open (progress ctx @ [poison]) \<lparr>out_text = [], err_text = [], log_text = []\<rparr>) (\<lambda>s.
    out_text s = concat (map console_message (filter (\<lambda>ev. \<not> is_error ev) (progress ctx))) \<and>
    err_text s = concat (map console_message (filter is_error (progress ctx))) \<and>
    log_text s = (if log_open then concat (map log_message (progress ctx)) else []))"
proof -
  have "\<forall>ev \<in> set (progress ctx). \<not> is_poison_pill ev"
    using run_messages [OF assms] by (simp add: only_messages_def fresh_ctx_def)
  from progress_loop_texts [OF this, of log_open "[]" "\<lparr>out_text = [], err_text = [], log_text = []\<rparr>"] show ?thesis by simp
qed

lemma progress_shows_everything_witness:
  "\<exists>ctx. run_steps 50 (plain_config False) plain_tools clock_compiler 20 False [1, 0]
       (fresh_ctx (\<lambda>_. 7) (plain_config False) 1 compile_graph edited) = Inr (0, ctx) \<and>
     returns (progress_loop True (progress ctx @ [poison]) \<lparr>out_text = [], err_text = [], log_text = []\<rparr>)
       (\<lambda>s. log_text s = concat (map log_message (progress ctx)))"
proof -
  obtain ctx where run: "run_steps 50 (plain_config False) plain_tools clock_compiler 20 False [1, 0]
      (fresh_ctx (\<lambda>_. 7) (plain_config False) 1 compile_graph edited) = Inr (0, ctx)" using example_run by blast
  from progress_shows_everything [OF run, of True]
  have "returns (progress_loop True (progress ctx @ [poison]) \<lparr>out_text = [], err_text = [], log_text = []\<rparr>)
      (\<lambda>s. log_text s = concat (map log_message (progress ctx)))" by (rule returns_mono) simp
  with run show ?thesis by blast
qed

text \<open>The name printed at the end is the output of the last node that is produced and used by nothing.\<close>

lemma final_output_last:
  assumes "v < length (nodes_m g)" "step_id (nodes_m g ! v) = Some sid" "succs g v = []"
    and "\<forall>u < length (nodes_m g). v < u \<longrightarrow> produced g u \<longrightarrow> succs g u \<noteq> []"
  shows "final_output_name False g = output_path (steps_m g ! sid)"
proof -
  have split: "[0..<length (nodes_m g)] = [0..<v] @ v # [Suc v..<length (nodes_m g)]"
    using assms(1) by (metis append_Cons append_Nil less_imp_le_nat upt_add_eq_append upt_conv_Cons le_add_diff_inverse le0 add_0)
  have keep: "foldl (final_output_step g) found us = found"
    if "\<forall>u \<in> set us. u < length (nodes_m g) \<and> v < u" for found us
    using that assms(4) by (induction us) (auto simp: final_output_step_def produced_def succs_def split: option.splits)
  show ?thesis
    unfolding final_output_name_def split using assms(2,3) keep [of "[Suc v..<length (nodes_m g)]"]
    by (simp add: final_output_step_def succs_def)
qed

end
