(* ===== verification/Next_Run.thy ===== *)
theory Next_Run
  imports Incremental Command_Line Build_Report
begin

text \<open>
  Two processes: a build that succeeds and saves its cache (the end of \<open>execute\<close> in src/executor.cpp),
  and the next start of the program with the same command line, which loads the cache (src/cob.cpp,
  src/parser.cpp, src/binary.cpp). The second one has nothing to do.
\<close>

section \<open>Cacheable graphs\<close>

lemma same_shape_map:
  assumes "same_shape g g'" "\<And>s c. f (s\<lparr>command_hash := c\<rparr>) = f s"
  shows "map f (steps_m g') = map f (steps_m g)"
proof (rule nth_equalityI)
  fix i assume "i < length (map f (steps_m g'))"
  then have i: "i < length (steps_m g)" using same_shapeD(3) [OF assms(1)] by simp
  then obtain c where "steps_m g' ! i = (steps_m g ! i)\<lparr>command_hash := c\<rparr>" using same_shapeD(4) [OF assms(1)] by blast
  then show "map f (steps_m g') ! i = map f (steps_m g) ! i" using i same_shapeD(3) [OF assms(1)] assms(2) by simp
qed (simp add: same_shapeD(3) [OF assms(1)])

lemma same_shape_all:
  assumes "same_shape g g'" "\<And>s c. P (s\<lparr>command_hash := c\<rparr>) = P s"
  shows "list_all P (steps_m g') = list_all P (steps_m g)"
  using arg_cong [OF same_shape_map [of g g' P, OF assms], of "list_all id"] by (simp add: list_all_iff)

lemma same_shape_builder:
  assumes "same_shape (m_graph b) g"
  shows "cacheable h b \<Longrightarrow> cacheable h (b\<lparr>m_graph := g\<rparr>)" "views_ok addr (m_graph b) \<Longrightarrow> views_ok addr g"
    "records_size (b\<lparr>m_graph := g\<rparr>) + strings_total (b\<lparr>m_graph := g\<rparr>) = records_size b + strings_total b"
proof -
  have m: "map f (steps_m g) = map f (steps_m (m_graph b))" if "\<And>s c. f (s\<lparr>command_hash := c\<rparr>) = f s" for f :: "build_step \<Rightarrow> 'x"
    by (rule same_shape_map [OF assms that])
  have tools: "map tool (steps_m g) = map tool (steps_m (m_graph b))"
    by (rule same_shape_map [OF assms]) simp
  have split: "list_all inputs_split (steps_m g) = list_all inputs_split (steps_m (m_graph b))"
    by (rule same_shape_all [OF assms]) (simp add: inputs_split_def)
  show "cacheable h b \<Longrightarrow> cacheable h (b\<lparr>m_graph := g\<rparr>)"
    using same_shape_ok [OF _ assms, of h] tools split by (simp add: cacheable_def builder_ok_def invalid_tools_def)
  have deps: "depfile_inputs (steps_m g ! s) = depfile_inputs (steps_m (m_graph b) ! s)" if "s < length (steps_m (m_graph b))" for s
    using same_shapeD(4) [OF assms that] by auto
  show "views_ok addr (m_graph b) \<Longrightarrow> views_ok addr g"
    using deps same_shapeD(1,3) [OF assms] by (simp add: views_ok_def)
  have "map (\<lambda>s. 72 + length (di_list (depfile_inputs s)) * 16) (steps_m g) =
      map (\<lambda>s. 72 + length (di_list (depfile_inputs s)) * 16) (steps_m (m_graph b))"
    by (rule same_shape_map [OF assms]) simp
  moreover have "map (\<lambda>st. length (concat (step_strings st))) (steps_m g) =
      map (\<lambda>st. length (concat (step_strings st))) (steps_m (m_graph b))"
    by (rule same_shape_map [OF assms]) (simp add: step_strings_def)
  ultimately show "records_size (b\<lparr>m_graph := g\<rparr>) + strings_total (b\<lparr>m_graph := g\<rparr>) = records_size b + strings_total b"
    using same_shapeD(1) [OF assms] by (simp add: records_size_def strings_total_def)
qed

section \<open>Loaded graphs\<close>

text \<open>What a build decides is the same on a graph that was loaded, and on files that look the same.\<close>

lemma same_step_command:
  assumes "same_step st st'"
  shows "buildCommandArgs n bf w st' dry tf = buildCommandArgs n bf w st dry tf"
  using same_step_fields [OF assms]
  by (simp add: buildCommandArgs_def link_args_def choose_rsp_def compile_args_def archive_args_def shared_args_def rsp_content_def
      cong: if_cong)

lemma same_step_out_of_date:
  assumes "same_step st st'"
  shows "out_of_date n w bf st' tf = out_of_date n w bf st tf"
  unfolding out_of_date_def same_step_command [OF assms] same_step_fields [OF assms] by (rule refl)

lemma plain_links_cong:
  assumes "length (steps_m g') = length (steps_m g)"
    and "\<And>i. i < length (steps_m g) \<Longrightarrow> tool (steps_m g' ! i) = tool (steps_m g ! i) \<and>
      output_path (steps_m g' ! i) = output_path (steps_m g ! i) \<and> parsed_inputs (steps_m g' ! i) = parsed_inputs (steps_m g ! i)"
  shows "plain_links n g' w = plain_links n g w"
  using assms by (simp add: plain_links_def all_set_conv_all_nth)

lemma same_graph_links: "same_graph g g' \<Longrightarrow> plain_links n g' w = plain_links n g w"
  by (rule plain_links_cong) (simp_all add: same_graphD same_step_fields [OF same_graphD(6)])

lemma same_shape_links:
  assumes "same_shape g g'"
  shows "plain_links n g' w = plain_links n g w"
  by (rule plain_links_cong) (use same_shapeD(3,4) [OF assms] in fastforce)+

lemma same_graph_inputs_there: "same_graph g g' \<Longrightarrow> inputs_there cfg g' w = inputs_there cfg g w"
  by (simp add: inputs_there_def produced_def same_graphD)

lemma look_same_setting:
  assumes "\<forall>q \<in> set (watched_files cfg g). w_time w' q = w_time w q \<and> w_exists w' q = w_exists w q"
  shows "inputs_there cfg g w' = inputs_there cfg g w" "plain_links n g w' = plain_links n g w"
  using assms by (auto simp: inputs_there_def plain_links_def watched_files_def known_files_def)

lemma loaded_built:
  assumes g: "graph_ok h g" and B: "built h n cfg tf g {..<length (nodes_m g)} ctx"
    and loaded: "same_graph (x_graph ctx) g'" "graph_ok h g'"
    and w': "world_ok w'" "\<forall>q \<in> set (watched_files cfg g). w_time w' q = w_time (x_world ctx) q \<and> w_exists w' q = w_exists (x_world ctx) q"
  shows "built h n cfg tf g' {..<length (nodes_m g')} (fresh_ctx h cfg threads g' w')"
proof (rule fresh_built [OF loaded(2) same_shape_refl w'(1)])
  let ?w = "x_world ctx" and ?g = "x_graph ctx"
  note shape = same_shapeD [OF builtD(1) [OF B]] and fields = same_shape_fields [OF builtD(1) [OF B]] and G = same_graphD [OF loaded(1)]
  have there: "inputs_there cfg g w'" "plain_links n g w'" using look_same_setting [OF w'(2)] builtD(5,6) [OF B] by simp_all
  have links: "plain_links n ?g w'" "plain_links n ?g ?w"
    using there(2) builtD(6) [OF B] same_shape_links [OF builtD(1) [OF B]] by simp_all
  then show "plain_links n g' w'" using same_graph_links [OF loaded(1)] by simp
  have "inputs_there cfg ?g w'" using there(1) shape(1) by (simp add: inputs_there_def produced_def)
  then show "inputs_there cfg g' w'" using same_graph_inputs_there [OF loaded(1)] by simp
  show "\<forall>v \<in> {..<length (nodes_m g')}. \<forall>sid. step_id (nodes_m g' ! v) = Some sid \<longrightarrow>
      \<not> out_of_date n w' (cfg_build_file cfg) (steps_m g' ! sid) tf"
  proof (intro ballI allI impI)
    fix v sid assume v: "v \<in> {..<length (nodes_m g')}" "step_id (nodes_m g' ! v) = Some sid"
    then have v: "v < length (nodes_m g)" "step_id (nodes_m g ! v) = Some sid" using G(1,4) shape(1) by simp_all
    have sid: "sid < length (steps_m g)" "output_path (steps_m g ! sid) = path (nodes_m g ! v)"
      using g v by (auto simp: graph_ok_def producers_ok_def)
    let ?st = "steps_m ?g ! sid"
    have mem: "?st \<in> set (steps_m ?g)" using sid(1) shape(3) by simp
    have "fst (buildCommandArgs n (cfg_build_file cfg) w' ?st True tf) = fst (buildCommandArgs n (cfg_build_file cfg) ?w ?st True tf)"
      using command_stable [of ?st n ?w w' "cfg_build_file cfg" "command_hash ?st" True tf] links mem by (simp add: plain_links_def)
    moreover have "w_time w' q = w_time ?w q" if "q \<in> set (output_path ?st # cfg_build_file cfg # step_inputs ?st)" for q
    proof -
      have "q \<in> set (watched_files cfg g)"
        using that sid fields(1,3) [OF sid(1)] v inputs_are_edges [OF g v, of "\<lambda>p. p = q"] watched(1) [of cfg g] watched(3) [of _ g cfg]
        by auto
      with w'(2) show ?thesis by blast
    qed
    ultimately have "out_of_date n w' (cfg_build_file cfg) ?st tf = out_of_date n ?w (cfg_build_file cfg) ?st tf"
      by (intro out_of_date_frame) blast+
    moreover have "\<not> out_of_date n ?w (cfg_build_file cfg) ?st tf" using builtD(7) [OF B _ v(2)] v(1) by simp
    ultimately show "\<not> out_of_date n w' (cfg_build_file cfg) (steps_m g' ! sid) tf"
      using same_step_out_of_date G(6) [of sid] sid(1) shape(3) by simp
  qed
qed

section \<open>Unchanged graphs\<close>

text \<open>The flag that decides about saving the cache is set whenever a hash changes.\<close>

definition graph_kept :: "step_ctx \<Rightarrow> step_ctx \<Rightarrow> bool" where
  "graph_kept c c' \<longleftrightarrow> (\<not> hashes_changed c' \<longrightarrow> \<not> hashes_changed c \<and> x_graph c' = x_graph c)"

lemma graph_kept_trans: "graph_kept c c' \<Longrightarrow> graph_kept c' c'' \<Longrightarrow> graph_kept c c''"
  by (auto simp: graph_kept_def)

lemma graph_kept_same: "x_graph c' = x_graph c \<Longrightarrow> hashes_changed c' = hashes_changed c \<Longrightarrow> graph_kept c c'"
  by (simp add: graph_kept_def)

lemma run_command_kept: "graph_kept c (snd (run_command cfg step v sid hash res c))"
proof (cases "fst (run_command cfg step v sid hash res c) = 0")
  case True
  from run_command_cases(2) [OF this] obtain c1 where c1: "same_build c c1"
    "snd (run_command cfg step v sid hash res c) = step_succeeded v sid hash c1" by blast
  have "graph_kept c1 (step_succeeded v sid hash c1)" by (auto simp: graph_kept_def step_succeeded_def Let_def)
  with c1 graph_kept_trans [OF graph_kept_same] same_buildD [OF c1(1)] show ?thesis by metis
next
  case False
  from run_command_cases(3) [OF this] show ?thesis by (intro graph_kept_same) simp_all
qed

lemma processStep_kept:
  assumes "processStep n cfg tf pe now tty v ctx = Inr (r, ctx')"
  shows "graph_kept ctx ctx'"
proof (cases "step_id (nodes_m (x_graph ctx) ! v)")
  case None
  with assms show ?thesis by (simp add: processStep_def graph_kept_def)
next
  case (Some sid)
  let ?step = "steps_m (x_graph ctx) ! sid"
  obtain rebuild nt hash args where nr:
    "needsRebuild n (x_world ctx) (x_graph ctx) ?step v (x_times ctx) tf = Inr (rebuild, nt, hash, args)"
    using assms Some by (auto simp: processStep_def Let_def split: sum.splits)
  let ?ctx = "ctx\<lparr>x_times := nt\<rparr>"
  have print: "graph_kept ctx (printMessage cfg ?step tty ?ctx)" "graph_kept ctx ?ctx" by (simp_all add: graph_kept_same)
  have skip: "graph_kept ctx (enqueue_message m [] False ?ctx)" for m by (simp add: graph_kept_same)
  have run: "graph_kept ctx (snd (run_command cfg ?step v sid hash res ((printMessage cfg ?step tty ?ctx)\<lparr>x_world := w\<rparr>)))" for res w
    by (rule graph_kept_trans [OF _ run_command_kept]) (simp add: graph_kept_same)
  show ?thesis
    using assms Some nr print skip run
    by (auto simp: processStep_def Let_def split: if_splits prod.splits) (metis snd_conv)+
qed

lemma run_kept: "run_steps n cfg tf pe now tty vs ctx = Inr (r, ctx') \<Longrightarrow> graph_kept ctx ctx'"
proof (induction vs arbitrary: ctx)
  case (Cons v vs)
  then obtain r1 ctx1 where step: "processStep n cfg tf pe now tty v ctx = Inr (r1, ctx1)" by (auto split: sum.splits)
  from processStep_kept [OF this] Cons step show ?case by (auto split: if_splits intro: graph_kept_trans)
qed (simp add: graph_kept_def)

section \<open>The next process\<close>

lemma toolchain_cong: "m_definitions b' = m_definitions b \<Longrightarrow> toolchain_of b' = toolchain_of b"
  by (simp add: toolchain_of_def getDefinitionVec_def getDefinitionOf_def getLinkerVec_def getArchiverVec_def)

text \<open>The cache that is there at the end of a build, saved by it or left as it was, holds its graph.\<close>

lemma saved_cache_loads:
  assumes "cacheable h b" "views_ok addr0 (m_graph b)" "views_ok addr (m_graph b)" "records_size b + strings_total b < 2 ^ 64"
    and "same_shape (m_graph b) (x_graph ctx)" "\<not> hashes_changed ctx \<longrightarrow> x_graph ctx = m_graph b" "\<not> dry_run cfg"
    and "emitBin h cap0 addr0 os0 b fs0 = Some (fs1, Inr ())" "fs BIN = fs1 BIN"
    and "save_cache h cap addr os cfg ctx b fs = Some (fs', [])" "fs' BIN = Some content"
  shows "returns (parseBin h cap' (Inr content) (new_builder cap')) (\<lambda>(b', r).
    r = Inr () \<and> m_definitions b' = m_definitions b \<and> same_graph (x_graph ctx) (m_graph b') \<and> graph_ok h (m_graph b'))"
proof (cases "hashes_changed ctx")
  case False
  then have "fs' BIN = fs1 BIN" "x_graph ctx = m_graph b" using assms(6,9,10) by (simp_all add: save_cache_def)
  with stored_cache_loads [OF assms(1,2,8) _ assms(4), of content cap'] assms(11) show ?thesis by simp
next
  case True
  let ?b = "b\<lparr>m_graph := x_graph ctx\<rparr>"
  obtain fs2 r where e: "emitBin h cap addr os ?b fs = Some (fs2, r)"
    using assms(7,10) True by (auto simp: save_cache_def bind_eq_Some)
  then have emit: "emitBin h cap addr os ?b fs = Some (fs', r)" "r = Inr ()"
    using assms(7,10) True by (cases r; auto simp: save_cache_def)+
  note kept = same_shape_builder [OF assms(5)]
  have "cacheable h ?b" "views_ok addr (m_graph ?b)" "records_size ?b + strings_total ?b < 2 ^ 64"
    using kept(1) [OF assms(1)] kept(2) [OF assms(3)] assms(4) by (simp_all add: kept(3))
  from stored_cache_loads [OF this(1,2) emit(1) [unfolded emit(2)] assms(11) this(3), of cap'] show ?thesis by simp
qed

text \<open>C8: The next process has nothing to do, without response files. Take a builder with valid
  tools, below 2^64 bytes, written to the cache, in which views of one address and length are one text;
  a build of its graph in the setting of C5 (files that exist have times; sources and build file there,
  build file made by no step; link steps below the threshold, their response files neither existing nor
  outputs; tools that change only their output and make it newest; no dry run) that processes all nodes
  with result 0; and the cache saved at the end, if a hash has changed, without a warning. If the
  program is started again with options that name the same manifest, no directory and no definition, and
  finds the manifest, that cache, newer than it, and the watched files as they were left, it reports
  nothing, loads the cache and starts the executor with the same tools and flags; and the build,
  whatever commands would do and in any order, runs no command, changes no file or hash, and succeeds.\<close>

theorem next_process_does_nothing:
  assumes "cacheable h b" "world_ok w" "inputs_there cfg (m_graph b) w" "build_file_is_source cfg (m_graph b)"
    and "plain_links n (m_graph b) w" "tool_contract n cfg (toolchain_of b) (m_graph b) pe" "\<not> dry_run cfg"
    and "is_topological (m_graph b) order"
    and "run_steps n cfg (toolchain_of b) pe now tty order (fresh_ctx h cfg threads (m_graph b) w) = Inr (0, ctx)"
    and "views_ok addr0 (m_graph b)" "views_ok addr (m_graph b)" "records_size b + strings_total b < 2 ^ 64"
    and "emitBin h cap0 addr0 os0 b fs0 = Some (fs1, Inr ())" "fs ''.catalyst.bin'' = fs1 ''.catalyst.bin''"
    and "save_cache h cap addr os cfg ctx b fs = Some (files_of d', [])"
    and "cliArgs version argv = (printed, Inr par)" "work_dir par = ''.''" "definition_overrides par = []"
    and "cfg_build_file (args_config par) = cfg_build_file cfg"
    and "map_answers d' ''.catalyst.bin'' = MapOk" "cache_is_newer d' (cfg_build_file cfg) = Some True"
    and "files_of d' (cfg_build_file cfg) \<noteq> None" "world_ok w'"
    and "\<forall>q \<in> set (watched_files cfg (m_graph b)). w_time w' q = w_time (x_world ctx) q \<and> w_exists w' q = w_exists (x_world ctx) q"
  shows "\<exists>b'. cob_start version h cap' addr' os' chdir d' argv =
      Some \<lparr>su_out = printed, su_err = [], su_files = files_of d', su_start = Start (action_of par) (args_config par) b'\<rparr> \<and>
    toolchain_of b' = toolchain_of b \<and> map path (nodes_m (m_graph b')) = map path (nodes_m (m_graph b)) \<and>
    (\<forall>pe' now' tty' threads' nodes'. set nodes' \<subseteq> {..<length (nodes_m (m_graph b'))} \<longrightarrow>
       (\<exists>ctx'. run_steps n (args_config par) (toolchain_of b') pe' now' tty' nodes'
            (fresh_ctx h (args_config par) threads' (m_graph b') w') = Inr (0, ctx') \<and>
          x_world ctx' = w' \<and> x_graph ctx' = m_graph b' \<and> \<not> hashes_changed ctx'))"
proof -
  let ?g = "m_graph b" and ?bf = "cfg_build_file cfg" and ?cfg = "args_config par"
  have g: "graph_ok h ?g" using assms(1) by (simp add: cacheable_def builder_ok_def)
  note B = run_built [OF g assms(2-9)]
  have kept: "\<not> hashes_changed ctx \<longrightarrow> x_graph ctx = ?g"
    using run_kept [OF assms(9)] by (simp add: graph_kept_def fresh_ctx_def)
  obtain image where image: "files_of d' BIN = Some image"
    using assms(21) by (auto simp: cache_is_newer_def split: if_splits)
  from saved_cache_loads [OF assms(1,10-12) builtD(1) [OF B] kept assms(7,13-15) image, of cap']
  obtain b' where b': "parseBin h cap' (Inr image) (new_builder cap') = Some (b', Inr ())" "m_definitions b' = m_definitions b"
    "same_graph (x_graph ctx) (m_graph b')" "graph_ok h (m_graph b')" by (auto simp: returns_def)
  have "mapped d' BIN = Inr image" using image assms(20) by (simp add: mapped_def)
  with b'(1) assms(21) have "parse h cap' addr' os' d' ?bf (new_builder cap') =
      Some \<lparr>pd_files = files_of d', pd_console = ([], []), pd_builder = b', pd_result = Parsed (Inr ())\<rparr>"
    by (simp add: parse_def)
  then have start: "cob_start version h cap' addr' os' chdir d' argv =
      Some \<lparr>su_out = printed, su_err = [], su_files = files_of d', su_start = Start (action_of par) ?cfg b'\<rparr>"
    using assms(16-19,22) by (simp add: cob_start_def override_all_def Let_def)
  have tools: "toolchain_of b' = toolchain_of b" by (rule toolchain_cong [OF b'(2)])
  have again: "\<exists>ctx'. run_steps n ?cfg (toolchain_of b') pe' now' tty' nodes' (fresh_ctx h ?cfg threads' (m_graph b') w') =
        Inr (0, ctx') \<and> x_world ctx' = w' \<and> x_graph ctx' = m_graph b' \<and> \<not> hashes_changed ctx'"
    if "set nodes' \<subseteq> {..<length (nodes_m (m_graph b'))}" for pe' now' tty' threads' nodes'
  proof -
    have "built h n cfg (toolchain_of b') (m_graph b') {..<length (nodes_m (m_graph b'))} (fresh_ctx h cfg threads' (m_graph b') w')"
      unfolding tools by (rule loaded_built [OF g B b'(3,4) assms(23,24)])
    moreover have "fresh_ctx h cfg threads' (m_graph b') w' = fresh_ctx h ?cfg threads' (m_graph b') w'"
      by (simp add: fresh_ctx_def assms(19))
    ultimately have "built h n ?cfg (toolchain_of b') (m_graph b') {..<length (nodes_m (m_graph b'))}
        (fresh_ctx h ?cfg threads' (m_graph b') w')"
      by (simp add: built_def inputs_there_def assms(19))
    from run_skips [OF b'(4) this that, of pe' now' tty'] show ?thesis unfolding fresh_ctx_def by simp blast
  qed
  have "map path (nodes_m (m_graph b')) = map path (nodes_m ?g)"
    using b'(3) same_shapeD(1) [OF builtD(1) [OF B]] by (simp add: same_graph_def)
  with start tools again show ?thesis by blast
qed

text \<open>An example: the compile step of Rebuild.thy, without definitions.\<close>

definition compile_builder :: COBBuilder where
  "compile_builder = (new_builder 4)\<lparr>m_graph := compile_graph\<rparr>"

lemma compile_builder_values:
  "m_graph compile_builder = compile_graph" "invalid_tools compile_builder = []"
  "cacheable (\<lambda>_. 7) compile_builder" "records_size compile_builder + strings_total compile_builder \<le> 300"
proof -
  show g: "m_graph compile_builder = compile_graph" by (simp add: compile_builder_def)
  show t: "invalid_tools compile_builder = []" by code_simp
  have "list_all inputs_split (steps_m compile_graph)" by code_simp
  then show "cacheable (\<lambda>_. 7) compile_builder"
    using t compile_graph_ok by (simp add: cacheable_def builder_ok_def g) (simp add: compile_builder_def new_builder_def defs_ok_def)
  show "records_size compile_builder + strings_total compile_builder \<le> 300" by code_simp
qed

lemma slow_disk_emits:
  assumes "invalid_tools b = []" "records_size b + strings_total b \<le> 300"
  shows "\<exists>fs' image. emitBin (\<lambda>_. 7) 4 (\<lambda>_. 0) slow_disk b fs = Some (fs', Inr ()) \<and> fs' BIN = Some image \<and>
    (\<forall>p. p \<noteq> BIN \<longrightarrow> p \<noteq> BIN_TMP \<longrightarrow> fs' p = fs p)"
proof -
  have views: "views_ok (\<lambda>_. 0) (m_graph b)" by (simp add: views_ok_def)
  obtain sb ds ns ss where i: "bin_image (\<lambda>_. 7) 4 (\<lambda>_. 0) b =
      Some (bin_header b sb (concat ds @ concat ns @ concat ss @ buffer_data sb), concat ds @ concat ns @ concat ss @ buffer_data sb)"
    "length (concat ds @ concat ns @ concat ss @ buffer_data sb) = records_size b + length (buffer_data sb)"
    "length (buffer_data sb) \<le> strings_total b"
    using bin_image_ok [OF views, of "\<lambda>_. 7" 4] by blast
  then have "length (concat ds @ concat ns @ concat ss @ buffer_data sb) \<le> 300" using assms(2) by linarith
  then have "enough_writes slow_disk (bin_image (\<lambda>_. 7) 4 (\<lambda>_. 0) b)"
    by (simp add: enough_writes_def i(1) length_header MAGIC_def slow_disk_def)
  from emitBin_outcome [OF views this, of fs] obtain fs' r hdr payload where
    e: "emitBin (\<lambda>_. 7) 4 (\<lambda>_. 0) slow_disk b fs = Some (fs', r)" "\<forall>p. p \<noteq> BIN \<longrightarrow> p \<noteq> BIN_TMP \<longrightarrow> fs' p = fs p"
    "fs' BIN = (if r = Inr () then Some (put_header hdr @ payload) else fs BIN)" by (elim exE conjE) rule
  have "r = Inr ()"
    using emitBin_succeeds [OF _ e(1)] assms(1) by (simp add: no_failure_def slow_disk_def)
  with e show ?thesis by auto
qed

lemma next_process_does_nothing_witness:
  "\<exists>ctx d' b' ctx'. run_steps 50 (plain_config False) (toolchain_of compile_builder) clock_compiler 20 False [1, 0]
       (fresh_ctx (\<lambda>_. 7) (plain_config False) 1 compile_graph edited) = Inr (0, ctx) \<and>
     cob_start ''1.0'' (\<lambda>_. 7) 16 (\<lambda>_. 0) slow_disk (\<lambda>_. Inl []) d' [''cob''] =
       Some \<lparr>su_out = [], su_err = [], su_files = files_of d', su_start = Start Execute (args_config default_args) b'\<rparr> \<and>
     run_steps 50 (args_config default_args) (toolchain_of b') (compiler False) 30 True [0, 1]
       (fresh_ctx (\<lambda>_. 7) (args_config default_args) 4 (m_graph b') (x_world ctx)) = Inr (0, ctx') \<and>
     x_world ctx' = x_world ctx"
proof -
  let ?b = compile_builder and ?cfg = "plain_config False"
  note V = compile_builder_values
  obtain ctx where run: "run_steps 50 ?cfg (toolchain_of ?b) clock_compiler 20 False [1, 0]
      (fresh_ctx (\<lambda>_. 7) ?cfg 1 (m_graph ?b) edited) = Inr (0, ctx)" using example_run unfolding V(1) by blast
  note setting = edited_ok example_setting(1-3) clock_compiler_ok [of "toolchain_of ?b"] example_setting(4,5)
  note B = run_built [OF compile_graph_ok setting run [unfolded V(1)]]
  have shape: "same_shape (m_graph ?b) (x_graph ctx)" using builtD(1) [OF B] V(1) by simp
  let ?b1 = "?b\<lparr>m_graph := x_graph ctx\<rparr>" and ?old = "[''catalyst.build'' \<mapsto> ''x''] :: files"
  obtain fs1 image where first: "emitBin (\<lambda>_. 7) 4 (\<lambda>_. 0) slow_disk ?b ?old = Some (fs1, Inr ())" "fs1 BIN = Some image"
    "fs1 ''catalyst.build'' = Some ''x''"
    using slow_disk_emits [OF V(2,4), of ?old] by force
  have b1: "invalid_tools ?b1 = []" "records_size ?b1 + strings_total ?b1 \<le> 300"
    using same_shape_builder(1) [OF shape V(3)] same_shape_builder(3) [OF shape] V(4) by (simp_all add: cacheable_def)
  obtain fs' where save: "save_cache (\<lambda>_. 7) 4 (\<lambda>_. 0) slow_disk ?cfg ctx ?b fs1 = Some (fs', [])" "fs' BIN \<noteq> None"
    "fs' ''catalyst.build'' = Some ''x''"
  proof (cases "hashes_changed ctx")
    case False
    then show ?thesis using that [of fs1] first(2,3) by (simp add: save_cache_def)
  next
    case True
    obtain fs2 image2 where e: "emitBin (\<lambda>_. 7) 4 (\<lambda>_. 0) slow_disk ?b1 fs1 = Some (fs2, Inr ())" "fs2 BIN = Some image2"
      "\<forall>p. p \<noteq> BIN \<longrightarrow> p \<noteq> BIN_TMP \<longrightarrow> fs2 p = fs1 p"
      using slow_disk_emits [OF b1, of fs1] by (elim exE conjE) rule
    then have "fs2 ''catalyst.build'' = Some ''x''" using first(3) by simp
    with that [of fs2] e(1,2) True example_setting(4) show ?thesis by (simp add: save_cache_def)
  qed
  let ?d = "link_disk\<lparr>files_of := fs', mtime := \<lambda>p. Some (if p = BIN then 2 else 1)\<rparr>"
  have bf: "cfg_build_file ?cfg = ''catalyst.build''" by (simp add: plain_config_def)
  have views: "views_ok (\<lambda>_. 0) (m_graph ?b)" by (simp add: views_ok_def)
  have size: "records_size ?b + strings_total ?b < 2 ^ 64" using V(4) by simp
  have args: "cliArgs ''1.0'' [''cob''] = ([], Inr default_args)" "work_dir default_args = ''.''" "definition_overrides default_args = []"
    "cfg_build_file (args_config default_args) = cfg_build_file ?cfg" "action_of default_args = Execute"
    by (simp_all add: cliArgs_def cli_loop.simps(1) default_args_def plain_config_def action_of_def)
  have disk: "save_cache (\<lambda>_. 7) 4 (\<lambda>_. 0) slow_disk ?cfg ctx ?b fs1 = Some (files_of ?d, [])" "map_answers ?d BIN = MapOk"
    "cache_is_newer ?d (cfg_build_file ?cfg) = Some True" "files_of ?d (cfg_build_file ?cfg) \<noteq> None"
    using save by (simp_all add: link_disk_def cache_is_newer_def bf)
  have same: "\<forall>q \<in> set (watched_files ?cfg (m_graph ?b)). w_time (x_world ctx) q = w_time (x_world ctx) q \<and>
      w_exists (x_world ctx) q = w_exists (x_world ctx) q" by simp
  from next_process_does_nothing [OF V(3) setting [folded V(1)] run views views size first(1) refl disk(1) args(1-4) disk(2-4)
      builtD(2) [OF B] same, of 16 "\<lambda>_. 0" slow_disk "\<lambda>_. Inl []"]
  obtain b' where b': "cob_start ''1.0'' (\<lambda>_. 7) 16 (\<lambda>_. 0) slow_disk (\<lambda>_. Inl []) ?d [''cob''] =
      Some \<lparr>su_out = [], su_err = [], su_files = files_of ?d, su_start = Start Execute (args_config default_args) b'\<rparr>"
    "map path (nodes_m (m_graph b')) = map path (nodes_m compile_graph)"
    and again: "\<And>pe' now' tty' threads' nodes'. set nodes' \<subseteq> {..<length (nodes_m (m_graph b'))} \<Longrightarrow>
       (\<exists>ctx'. run_steps 50 (args_config default_args) (toolchain_of b') pe' now' tty' nodes'
            (fresh_ctx (\<lambda>_. 7) (args_config default_args) threads' (m_graph b') (x_world ctx)) = Inr (0, ctx') \<and>
          x_world ctx' = x_world ctx \<and> x_graph ctx' = m_graph b' \<and> \<not> hashes_changed ctx')"
    unfolding V(1) args(5) by blast
  have "length (nodes_m (m_graph b')) = 2" using map_eq_imp_length_eq [OF b'(2)] compile_graph_values(1) by simp
  then have "set [0, 1] \<subseteq> {..<length (nodes_m (m_graph b'))}" by simp
  from again [OF this] b'(1) run [unfolded V(1)] show ?thesis by blast
qed

section \<open>A build that failed\<close>

text \<open>The end of \<open>execute\<close>: the verdict with its output comes first, and only a success gets to the
  cache. The results are the files, what is printed on both streams, and the value returned.\<close>

definition execute_finish ::
  "(string \<Rightarrow> u64) \<Rightarrow> nat \<Rightarrow> (view \<Rightarrow> u64) \<Rightarrow> os_answers \<Rightarrow> ExecutorConfig \<Rightarrow> bool \<Rightarrow> local_time \<Rightarrow> bool \<Rightarrow> nat \<Rightarrow> nat \<Rightarrow>
    string \<Rightarrow> step_ctx \<Rightarrow> COBBuilder \<Rightarrow> files \<Rightarrow> (files \<times> string \<times> string list \<times> unit result) option" where
  "execute_finish h cap addr os cfg is_tty t error completed node_total name ctx b fs =
     (let (printed, res) = execute_end cfg is_tty t error completed node_total (steps_completed ctx) name
      in case res of
           Inl e \<Rightarrow> Some (fs, printed, [], unexpected e)
         | Inr _ \<Rightarrow>
             do { (fs, warnings) \<leftarrow> save_cache h cap addr os cfg ctx b fs; Some (fs, printed, warnings, expected ()) })"

text \<open>C25: A failed build forgets what it has done. When an error has occurred, execute reports it and
  leaves the cache alone, whatever steps have succeeded and whatever hashes they have recorded. So
  every compile, archive or shared-library step whose command differs from the one in the cache the
  process had started from, in particular every step after the first parse of a manifest, is out of
  date for the next process, however new its output is: it is run again although it has succeeded.\<close>

theorem failed_build_forgets:
  assumes "execute_finish h cap addr os cfg is_tty t True completed node_total name ctx b fs = Some (files_of d', printed, warnings, res)"
    and "cacheable h b" "views_ok addr0 (m_graph b)" "records_size b + strings_total b < 2 ^ 64"
    and "emitBin h cap0 addr0 os0 b fs0 = Some (fs1, Inr ())" "fs ''.catalyst.bin'' = fs1 ''.catalyst.bin''"
    and "map_answers d' ''.catalyst.bin'' = MapOk" "cache_is_newer d' (cfg_build_file cfg) = Some True"
    and "sid < length (steps_m (m_graph b))" "tool (steps_m (m_graph b) ! sid) \<noteq> ''ld''"
    and "command_hash (steps_m (m_graph b) ! sid) \<noteq> hashCommand (step_command n cfg (toolchain_of b) w (steps_m (m_graph b) ! sid))"
  shows "res = Inl ''Build Failed'' \<and> warnings = [] \<and>
    returns (parse h cap' addr' os' d' (cfg_build_file cfg) (new_builder cap')) (\<lambda>again.
      pd_result again = Parsed (Inr ()) \<and> same_graph (m_graph b) (m_graph (pd_builder again)) \<and>
      (\<forall>w'. out_of_date n w' (cfg_build_file cfg) (steps_m (m_graph (pd_builder again)) ! sid) (toolchain_of (pd_builder again))))"
proof -
  let ?bf = "cfg_build_file cfg" and ?step = "steps_m (m_graph b) ! sid"
  have fs: "files_of d' = fs" "res = Inl ''Build Failed''" "warnings = []" using assms(1) by (simp_all add: execute_finish_def execute_end_def Let_def)
  obtain image where image: "files_of d' BIN = Some image"
    using assms(8) by (auto simp: cache_is_newer_def split: if_splits)
  then have "fs1 BIN = Some image" using assms(6) fs(1) by simp
  from stored_cache_loads [OF assms(2,3,5) this assms(4), of cap'] obtain b' where
    b': "parseBin h cap' (Inr image) (new_builder cap') = Some (b', Inr ())" "m_definitions b' = m_definitions b"
      "same_graph (m_graph b) (m_graph b')" by (auto simp: returns_def)
  have "mapped d' BIN = Inr image" using image assms(7) by (simp add: mapped_def)
  with b'(1) assms(8) have run: "parse h cap' addr' os' d' ?bf (new_builder cap') =
      Some \<lparr>pd_files = files_of d', pd_console = ([], []), pd_builder = b', pd_result = Parsed (Inr ())\<rparr>"
    by (simp add: parse_def)
  have same: "same_step ?step (steps_m (m_graph b') ! sid)" by (rule same_graphD(6) [OF b'(3) assms(9)])
  have cmd: "buildCommandArgs n ?bf w' ?step True (toolchain_of b) = buildCommandArgs n ?bf w ?step True (toolchain_of b)" for w'
    using command_independent [OF assms(10), of n ?bf w' True "toolchain_of b" w "command_hash ?step" True] by simp
  then have "out_of_date n w' ?bf ?step (toolchain_of b)" for w'
    using assms(11) by (simp add: out_of_date_def step_command_def cmd [of w'] split: option.split)
  then have "out_of_date n w' ?bf (steps_m (m_graph b') ! sid) (toolchain_of b')" for w'
    using same_step_out_of_date [OF same] toolchain_cong [OF b'(2)] by simp
  with run b'(3) fs show ?thesis by (simp add: returns_def)
qed

text \<open>An example: the recorded hash is not that of the command.\<close>

definition old_hash_graph :: build_graph where
  "old_hash_graph = compile_graph\<lparr>steps_m := (steps_m compile_graph)[0 := (steps_m compile_graph ! 0)\<lparr>command_hash :=
     hashCommand (step_command 50 (plain_config False) (toolchain_of compile_builder) edited (steps_m compile_graph ! 0)) + 1\<rparr>]\<rparr>"

lemma failed_build_forgets_witness:
  "\<exists>d' ctx t. execute_finish (\<lambda>_. 7) 4 (\<lambda>_. 0) slow_disk (plain_config False) False t True 1 2 ''a.o'' ctx
      (compile_builder\<lparr>m_graph := old_hash_graph\<rparr>) (files_of d') = Some (files_of d', [], [], Inl ''Build Failed'') \<and>
    returns (parse (\<lambda>_. 7) 16 (\<lambda>_. 0) slow_disk d' ''catalyst.build'' (new_builder 16)) (\<lambda>again.
      out_of_date 50 edited ''catalyst.build'' (steps_m (m_graph (pd_builder again)) ! 0) (toolchain_of (pd_builder again)))"
proof -
  let ?cfg = "plain_config False" and ?b = "compile_builder\<lparr>m_graph := old_hash_graph\<rparr>"
  let ?step = "steps_m old_hash_graph ! 0"
  note V = compile_builder_values
  have shape: "same_shape (m_graph compile_builder) old_hash_graph"
    unfolding V(1) by (rule same_shape_update [OF same_shape_refl, where sid = 0]) (simp_all add: old_hash_graph_def)
  note kept = same_shape_builder [OF shape]
  have b: "cacheable (\<lambda>_. 7) ?b" "records_size ?b + strings_total ?b \<le> 300" "invalid_tools ?b = []"
    using kept(1) [OF V(3)] V(4) by (simp_all add: kept(3)) (simp add: cacheable_def)
  obtain fs1 image where first: "emitBin (\<lambda>_. 7) 4 (\<lambda>_. 0) slow_disk ?b [''catalyst.build'' \<mapsto> ''x''] = Some (fs1, Inr ())" "fs1 BIN = Some image"
    using slow_disk_emits [OF b(3,2)] by blast
  let ?d = "link_disk\<lparr>files_of := fs1, mtime := \<lambda>p. Some (if p = BIN then 2 else 1)\<rparr>"
  have bf: "cfg_build_file ?cfg = ''catalyst.build''" by (simp add: plain_config_def)
  have disk: "map_answers ?d BIN = MapOk" "cache_is_newer ?d (cfg_build_file ?cfg) = Some True"
    using first(2) by (simp_all add: link_disk_def cache_is_newer_def bf)
  have finish: "execute_finish (\<lambda>_. 7) 4 (\<lambda>_. 0) slow_disk ?cfg False undefined True 1 2 ''a.o'' start_ctx ?b fs1 =
      Some (files_of ?d, [], [], Inl ''Build Failed'')"
    by (simp add: execute_finish_def execute_end_def plain_config_def)
  have one: "length (steps_m old_hash_graph) = 1" by (simp add: old_hash_graph_def compile_step_values)
  then have step: "?step = (steps_m compile_graph ! 0)\<lparr>command_hash :=
      hashCommand (step_command 50 ?cfg (toolchain_of compile_builder) edited (steps_m compile_graph ! 0)) + 1\<rparr>"
    by (simp add: old_hash_graph_def compile_step_values)
  have tool: "tool ?step \<noteq> ''ld''" by (simp add: step compile_step_values)
  have tools: "toolchain_of ?b = toolchain_of compile_builder" by (rule toolchain_cong) simp
  have "step_command 50 ?cfg (toolchain_of ?b) edited ?step =
      step_command 50 ?cfg (toolchain_of compile_builder) edited (steps_m compile_graph ! 0)"
    using command_independent [of "steps_m compile_graph ! 0" 50 "''catalyst.build''" edited True "toolchain_of compile_builder" edited _ True]
    by (simp add: step_command_def step tools bf compile_step_values)
  then have hash: "command_hash ?step \<noteq> hashCommand (step_command 50 ?cfg (toolchain_of ?b) edited ?step)" by (simp add: step)
  have views: "views_ok (\<lambda>_. 0) (m_graph ?b)" by (simp add: views_ok_def)
  have facts: "records_size ?b + strings_total ?b < 2 ^ 64" "0 < length (steps_m (m_graph ?b))" "tool (steps_m (m_graph ?b) ! 0) \<noteq> ''ld''"
    "command_hash (steps_m (m_graph ?b) ! 0) \<noteq> hashCommand (step_command 50 ?cfg (toolchain_of ?b) edited (steps_m (m_graph ?b) ! 0))"
    using b(2) one tool hash by simp_all
  note again = failed_build_forgets [OF finish b(1) views facts(1) first(1) refl disk facts(2-4), of 16 "\<lambda>_. 0" slow_disk, THEN conjunct2, THEN conjunct2]
  have "returns (parse (\<lambda>_. 7) 16 (\<lambda>_. 0) slow_disk ?d ''catalyst.build'' (new_builder 16)) (\<lambda>again.
      out_of_date 50 edited ''catalyst.build'' (steps_m (m_graph (pd_builder again)) ! 0) (toolchain_of (pd_builder again)))"
    by (rule returns_mono [OF again [unfolded bf]]) simp
  moreover have "execute_finish (\<lambda>_. 7) 4 (\<lambda>_. 0) slow_disk ?cfg False undefined True 1 2 ''a.o'' start_ctx ?b (files_of ?d) =
      Some (files_of ?d, [], [], Inl ''Build Failed'')"
    using finish by simp
  ultimately show ?thesis by blast
qed

end
