(* ===== verification/Parallel_Build.thy ===== *)
theory Parallel_Build
  imports Incremental
begin

text \<open>
  A build by several workers (src/executor.cpp): \<open>processStep\<close> in three parts that other workers can
  come between: the decision with \<open>needsRebuild\<close>, the run of the command, and what follows it (the log,
  the recorded hash, the invalidated time). A step is begun when the steps that produce its inputs
  have ended, as the scheduler guarantees (\<open>inputs_before_step\<close>); apart from that the parts of all steps
  interleave in every way. Each part is taken as one action.
\<close>

section \<open>The parts of \<open>processStep\<close>\<close>

datatype job = Waiting | Decided u64 "string list" | Ran u64 exec_result | Over int

record par =
  p_ctx :: step_ctx
  p_jobs :: "nat \<Rightarrow> job"
  p_ran :: "nat list"

definition begin_step ::
  "nat \<Rightarrow> ExecutorConfig \<Rightarrow> ToolchainFlags \<Rightarrow> int \<Rightarrow> bool \<Rightarrow> nat \<Rightarrow> step_ctx \<Rightarrow> (job \<times> step_ctx) result" where
  "begin_step n cfg tf now tty v ctx =
     (case step_id (nodes_m (x_graph ctx) ! v) of
        None \<Rightarrow> expected (Over 0, ctx)
      | Some sid \<Rightarrow>
          let step = steps_m (x_graph ctx) ! sid
          in case needsRebuild n (x_world ctx) (x_graph ctx) step v (x_times ctx) tf of
               Inl e \<Rightarrow> unexpected e
             | Inr (rebuild, nt, step_hash, args) \<Rightarrow>
                 let ctx = ctx\<lparr>x_times := nt\<rparr>
                 in if rebuild then
                      let ctx = printMessage cfg step tty ctx
                      in if dry_run cfg then expected (Over 0, ctx)
                         else
                           let (args, w) = final_args n cfg tf now step args (x_world ctx)
                           in expected (Decided step_hash args, ctx\<lparr>x_world := w\<rparr>)
                    else
                      expected (Over 0, if \<not> silent cfg \<or> build_log_file cfg \<noteq> []
                                   then enqueue_message (''Skipping '' @ output_path step @ '' (up to date)'' @ [LF]) [] False ctx
                                   else ctx))"

definition finish_step :: "ExecutorConfig \<Rightarrow> nat \<Rightarrow> u64 \<Rightarrow> exec_result \<Rightarrow> step_ctx \<Rightarrow> job \<times> step_ctx" where
  "finish_step cfg v step_hash res ctx =
     (case step_id (nodes_m (x_graph ctx) ! v) of
        None \<Rightarrow> (Over 0, ctx)
      | Some sid \<Rightarrow> (case run_command cfg (steps_m (x_graph ctx) ! sid) v sid step_hash res ctx of (r, ctx) \<Rightarrow> (Over r, ctx)))"

text \<open>One part after the other, they are \<open>processStep\<close>.\<close>

lemma processStep_parts:
  "processStep n cfg tf pe now tty v ctx =
    (case begin_step n cfg tf now tty v ctx of
       Inl e \<Rightarrow> unexpected e
     | Inr (Over r, ctx) \<Rightarrow> expected (r, ctx)
     | Inr (Decided step_hash args, ctx) \<Rightarrow>
         (case pe args (x_world ctx) of (res, w) \<Rightarrow>
            (case finish_step cfg v step_hash res (ctx\<lparr>x_world := w\<rparr>) of (Over r, ctx) \<Rightarrow> expected (r, ctx)))
     | Inr (_, ctx) \<Rightarrow> expected (0, ctx))"
proof (cases "step_id (nodes_m (x_graph ctx) ! v)")
  case None
  then show ?thesis by (simp add: processStep_def begin_step_def)
next
  case (Some sid)
  then show ?thesis
    by (auto simp: processStep_def begin_step_def finish_step_def Let_def split: sum.split prod.split if_split)
qed

section \<open>All interleavings\<close>

definition inputs_over :: "build_graph \<Rightarrow> (nat \<Rightarrow> job) \<Rightarrow> nat \<Rightarrow> bool" where
  "inputs_over g js v \<longleftrightarrow> (\<forall>u < length (nodes_m g). produced g u \<longrightarrow> v \<in> set (succs g u) \<longrightarrow> js u = Over 0)"

inductive par_step ::
  "nat \<Rightarrow> ExecutorConfig \<Rightarrow> ToolchainFlags \<Rightarrow> (string list \<Rightarrow> world \<Rightarrow> exec_result \<times> world) \<Rightarrow> build_graph \<Rightarrow> par \<Rightarrow> par \<Rightarrow> bool"
  for n cfg tf pe g where
  par_begin: "v < length (nodes_m g) \<Longrightarrow> p_jobs s v = Waiting \<Longrightarrow> inputs_over g (p_jobs s) v \<Longrightarrow>
    begin_step n cfg tf now tty v (p_ctx s) = Inr (job, ctx) \<Longrightarrow>
    par_step n cfg tf pe g s (s\<lparr>p_ctx := ctx, p_jobs := (p_jobs s)(v := job)\<rparr>)"
| par_exec: "v < length (nodes_m g) \<Longrightarrow> p_jobs s v = Decided step_hash args \<Longrightarrow> pe args (x_world (p_ctx s)) = (res, w) \<Longrightarrow>
    par_step n cfg tf pe g s
      (s\<lparr>p_ctx := (p_ctx s)\<lparr>x_world := w\<rparr>, p_jobs := (p_jobs s)(v := Ran step_hash res), p_ran := p_ran s @ [v]\<rparr>)"
| par_finish: "v < length (nodes_m g) \<Longrightarrow> p_jobs s v = Ran step_hash res \<Longrightarrow> finish_step cfg v step_hash res (p_ctx s) = (job, ctx) \<Longrightarrow>
    par_step n cfg tf pe g s (s\<lparr>p_ctx := ctx, p_jobs := (p_jobs s)(v := job)\<rparr>)"

definition par_init :: "(string \<Rightarrow> u64) \<Rightarrow> ExecutorConfig \<Rightarrow> nat \<Rightarrow> build_graph \<Rightarrow> world \<Rightarrow> par" where
  "par_init h cfg threads g w =
     \<lparr>p_ctx = fresh_ctx h cfg threads g w, p_jobs = (\<lambda>v. if produced g v then Waiting else Over 0), p_ran = []\<rparr>"

inductive par_reachable ::
  "(string \<Rightarrow> u64) \<Rightarrow> nat \<Rightarrow> ExecutorConfig \<Rightarrow> ToolchainFlags \<Rightarrow> (string list \<Rightarrow> world \<Rightarrow> exec_result \<times> world) \<Rightarrow> nat \<Rightarrow>
    build_graph \<Rightarrow> world \<Rightarrow> par \<Rightarrow> bool"
  for h n cfg tf pe threads g w where
  par_start: "par_reachable h n cfg tf pe threads g w (par_init h cfg threads g w)"
| par_next: "par_reachable h n cfg tf pe threads g w s \<Longrightarrow> par_step n cfg tf pe g s s' \<Longrightarrow> par_reachable h n cfg tf pe threads g w s'"

section \<open>What the decision looks at\<close>

lemma changedSince_frame: "w_time w' p = w_time w p \<Longrightarrow> changedSince w' slot p t = changedSince w slot p t"
  by (simp add: changedSince_def Let_def split: time_slot.split)

lemma check_inputs_frame:
  "\<forall>i \<in> set is. w_time w' (path (nodes_m g ! (produced_in_nodes nt ! i))) = w_time w (path (nodes_m g ! (produced_in_nodes nt ! i))) \<Longrightarrow>
    check_inputs w' g nt t is = check_inputs w g nt t is"
proof (induction "is" arbitrary: nt)
  case (Cons i "is")
  have "changedSince w' (slots nt ! (produced_in_nodes nt ! i)) (path (nodes_m g ! (produced_in_nodes nt ! i))) t =
      changedSince w (slots nt ! (produced_in_nodes nt ! i)) (path (nodes_m g ! (produced_in_nodes nt ! i))) t"
    by (rule changedSince_frame) (use Cons.prems in simp)
  with Cons show ?case by (simp add: Let_def split: prod.split)
qed simp

lemma needsRebuild_frame:
  assumes "fst (buildCommandArgs n (build_file nt) w' step True tf) = fst (buildCommandArgs n (build_file nt) w step True tf)"
    and "w_time w' (output_path step) = w_time w (output_path step)" "w_exists w' (output_path step) = w_exists w (output_path step)"
    and "w_time w' (build_file nt) = w_time w (build_file nt)"
    and "\<forall>u \<in> set (map ((!) (produced_in_nodes nt)) [produced_in_offsets nt ! v..<produced_in_offsets nt ! (v + 1)]).
      w_time w' (path (nodes_m g ! u)) = w_time w (path (nodes_m g ! u))"
  shows "needsRebuild n w' g step v nt tf = needsRebuild n w g step v nt tf"
proof -
  have b: "buildFileChangedSince w' nt t = buildFileChangedSince w nt t" for t
    using changedSince_frame [OF assms(4)] by (simp add: buildFileChangedSince_def)
  have i: "inputsChangedSince w' g (nt\<lparr>build_file_slot := slot\<rparr>) v t = inputsChangedSince w g (nt\<lparr>build_file_slot := slot\<rparr>) v t" for slot t
    using check_inputs_frame [of "[produced_in_offsets nt ! v..<produced_in_offsets nt ! (v + 1)]" w' g "nt\<lparr>build_file_slot := slot\<rparr>" w t]
      assms(5) by (simp add: inputsChangedSince_def Let_def cong: if_cong)
  have nt: "\<exists>slot. snd (buildFileChangedSince w nt t) = nt\<lparr>build_file_slot := slot\<rparr>" for t
    by (auto simp: buildFileChangedSince_def Let_def split: prod.split)
  have checks: "(case buildFileChangedSince w nt t of (changed, nt) \<Rightarrow> if changed then f nt
        else case inputsChangedSince w' g nt v t of (changed, nt) \<Rightarrow> if changed then f nt else k nt) =
      (case buildFileChangedSince w nt t of (changed, nt) \<Rightarrow> if changed then f nt
        else case inputsChangedSince w g nt v t of (changed, nt) \<Rightarrow> if changed then f nt else k nt)" for f k t
    using nt [of t] i by (auto split: prod.split)
  show ?thesis
    unfolding needsRebuild_def Let_def assms(1-3) b checks by (rule refl)
qed

section \<open>The invariant\<close>

abbreviation settled :: "build_graph \<Rightarrow> par \<Rightarrow> nat set" where
  "settled g s \<equiv> {v. v < length (nodes_m g) \<and> (p_jobs s v = Over 0 \<or> (\<exists>hash res. p_jobs s v = Ran hash res))}"

abbreviation p_world :: "par \<Rightarrow> world" where "p_world s \<equiv> x_world (p_ctx s)"

text \<open>The output of a step is there and newer than what the step depends on.\<close>

definition fresh_output :: "ExecutorConfig \<Rightarrow> build_step \<Rightarrow> world \<Rightarrow> bool" where
  "fresh_output cfg st w \<longleftrightarrow> (\<exists>t. w_time w (output_path st) = Some t \<and> \<not> stale w (cfg_build_file cfg) t \<and>
     (\<forall>p \<in> set (step_inputs st). \<not> stale w p t))"

definition job_ok ::
  "nat \<Rightarrow> ExecutorConfig \<Rightarrow> ToolchainFlags \<Rightarrow> build_graph \<Rightarrow> world \<Rightarrow> par \<Rightarrow> nat \<Rightarrow> nat \<Rightarrow> bool" where
  "job_ok n cfg tf g w0 s v sid =
     (let st = steps_m g ! sid; command = step_command n cfg tf w0 st; hit = affected g (initially_stale n cfg tf g w0) v
      in case p_jobs s v of
           Waiting \<Rightarrow> True
         | Decided hash args \<Rightarrow> inputs_over g (p_jobs s) v \<and> hit \<and> hash = hashCommand command \<and> args = command
         | Ran hash res \<Rightarrow> inputs_over g (p_jobs s) v \<and> hit \<and> hash = hashCommand command \<and> fresh_output cfg st (p_world s)
         | Over r \<Rightarrow> inputs_over g (p_jobs s) v \<and>
             \<not> out_of_date n (p_world s) (cfg_build_file cfg) (steps_m (x_graph (p_ctx s)) ! sid) tf)"

text \<open>The cached times are those of the files, except for files that a command has just written.\<close>

definition caches_ok :: "(string \<Rightarrow> u64) \<Rightarrow> ExecutorConfig \<Rightarrow> build_graph \<Rightarrow> par \<Rightarrow> bool" where
  "caches_ok h cfg g s \<longleftrightarrow> (\<exists>wv. world_ok wv \<and> coherent h wv (x_graph (p_ctx s)) (x_times (p_ctx s)) \<and>
     (\<forall>q \<in> set (watched_files cfg g). (\<forall>v < length (nodes_m g). path (nodes_m g ! v) = q \<longrightarrow> (\<forall>hash res. p_jobs s v \<noteq> Ran hash res)) \<longrightarrow>
        w_time wv q = w_time (p_world s) q \<and> w_exists wv q = w_exists (p_world s) q))"

definition no_failure_yet :: "build_graph \<Rightarrow> par \<Rightarrow> bool" where
  "no_failure_yet g s \<longleftrightarrow> (\<forall>v < length (nodes_m g). (\<forall>r. p_jobs s v = Over r \<longrightarrow> r = 0) \<and>
     (\<forall>hash res. p_jobs s v = Ran hash res \<longrightarrow> (\<exists>out. res = Inr (0, out))))"

definition par_inv ::
  "(string \<Rightarrow> u64) \<Rightarrow> nat \<Rightarrow> ExecutorConfig \<Rightarrow> ToolchainFlags \<Rightarrow> build_graph \<Rightarrow> world \<Rightarrow> par \<Rightarrow> bool" where
  "par_inv h n cfg tf g w0 s \<longleftrightarrow>
     (same_shape g (x_graph (p_ctx s)) \<and> world_ok (p_world s) \<and> build_file (x_times (p_ctx s)) = cfg_build_file cfg \<and>
      inputs_there cfg g (p_world s) \<and> plain_links n g (p_world s)) \<and>
     caches_ok h cfg g s \<and>
     progressed cfg g w0 (initially_stale n cfg tf g w0) (settled g s) (p_ctx s) \<and>
     (distinct (p_ran s) \<and> set (p_ran s) = {v \<in> settled g s. affected g (initially_stale n cfg tf g w0) v}) \<and>
     (\<forall>v < length (nodes_m g). \<not> produced g v \<longrightarrow> p_jobs s v = Over 0) \<and>
     (\<forall>v < length (nodes_m g). \<forall>sid. step_id (nodes_m g ! v) = Some sid \<longrightarrow> job_ok n cfg tf g w0 s v sid)"

lemma par_invD:
  assumes "par_inv h n cfg tf g w0 s"
  shows "same_shape g (x_graph (p_ctx s))" "world_ok (p_world s)" "build_file (x_times (p_ctx s)) = cfg_build_file cfg"
    "inputs_there cfg g (p_world s)" "plain_links n g (p_world s)" "caches_ok h cfg g s"
    "progressed cfg g w0 (initially_stale n cfg tf g w0) (settled g s) (p_ctx s)"
    "distinct (p_ran s)" "set (p_ran s) = {v \<in> settled g s. affected g (initially_stale n cfg tf g w0) v}"
    "v < length (nodes_m g) \<Longrightarrow> \<not> produced g v \<Longrightarrow> p_jobs s v = Over 0"
    "v < length (nodes_m g) \<Longrightarrow> step_id (nodes_m g ! v) = Some sid \<Longrightarrow> job_ok n cfg tf g w0 s v sid"
  using assms unfolding par_inv_def by (elim conjE; blast)+

lemma inputs_over_update:
  "inputs_over g js u \<Longrightarrow> js v \<noteq> Over 0 \<or> j = Over 0 \<Longrightarrow> inputs_over g (js(v := j)) u"
  by (auto simp: inputs_over_def)

lemma step_facts:
  assumes "graph_ok h g" "v < length (nodes_m g)" "step_id (nodes_m g ! v) = Some sid"
  shows "sid < length (steps_m g)" "output_path (steps_m g ! sid) = path (nodes_m g ! v)" "steps_m g ! sid \<in> set (steps_m g)" "produced g v"
  using assms by (auto simp: graph_ok_def producers_ok_def produced_def)

text \<open>The command of a step is the same at all times.\<close>

lemma command_same:
  assumes "st \<in> set (steps_m g)" "plain_links n g w" "plain_links n g w'"
  shows "buildCommandArgs n bf w' (st\<lparr>command_hash := c\<rparr>) dry tf = (fst (buildCommandArgs n bf w st True tf), None)"
  using command_stable [of st n w w' bf c dry tf] assms by (auto simp: plain_links_def)

lemma command_same':
  assumes "st \<in> set (steps_m g)" "plain_links n g w" "plain_links n g w'"
  shows "buildCommandArgs n bf w' st dry tf = (fst (buildCommandArgs n bf w st True tf), None)"
  using command_same [OF assms, of bf "command_hash st" dry tf] by simp

lemma current_step:
  assumes "same_shape g g'" "sid < length (steps_m g)"
  obtains c where "steps_m g' ! sid = (steps_m g ! sid)\<lparr>command_hash := c\<rparr>"
  using same_shapeD(4) [OF assms] by blast

text \<open>Before a step is begun, and afterwards, its inputs are there.\<close>

lemma inputs_ready:
  assumes g: "graph_ok h g" and I: "par_inv h n cfg tf g w0 s" and v: "v < length (nodes_m g)" "step_id (nodes_m g ! v) = Some sid"
    and over: "inputs_over g (p_jobs s) v" and p: "p \<in> set (step_inputs (steps_m g ! sid))"
  obtains u where "u < length (nodes_m g)" "v \<in> set (succs g u)" "path (nodes_m g ! u) = p" "p_jobs s u = Over 0"
    "w_time (p_world s) p \<noteq> None" "p \<in> set (known_files cfg g)"
proof -
  obtain u where u: "u < length (nodes_m g)" "v \<in> set (succs g u)" "path (nodes_m g ! u) = p"
    using inputs_are_edges [OF g v, of "\<lambda>q. q = p"] p by auto
  have o: "p_jobs s u = Over 0" using over u par_invD(10) [OF I u(1)] by (cases "produced g u") (auto simp: inputs_over_def)
  have "w_time (p_world s) p \<noteq> None"
  proof (cases "step_id (nodes_m g ! u)")
    case None
    with par_invD(4) [OF I] u show ?thesis by (auto simp: inputs_there_def produced_def)
  next
    case (Some su)
    have "output_path (steps_m (x_graph (p_ctx s)) ! su) = p"
      using same_shape_fields(1) [OF par_invD(1) [OF I]] step_facts(1,2) [OF g u(1) Some] u(3) by simp
    moreover have "\<not> out_of_date n (p_world s) (cfg_build_file cfg) (steps_m (x_graph (p_ctx s)) ! su) tf"
      using par_invD(11) [OF I u(1) Some] o by (simp add: job_ok_def Let_def)
    ultimately show ?thesis using up_to_date_exists by metis
  qed
  moreover have "p \<in> set (known_files cfg g)" using u by (auto simp: known_files_def)
  ultimately show ?thesis using that u o by blast
qed

lemma job_ok_frame:
  assumes g: "graph_ok h g" and v: "v < length (nodes_m g)" "step_id (nodes_m g ! v) = Some sid" and ok: "job_ok n cfg tf g w0 s v sid"
    and shape: "same_shape g (x_graph (p_ctx s))" and links: "plain_links n g (p_world s)" "plain_links n g (p_world s')"
    and job: "p_jobs s' v = p_jobs s v" and over: "inputs_over g (p_jobs s) v \<Longrightarrow> inputs_over g (p_jobs s') v"
    and time: "\<And>q. p_jobs s v \<noteq> Waiting \<Longrightarrow> q \<in> set (output_path (steps_m g ! sid) # cfg_build_file cfg # step_inputs (steps_m g ! sid)) \<Longrightarrow>
      w_time (p_world s') q = w_time (p_world s) q"
    and step: "steps_m (x_graph (p_ctx s')) ! sid = steps_m (x_graph (p_ctx s)) ! sid"
  shows "job_ok n cfg tf g w0 s' v sid"
proof (cases "p_jobs s v")
  case Waiting
  with job show ?thesis by (simp add: job_ok_def Let_def)
next
  case (Decided hash args)
  with ok job over show ?thesis by (simp add: job_ok_def Let_def)
next
  case (Ran hash res)
  with ok have "fresh_output cfg (steps_m g ! sid) (p_world s)" by (simp add: job_ok_def Let_def)
  then have "fresh_output cfg (steps_m g ! sid) (p_world s')" using time Ran by (auto simp: fresh_output_def stale_def)
  with Ran ok job over show ?thesis by (simp add: job_ok_def Let_def)
next
  case (Over r)
  let ?st = "steps_m (x_graph (p_ctx s)) ! sid"
  note S = step_facts [OF g v]
  obtain c where c: "?st = (steps_m g ! sid)\<lparr>command_hash := c\<rparr>" by (rule current_step [OF shape S(1)])
  have "out_of_date n (p_world s') (cfg_build_file cfg) ?st tf = out_of_date n (p_world s) (cfg_build_file cfg) ?st tf"
    unfolding c by (rule out_of_date_frame)
      (use command_same [OF S(3) links(1) links(1)] command_same [OF S(3) links] time Over in auto)
  with Over ok job over step show ?thesis by (simp add: job_ok_def Let_def)
qed

section \<open>The decision\<close>

lemma begin_outcome:
  assumes g: "graph_ok h g" "build_file_is_source cfg g" "plain_links n g w0" and I: "par_inv h n cfg tf g w0 s"
    and v: "v < length (nodes_m g)" "step_id (nodes_m g ! v) = Some sid" "p_jobs s v = Waiting" "inputs_over g (p_jobs s) v"
    and run: "\<not> dry_run cfg"
  defines "command \<equiv> step_command n cfg tf w0 (steps_m g ! sid)"
  shows "\<exists>job ctx. begin_step n cfg tf now tty v (p_ctx s) = Inr (job, ctx) \<and> x_world ctx = p_world s \<and> x_graph ctx = x_graph (p_ctx s) \<and> build_file (x_times ctx) = cfg_build_file cfg \<and>
    caches_ok h cfg g (s\<lparr>p_ctx := ctx\<rparr>) \<and>
    (out_of_date n (p_world s) (cfg_build_file cfg) (steps_m g ! sid) tf \<longleftrightarrow> affected g (initially_stale n cfg tf g w0) v) \<and>
    steps_m (x_graph ctx) ! sid = steps_m g ! sid \<and>
    job = (if affected g (initially_stale n cfg tf g w0) v then Decided (hashCommand command) command else Over 0)"
proof -
  let ?g = "x_graph (p_ctx s)" and ?w = "p_world s" and ?nt = "x_times (p_ctx s)" and ?bf = "cfg_build_file cfg" and ?d = "initially_stale n cfg tf g w0"
  note D = par_invD [OF I] and S = step_facts [OF g(1) v(1,2)]
  have nodes: "nodes_m ?g = nodes_m g" by (rule same_shapeD(1) [OF D(1)])
  have st: "steps_m ?g ! sid = steps_m g ! sid" by (rule progressedD(2) [OF D(7) v(1)]) (use v(2,3) in auto)
  obtain wv where wv: "world_ok wv" "coherent h wv ?g ?nt"
    "\<And>q. q \<in> set (watched_files cfg g) \<Longrightarrow> (\<And>v hash res. v < length (nodes_m g) \<Longrightarrow> path (nodes_m g ! v) = q \<Longrightarrow> p_jobs s v \<noteq> Ran hash res) \<Longrightarrow>
        w_time wv q = w_time ?w q \<and> w_exists wv q = w_exists ?w q"
    using D(6) unfolding caches_ok_def by blast
  have idle: "w_time wv (path (nodes_m g ! u)) = w_time ?w (path (nodes_m g ! u)) \<and> w_exists wv (path (nodes_m g ! u)) = w_exists ?w (path (nodes_m g ! u))"
    if u: "u < length (nodes_m g)" "\<And>hash res. p_jobs s u \<noteq> Ran hash res" for u
  proof (rule wv(3) [OF watched(3) [OF u(1)]])
    fix u' hash res assume "u' < length (nodes_m g)" "path (nodes_m g ! u') = path (nodes_m g ! u)"
    then have "u' = u" using path_unique [of h g u' u] g(1) u(1) by (simp add: graph_ok_def)
    then show "p_jobs s u' \<noteq> Ran hash res" using u(2) by blast
  qed
  have out: "w_time wv (path (nodes_m g ! v)) = w_time ?w (path (nodes_m g ! v))" "w_exists wv (path (nodes_m g ! v)) = w_exists ?w (path (nodes_m g ! v))"
    using idle [OF v(1)] v(3) by simp_all
  have source: "p_jobs s u \<noteq> Ran hash res" if "u < length (nodes_m g)" "\<not> produced g u" for u hash res
    using D(10) [OF that] by simp
  have bf: "w_time wv ?bf = w_time ?w ?bf"
    using wv(3) [OF watched(1)] g(2) source by (auto simp: build_file_is_source_def)
  have rsp: "w_exists wv (rsp_of x) = w_exists ?w (rsp_of x)" if "x \<in> set (steps_m g)" "tool x = ''ld''" for x
  proof -
    have "p_jobs s u \<noteq> Ran hash res" if u: "u < length (nodes_m g)" "path (nodes_m g ! u) = rsp_of x" for u hash res
    proof (cases "step_id (nodes_m g ! u)")
      case None
      with source [OF u(1)] show ?thesis by (simp add: produced_def)
    next
      case (Some su)
      from step_facts(2,3) [OF g(1) u(1) Some] u(2) D(5) \<open>x \<in> set (steps_m g)\<close> \<open>tool x = ''ld''\<close> show ?thesis by (auto simp: plain_links_def)
    qed
    moreover have "rsp_of x \<in> set (watched_files cfg g)" using that by (simp add: watched_files_def)
    ultimately show ?thesis using wv(3) by blast
  qed
  then have links: "plain_links n g wv" using D(5) unfolding plain_links_def by blast
  have cmd: "fst (buildCommandArgs n ?bf w1 (steps_m g ! sid) True tf) = command" if "plain_links n g w1" for w1
    using command_same' [OF S(3) g(3) that, of ?bf True tf] by (simp add: command_def step_command_def)
  have over: "p_jobs s u = Over 0" if "u < length (nodes_m g)" "v \<in> set (succs g u)" for u
    using v(4) that D(10) [OF that(1)] by (cases "produced g u") (auto simp: inputs_over_def)
  have ins: "w_time wv (path (nodes_m g ! u)) = w_time ?w (path (nodes_m g ! u))" if "u < length (nodes_m g)" "v \<in> set (succs g u)" for u
    using idle [OF that(1)] over [OF that] by simp
  have slice: "map ((!) (produced_in_nodes ?nt)) [produced_in_offsets ?nt ! v..<produced_in_offsets ?nt ! (v + 1)] = sources_of (produced_edges ?g) v"
    using wv(2) v(1) S(4) nodes by (auto simp: coherent_def produced_def)
  have succ: "succs ?g u = succs g u" for u using nodes by (simp add: succs_def)
  have inputs: "\<forall>u \<in> set (map ((!) (produced_in_nodes ?nt)) [produced_in_offsets ?nt ! v..<produced_in_offsets ?nt ! (v + 1)]).
      w_time ?w (path (nodes_m ?g ! u)) = w_time wv (path (nodes_m ?g ! u))"
    unfolding slice nodes using ins by (auto simp: produced_edges_mem nodes succ)
  have "needsRebuild n ?w ?g (steps_m g ! sid) v ?nt tf = needsRebuild n wv ?g (steps_m g ! sid) v ?nt tf"
    by (rule needsRebuild_frame [OF _ _ _ _ inputs]) (use cmd [OF D(5)] cmd [OF links] S(2) out bf in \<open>simp_all add: D(3)\<close>)
  moreover obtain nt args where nr: "needsRebuild n wv ?g (steps_m g ! sid) v ?nt tf =
      Inr (out_of_date n wv ?bf (steps_m g ! sid) tf, nt, hashCommand command, args)"
    "coherent h wv ?g nt" "build_file nt = ?bf" "out_of_date n wv ?bf (steps_m g ! sid) tf \<Longrightarrow> args = command"
    using needsRebuild_ok [OF same_shape_ok [OF g(1) D(1)] wv(1,2), of v sid n tf] v(1,2) st cmd [OF links] by (auto simp: nodes D(3))
  moreover have same: "out_of_date n wv ?bf (steps_m g ! sid) tf = out_of_date n ?w ?bf (steps_m g ! sid) tf"
  proof (rule out_of_date_frame)
    show "fst (buildCommandArgs n ?bf wv (steps_m g ! sid) True tf) = fst (buildCommandArgs n ?bf ?w (steps_m g ! sid) True tf)"
      using cmd [OF D(5)] cmd [OF links] by simp
    show "\<forall>p \<in> set (output_path (steps_m g ! sid) # ?bf # step_inputs (steps_m g ! sid)). w_time wv p = w_time ?w p"
    proof
      fix p assume p: "p \<in> set (output_path (steps_m g ! sid) # ?bf # step_inputs (steps_m g ! sid))"
      show "w_time wv p = w_time ?w p"
      proof (cases "p \<in> set (step_inputs (steps_m g ! sid))")
        case True
        then obtain u where "u < length (nodes_m g)" "v \<in> set (succs g u)" "path (nodes_m g ! u) = p"
          using inputs_are_edges [OF g(1) v(1,2), of "\<lambda>q. q = p"] by auto
        with ins show ?thesis by blast
      next
        case False
        with p out(1) bf S(2) show ?thesis by auto
      qed
    qed
  qed
  moreover have turn: "out_of_date n ?w ?bf (steps_m g ! sid) tf \<longleftrightarrow> affected g ?d v"
    using turn [OF g D(5,7) v(1,2), of] v(3) over by (auto simp: st)
  moreover have final: "final_args n cfg tf now (steps_m g ! sid) command ?w = (command, ?w)"
    using command_same' [OF S(3) g(3) D(5), of ?bf False tf] by (simp add: final_args_def write_file_def command_def step_command_def)
  moreover have "step_id (nodes_m ?g ! v) = Some sid" using v(2) nodes by simp
  ultimately have "\<exists>job ctx. begin_step n cfg tf now tty v (p_ctx s) = Inr (job, ctx) \<and> x_world ctx = ?w \<and> x_graph ctx = ?g \<and>
      x_times ctx = nt \<and> job = (if affected g ?d v then Decided (hashCommand command) command else Over 0)"
    using run st by (auto simp: begin_step_def Let_def enqueue_message_def split: if_splits)
  then obtain job ctx where R: "begin_step n cfg tf now tty v (p_ctx s) = Inr (job, ctx)" "x_world ctx = ?w" "x_graph ctx = ?g"
    "x_times ctx = nt" "job = (if affected g ?d v then Decided (hashCommand command) command else Over 0)"
    by (elim exE conjE) rule
  have "caches_ok h cfg g (s\<lparr>p_ctx := ctx\<rparr>)"
    unfolding caches_ok_def using wv(1,3) nr(2) R(2-4) by (intro exI [of _ wv]) auto
  then show ?thesis by (intro exI [of _ job] exI [of _ ctx]) (use R turn nr(3) st in simp)
qed

section \<open>The parts keep the invariant\<close>

lemma caches_okI:
  assumes "world_ok wv" "coherent h wv (x_graph (p_ctx s)) (x_times (p_ctx s))"
    and "\<And>q. q \<in> set (watched_files cfg g) \<Longrightarrow>
      (\<And>u hash res. u < length (nodes_m g) \<Longrightarrow> path (nodes_m g ! u) = q \<Longrightarrow> p_jobs s u \<noteq> Ran hash res) \<Longrightarrow>
      w_time wv q = w_time (p_world s) q \<and> w_exists wv q = w_exists (p_world s) q"
  shows "caches_ok h cfg g s"
  unfolding caches_ok_def by (rule exI [of _ wv]) (use assms in blast)

lemma caches_okE:
  assumes "caches_ok h cfg g s"
  obtains wv where "world_ok wv" "coherent h wv (x_graph (p_ctx s)) (x_times (p_ctx s))"
    "\<And>q. q \<in> set (watched_files cfg g) \<Longrightarrow>
      (\<And>u hash res. u < length (nodes_m g) \<Longrightarrow> path (nodes_m g ! u) = q \<Longrightarrow> p_jobs s u \<noteq> Ran hash res) \<Longrightarrow>
      w_time wv q = w_time (p_world s) q \<and> w_exists wv q = w_exists (p_world s) q"
proof -
  obtain wv where "world_ok wv" "coherent h wv (x_graph (p_ctx s)) (x_times (p_ctx s))"
    "\<forall>q \<in> set (watched_files cfg g). (\<forall>u < length (nodes_m g). path (nodes_m g ! u) = q \<longrightarrow> (\<forall>hash res. p_jobs s u \<noteq> Ran hash res)) \<longrightarrow>
        w_time wv q = w_time (p_world s) q \<and> w_exists wv q = w_exists (p_world s) q"
    using assms unfolding caches_ok_def by (elim exE conjE) rule
  then show ?thesis by (intro that [of wv]) auto
qed

lemma other_step:
  assumes "graph_ok h g" "u < length (nodes_m g)" "step_id (nodes_m g ! u) = Some su" "v < length (nodes_m g)"
    "step_id (nodes_m g ! v) = Some sv" "u \<noteq> v"
  shows "su \<noteq> sv" "path (nodes_m g ! u) \<noteq> path (nodes_m g ! v)"
proof -
  show "path (nodes_m g ! u) \<noteq> path (nodes_m g ! v)" using path_unique [of h g u v] assms by (auto simp: graph_ok_def)
  then show "su \<noteq> sv" using step_facts(2) [OF assms(1-3)] step_facts(2) [OF assms(1,4,5)] by auto
qed

lemma begin_keeps:
  assumes g: "graph_ok h g" "build_file_is_source cfg g" "plain_links n g w0" and I: "par_inv h n cfg tf g w0 s"
    and v: "v < length (nodes_m g)" "p_jobs s v = Waiting" "inputs_over g (p_jobs s) v"
    and run: "begin_step n cfg tf now tty v (p_ctx s) = Inr (job, ctx)" "\<not> dry_run cfg"
  shows "par_inv h n cfg tf g w0 (s\<lparr>p_ctx := ctx, p_jobs := (p_jobs s)(v := job)\<rparr>)"
proof -
  let ?d = "initially_stale n cfg tf g w0" and ?s = "s\<lparr>p_ctx := ctx, p_jobs := (p_jobs s)(v := job)\<rparr>"
  note D = par_invD [OF I]
  have "produced g v" using D(10) [OF v(1)] v(2) by (cases "produced g v") simp_all
  then obtain sid where sid: "step_id (nodes_m g ! v) = Some sid" by (auto simp: produced_def)
  let ?command = "step_command n cfg tf w0 (steps_m g ! sid)"
  have R: "x_world ctx = p_world s" "x_graph ctx = x_graph (p_ctx s)" "build_file (x_times ctx) = cfg_build_file cfg"
    "caches_ok h cfg g (s\<lparr>p_ctx := ctx\<rparr>)"
    "out_of_date n (p_world s) (cfg_build_file cfg) (steps_m g ! sid) tf \<longleftrightarrow> affected g ?d v"
    "steps_m (x_graph ctx) ! sid = steps_m g ! sid"
    "job = (if affected g ?d v then Decided (hashCommand ?command) ?command else Over 0)"
    using begin_outcome [OF g I v(1) sid v(2,3) run(2), of now tty] unfolding run(1) sum.inject prod.inject by (elim exE conjE; blast)+
  have notran: "job \<noteq> Ran hash res" for hash res by (simp add: R(7))
  have settled: "settled g ?s = (if affected g ?d v then settled g s else insert v (settled g s))"
    using v(1,2) by (auto simp: R(7))
  have cache: "caches_ok h cfg g ?s"
  proof (rule caches_okE [OF R(4)])
    fix wv
    assume wv: "world_ok wv" "coherent h wv (x_graph (p_ctx (s\<lparr>p_ctx := ctx\<rparr>))) (x_times (p_ctx (s\<lparr>p_ctx := ctx\<rparr>)))"
      "\<And>q. q \<in> set (watched_files cfg g) \<Longrightarrow>
        (\<And>u hash res. u < length (nodes_m g) \<Longrightarrow> path (nodes_m g ! u) = q \<Longrightarrow> p_jobs (s\<lparr>p_ctx := ctx\<rparr>) u \<noteq> Ran hash res) \<Longrightarrow>
        w_time wv q = w_time (p_world (s\<lparr>p_ctx := ctx\<rparr>)) q \<and> w_exists wv q = w_exists (p_world (s\<lparr>p_ctx := ctx\<rparr>)) q"
    show ?thesis
    proof (rule caches_okI [OF wv(1)])
      fix q
      assume q: "q \<in> set (watched_files cfg g)"
        and idle: "\<And>u hash res. u < length (nodes_m g) \<Longrightarrow> path (nodes_m g ! u) = q \<Longrightarrow> p_jobs ?s u \<noteq> Ran hash res"
      have "p_jobs s u \<noteq> Ran hash res" if "u < length (nodes_m g)" "path (nodes_m g ! u) = q" for u hash res
        using idle [OF that] v(2) by (cases "u = v") auto
      with wv(3) [OF q] show "w_time wv q = w_time (p_world ?s) q \<and> w_exists wv q = w_exists (p_world ?s) q" by simp
    qed (use wv(2) in simp)
  qed
  have prog: "progressed cfg g w0 ?d (settled g ?s) ctx"
  proof (cases "affected g ?d v")
    case True
    with D(7) settled R(1,2) show ?thesis by (simp add: progressed_def)
  next
    case False
    with progressed_unaffected [OF D(7) False R(1,2)] settled show ?thesis by simp
  qed
  have ran: "set (p_ran ?s) = {u \<in> settled g ?s. affected g ?d u}" unfolding settled using D(9) by auto
  have over: "inputs_over g ((p_jobs s)(v := job)) u" if "inputs_over g (p_jobs s) u" for u
    by (rule inputs_over_update [OF that]) (simp add: v(2))
  have jobs: "job_ok n cfg tf g w0 ?s u su" if u: "u < length (nodes_m g)" "step_id (nodes_m g ! u) = Some su" for u su
  proof (cases "u = v")
    case True
    then have "su = sid" using u(2) sid by simp
    moreover have "inputs_over g ((p_jobs s)(v := job)) v" by (rule over [OF v(3)])
    ultimately show ?thesis
      using True R(1,2,5,6) unfolding R(7) by (cases "affected g ?d v") (simp_all add: job_ok_def Let_def)
  next
    case False
    show ?thesis
      by (rule job_ok_frame [OF g(1) u D(11) [OF u] D(1,5)]) (use False over R(1,2) D(5) in simp_all)
  qed
  have sources: "p_jobs ?s u = Over 0" if "u < length (nodes_m g)" "\<not> produced g u" for u
    using D(10) [OF that] that \<open>produced g v\<close> by auto
  show ?thesis
    unfolding par_inv_def using D(1,2,4,5,8) R(1-3) cache prog ran sources jobs by simp
qed

text \<open>What a command leaves of the setting.\<close>

lemma written_setting:
  assumes g: "graph_ok h g" "build_file_is_source cfg g" and v: "v < length (nodes_m g)" "produced g v"
    and w: "writes_only (watched_files cfg g) (path (nodes_m g ! v)) w w'" "inputs_there cfg g w" "plain_links n g w"
  shows "inputs_there cfg g w'" "plain_links n g w'"
proof -
  let ?p = "path (nodes_m g ! v)"
  have bf: "?p \<noteq> cfg_build_file cfg" using g(2) v by (auto simp: build_file_is_source_def)
  have time: "q \<in> set (watched_files cfg g) \<Longrightarrow> q \<noteq> ?p \<Longrightarrow> w_time w' q = w_time w q \<and> w_exists w' q = w_exists w q" for q
    using w(1) by (auto simp: writes_only_def)
  have "path (nodes_m g ! u) \<noteq> ?p" if "u < length (nodes_m g)" "\<not> produced g u" for u
    using path_unique [of h g u v] g(1) v that by (auto simp: graph_ok_def)
  then show "inputs_there cfg g w'"
    using w(2) time [OF watched(1)] time [OF watched(3)] bf unfolding inputs_there_def by metis
  obtain sid where "step_id (nodes_m g ! v) = Some sid" using v(2) by (auto simp: produced_def)
  note S = step_facts [OF g(1) v(1) this]
  have "rsp_of st \<in> set (watched_files cfg g)" if "st \<in> set (steps_m g)" for st using that by (simp add: watched_files_def)
  then show "plain_links n g w'" using w(3) time S(2,3) unfolding plain_links_def by metis
qed

lemma exec_keeps:
  assumes g: "graph_ok h g" "build_file_is_source cfg g" "plain_links n g w0" and I: "par_inv h n cfg tf g w0 s"
    and contract: "tool_contract n cfg tf g pe"
    and v: "v < length (nodes_m g)" "p_jobs s v = Decided hash args"
    and run: "pe args (p_world s) = (Inr (0, out), w')"
  shows "par_inv h n cfg tf g w0
    (s\<lparr>p_ctx := (p_ctx s)\<lparr>x_world := w'\<rparr>, p_jobs := (p_jobs s)(v := Ran hash (Inr (0, out))), p_ran := p_ran s @ [v]\<rparr>)"
    (is "par_inv h n cfg tf g w0 ?s")
proof -
  let ?d = "initially_stale n cfg tf g w0" and ?w = "p_world s" and ?bf = "cfg_build_file cfg" and ?p = "path (nodes_m g ! v)"
  note D = par_invD [OF I]
  have produced: "produced g v" using D(10) [OF v(1)] v(2) by (cases "produced g v") simp_all
  then obtain sid where sid: "step_id (nodes_m g ! v) = Some sid" by (auto simp: produced_def)
  note S = step_facts [OF g(1) v(1) sid]
  let ?st = "steps_m g ! sid"
  have J: "inputs_over g (p_jobs s) v" "affected g ?d v" "hash = hashCommand (step_command n cfg tf w0 ?st)" "args = step_command n cfg tf w0 ?st"
    using D(11) [OF v(1) sid] v(2) by (simp_all add: job_ok_def Let_def)
  have "args = step_command n cfg tf ?w ?st"
    using command_same' [OF S(3) g(3) D(5), of ?bf True tf] by (simp add: J(4) step_command_def)
  with contract run D(2) S(2,3) have W: "world_ok w'" "writes_only (watched_files cfg g) ?p ?w w'" "is_newest (known_files cfg g) ?p w'"
    unfolding tool_contract_def by metis+
  have bf: "?p \<noteq> ?bf" using g(2) v(1) produced by (auto simp: build_file_is_source_def)
  have time: "q \<in> set (watched_files cfg g) \<Longrightarrow> q \<noteq> ?p \<Longrightarrow> w_time w' q = w_time ?w q \<and> w_exists w' q = w_exists ?w q" for q
    using W(2) by (auto simp: writes_only_def)
  note there = written_setting [OF g(1,2) v(1) produced W(2) D(4,5)]
  have settled: "settled g ?s = insert v (settled g s)" using v(1) by auto
  have "v \<notin> settled g s" using v(2) by simp
  obtain c where c: "steps_m (x_graph (p_ctx s)) ! sid = ?st\<lparr>command_hash := c\<rparr>" by (rule current_step [OF D(1) S(1)])
  have prog: "progressed cfg g w0 ?d (settled g ?s) (p_ctx ?s)"
    unfolding settled by (rule progressed_affected [OF g(1) D(7) v(1) J(2) sid, of _ "steps_m (x_graph (p_ctx s)) ! sid"]) (use W in simp_all)
  have ran: "distinct (p_ran ?s)" "set (p_ran ?s) = {u \<in> settled g ?s. affected g ?d u}"
    unfolding settled using D(8,9) J(2) v(2) by auto
  have cache: "caches_ok h cfg g ?s"
  proof -
    obtain wv where wv: "world_ok wv" "coherent h wv (x_graph (p_ctx s)) (x_times (p_ctx s))"
      "\<forall>q \<in> set (watched_files cfg g). (\<forall>v < length (nodes_m g). path (nodes_m g ! v) = q \<longrightarrow> (\<forall>hash res. p_jobs s v \<noteq> Ran hash res)) \<longrightarrow>
          w_time wv q = w_time ?w q \<and> w_exists wv q = w_exists ?w q"
      using D(6) unfolding caches_ok_def by blast
    have "w_time wv q = w_time w' q \<and> w_exists wv q = w_exists w' q"
      if q: "q \<in> set (watched_files cfg g)" and idle: "\<forall>u < length (nodes_m g). path (nodes_m g ! u) = q \<longrightarrow> (\<forall>hash res. p_jobs ?s u \<noteq> Ran hash res)" for q
    proof -
      have "q \<noteq> ?p" using idle v(1) by auto
      moreover have "\<forall>u < length (nodes_m g). path (nodes_m g ! u) = q \<longrightarrow> (\<forall>hash res. p_jobs s u \<noteq> Ran hash res)"
        using idle calculation by (auto split: if_splits)
      ultimately show ?thesis using wv(3) time [OF q] q by simp
    qed
    with wv(1,2) show ?thesis unfolding caches_ok_def by (intro exI [of _ wv]) simp
  qed
  have over: "inputs_over g ((p_jobs s)(v := j)) u" if "inputs_over g (p_jobs s) u" for u j
    by (rule inputs_over_update [OF that]) (simp add: v(2))
  have foreign: "q \<noteq> ?p \<and> q \<in> set (watched_files cfg g)"
    if u: "u < length (nodes_m g)" "step_id (nodes_m g ! u) = Some su" "inputs_over g (p_jobs s) u"
      and q: "q \<in> set (?bf # step_inputs (steps_m g ! su))" for u su q
  proof (cases "q = ?bf")
    case True
    with bf watched(1) [of cfg g] show ?thesis by auto
  next
    case False
    with q have q: "q \<in> set (step_inputs (steps_m g ! su))" by simp
    obtain x where x: "x < length (nodes_m g)" "path (nodes_m g ! x) = q" "p_jobs s x = Over 0" "q \<in> set (known_files cfg g)"
      using inputs_ready [OF g(1) I u q] by blast
    have "x \<noteq> v" using x(3) v(2) by auto
    with path_unique [of h g x v] g(1) x(1,2) v(1) watched(2) [OF x(4)] show ?thesis by (auto simp: graph_ok_def)
  qed
  have jobs: "job_ok n cfg tf g w0 ?s u su" if u: "u < length (nodes_m g)" "step_id (nodes_m g ! u) = Some su" for u su
  proof (cases "u = v")
    case True
    then have su: "su = sid" using u(2) sid by simp
    obtain t where t: "w_time w' ?p = Some t"
      "\<And>q x. q \<in> set (known_files cfg g) \<Longrightarrow> q \<noteq> ?p \<Longrightarrow> w_time w' q = Some x \<Longrightarrow> x < t"
      using W(3) by (auto simp: is_newest_def)
    have "\<not> stale w' q t" if q: "q \<in> set (?bf # step_inputs ?st)" for q
    proof -
      have "w_time ?w q \<noteq> None \<and> q \<in> set (known_files cfg g)"
      proof (cases "q = ?bf")
        case True
        with D(4) show ?thesis by (auto simp: inputs_there_def known_files_def)
      next
        case False
        with q have "q \<in> set (step_inputs ?st)" by simp
        from inputs_ready [OF g(1) I v(1) sid J(1) this] show ?thesis by blast
      qed
      then show ?thesis using foreign [OF v(1) sid J(1) q] time [of q] t(2) [of q] by (auto simp: stale_def)
    qed
    then have "fresh_output cfg ?st w'" using t(1) S(2) by (auto simp: fresh_output_def)
    with True su over [OF J(1)] J(2,3) show ?thesis by (simp add: job_ok_def Let_def)
  next
    case False
    have out: "path (nodes_m g ! u) \<noteq> ?p" by (rule other_step(2) [OF g(1) u v(1) sid False])
    have kept: "w_time (p_world ?s) q = w_time ?w q"
      if "p_jobs s u \<noteq> Waiting" "q \<in> set (output_path (steps_m g ! su) # ?bf # step_inputs (steps_m g ! su))" for q
    proof -
      have "inputs_over g (p_jobs s) u" using D(11) [OF u] that(1) by (cases "p_jobs s u") (simp_all add: job_ok_def Let_def)
      from foreign [OF u this, of q] that(2) out step_facts(2) [OF g(1) u] watched(3) [OF u(1)]
      have "q \<noteq> ?p \<and> q \<in> set (watched_files cfg g)" by auto
      then show ?thesis using time [of q] by simp
    qed
    show ?thesis
      by (rule job_ok_frame [OF g(1) u D(11) [OF u] D(1,5)]) (use False over there(2) kept in simp_all)
  qed
  have sources: "p_jobs ?s u = Over 0" if "u < length (nodes_m g)" "\<not> produced g u" for u
    using D(10) [OF that] that produced by auto
  show ?thesis
    unfolding par_inv_def using D(1,3) W(1) there cache prog ran sources jobs by simp
qed

lemma finish_keeps:
  assumes g: "graph_ok h g" "plain_links n g w0" and I: "par_inv h n cfg tf g w0 s"
    and v: "v < length (nodes_m g)" "p_jobs s v = Ran hash res"
    and run: "finish_step cfg v hash res (p_ctx s) = (Over 0, ctx)"
  shows "par_inv h n cfg tf g w0 (s\<lparr>p_ctx := ctx, p_jobs := (p_jobs s)(v := Over 0)\<rparr>)" (is "par_inv h n cfg tf g w0 ?s")
proof -
  let ?d = "initially_stale n cfg tf g w0" and ?w = "p_world s" and ?bf = "cfg_build_file cfg" and ?p = "path (nodes_m g ! v)"
  let ?g = "x_graph (p_ctx s)" and ?nt = "x_times (p_ctx s)"
  note D = par_invD [OF I]
  have produced: "produced g v" using D(10) [OF v(1)] v(2) by (cases "produced g v") simp_all
  then obtain sid where sid: "step_id (nodes_m g ! v) = Some sid" by (auto simp: produced_def)
  note S = step_facts [OF g(1) v(1) sid] and nodes = same_shapeD(1) [OF D(1)]
  let ?st = "steps_m g ! sid"
  have J: "inputs_over g (p_jobs s) v" "affected g ?d v" "hash = hashCommand (step_command n cfg tf w0 ?st)" "fresh_output cfg ?st ?w"
    using D(11) [OF v(1) sid] v(2) by (simp_all add: job_ok_def Let_def)
  have "run_command cfg (steps_m ?g ! sid) v sid hash res (p_ctx s) = (0, ctx)"
    using run sid nodes by (simp add: finish_step_def split: prod.splits)
  then obtain c where "same_build (p_ctx s) c" "ctx = step_succeeded v sid hash c"
    using run_command_cases(2) [of cfg "steps_m ?g ! sid" v sid hash res "p_ctx s"] by auto
  then have R: "steps_m (x_graph ctx) = (steps_m ?g)[sid := (steps_m ?g ! sid)\<lparr>command_hash := hash\<rparr>]"
    "nodes_m (x_graph ctx) = nodes_m ?g" "index (x_graph ctx) = index ?g" "x_world ctx = ?w" "x_times ctx = invalidate ?nt v"
    using same_buildD by (simp_all add: step_succeeded_sel)
  have shape: "same_shape g (x_graph ctx)"
    by (rule same_shape_update [OF D(1) _ _ R(1)]) (use R(2,3) same_shapeD(1,2) [OF D(1)] in simp_all)
  have cache: "caches_ok h cfg g ?s"
  proof (rule caches_okE [OF D(6)])
    fix wv
    assume wv: "world_ok wv" "coherent h wv ?g ?nt"
      "\<And>q. q \<in> set (watched_files cfg g) \<Longrightarrow>
        (\<And>u hash res. u < length (nodes_m g) \<Longrightarrow> path (nodes_m g ! u) = q \<Longrightarrow> p_jobs s u \<noteq> Ran hash res) \<Longrightarrow>
        w_time wv q = w_time ?w q \<and> w_exists wv q = w_exists ?w q"
    define wv' where "wv' = wv\<lparr>w_time := (w_time wv)(?p := w_time ?w ?p), w_exists := (w_exists wv)(?p := w_exists ?w ?p)\<rparr>"
    have "world_ok wv'" using wv(1) D(2) by (auto simp: world_ok_def wv'_def)
    moreover have "coherent h wv' ?g (invalidate ?nt v)"
      by (rule invalidate_coherent [OF same_shape_ok [OF g(1) D(1)] wv(2)]) (use v(1) sid nodes in \<open>auto simp: produced_def wv'_def\<close>)
    then have "coherent h wv' (x_graph ctx) (x_times ctx)" using coherent_cong [OF R(2,3)] R(5) by simp
    moreover have "w_time wv' q = w_time (p_world ?s) q \<and> w_exists wv' q = w_exists (p_world ?s) q"
      if q: "q \<in> set (watched_files cfg g)"
        and idle: "\<And>u hash res. u < length (nodes_m g) \<Longrightarrow> path (nodes_m g ! u) = q \<Longrightarrow> p_jobs ?s u \<noteq> Ran hash res" for q
    proof (cases "q = ?p")
      case True
      then show ?thesis by (simp add: wv'_def R(4))
    next
      case False
      have "p_jobs s u \<noteq> Ran hash res" if "u < length (nodes_m g)" "path (nodes_m g ! u) = q" for u hash res
        using idle [OF that] that(2) False by (cases "u = v") auto
      with wv(3) [OF q] False show ?thesis by (simp add: wv'_def R(4))
    qed
    ultimately show ?thesis by (intro caches_okI [of wv']) simp_all
  qed
  have settled: "settled g ?s = settled g s" using v by auto
  have prog: "progressed cfg g w0 ?d (settled g ?s) ctx"
  proof -
    have "steps_m (x_graph ctx) ! su = steps_m g ! su"
      if u: "u < length (nodes_m g)" "\<not> (u \<in> settled g s \<and> affected g ?d u)" "step_id (nodes_m g ! u) = Some su" for u su
    proof -
      have "u \<noteq> v" using u(2) J(2) v by auto
      from other_step(1) [OF g(1) u(1,3) v(1) sid this] progressedD(2) [OF D(7) u] show ?thesis by (simp add: R(1))
    qed
    with D(7) show ?thesis unfolding settled progressed_def R(4) by blast
  qed
  have over: "inputs_over g ((p_jobs s)(v := Over 0)) u" if "inputs_over g (p_jobs s) u" for u
    by (rule inputs_over_update [OF that]) simp
  have jobs: "job_ok n cfg tf g w0 ?s u su" if u: "u < length (nodes_m g)" "step_id (nodes_m g ! u) = Some su" for u su
  proof (cases "u = v")
    case True
    then have su: "su = sid" using u(2) sid by simp
    obtain c where "steps_m ?g ! sid = ?st\<lparr>command_hash := c\<rparr>" by (rule current_step [OF D(1) S(1)])
    then have st: "steps_m (x_graph ctx) ! sid = ?st\<lparr>command_hash := hash\<rparr>"
      using S(1) same_shapeD(3) [OF D(1)] by (simp add: R(1))
    have "\<not> out_of_date n ?w ?bf (?st\<lparr>command_hash := hash\<rparr>) tf"
      using J(4) command_same [OF S(3) g(2) D(5), of ?bf hash True tf]
      by (auto simp: out_of_date_def fresh_output_def J(3) step_command_def)
    with True su over [OF J(1)] st R(4) show ?thesis by (simp add: job_ok_def Let_def)
  next
    case False
    show ?thesis
      by (rule job_ok_frame [OF g(1) u D(11) [OF u] D(1,5)])
        (use False over R(1,4) D(5) other_step(1) [OF g(1) u v(1) sid False] in simp_all)
  qed
  have sources: "p_jobs ?s u = Over 0" if "u < length (nodes_m g)" "\<not> produced g u" for u
    using D(10) [OF that] that produced by auto
  have ran: "distinct (p_ran ?s)" "set (p_ran ?s) = {u \<in> settled g ?s. affected g ?d u}"
    unfolding settled using D(8,9) by simp_all
  have there: "inputs_there cfg g (p_world ?s)" "plain_links n g (p_world ?s)" "world_ok (p_world ?s)"
    "build_file (x_times (p_ctx ?s)) = ?bf" "same_shape g (x_graph (p_ctx ?s))"
    using D(2-5) shape by (simp_all add: R(4,5) invalidate_def Let_def)
  have "progressed cfg g w0 ?d (settled g ?s) (p_ctx ?s)" using prog by simp
  with there cache ran sources jobs show ?thesis unfolding par_inv_def by blast
qed

section \<open>All reachable states\<close>

lemma begin_frame:
  assumes "begin_step n cfg tf now tty v c = Inr (job, ctx)"
  shows "x_graph ctx = x_graph c" "job \<noteq> Ran hash res" "job \<noteq> Waiting" "job = Decided hash args \<Longrightarrow> step_id (nodes_m (x_graph c) ! v) \<noteq> None"
    "job = Over r \<Longrightarrow> r = 0"
  using assms
  by (auto simp: begin_step_def Let_def enqueue_message_def split: option.splits sum.splits prod.splits if_splits)

lemma finish_frame:
  assumes "finish_step cfg v hash res c = (job, ctx)"
  shows "nodes_m (x_graph ctx) = nodes_m (x_graph c)"
    "\<exists>r. job = Over r \<and> (step_id (nodes_m (x_graph c) ! v) \<noteq> None \<longrightarrow> r = (case res of Inl e \<Rightarrow> 1 | Inr (ec, out) \<Rightarrow> ec))"
proof -
  have "nodes_m (x_graph (snd (run_command cfg step v sid hash res c))) = nodes_m (x_graph c)" for step sid
  proof (cases "fst (run_command cfg step v sid hash res c) = 0")
    case True
    from run_command_cases(2) [OF this] show ?thesis using same_buildD(1) by (auto simp: step_succeeded_sel)
  next
    case False
    from run_command_cases(3) [OF this] show ?thesis by simp
  qed
  then show "nodes_m (x_graph ctx) = nodes_m (x_graph c)"
    using assms by (auto simp: finish_step_def split: option.splits prod.splits) (metis snd_conv)
  show "\<exists>r. job = Over r \<and> (step_id (nodes_m (x_graph c) ! v) \<noteq> None \<longrightarrow> r = (case res of Inl e \<Rightarrow> 1 | Inr (ec, out) \<Rightarrow> ec))"
    using assms unfolding finish_step_def
    by (cases "step_id (nodes_m (x_graph c) ! v)") (auto split: prod.splits, metis run_command_cases(1) fst_conv)
qed

lemma par_frame:
  assumes "par_reachable h n cfg tf pe threads g w s"
  shows "nodes_m (x_graph (p_ctx s)) = nodes_m g \<and> (\<forall>v hash args res. p_jobs s v = Decided hash args \<or> p_jobs s v = Ran hash res \<longrightarrow> produced g v)"
  using assms
proof (induction rule: par_reachable.induct)
  case par_start
  then show ?case by (simp add: par_init_def fresh_ctx_def)
next
  case (par_next s s')
  from par_next(2,3) show ?case
  proof (cases rule: par_step.cases)
    case (par_begin v now tty job ctx)
    with begin_frame [OF par_begin(5)] par_next(3) show ?thesis by (auto simp: produced_def split: if_splits)
  next
    case (par_exec v hash args res w)
    with par_next(3) show ?thesis by (auto split: if_splits)
  next
    case (par_finish v hash res job ctx)
    with finish_frame [OF par_finish(4)] par_next(3) show ?thesis by (auto split: if_splits)
  qed
qed

lemma no_failure_before:
  assumes "par_reachable h n cfg tf pe threads g w s" "par_step n cfg tf pe g s s'" "no_failure_yet g s'"
  shows "no_failure_yet g s"
  using assms(2)
proof (cases rule: par_step.cases)
  case (par_begin v now tty job ctx)
  have "p_jobs s u = p_jobs s' u" if "u \<noteq> v" for u using that par_begin(1) by simp
  with par_begin(3) assms(3) show ?thesis unfolding no_failure_yet_def by (metis job.distinct(3,5))
next
  case (par_exec v hash args res w)
  have "p_jobs s u = p_jobs s' u" if "u \<noteq> v" for u using that par_exec(1) by simp
  with par_exec(3) assms(3) show ?thesis unfolding no_failure_yet_def by (metis job.distinct(7,9))
next
  case (par_finish v hash res job ctx)
  have other: "p_jobs s u = p_jobs s' u" if "u \<noteq> v" for u using that par_finish(1) by simp
  note F = par_frame [OF assms(1)]
  have "produced g v" using F par_finish(3) by blast
  then have "step_id (nodes_m (x_graph (p_ctx s)) ! v) \<noteq> None" using F by (simp add: produced_def)
  with finish_frame(2) [OF par_finish(4)] have "job = Over (case res of Inl e \<Rightarrow> 1 | Inr (ec, out) \<Rightarrow> ec)" by auto
  moreover have "\<forall>r. job = Over r \<longrightarrow> r = 0" using assms(3) par_finish(1,2) by (auto simp: no_failure_yet_def)
  ultimately have "\<exists>out. res = Inr (0, out)" by (auto split: sum.splits)
  with other par_finish(3) assms(3) show ?thesis unfolding no_failure_yet_def by (metis job.distinct(11) job.inject(2))
qed

lemma par_inv_init:
  assumes "graph_ok h g" "world_ok w" "inputs_there cfg g w" "plain_links n g w"
  shows "par_inv h n cfg tf g w (par_init h cfg threads g w)"
proof -
  let ?s = "par_init h cfg threads g w" and ?d = "initially_stale n cfg tf g w"
  have B: "built h n cfg tf g {} (fresh_ctx h cfg threads g w)"
    by (rule fresh_built [OF assms(1) same_shape_refl assms(2-4)]) simp
  note B = builtD [OF B]
  have ctx: "p_ctx ?s = fresh_ctx h cfg threads g w" by (simp add: par_init_def)
  have src: "\<not> affected g ?d v" if "v \<in> settled g ?s" for v
    using that affected_range [OF _ assms(1), of n cfg tf w v] by (auto simp: par_init_def split: if_splits)
  then have none: "affected_paths g ?d (settled g ?s) = {}" "\<And>v. \<not> (v \<in> settled g ?s \<and> affected g ?d v)"
    unfolding affected_paths_def by blast+
  have "progressed cfg g w ?d (settled g ?s) (p_ctx ?s)"
    unfolding progressed_def none(1) ctx by (simp add: fresh_ctx_def)
  moreover have "caches_ok h cfg g ?s"
    by (rule caches_okI [of w]) (use assms(2) B(3) in \<open>simp_all add: ctx fresh_ctx_def\<close>)
  moreover have "job_ok n cfg tf g w ?s v sid" if "step_id (nodes_m g ! v) = Some sid" for v sid
    using that by (simp add: job_ok_def par_init_def produced_def Let_def)
  moreover have "set (p_ran ?s) = {v \<in> settled g ?s. affected g ?d v}" using src by (auto simp: par_init_def)
  moreover have "\<not> produced g v \<Longrightarrow> p_jobs ?s v = Over 0" "distinct (p_ran ?s)" for v by (simp_all add: par_init_def)
  ultimately show ?thesis using B(1,2,4-6) unfolding par_inv_def ctx by blast
qed

lemma par_inv_reachable:
  assumes "graph_ok h g" "world_ok w" "inputs_there cfg g w" "build_file_is_source cfg g" "plain_links n g w"
    and "tool_contract n cfg tf g pe" "\<not> dry_run cfg"
    and "par_reachable h n cfg tf pe threads g w s" "no_failure_yet g s"
  shows "par_inv h n cfg tf g w s"
  using assms(8,9)
proof (induction rule: par_reachable.induct)
  case par_start
  show ?case by (rule par_inv_init [OF assms(1-3,5)])
next
  case (par_next s s')
  note I = par_next.IH [OF no_failure_before [OF par_next.hyps par_next.prems]]
  from par_next.hyps(2) show ?case
  proof (cases rule: par_step.cases)
    case (par_begin v now tty job ctx)
    show ?thesis unfolding par_begin(1) by (rule begin_keeps [OF assms(1,4,5) I par_begin(2-5) assms(7)])
  next
    case (par_exec v hash args res w')
    then have "\<exists>out. res = Inr (0, out)" using par_next.prems by (auto simp: no_failure_yet_def)
    then obtain out where "res = Inr (0, out)" by blast
    with exec_keeps [OF assms(1,4,5) I assms(6) par_exec(2,3)] par_exec(1,4) show ?thesis by simp
  next
    case (par_finish v hash res job ctx)
    obtain r where "job = Over r" using finish_frame(2) [OF par_finish(4)] by blast
    moreover from this have "r = 0" using par_next.prems par_finish(1,2) by (auto simp: no_failure_yet_def)
    ultimately show ?thesis using finish_keeps [OF assms(1,5) I par_finish(2,3)] par_finish(1,4) by simp
  qed
qed

section \<open>Whole builds\<close>

lemma par_end:
  assumes "graph_ok h g" "par_inv h n cfg tf g w s" "\<forall>v < length (nodes_m g). p_jobs s v = Over 0"
  shows "\<forall>v \<in> {..<length (nodes_m g)}. \<forall>sid. step_id (nodes_m g ! v) = Some sid \<longrightarrow>
      \<not> out_of_date n (p_world s) (cfg_build_file cfg) (steps_m (x_graph (p_ctx s)) ! sid) tf"
    "settled g s = {..<length (nodes_m g)}"
  using par_invD(11) [OF assms(2)] assms(3) by (auto simp: job_ok_def Let_def)

text \<open>C6: Parallel builds are exact, when no response files are involved. Take a well-formed
  graph; files of which those that exist have times, with the sources and the build file there and the
  build file made by no step; link steps with no more inputs than the threshold, whose response files
  neither exist nor are outputs; tools that, of the files the build looks at, change only their output,
  and make it newer than the others when they succeed; and no dry run. However the workers' parts of
  \<open>processStep\<close> interleave (decision, command, and what follows it, each one action), when
  a step is only begun after the steps that produce its inputs have ended: once every step has ended and
  returned 0, the commands that were run are those of the affected steps, each once, every other file
  the build looks at keeps its time, every other recorded hash is as it was, and the next build, in any
  order of the nodes, runs no command and changes nothing.\<close>

theorem parallel_build_exact:
  assumes "graph_ok h g" "world_ok w" "inputs_there cfg g w" "build_file_is_source cfg g" "plain_links n g w"
    and "tool_contract n cfg tf g pe" "\<not> dry_run cfg"
    and "par_reachable h n cfg tf pe threads g w s" "\<forall>v < length (nodes_m g). p_jobs s v = Over 0"
  defines "hit \<equiv> affected g (initially_stale n cfg tf g w)"
  shows "distinct (p_ran s) \<and> set (p_ran s) = {v. hit v} \<and>
    (\<forall>q \<in> set (watched_files cfg g). (\<forall>u < length (nodes_m g). hit u \<longrightarrow> path (nodes_m g ! u) \<noteq> q) \<longrightarrow>
       w_time (x_world (p_ctx s)) q = w_time w q) \<and>
    (\<forall>v < length (nodes_m g). \<forall>sid. \<not> hit v \<longrightarrow> step_id (nodes_m g ! v) = Some sid \<longrightarrow>
       steps_m (x_graph (p_ctx s)) ! sid = steps_m g ! sid) \<and>
    (\<forall>pe' now' tty' threads' nodes'. set nodes' \<subseteq> {..<length (nodes_m g)} \<longrightarrow>
       (\<exists>ctx'. run_steps n cfg tf pe' now' tty' nodes' (fresh_ctx h cfg threads' (x_graph (p_ctx s)) (x_world (p_ctx s))) = Inr (0, ctx') \<and>
          x_world ctx' = x_world (p_ctx s) \<and> x_graph ctx' = x_graph (p_ctx s) \<and> \<not> hashes_changed ctx'))"
proof (intro conjI ballI allI impI)
  have "no_failure_yet g s" using assms(9) by (simp add: no_failure_yet_def)
  note I = par_inv_reachable [OF assms(1-8) this]
  note D = par_invD [OF I] and over = par_end [OF assms(1) I assms(9)]
  show "distinct (p_ran s)" by (rule D(8))
  show "set (p_ran s) = {v. hit v}" using D(9) affected_range [OF _ assms(1)] by (auto simp: over(2) hit_def)
  show "w_time (x_world (p_ctx s)) q = w_time w q"
    if "q \<in> set (watched_files cfg g)" "\<forall>u < length (nodes_m g). hit u \<longrightarrow> path (nodes_m g ! u) \<noteq> q" for q
    by (rule progressedD(1) [OF D(7) that(1)]) (use that(2) in \<open>auto simp: over(2) affected_paths_def hit_def\<close>)
  show "steps_m (x_graph (p_ctx s)) ! sid = steps_m g ! sid"
    if "v < length (nodes_m g)" "\<not> hit v" "step_id (nodes_m g ! v) = Some sid" for v sid
    by (rule progressedD(2) [OF D(7) that(1) _ that(3)]) (use that(2) in \<open>simp add: hit_def\<close>)
  show "\<exists>ctx'. run_steps n cfg tf pe' now' tty' nodes' (fresh_ctx h cfg threads' (x_graph (p_ctx s)) (x_world (p_ctx s))) = Inr (0, ctx') \<and>
      x_world ctx' = x_world (p_ctx s) \<and> x_graph ctx' = x_graph (p_ctx s) \<and> \<not> hashes_changed ctx'"
    if "set nodes' \<subseteq> {..<length (nodes_m g)}" for pe' now' tty' threads' nodes'
    using run_skips [OF assms(1) fresh_built [OF assms(1) D(1,2,4,5) over(1)] that, of pe' now' tty' threads']
    unfolding fresh_ctx_def by simp blast
qed

text \<open>What is left to do: three parts for each step that is not begun.\<close>

definition parts_of :: "job \<Rightarrow> nat" where
  "parts_of j = (case j of Waiting \<Rightarrow> 3 | Decided _ _ \<Rightarrow> 2 | Ran _ _ \<Rightarrow> 1 | Over _ \<Rightarrow> 0)"

definition parts_left :: "build_graph \<Rightarrow> par \<Rightarrow> nat" where
  "parts_left g s = (\<Sum>v < length (nodes_m g). parts_of (p_jobs s v))"

lemma parts_decrease:
  assumes "par_step n cfg tf pe g s s'"
  shows "parts_left g s' < parts_left g s"
proof -
  have less: "(\<Sum>u < length (nodes_m g). parts_of ((js(v := j)) u)) < (\<Sum>u < length (nodes_m g). parts_of (js u))"
    if "v < length (nodes_m g)" "parts_of j < parts_of (js v)" for js v j
    by (rule sum_strict_mono_ex1) (use that in auto)
  from assms show ?thesis
  proof (cases rule: par_step.cases)
    case (par_begin v now tty job ctx)
    have "parts_of job < 3" using begin_frame(3) [OF par_begin(5)] by (auto simp: parts_of_def split: job.split)
    with less [of v job "p_jobs s"] par_begin(1-3) show ?thesis by (simp add: parts_left_def parts_of_def)
  next
    case (par_exec v hash args res w)
    with less [of v "Ran hash res" "p_jobs s"] show ?thesis by (simp add: parts_left_def parts_of_def)
  next
    case (par_finish v hash res job ctx)
    obtain r where "job = Over r" using finish_frame(2) [OF par_finish(4)] by blast
    with less [of v job "p_jobs s"] par_finish(1-3) show ?thesis by (simp add: parts_left_def parts_of_def)
  qed
qed

lemma par_enabled:
  assumes g: "graph_ok h g" "build_file_is_source cfg g" "plain_links n g w0" and I: "par_inv h n cfg tf g w0 s" "no_failure_yet g s"
    and order: "is_topological g order" "\<not> dry_run cfg" and todo: "v < length (nodes_m g)" "p_jobs s v \<noteq> Over 0"
  shows "\<exists>s'. par_step n cfg tf pe g s s'"
proof (cases "\<exists>v < length (nodes_m g). \<exists>hash args res. p_jobs s v = Decided hash args \<or> p_jobs s v = Ran hash res")
  case True
  then obtain v hash args res where v: "v < length (nodes_m g)" "p_jobs s v = Decided hash args \<or> p_jobs s v = Ran hash res" by blast
  then show ?thesis
  proof (elim disjE)
    assume d: "p_jobs s v = Decided hash args"
    obtain res' w' where "pe args (p_world s) = (res', w')" by fastforce
    from par_exec [where tf = tf and pe = pe and s = s and args = args and res = res' and w = w', OF v(1) d this] show ?thesis by blast
  next
    assume r: "p_jobs s v = Ran hash res"
    obtain job ctx where "finish_step cfg v hash res (p_ctx s) = (job, ctx)" by fastforce
    from par_finish [where tf = tf and s = s, OF v(1) r this] show ?thesis by blast
  qed
next
  case False
  have waiting: "p_jobs s u = Waiting" if "u < length (nodes_m g)" "p_jobs s u \<noteq> Over 0" for u
    using False I(2) that by (cases "p_jobs s u") (auto simp: no_failure_yet_def)
  have "\<exists>v \<in> set order. p_jobs s v \<noteq> Over 0" using todo order(1) by (auto simp: is_topological_def)
  from split_list_first_prop [OF this] obtain xs u rest
    where o: "order = xs @ u # rest" "p_jobs s u \<noteq> Over 0" "\<forall>x \<in> set xs. p_jobs s x = Over 0" by blast
  note T = topological_split [OF order(1) [unfolded o(1)]]
  have "inputs_over g (p_jobs s) u" using T(2) o(3) by (simp add: inputs_over_def)
  moreover have wait: "p_jobs s u = Waiting" by (rule waiting [OF T(1) o(2)])
  moreover have "produced g u" using par_invD(10) [OF I(1) T(1)] o(2) by blast
  then obtain sid where "step_id (nodes_m g ! u) = Some sid" by (auto simp: produced_def)
  ultimately have "\<exists>job ctx. begin_step n cfg tf 0 False u (p_ctx s) = Inr (job, ctx)"
    using begin_outcome [OF g I(1) T(1) _ _ _ order(2), of sid 0 False] by blast
  then obtain job ctx where "begin_step n cfg tf 0 False u (p_ctx s) = Inr (job, ctx)" by blast
  from par_begin [OF T(1) wait \<open>inputs_over g (p_jobs s) u\<close> this] show ?thesis by blast
qed

text \<open>C7: A parallel build ends. Take a well-formed graph without cycles; files of which those
  that exist have times, with the sources and the build file there and the build file made by no step;
  link steps with no more inputs than the threshold, whose response files neither exist nor are outputs;
  tools that, of the files the build looks at, change only their output, and make it newer than the
  others when they succeed; and no dry run. As long as no step has failed, a part of some step can be
  taken (a step can be decided, its command run, or its run ended) unless all steps have ended and
  returned 0. Each part that is taken leaves fewer, at most three per node from the start, so the
  workers cannot go on for ever.\<close>

theorem parallel_build_ends:
  assumes "graph_ok h g" "world_ok w" "inputs_there cfg g w" "build_file_is_source cfg g" "plain_links n g w"
    and "tool_contract n cfg tf g pe" "\<not> dry_run cfg" "is_topological g order"
    and "par_reachable h n cfg tf pe threads g w s" "no_failure_yet g s"
  shows "((\<forall>v < length (nodes_m g). p_jobs s v = Over 0) \<or> (\<exists>s'. par_step n cfg tf pe g s s')) \<and>
    (\<forall>s'. par_step n cfg tf pe g s s' \<longrightarrow> parts_left g s' < parts_left g s) \<and> parts_left g s \<le> 3 * length (nodes_m g)"
proof -
  have "parts_of j \<le> 3" for j by (simp add: parts_of_def split: job.split)
  then have "parts_left g s \<le> 3 * length (nodes_m g)"
    using sum_bounded_above [of "{..<length (nodes_m g)}" "\<lambda>v. parts_of (p_jobs s v)" 3] by (simp add: parts_left_def)
  moreover note par_enabled [OF assms(1,4,5) par_inv_reachable [OF assms(1-7,9,10)] assms(10,8,7)]
  ultimately show ?thesis using parts_decrease by blast
qed

section \<open>An example\<close>

lemma compile_affected:
  "affected compile_graph (initially_stale 50 (plain_config False) plain_tools compile_graph edited) v \<longleftrightarrow> v = 0"
proof -
  let ?d = "initially_stale 50 (plain_config False) plain_tools compile_graph edited"
  have "?d 0" using start_ctx_out_of_date by (simp add: initially_stale_def start_ctx_def compile_graph_values plain_config_def)
  then have "affected compile_graph ?d 0" by (intro affected_start) (simp_all add: compile_graph_values)
  moreover have "v = 0" if "affected compile_graph ?d v"
    using affected_range [OF that compile_graph_ok] by (auto simp: produced_def compile_graph_values less_2_cases_iff)
  ultimately show ?thesis by blast
qed

abbreviation compile_par :: par where
  "compile_par \<equiv> par_init (\<lambda>_. 7) (plain_config False) 2 compile_graph edited"

abbreviation compile_reachable :: "par \<Rightarrow> bool" where
  "compile_reachable \<equiv> par_reachable (\<lambda>_. 7) 50 (plain_config False) plain_tools clock_compiler 2 compile_graph edited"

lemma compile_init:
  "p_jobs compile_par = (\<lambda>v. if produced compile_graph v then Waiting else Over 0)" "p_jobs compile_par 0 = Waiting"
  "no_failure_yet compile_graph compile_par" "inputs_over compile_graph (p_jobs compile_par) 0"
  by (auto simp: par_init_def produced_def compile_graph_values no_failure_yet_def inputs_over_def less_2_cases_iff)

lemma compile_in_parallel: "\<exists>s. compile_reachable s \<and> (\<forall>v < length (nodes_m compile_graph). p_jobs s v = Over 0)"
proof -
  let ?cfg = "plain_config False"
  have I: "par_inv (\<lambda>_. 7) 50 ?cfg plain_tools compile_graph edited compile_par"
    by (rule par_inv_init [OF compile_graph_ok edited_ok example_setting(1,3)])
  have n: "0 < length (nodes_m compile_graph)" "step_id (nodes_m compile_graph ! 0) = Some 0" by (simp_all add: compile_graph_values)
  obtain hash args ctx where b: "begin_step 50 ?cfg plain_tools 20 False 0 (p_ctx compile_par) = Inr (Decided hash args, ctx)"
    using begin_outcome [OF compile_graph_ok example_setting(2,3) I n compile_init(2,4) example_setting(4), of 20 False]
    unfolding compile_affected by auto
  let ?s1 = "compile_par\<lparr>p_ctx := ctx, p_jobs := (p_jobs compile_par)(0 := Decided hash args)\<rparr>"
  have r1: "compile_reachable ?s1" by (rule par_next [OF par_start]) (rule par_begin [OF n(1) compile_init(2,4) b])
  obtain w' where c: "clock_compiler args (p_world ?s1) = (Inr (0, []), w')" by (simp add: clock_compiler_def Let_def)
  let ?res = "Inr (0, []) :: exec_result"
  let ?s2 = "?s1\<lparr>p_ctx := (p_ctx ?s1)\<lparr>x_world := w'\<rparr>, p_jobs := (p_jobs ?s1)(0 := Ran hash ?res), p_ran := p_ran ?s1 @ [0]\<rparr>"
  have r2: "compile_reachable ?s2" by (rule par_next [OF r1]) (rule par_exec [where args = args and s = ?s1, OF n(1)], simp, rule c)
  obtain job ctx' where f: "finish_step ?cfg 0 hash ?res (p_ctx ?s2) = (job, ctx')" by fastforce
  let ?s3 = "?s2\<lparr>p_ctx := ctx', p_jobs := (p_jobs ?s2)(0 := job)\<rparr>"
  have r3: "compile_reachable ?s3" by (rule par_next [OF r2]) (rule par_finish [OF n(1) _ f], simp)
  have "job = Over 0" using finish_frame(2) [OF f] par_frame [OF r2] n(2) by auto
  then have "\<forall>v < length (nodes_m compile_graph). p_jobs ?s3 v = Over 0"
    by (simp add: compile_init(1) produced_def compile_graph_values less_2_cases_iff)
  with r3 show ?thesis by blast
qed

lemma parallel_build_exact_witness:
  "\<exists>s. compile_reachable s \<and> (\<forall>v < length (nodes_m compile_graph). p_jobs s v = Over 0) \<and> set (p_ran s) = {0}"
proof -
  obtain s where s: "compile_reachable s" "\<forall>v < length (nodes_m compile_graph). p_jobs s v = Over 0"
    using compile_in_parallel by blast
  from parallel_build_exact [OF compile_graph_ok edited_ok example_setting(1-3) clock_compiler_ok example_setting(4) s]
  have "set (p_ran s) = {0}" unfolding compile_affected by simp
  with s show ?thesis by blast
qed

lemma parallel_build_ends_witness: "\<exists>s'. par_step 50 (plain_config False) plain_tools clock_compiler compile_graph compile_par s'"
proof -
  note ends = parallel_build_ends
    [OF compile_graph_ok edited_ok example_setting(1-3) clock_compiler_ok example_setting(4,5) par_start compile_init(3), THEN conjunct1]
  have "\<not> (\<forall>v < length (nodes_m compile_graph). p_jobs compile_par v = Over 0)"
    using compile_init(2) by (auto simp: compile_graph_values intro: exI [of _ 0])
  with ends show ?thesis by blast
qed

end
