(* ===== verification/Scheduler.thy ===== *)
theory Scheduler
  imports CycleCheck
begin

text \<open>
  The parallel scheduler (src/executor.cpp): \<open>ExecuteContext\<close>, the initialisation in \<open>execute\<close>,
  \<open>pushReady\<close> and \<open>workerLoop\<close>, as a step relation. One step of one worker is one atomic operation
  of the source on a shared variable, so every interleaving of the worker threads is a run. The
  memory is sequentially consistent.

  Each worker has a program counter; \<open>tasks_available\<close> is a 64-bit word, because the source stores
  its maximum and lets \<open>fetch_add\<close> and \<open>fetch_sub\<close> wrap. The ready queue is the list of its slots
  in order, each with the flag that says whether the slot has been published; \<open>dequeue\<close> fails when
  the first slot is missing or not yet published. \<open>processStep\<close> is a step whose outcome is open:
  the success and the failure of each step are both possible. \<open>wait\<close> blocks while the value is
  the expected one; \<open>notify_one\<close> wakes any one blocked worker, and a blocked worker may also
  re-check spuriously. The log of starts, successes and failures is a history variable.
\<close>

section \<open>State\<close>

datatype event = Start nat | Success nat | Failure nat

text \<open>Program counters of \<open>workerLoop\<close>, in the order of the source. \<open>Release\<close>, \<open>PushEnq\<close>, \<open>PushPublish\<close>,
  \<open>PushToken\<close> and \<open>PushNotify\<close> carry the out-edges still to be visited and whether this was the
  last node (\<open>prev_completed + 1 == total_nodes\<close>).\<close>

datatype pc =
    Dequeue
  | CheckDone1 | CheckError1 | LoadTokens | CheckDone2 | CheckError2
  | GoSleep | StallCheck | StallStore | StallNotify | StallLeave
  | WaitEnter | Blocked | Wake
  | TakeToken nat
  | Processing nat
  | SetError nat | StopCompleted | StopTokens | StopNotify | FailCount
  | Complete nat
  | Release "nat list" bool
  | PushEnq nat "nat list" bool
  | PushPublish nat "nat list" bool
  | PushToken "nat list" bool
  | PushNotify "nat list" bool
  | LastTokens | LastNotify
  | Exited

record sched =
  ready_queue :: "(nat \<times> bool) list"
  tasks_available :: u64
  sleeping_threads :: nat
  completed_count :: nat
  error_occurred :: bool
  in_degrees :: "int list"
  pcs :: "pc list"
  history :: "event list"

record sched_config =
  cfg_graph :: build_graph
  cfg_keep_going :: bool
  cfg_threads :: nat

definition total_nodes :: "sched_config \<Rightarrow> nat" where
  "total_nodes c = length (nodes_m (cfg_graph c))"

text \<open>The state when the workers start: sources count as completed, the ready steps are queued in
  the order chosen by the estimates, and up to \<open>thread_count\<close> workers run.\<close>

definition sched_init :: "sched_config \<Rightarrow> nat list \<Rightarrow> nat \<Rightarrow> sched" where
  "sched_init c order workers =
     \<lparr>ready_queue = map (\<lambda>v. (v, True)) order,
      tasks_available = of_nat (length order),
      sleeping_threads = 0,
      completed_count = source_nodes (cfg_graph c),
      error_occurred = False,
      in_degrees = temp_in_degrees (cfg_graph c),
      pcs = replicate workers Dequeue,
      history = []\<rparr>"

definition max_tokens :: u64 where "max_tokens = - 1"

definition wake_all :: "pc list \<Rightarrow> pc list" where
  "wake_all ps = map (\<lambda>p. if p = Blocked then WaitEnter else p) ps"

text \<open>The length of the queue is bounded by its capacity, and \<open>enqueue\<close> on a full queue is lost.\<close>

definition enqueue :: "nat \<Rightarrow> (nat \<times> bool) list \<Rightarrow> nat \<Rightarrow> (nat \<times> bool) list" where
  "enqueue cap q v = (if length q < cap then q @ [(v, False)] else q)"

definition publish :: "(nat \<times> bool) list \<Rightarrow> nat \<Rightarrow> (nat \<times> bool) list" where
  "publish q v = map (\<lambda>(x, b). (x, b \<or> x = v)) q"

section \<open>Steps of a worker\<close>

text \<open>The steps that touch only the worker's own counter and the shared variables, as a function of
  the program counter; the outcome of a process and the target of \<open>notify_one\<close> are separate
  rules below.\<close>

fun after_release :: "bool \<Rightarrow> pc" where
  "after_release lst = (if lst then LastTokens else Dequeue)"

fun local_step :: "sched_config \<Rightarrow> sched \<Rightarrow> pc \<Rightarrow> (sched \<times> pc) option" where
  "local_step c s Dequeue =
     (case ready_queue s of
        (v, True) # q \<Rightarrow> Some (s\<lparr>ready_queue := q\<rparr>, TakeToken v)
      | _ \<Rightarrow> Some (s, CheckDone1))"
| "local_step c s (TakeToken v) =
     Some (s\<lparr>tasks_available := tasks_available s - 1, history := history s @ [Start v]\<rparr>, Processing v)"
| "local_step c s CheckDone1 =
     Some (s, if completed_count s = total_nodes c then Exited else CheckError1)"
| "local_step c s CheckError1 = Some (s, if error_occurred s then Exited else LoadTokens)"
| "local_step c s LoadTokens = Some (s, if tasks_available s = 0 then CheckDone2 else Dequeue)"
| "local_step c s CheckDone2 =
     Some (s, if completed_count s = total_nodes c then Exited else CheckError2)"
| "local_step c s CheckError2 = Some (s, if error_occurred s then Exited else GoSleep)"
| "local_step c s GoSleep =
     Some (s\<lparr>sleeping_threads := sleeping_threads s + 1\<rparr>,
           if sleeping_threads s + 1 = cfg_threads c then StallCheck else WaitEnter)"
| "local_step c s StallCheck = Some (s, if tasks_available s = 0 then StallStore else WaitEnter)"
| "local_step c s StallStore = Some (s\<lparr>tasks_available := max_tokens\<rparr>, StallNotify)"
| "local_step c s StallNotify = Some (s\<lparr>pcs := wake_all (pcs s)\<rparr>, StallLeave)"
| "local_step c s StallLeave = Some (s\<lparr>sleeping_threads := sleeping_threads s - 1\<rparr>, Exited)"
| "local_step c s WaitEnter = Some (s, if tasks_available s = 0 then Blocked else Wake)"
| "local_step c s Blocked = Some (s, WaitEnter)"
| "local_step c s Wake = Some (s\<lparr>sleeping_threads := sleeping_threads s - 1\<rparr>, Dequeue)"
| "local_step c s (Processing v) = None"
| "local_step c s (SetError v) =
     Some (s\<lparr>error_occurred := True\<rparr>, if cfg_keep_going c then FailCount else StopCompleted)"
| "local_step c s StopCompleted = Some (s\<lparr>completed_count := total_nodes c\<rparr>, StopTokens)"
| "local_step c s StopTokens = Some (s\<lparr>tasks_available := max_tokens\<rparr>, StopNotify)"
| "local_step c s StopNotify = Some (s\<lparr>pcs := wake_all (pcs s)\<rparr>, Dequeue)"
| "local_step c s FailCount =
     Some (s\<lparr>completed_count := completed_count s + 1\<rparr>,
           if completed_count s + 1 = total_nodes c then LastTokens else Dequeue)"
| "local_step c s (Complete v) =
     Some (s\<lparr>completed_count := completed_count s + 1\<rparr>,
           Release (succs (cfg_graph c) v) (completed_count s + 1 = total_nodes c))"
| "local_step c s (Release [] lst) = Some (s, after_release lst)"
| "local_step c s (Release (e # es) lst) =
     Some (s\<lparr>in_degrees := (in_degrees s)[e := in_degrees s ! e - 1]\<rparr>,
           if in_degrees s ! e = 1 then PushEnq e es lst else Release es lst)"
| "local_step c s (PushEnq e es lst) =
     Some (s\<lparr>ready_queue := enqueue (bit_ceil (total_nodes c)) (ready_queue s) e\<rparr>, PushPublish e es lst)"
| "local_step c s (PushPublish e es lst) =
     Some (s\<lparr>ready_queue := publish (ready_queue s) e\<rparr>, PushToken es lst)"
| "local_step c s (PushToken es lst) =
     Some (s\<lparr>tasks_available := tasks_available s + 1\<rparr>, PushNotify es lst)"
| "local_step c s (PushNotify es lst) = None"
| "local_step c s LastTokens = Some (s\<lparr>tasks_available := max_tokens\<rparr>, LastNotify)"
| "local_step c s LastNotify = Some (s\<lparr>pcs := wake_all (pcs s)\<rparr>, Dequeue)"
| "local_step c s Exited = None"

definition set_pc :: "sched \<Rightarrow> nat \<Rightarrow> pc \<Rightarrow> sched" where
  "set_pc s w p = s\<lparr>pcs := (pcs s)[w := p]\<rparr>"

inductive sched_step :: "sched_config \<Rightarrow> sched \<Rightarrow> sched \<Rightarrow> bool" for c where
  local: "w < length (pcs s) \<Longrightarrow> local_step c s (pcs s ! w) = Some (s', p) \<Longrightarrow> sched_step c s (set_pc s' w p)"
| process_ok: "w < length (pcs s) \<Longrightarrow> pcs s ! w = Processing v \<Longrightarrow>
    sched_step c s (set_pc (s\<lparr>history := history s @ [Success v]\<rparr>) w (Complete v))"
| process_fail: "w < length (pcs s) \<Longrightarrow> pcs s ! w = Processing v \<Longrightarrow>
    sched_step c s (set_pc (s\<lparr>history := history s @ [Failure v]\<rparr>) w (SetError v))"
| notify_none: "w < length (pcs s) \<Longrightarrow> pcs s ! w = PushNotify es lst \<Longrightarrow> Blocked \<notin> set (pcs s) \<Longrightarrow>
    sched_step c s (set_pc s w (Release es lst))"
| notify_one: "w < length (pcs s) \<Longrightarrow> pcs s ! w = PushNotify es lst \<Longrightarrow>
    w' < length (pcs s) \<Longrightarrow> pcs s ! w' = Blocked \<Longrightarrow>
    sched_step c s (set_pc (set_pc s w' WaitEnter) w (Release es lst))"

inductive sched_reachable :: "sched_config \<Rightarrow> sched \<Rightarrow> bool" for c where
  start: "mset order = mset (initially_ready (cfg_graph c)) \<Longrightarrow> workers \<le> cfg_threads c \<Longrightarrow>
    workers = 0 \<longleftrightarrow> source_nodes (cfg_graph c) = total_nodes c \<Longrightarrow> sched_reachable c (sched_init c order workers)"
| step: "sched_reachable c s \<Longrightarrow> sched_step c s s' \<Longrightarrow> sched_reachable c s'"

section \<open>Flow of the nodes\<close>

text \<open>Out-edges a worker still has to visit, a ready node it holds outside of the queue, and the node
  it processes.\<close>

fun todo :: "build_graph \<Rightarrow> pc \<Rightarrow> nat list" where
  "todo g (Complete v) = succs g v"
| "todo g (Release es lst) = es"
| "todo g (PushEnq e es lst) = es"
| "todo g (PushPublish e es lst) = es"
| "todo g (PushToken es lst) = es"
| "todo g (PushNotify es lst) = es"
| "todo g _ = []"

fun holding :: "pc \<Rightarrow> nat list" where
  "holding (TakeToken v) = [v]"
| "holding (PushEnq e es lst) = [e]"
| "holding _ = []"

fun processing :: "pc \<Rightarrow> nat list" where
  "processing (Processing v) = [v]"
| "processing _ = []"

fun pc_nodes :: "build_graph \<Rightarrow> pc \<Rightarrow> nat list" where
  "pc_nodes g (PushPublish e es lst) = e # es"
| "pc_nodes g (Complete v) = v # succs g v"
| "pc_nodes g (SetError v) = [v]"
| "pc_nodes g p = todo g p @ holding p @ processing p"

definition over :: "sched \<Rightarrow> (pc \<Rightarrow> nat) \<Rightarrow> nat" where
  "over s f = (\<Sum>p \<leftarrow> pcs s. f p)"

definition succeeded :: "sched \<Rightarrow> nat set" where
  "succeeded s = {u. Success u \<in> set (history s)}"

definition produced_nodes :: "build_graph \<Rightarrow> nat set" where
  "produced_nodes g = {v. v < length (nodes_m g) \<and> produced g v}"

definition degrees_ok :: "sched_config \<Rightarrow> sched \<Rightarrow> bool" where
  "degrees_ok c s \<longleftrightarrow> length (in_degrees s) = total_nodes c \<and>
     (\<forall>v < total_nodes c. in_degrees s ! v =
        int (open_edges (cfg_graph c) (succeeded s) v + over s (\<lambda>p. count_list (todo (cfg_graph c) p) v)))"

definition tokens_ok :: "sched_config \<Rightarrow> sched \<Rightarrow> bool" where
  "tokens_ok c s \<longleftrightarrow> (\<forall>v \<in> produced_nodes (cfg_graph c).
     count_list (map fst (ready_queue s)) v + over s (\<lambda>p. count_list (holding p) v) +
       count_list (history s) (Start v) = (if in_degrees s ! v = 0 then 1 else 0))"

definition starts_ok :: "sched \<Rightarrow> bool" where
  "starts_ok s \<longleftrightarrow> (\<forall>v. count_list (history s) (Start v) =
     count_list (history s) (Success v) + count_list (history s) (Failure v) +
       over s (\<lambda>p. count_list (processing p) v))"

definition nodes_known :: "sched_config \<Rightarrow> sched \<Rightarrow> bool" where
  "nodes_known c s \<longleftrightarrow> set (map fst (ready_queue s)) \<subseteq> produced_nodes (cfg_graph c) \<and>
     (\<forall>p \<in> set (pcs s). set (pc_nodes (cfg_graph c) p) \<subseteq> produced_nodes (cfg_graph c)) \<and>
     (\<forall>v. Start v \<in> set (history s) \<longrightarrow> v \<in> produced_nodes (cfg_graph c))"

definition inputs_first :: "sched_config \<Rightarrow> event list \<Rightarrow> bool" where
  "inputs_first c es \<longleftrightarrow> (\<forall>i < length es. \<forall>v. es ! i = Start v \<longrightarrow>
     (\<forall>u \<in> produced_nodes (cfg_graph c). v \<in> set (succs (cfg_graph c) u) \<longrightarrow> Success u \<in> set (take i es)))"

definition flow_inv :: "sched_config \<Rightarrow> sched \<Rightarrow> bool" where
  "flow_inv c s \<longleftrightarrow> degrees_ok c s \<and> tokens_ok c s \<and> starts_ok s \<and> nodes_known c s \<and> inputs_first c (history s)"

lemma wake_all_length [simp]: "length (wake_all ps) = length ps"
  by (simp add: wake_all_def)

lemma sum_wake_all:
  fixes f :: "pc \<Rightarrow> nat"
  shows "f Blocked = f WaitEnter \<Longrightarrow> (\<Sum>p \<leftarrow> wake_all ps. f p) = (\<Sum>p \<leftarrow> ps. f p)"
  by (induction ps) (auto simp: wake_all_def)

lemma sum_update:
  fixes f :: "pc \<Rightarrow> nat"
  assumes "w < length ps"
  shows "(\<Sum>p \<leftarrow> ps[w := q]. f p) + f (ps ! w) = (\<Sum>p \<leftarrow> ps. f p) + f q"
proof -
  have "(\<Sum>p \<leftarrow> ps. f p) = (\<Sum>p \<leftarrow> take w ps @ ps ! w # drop (Suc w) ps. f p)"
    using assms by (simp add: id_take_nth_drop [symmetric])
  moreover have "(\<Sum>p \<leftarrow> ps[w := q]. f p) = (\<Sum>p \<leftarrow> take w ps @ q # drop (Suc w) ps. f p)"
    using assms by (simp add: list_update_decomp)
  ultimately show ?thesis by simp
qed

text \<open>How a step of worker \<open>w\<close> changes a count over the workers.\<close>

definition moves :: "sched \<Rightarrow> sched \<Rightarrow> nat \<Rightarrow> pc \<Rightarrow> bool" where
  "moves s s' w q \<longleftrightarrow> w < length (pcs s) \<and>
     (\<exists>ps. pcs s' = ps[w := q] \<and> length ps = length (pcs s) \<and>
        (\<forall>i < length ps. ps ! i = pcs s ! i \<or> pcs s ! i = Blocked \<and> ps ! i = WaitEnter))"

lemma moves_over:
  assumes "moves s s' w q" "f Blocked = f WaitEnter"
  shows "over s' f + f (pcs s ! w) = over s f + f q"
proof -
  obtain ps where ps: "pcs s' = ps[w := q]" "length ps = length (pcs s)" "w < length (pcs s)"
    "\<forall>i < length ps. ps ! i = pcs s ! i \<or> pcs s ! i = Blocked \<and> ps ! i = WaitEnter"
    using assms by (auto simp: moves_def)
  have "map f ps = map f (pcs s)" using ps(2,4) assms(2) by (intro nth_equalityI) auto
  moreover have "f (ps ! w) = f (pcs s ! w)" using ps(2,3,4) assms(2) by metis
  ultimately show ?thesis using sum_update [of w ps f q] ps(1-3) by (simp add: over_def)
qed

lemma moves_len: "moves s s' w q \<Longrightarrow> length (pcs s') = length (pcs s) \<and> w < length (pcs s) \<and> pcs s' ! w = q"
  by (auto simp: moves_def)

lemma moves_other:
  assumes "moves s s' w q" "i < length (pcs s)" "i \<noteq> w"
  shows "pcs s' ! i = pcs s ! i \<or> pcs s ! i = Blocked \<and> pcs s' ! i = WaitEnter"
  using assms unfolding moves_def by force

section \<open>One step of one worker\<close>

text \<open>Every step of the system is a step of one worker, which may in addition wake others.\<close>

definition worker_step :: "sched_config \<Rightarrow> sched \<Rightarrow> pc \<Rightarrow> sched \<Rightarrow> pc \<Rightarrow> bool" where
  "worker_step c s p s0 q \<longleftrightarrow> local_step c s p = Some (s0, q) \<or>
     (\<exists>v. p = Processing v \<and>
        (s0 = s\<lparr>history := history s @ [Success v]\<rparr> \<and> q = Complete v \<or>
         s0 = s\<lparr>history := history s @ [Failure v]\<rparr> \<and> q = SetError v)) \<or>
     (\<exists>es lst. p = PushNotify es lst \<and> s0 = s \<and> q = Release es lst)"

definition same_shared :: "sched \<Rightarrow> sched \<Rightarrow> bool" where
  "same_shared s s0 \<longleftrightarrow> ready_queue s = ready_queue s0 \<and> tasks_available s = tasks_available s0 \<and>
     sleeping_threads s = sleeping_threads s0 \<and> completed_count s = completed_count s0 \<and>
     error_occurred s = error_occurred s0 \<and> in_degrees s = in_degrees s0 \<and> history s = history s0"

lemma moves_set_pc: "w < length (pcs s) \<Longrightarrow> pcs s0 = pcs s \<Longrightarrow> moves s (set_pc s0 w q) w q"
  by (auto simp: moves_def set_pc_def intro!: exI [of _ "pcs s"])

lemma moves_wake_all: "w < length (pcs s) \<Longrightarrow> pcs s0 = wake_all (pcs s) \<Longrightarrow> moves s (set_pc s0 w q) w q"
  by (auto simp: moves_def set_pc_def wake_all_def intro!: exI [of _ "wake_all (pcs s)"] split: if_splits)

lemma moves_notify:
  assumes "w < length (pcs s)" "w' < length (pcs s)" "pcs s ! w' = Blocked"
  shows "moves s (set_pc (set_pc s w' WaitEnter) w q) w q"
  using assms
  by (auto simp: moves_def set_pc_def nth_list_update intro!: exI [of _ "(pcs s)[w' := WaitEnter]"] split: if_splits)

lemma local_step_pcs:
  assumes "local_step c s p = Some (s0, q)"
  shows "pcs s0 = pcs s \<or> pcs s0 = wake_all (pcs s)"
  using assms by (cases "(c, s, p)" rule: local_step.cases) (auto split: list.splits bool.splits prod.splits)

lemma sched_step_worker:
  assumes "sched_step c s s'"
  obtains w q s0 where "moves s s' w q" "worker_step c s (pcs s ! w) s0 q" "same_shared s' s0"
  using assms
proof cases
  case (local w s0 q)
  have "moves s (set_pc s0 w q) w q"
    using local_step_pcs [OF local(3)] moves_set_pc [OF local(2)] moves_wake_all [OF local(2)] by blast
  with local show ?thesis by (intro that [of w q s0]) (auto simp: worker_step_def same_shared_def set_pc_def)
next
  case (process_ok w v)
  let ?s0 = "s\<lparr>history := history s @ [Success v]\<rparr>"
  have "moves s (set_pc ?s0 w (Complete v)) w (Complete v)" by (rule moves_set_pc) (use process_ok in auto)
  with process_ok show ?thesis
    by (intro that [of w "Complete v" ?s0]) (auto simp: worker_step_def same_shared_def set_pc_def)
next
  case (process_fail w v)
  let ?s0 = "s\<lparr>history := history s @ [Failure v]\<rparr>"
  have "moves s (set_pc ?s0 w (SetError v)) w (SetError v)" by (rule moves_set_pc) (use process_fail in auto)
  with process_fail show ?thesis
    by (intro that [of w "SetError v" ?s0]) (auto simp: worker_step_def same_shared_def set_pc_def)
next
  case (notify_none w es lst)
  have "moves s (set_pc s w (Release es lst)) w (Release es lst)" by (rule moves_set_pc) (use notify_none in auto)
  with notify_none show ?thesis
    by (intro that [of w "Release es lst" s]) (auto simp: worker_step_def same_shared_def set_pc_def)
next
  case (notify_one w es lst w')
  have "moves s (set_pc (set_pc s w' WaitEnter) w (Release es lst)) w (Release es lst)"
    by (rule moves_notify) (use notify_one in auto)
  with notify_one show ?thesis
    by (intro that [of w "Release es lst" s]) (auto simp: worker_step_def same_shared_def set_pc_def)
qed

text \<open>What a step of a worker does to the flow of the nodes: nothing, or one of seven moves.\<close>

inductive effect :: "sched_config \<Rightarrow> sched \<Rightarrow> sched \<Rightarrow> pc \<Rightarrow> pc \<Rightarrow> bool" for c s s0 where
  quiet: "map fst (ready_queue s0) = map fst (ready_queue s) \<Longrightarrow> in_degrees s0 = in_degrees s \<Longrightarrow>
    history s0 = history s \<Longrightarrow> todo (cfg_graph c) q = todo (cfg_graph c) p \<Longrightarrow> holding q = holding p \<Longrightarrow>
    processing q = processing p \<Longrightarrow> set (pc_nodes (cfg_graph c) q) \<subseteq> set (pc_nodes (cfg_graph c) p) \<Longrightarrow>
    effect c s s0 p q"
| take: "ready_queue s = (v, True) # ready_queue s0 \<Longrightarrow> in_degrees s0 = in_degrees s \<Longrightarrow> history s0 = history s \<Longrightarrow>
    effect c s s0 Dequeue (TakeToken v)"
| begin_step: "ready_queue s0 = ready_queue s \<Longrightarrow> in_degrees s0 = in_degrees s \<Longrightarrow>
    history s0 = history s @ [Start v] \<Longrightarrow> effect c s s0 (TakeToken v) (Processing v)"
| ok: "ready_queue s0 = ready_queue s \<Longrightarrow> in_degrees s0 = in_degrees s \<Longrightarrow>
    history s0 = history s @ [Success v] \<Longrightarrow> effect c s s0 (Processing v) (Complete v)"
| fail: "ready_queue s0 = ready_queue s \<Longrightarrow> in_degrees s0 = in_degrees s \<Longrightarrow>
    history s0 = history s @ [Failure v] \<Longrightarrow> effect c s s0 (Processing v) (SetError v)"
| visit: "ready_queue s0 = ready_queue s \<Longrightarrow> in_degrees s0 = (in_degrees s)[e := in_degrees s ! e - 1] \<Longrightarrow>
    history s0 = history s \<Longrightarrow>
    effect c s s0 (Release (e # es) lst) (if in_degrees s ! e = 1 then PushEnq e es lst else Release es lst)"
| enq: "ready_queue s0 = enqueue (bit_ceil (total_nodes c)) (ready_queue s) e \<Longrightarrow> in_degrees s0 = in_degrees s \<Longrightarrow>
    history s0 = history s \<Longrightarrow> effect c s s0 (PushEnq e es lst) (PushPublish e es lst)"

lemma map_fst_publish [simp]: "map fst (publish q v) = map fst q"
  by (simp add: publish_def comp_def case_prod_beta)

lemma worker_step_effect:
  assumes "worker_step c s p s0 q"
  shows "effect c s s0 p q"
proof -
  consider (l) "local_step c s p = Some (s0, q)"
    | (s) v where "p = Processing v" "s0 = s\<lparr>history := history s @ [Success v]\<rparr>" "q = Complete v"
    | (f) v where "p = Processing v" "s0 = s\<lparr>history := history s @ [Failure v]\<rparr>" "q = SetError v"
    | (n) es lst where "p = PushNotify es lst" "s0 = s" "q = Release es lst"
    using assms by (auto simp: worker_step_def)
  then show ?thesis
  proof cases
    case l
    then show ?thesis
      by (cases "(c, s, p)" rule: local_step.cases)
        (auto simp: effect.quiet effect.take effect.begin_step effect.visit effect.enq subset_insertI split: list.splits bool.splits prod.splits)
  next
    case s
    then show ?thesis by (simp add: effect.ok)
  next
    case f
    then show ?thesis by (simp add: effect.fail)
  next
    case n
    then show ?thesis by (simp add: effect.quiet)
  qed
qed

section \<open>The flow invariant\<close>

definition good_graph :: "sched_config \<Rightarrow> bool" where
  "good_graph c \<longleftrightarrow> edges_in_range (cfg_graph c) \<and> sources_have_no_inputs (cfg_graph c)"

lemma succs_produced:
  "good_graph c \<Longrightarrow> u \<in> produced_nodes (cfg_graph c) \<Longrightarrow> set (succs (cfg_graph c) u) \<subseteq> produced_nodes (cfg_graph c)"
  by (auto simp: good_graph_def produced_nodes_def edges_in_range_def sources_have_no_inputs_def)

text \<open>What a step changes of the counts that the invariant talks about.\<close>

definition shifts :: "sched \<Rightarrow> sched \<Rightarrow> pc \<Rightarrow> pc \<Rightarrow> bool" where
  "shifts s s' p q \<longleftrightarrow> (\<forall>f. f Blocked = f WaitEnter \<longrightarrow> over s' f + f p = over s f + f q)"

lemma moves_shifts: "moves s s' w q \<Longrightarrow> shifts s s' (pcs s ! w) q"
  by (auto simp: shifts_def moves_over)

lemma shiftsD: "shifts s s' p q \<Longrightarrow> f Blocked = f WaitEnter \<Longrightarrow> over s' f + f p = over s f + f q"
  by (auto simp: shifts_def)

lemma degrees_step:
  assumes "effect c s s0 p q" "degrees_ok c s" "shifts s s' p q"
    and "in_degrees s' = in_degrees s0" "history s' = history s0"
    and P: "\<And>v. p = Processing v \<Longrightarrow> v \<in> produced_nodes (cfg_graph c) \<and> Success v \<notin> set (history s)"
  shows "degrees_ok c s'"
proof -
  let ?g = "cfg_graph c"
  have T: "over s' (\<lambda>p. count_list (todo ?g p) v) + count_list (todo ?g p) v =
      over s (\<lambda>p. count_list (todo ?g p) v) + count_list (todo ?g q) v" for v
    by (rule shiftsD [OF assms(3)]) simp
  have len: "length (in_degrees s') = total_nodes c"
    using assms(1,2,4) by (auto simp: degrees_ok_def elim: effect.cases)
  have "in_degrees s' ! v = int (open_edges ?g (succeeded s') v + over s' (\<lambda>p. count_list (todo ?g p) v))"
    if v: "v < total_nodes c" for v
  proof -
    have d: "in_degrees s ! v = int (open_edges ?g (succeeded s) v + over s (\<lambda>p. count_list (todo ?g p) v))"
      "length (in_degrees s) = total_nodes c"
      using assms(2) v by (auto simp: degrees_ok_def)
    show ?thesis
      using assms(1)
    proof cases
      case (ok u)
      have "u \<in> produced_nodes ?g" "u \<notin> succeeded s" using P [OF ok(1)] by (auto simp: succeeded_def)
      then have "open_edges ?g (succeeded s) v = count_list (succs ?g u) v + open_edges ?g (insert u (succeeded s)) v"
        by (intro open_edges_insert) (auto simp: produced_nodes_def)
      moreover have "succeeded s' = insert u (succeeded s)"
        using ok assms(5) by (auto simp: succeeded_def)
      ultimately show ?thesis using T [of v] d ok assms(4) by simp
    next
      case (visit e es lst)
      then have "succeeded s' = succeeded s" using assms(5) by (simp add: succeeded_def)
      moreover have "count_list (todo ?g q) v = count_list es v" using visit by simp
      ultimately show ?thesis using T [of v] d visit assms(4) v by (cases "v = e") simp_all
    next
      case quiet
      then have "succeeded s' = succeeded s" using assms(5) by (simp add: succeeded_def)
      then show ?thesis using T [of v] d quiet assms(4) by simp
    next
      case (take u)
      then have "succeeded s' = succeeded s" using assms(5) by (simp add: succeeded_def)
      then show ?thesis using T [of v] d take assms(4) by simp
    next
      case (begin_step u)
      then have "succeeded s' = succeeded s" using assms(5) by (simp add: succeeded_def)
      then show ?thesis using T [of v] d begin_step assms(4) by simp
    next
      case (fail u)
      then have "succeeded s' = succeeded s" using assms(5) by (simp add: succeeded_def)
      then show ?thesis using T [of v] d fail assms(4) by simp
    next
      case (enq e es lst)
      then have "succeeded s' = succeeded s" using assms(5) by (simp add: succeeded_def)
      then show ?thesis using T [of v] d enq assms(4) by simp
    qed
  qed
  with len show ?thesis by (auto simp: degrees_ok_def)
qed

lemma tokens_step:
  assumes "effect c s s0 p q" "tokens_ok c s" "shifts s s' p q" "in_degrees s' = in_degrees s0"
    and "history s' = history s0" "ready_queue s' = ready_queue s0"
    and room: "\<And>e es lst. p = PushEnq e es lst \<Longrightarrow> length (ready_queue s) < bit_ceil (total_nodes c)"
    and V: "\<And>e es lst. p = Release (e # es) lst \<Longrightarrow> e < length (in_degrees s) \<and> 1 \<le> in_degrees s ! e"
  shows "tokens_ok c s'"
  unfolding tokens_ok_def
proof
  fix v assume "v \<in> produced_nodes (cfg_graph c)"
  then have t: "count_list (map fst (ready_queue s)) v + over s (\<lambda>p. count_list (holding p) v) +
      count_list (history s) (Start v) = (if in_degrees s ! v = 0 then 1 else 0)"
    using assms(2) by (auto simp: tokens_ok_def)
  have T: "over s' (\<lambda>p. count_list (holding p) v) + count_list (holding p) v =
      over s (\<lambda>p. count_list (holding p) v) + count_list (holding q) v"
    by (rule shiftsD [OF assms(3)]) simp
  show "count_list (map fst (ready_queue s')) v + over s' (\<lambda>p. count_list (holding p) v) +
      count_list (history s') (Start v) = (if in_degrees s' ! v = 0 then 1 else 0)"
    using assms(1)
  proof cases
    case (visit e es lst)
    then have e: "e < length (in_degrees s)" "1 \<le> in_degrees s ! e" using V by auto
    have *: "in_degrees s' ! v = (if v = e then in_degrees s ! e - 1 else in_degrees s ! v)"
      "ready_queue s' = ready_queue s" "history s' = history s"
      using visit assms(4,5,6) e(1) by (auto simp: nth_list_update)
    show ?thesis
    proof (cases "v = e \<and> in_degrees s ! e = 1")
      case True
      then have "count_list (holding p) v = 0" "count_list (holding q) v = 1" using visit by auto
      then show ?thesis using T t * True by simp
    next
      case False
      then have "count_list (holding p) v = 0" "count_list (holding q) v = 0" using visit by auto
      then show ?thesis using T t * False e(2) by (auto split: if_splits)
    qed
  next
    case (enq e es lst)
    then have "ready_queue s0 = ready_queue s @ [(e, False)]" using room by (simp add: enqueue_def)
    then show ?thesis using T t enq assms(4,5,6) by (simp split: if_splits)
  qed (use T t assms(4,5,6) in \<open>simp_all split: if_splits\<close>)
qed

lemma starts_step:
  assumes "effect c s s0 p q" "starts_ok s" "shifts s s' p q" "history s' = history s0"
  shows "starts_ok s'"
  unfolding starts_ok_def
proof
  fix v
  have t: "count_list (history s) (Start v) = count_list (history s) (Success v) +
      count_list (history s) (Failure v) + over s (\<lambda>p. count_list (processing p) v)"
    using assms(2) by (auto simp: starts_ok_def)
  have T: "over s' (\<lambda>p. count_list (processing p) v) + count_list (processing p) v =
      over s (\<lambda>p. count_list (processing p) v) + count_list (processing q) v"
    by (rule shiftsD [OF assms(3)]) simp
  show "count_list (history s') (Start v) = count_list (history s') (Success v) +
      count_list (history s') (Failure v) + over s' (\<lambda>p. count_list (processing p) v)"
    using assms(1) by cases (use T t assms(4) in \<open>simp_all split: if_splits\<close>)
qed

lemma over_ge: "w < length (pcs s) \<Longrightarrow> f (pcs s ! w) \<le> over s f"
  using elem_le_sum_list [of w "map f (pcs s)"] by (simp add: over_def)

lemma moves_mem: "moves s s' w q \<Longrightarrow> p \<in> set (pcs s') \<Longrightarrow> p = q \<or> p \<in> set (pcs s) \<or> p = WaitEnter"
  unfolding moves_def in_set_conv_nth by (metis length_list_update nth_list_update nth_list_update_neq)

lemma nodes_step:
  assumes "effect c s s0 (pcs s ! w) q" "nodes_known c s" "moves s s' w q" "good_graph c"
    and "history s' = history s0" "ready_queue s' = ready_queue s0"
  shows "nodes_known c s'"
proof -
  let ?P = "produced_nodes (cfg_graph c)"
  have w: "w < length (pcs s)" using moves_len [OF assms(3)] by simp
  then have p: "set (pc_nodes (cfg_graph c) (pcs s ! w)) \<subseteq> ?P" using assms(2) by (auto simp: nodes_known_def)
  have a: "set (map fst (ready_queue s)) \<subseteq> ?P" "\<And>v. Start v \<in> set (history s) \<Longrightarrow> v \<in> ?P"
    using assms(2) by (auto simp: nodes_known_def)
  have "set (pc_nodes (cfg_graph c) q) \<subseteq> ?P \<and> set (map fst (ready_queue s')) \<subseteq> ?P \<and>
      (\<forall>v. Start v \<in> set (history s') \<longrightarrow> v \<in> ?P)"
    using assms(1)
  proof cases
    case (ok v)
    then show ?thesis using p a assms(5,6) succs_produced [OF assms(4), of v] by simp
  next
    case (enq e es lst)
    then show ?thesis using p a assms(5,6) by (auto simp: enqueue_def)
  next
    case (quiet)
    then show ?thesis using p a assms(5,6) by (metis subset_trans)
  qed (use p a assms(5,6) in auto)
  moreover have "set (pc_nodes (cfg_graph c) r) \<subseteq> ?P"
    if "r \<in> set (pcs s')" "set (pc_nodes (cfg_graph c) q) \<subseteq> ?P" for r
    using moves_mem [OF assms(3) that(1)] assms(2) that(2) by (auto simp: nodes_known_def)
  ultimately show ?thesis by (auto simp: nodes_known_def)
qed

lemma inputs_first_snoc:
  assumes "inputs_first c es"
    and "\<And>v u. e = Start v \<Longrightarrow> u \<in> produced_nodes (cfg_graph c) \<Longrightarrow> v \<in> set (succs (cfg_graph c) u) \<Longrightarrow>
      Success u \<in> set es"
  shows "inputs_first c (es @ [e])"
  using assms by (auto simp: inputs_first_def nth_append less_Suc_eq)

lemma tokens_one:
  assumes "tokens_ok c s" "v \<in> produced_nodes (cfg_graph c)"
  shows "count_list (map fst (ready_queue s)) v + over s (\<lambda>p. count_list (holding p) v) +
      count_list (history s) (Start v) \<le> 1"
  using assms by (simp add: tokens_ok_def)

lemma held_ready:
  assumes "tokens_ok c s" "v \<in> produced_nodes (cfg_graph c)" "0 < over s (\<lambda>p. count_list (holding p) v)"
  shows "in_degrees s ! v = 0" "count_list (map fst (ready_queue s)) v = 0"
proof -
  have t: "count_list (map fst (ready_queue s)) v + over s (\<lambda>p. count_list (holding p) v) +
      count_list (history s) (Start v) = (if in_degrees s ! v = 0 then 1 else 0)"
    using assms(1,2) by (simp add: tokens_ok_def)
  show "in_degrees s ! v = 0"
  proof (rule ccontr)
    assume "in_degrees s ! v \<noteq> 0"
    with t have "over s (\<lambda>p. count_list (holding p) v) = 0" by simp
    with assms(3) show False by simp
  qed
  show "count_list (map fst (ready_queue s)) v = 0"
    using tokens_one [OF assms(1,2)] assms(3) by linarith
qed

lemma ready_inputs_done:
  assumes "degrees_ok c s" "v \<in> produced_nodes (cfg_graph c)" "in_degrees s ! v = 0"
    and "u \<in> produced_nodes (cfg_graph c)" "v \<in> set (succs (cfg_graph c) u)"
  shows "Success u \<in> set (history s)"
proof -
  have "open_edges (cfg_graph c) (succeeded s) v = 0"
    using assms(1,2,3) by (auto simp: degrees_ok_def total_nodes_def produced_nodes_def)
  with assms(4,5) show ?thesis by (auto simp: open_edges_zero produced_nodes_def succeeded_def)
qed

text \<open>The queue holds each node at most once, so \<open>enqueue\<close> never drops a task: the capacity is the
  number of nodes, rounded up.\<close>

lemma distinct_count: "(\<And>x. count_list xs x \<le> 1) \<Longrightarrow> distinct xs"
proof (induction xs)
  case (Cons a xs)
  have "count_list xs x \<le> 1" for x using Cons.prems [of x] by (auto split: if_splits)
  moreover have "count_list xs a = 0" using Cons.prems [of a] by simp
  ultimately show ?case using Cons.IH by (simp add: count_list_0_iff)
qed simp

lemma le_bit_ceil: "n \<le> bit_ceil n"
  by (rule bit_ceil_ge)

lemma queue_has_room:
  assumes "tokens_ok c s" "nodes_known c s" "w < length (pcs s)" "pcs s ! w = PushEnq e es lst"
  shows "length (ready_queue s) < bit_ceil (total_nodes c)"
proof -
  let ?P = "produced_nodes (cfg_graph c)" and ?q = "map fst (ready_queue s)"
  have "set (pc_nodes (cfg_graph c) (pcs s ! w)) \<subseteq> ?P" using assms(2,3) by (simp add: nodes_known_def)
  then have e: "e \<in> ?P" using assms(4) by simp
  have "count_list ?q x \<le> 1" for x
  proof (cases "x \<in> ?P")
    case True
    then show ?thesis using tokens_one [OF assms(1)] by (metis add_leD1)
  next
    case False
    then have "x \<notin> set ?q" using assms(2) by (auto simp: nodes_known_def)
    then show ?thesis by (simp add: count_list_0_iff)
  qed
  then have d: "distinct ?q" by (rule distinct_count)
  have "0 < over s (\<lambda>p. count_list (holding p) e)"
    using over_ge [OF assms(3), of "\<lambda>p. count_list (holding p) e"] assms(4) by simp
  then have "e \<notin> set ?q" using held_ready(2) [OF assms(1) e] by (simp add: count_list_0_iff)
  then have "set ?q \<subseteq> ?P - {e}" using assms(2) by (auto simp: nodes_known_def)
  moreover have "?P - {e} \<subseteq> {..<total_nodes c} - {e}" by (auto simp: produced_nodes_def total_nodes_def)
  ultimately have "card (set ?q) \<le> card ({..<total_nodes c} - {e})" by (intro card_mono) auto
  moreover have "e < total_nodes c" using e by (simp add: produced_nodes_def total_nodes_def)
  ultimately have "length ?q < total_nodes c" using distinct_card [OF d] by simp
  then show ?thesis using le_bit_ceil [of "total_nodes c"] by simp
qed

lemma flow_step:
  assumes "good_graph c" "flow_inv c s" "moves s s' w q" "effect c s s0 (pcs s ! w) q" "same_shared s' s0"
  shows "flow_inv c s'"
proof -
  let ?P = "produced_nodes (cfg_graph c)"
  have inv: "degrees_ok c s" "tokens_ok c s" "starts_ok s" "nodes_known c s" "inputs_first c (history s)"
    using assms(2) by (auto simp: flow_inv_def)
  have w: "w < length (pcs s)" using moves_len [OF assms(3)] by simp
  have same: "ready_queue s' = ready_queue s0" "in_degrees s' = in_degrees s0" "history s' = history s0"
    using assms(5) by (auto simp: same_shared_def)
  have sh: "shifts s s' (pcs s ! w) q" by (rule moves_shifts [OF assms(3)])
  have known: "set (pc_nodes (cfg_graph c) (pcs s ! w)) \<subseteq> ?P" using inv(4) w by (auto simp: nodes_known_def)
  have once: "v \<in> ?P \<and> Success v \<notin> set (history s)" if "pcs s ! w = Processing v" for v
  proof -
    have v: "v \<in> ?P" using known that by simp
    have "count_list (history s) (Start v) \<le> 1" using tokens_one [OF inv(2) v] by linarith
    moreover have "1 \<le> over s (\<lambda>p. count_list (processing p) v)"
      using over_ge [OF w, of "\<lambda>p. count_list (processing p) v"] that by simp
    moreover have "count_list (history s) (Start v) = count_list (history s) (Success v) +
        count_list (history s) (Failure v) + over s (\<lambda>p. count_list (processing p) v)"
      using inv(3) by (simp add: starts_ok_def)
    ultimately have "count_list (history s) (Success v) = 0" by linarith
    then show ?thesis using v by (simp add: count_list_0_iff)
  qed
  have "degrees_ok c s'" by (rule degrees_step [OF assms(4) inv(1) sh same(2,3) once])
  moreover have "tokens_ok c s'"
  proof (rule tokens_step [OF assms(4) inv(2) sh same(2,3,1)])
    show "length (ready_queue s) < bit_ceil (total_nodes c)" if "pcs s ! w = PushEnq e es lst" for e es lst
      by (rule queue_has_room [OF inv(2,4) w that])
    show "e < length (in_degrees s) \<and> 1 \<le> in_degrees s ! e" if "pcs s ! w = Release (e # es) lst" for e es lst
    proof -
      have e: "e < total_nodes c" using known that by (auto simp: produced_nodes_def total_nodes_def)
      have "1 \<le> over s (\<lambda>p. count_list (todo (cfg_graph c) p) e)"
        using over_ge [OF w, of "\<lambda>p. count_list (todo (cfg_graph c) p) e"] that by simp
      then show ?thesis using inv(1) e by (auto simp: degrees_ok_def)
    qed
  qed
  moreover have "starts_ok s'" by (rule starts_step [OF assms(4) inv(3) sh same(3)])
  moreover have "nodes_known c s'" by (rule nodes_step [OF assms(4) inv(4) assms(3,1) same(3,1)])
  moreover have "inputs_first c (history s')"
    using assms(4)
  proof cases
    case (begin_step v)
    have "v \<in> ?P" using known begin_step by simp
    moreover have "0 < over s (\<lambda>p. count_list (holding p) v)"
      using over_ge [OF w, of "\<lambda>p. count_list (holding p) v"] begin_step by simp
    ultimately have "in_degrees s ! v = 0" "v \<in> ?P" using held_ready(1) [OF inv(2)] by auto
    then show ?thesis
      using begin_step same(3) ready_inputs_done [OF inv(1)] by (auto intro!: inputs_first_snoc [OF inv(5)])
  qed (use same(3) inv(5) in \<open>auto intro!: inputs_first_snoc\<close>)
  ultimately show ?thesis by (simp add: flow_inv_def)
qed

lemma over_replicate: "over (s\<lparr>pcs := replicate n p\<rparr>) f = n * f p"
  by (simp add: over_def sum_list_replicate)

lemma initially_ready_set:
  "set (initially_ready g) = {v \<in> produced_nodes g. temp_in_degrees g ! v = 0}" "distinct (initially_ready g)"
  by (auto simp: initially_ready_def produced_nodes_def)

lemma count_distinct: "distinct xs \<Longrightarrow> count_list xs v = (if v \<in> set xs then 1 else 0)"
  by (induction xs) auto

lemma count_list_perm: "mset xs = mset ys \<Longrightarrow> count_list xs v = count_list ys v"
  by (metis count_mset)

lemma length_temp_in_degrees: "length (temp_in_degrees g) = length (nodes_m g)"
  using temp_in_degrees_count(2) [of 0 g] by (cases "nodes_m g") (auto simp: temp_in_degrees_def)

lemma sched_init_sel [simp]:
  "ready_queue (sched_init c order n) = map (\<lambda>v. (v, True)) order"
  "tasks_available (sched_init c order n) = of_nat (length order)"
  "sleeping_threads (sched_init c order n) = 0"
  "completed_count (sched_init c order n) = source_nodes (cfg_graph c)"
  "error_occurred (sched_init c order n) = False"
  "in_degrees (sched_init c order n) = temp_in_degrees (cfg_graph c)"
  "pcs (sched_init c order n) = replicate n Dequeue"
  "history (sched_init c order n) = []"
  by (simp_all add: sched_init_def)

lemma over_init: "over (sched_init c order n) f = n * f Dequeue"
  by (simp add: over_def sum_list_replicate)

lemma flow_init:
  assumes "mset order = mset (initially_ready (cfg_graph c))"
  shows "flow_inv c (sched_init c order n)"
proof -
  let ?s = "sched_init c order n" and ?g = "cfg_graph c"
  have o: "set order = set (initially_ready ?g)" using assms by (rule mset_eq_setD)
  have one: "count_list order v = (if v \<in> set order then 1 else 0)" for v
    using count_list_perm [OF assms, of v] count_distinct [OF initially_ready_set(2)] o by simp
  have "degrees_ok c ?s"
    by (simp add: degrees_ok_def over_init total_nodes_def length_temp_in_degrees temp_in_degrees_count succeeded_def)
  moreover have "tokens_ok c ?s"
    by (auto simp: tokens_ok_def over_init one o initially_ready_set comp_def)
  moreover have "starts_ok ?s" by (simp add: starts_ok_def over_init)
  moreover have "nodes_known c ?s" using o by (auto simp: nodes_known_def initially_ready_set)
  moreover have "inputs_first c (history ?s)" by (simp add: inputs_first_def)
  ultimately show ?thesis by (simp add: flow_inv_def)
qed

theorem flow_reachable:
  assumes "sched_reachable c s" "good_graph c"
  shows "flow_inv c s"
  using assms(1)
proof (induction rule: sched_reachable.induct)
  case (start order workers)
  then show ?case by (simp add: flow_init)
next
  case (step s s')
  obtain w q s0 where "moves s s' w q" "worker_step c s (pcs s ! w) s0 q" "same_shared s' s0"
    using step.hyps(2) by (rule sched_step_worker)
  then show ?case using flow_step [OF assms(2) step.IH] worker_step_effect by blast
qed

end
