(* ===== verification/Schedule_Runs.thy ===== *)
theory Schedule_Runs
  imports Scheduler TopoSort
begin

text \<open>
  Runs of the scheduler as data: a list of choices (which worker moves, how its process ends, whom
  it notifies) is executed step by step, and every state a run ends in is reachable. Used to state
  and to check concrete interleavings.
\<close>

datatype choice = Go nat | Succeed nat | Fail nat | Notify nat nat | NotifyNone nat

fun run_choice :: "sched_config \<Rightarrow> sched \<Rightarrow> choice \<Rightarrow> sched option" where
  "run_choice c s (Go w) =
     (if w < length (pcs s) then
        (case local_step c s (pcs s ! w) of None \<Rightarrow> None | Some (s', p) \<Rightarrow> Some (set_pc s' w p))
      else None)"
| "run_choice c s (Succeed w) =
     (if w < length (pcs s) then
        (case pcs s ! w of
           Processing v \<Rightarrow> Some (set_pc (s\<lparr>history := history s @ [Success v]\<rparr>) w (Complete v))
         | _ \<Rightarrow> None)
      else None)"
| "run_choice c s (Fail w) =
     (if w < length (pcs s) then
        (case pcs s ! w of
           Processing v \<Rightarrow> Some (set_pc (s\<lparr>history := history s @ [Failure v]\<rparr>) w (SetError v))
         | _ \<Rightarrow> None)
      else None)"
| "run_choice c s (Notify w w') =
     (if w < length (pcs s) \<and> w' < length (pcs s) \<and> pcs s ! w' = Blocked then
        (case pcs s ! w of
           PushNotify es lst \<Rightarrow> Some (set_pc (set_pc s w' WaitEnter) w (Release es lst))
         | _ \<Rightarrow> None)
      else None)"
| "run_choice c s (NotifyNone w) =
     (if w < length (pcs s) \<and> Blocked \<notin> set (pcs s) then
        (case pcs s ! w of
           PushNotify es lst \<Rightarrow> Some (set_pc s w (Release es lst))
         | _ \<Rightarrow> None)
      else None)"

lemma run_choice_step:
  assumes "run_choice c s ch = Some s'"
  shows "sched_step c s s'"
  using assms
  by (cases ch) (auto split: if_splits option.splits pc.splits intro: sched_step.intros)

definition run :: "sched_config \<Rightarrow> sched \<Rightarrow> choice list \<Rightarrow> sched option" where
  "run c = foldM (run_choice c)"

lemma run_reachable: "run c s chs = Some s' \<Longrightarrow> sched_reachable c s \<Longrightarrow> sched_reachable c s'"
proof (induction chs arbitrary: s)
  case (Cons ch chs)
  then obtain s1 where "run_choice c s ch = Some s1" "run c s1 chs = Some s'"
    by (auto simp: run_def split: option.splits bind_splits)
  then show ?case using Cons.IH Cons.prems(2) run_choice_step sched_reachable.step by metis
qed (simp add: run_def)

text \<open>Two steps in a row: \<open>b\<close> is made from the source \<open>a\<close>, and \<open>c\<close> from \<open>b\<close>.\<close>

definition two_steps :: build_graph where
  "two_steps = (empty_graph 4)\<lparr>nodes_m :=
     [\<lparr>path = ''a'', out_edges = el_borrow [1], step_id = None\<rparr>,
      \<lparr>path = ''b'', out_edges = el_borrow [2], step_id = Some 0\<rparr>,
      \<lparr>path = ''c'', out_edges = el_borrow [], step_id = Some 1\<rparr>]\<rparr>"

definition config_of :: "bool \<Rightarrow> nat \<Rightarrow> sched_config" where
  "config_of keep threads = \<lparr>cfg_graph = two_steps, cfg_keep_going = keep, cfg_threads = threads\<rparr>"

lemma config_of_sel [simp]:
  "cfg_graph (config_of keep n) = two_steps" "cfg_keep_going (config_of keep n) = keep"
  "cfg_threads (config_of keep n) = n" "total_nodes (config_of keep n) = 3"
  by (simp_all add: config_of_def total_nodes_def two_steps_def empty_graph_def)

lemma two_steps_start: "initially_ready two_steps = [1]" "source_nodes two_steps = 1"
  by code_simp+

definition start_state :: "bool \<Rightarrow> nat \<Rightarrow> sched" where
  "start_state keep n = sched_init (config_of keep n) [1] n"

lemma start_reachable: "0 < n \<Longrightarrow> sched_reachable (config_of keep n) (start_state keep n)"
  unfolding start_state_def by (rule sched_reachable.start) (auto simp: two_steps_start)

lemma two_steps_good: "good_graph (config_of keep n)"
  by (auto simp: good_graph_def two_steps_def edges_in_range_def sources_have_no_inputs_def succs_def
      produced_def empty_graph_def less_Suc_eq numeral_3_eq_3)

lemma two_steps_acyclic: "acyclic (edge_rel two_steps)"
proof (rule acyclicI_order [where f = "\<lambda>v. - int v"])
  show "(u, v) \<in> edge_rel two_steps \<Longrightarrow> - int v < - int u" for u v
    by (auto simp: edge_rel_def two_steps_def succs_def empty_graph_def less_Suc_eq numeral_3_eq_3)
qed

text \<open>A worker that takes a task and succeeds, up to the loop over the out-edges.\<close>

definition one_worker :: "choice list" where
  "one_worker =
     [Go 0, Go 0, Succeed 0, Go 0, Go 0, Go 0, Go 0, Go 0, NotifyNone 0, Go 0,
      Go 0, Go 0, Succeed 0, Go 0, Go 0, Go 0, Go 0, Go 0, Go 0]"

text \<open>Going to sleep takes eight moves.\<close>

definition sleep_moves :: "nat \<Rightarrow> choice list" where
  "sleep_moves w = replicate 8 (Go w)"

text \<open>Worker 2 sleeps; worker 0 publishes \<open>c\<close> and is delayed before its \<open>fetch_add\<close>, while worker 1
  takes \<open>c\<close>, finishes the build and stores the maximum.\<close>

definition lost_wakeup :: "choice list" where
  "lost_wakeup =
     [Go 0, Go 0] @ sleep_moves 2 @
     [Succeed 0, Go 0, Go 0, Go 0, Go 0] @
     [Go 1, Go 1, Succeed 1, Go 1, Go 1, Go 1] @
     [Go 0, Notify 0 2, Go 0, Go 1, Go 1, Go 1] @ [Go 2, Go 0, Go 0]"

text \<open>Worker 1 sleeps; worker 0 fails a step on which another one depends, under \<open>--keep-going\<close>.\<close>

definition keep_going_failure :: "choice list" where
  "keep_going_failure =
     [Go 0, Go 0] @ sleep_moves 1 @ [Fail 0, Go 0, Go 0, Go 0, Go 0, Go 0]"

text \<open>Nobody will ever wake the blocked workers.\<close>

definition hung :: "sched \<Rightarrow> bool" where
  "hung s \<longleftrightarrow> tasks_available s = 0 \<and> list_ex (\<lambda>p. p = Blocked \<or> p = WaitEnter) (pcs s) \<and>
     list_all (\<lambda>p. p = Blocked \<or> p = WaitEnter \<or> p = Exited) (pcs s)"

lemma two_steps_edges:
  "produced two_steps 1" "produced two_steps 2" "succs two_steps 1 = [2]" "succs two_steps 2 = []"
  by (simp_all add: two_steps_def produced_def succs_def empty_graph_def)

definition finished_state :: sched where
  "finished_state = the (run (config_of False 1) (start_state False 1) one_worker)"

definition pushing_state :: sched where
  "pushing_state = the (run (config_of False 1) (start_state False 1) (take 5 one_worker))"

lemma finished_history:
  "history finished_state = [Start 1, Success 1, Start 2, Success 2]" "pcs finished_state = [Exited]"
  by code_simp+

lemma pushing_values:
  "pcs pushing_state = [PushEnq 2 [] False]" "ready_queue pushing_state = []"
  "history pushing_state = [Start 1, Success 1]"
  by code_simp+

lemma run_the:
  assumes "0 < n" "returns (run (config_of keep n) (start_state keep n) chs) (\<lambda>_. True)"
  shows "sched_reachable (config_of keep n) (the (run (config_of keep n) (start_state keep n) chs))"
  using assms by (auto simp: returns_def intro: run_reachable [OF _ start_reachable])

lemma finished_reachable: "sched_reachable (config_of False 1) finished_state"
proof -
  have "returns (run (config_of False 1) (start_state False 1) one_worker) (\<lambda>_. True)" by code_simp
  then show ?thesis unfolding finished_state_def by (intro run_the) simp_all
qed

lemma pushing_reachable: "sched_reachable (config_of False 1) pushing_state"
proof -
  have "returns (run (config_of False 1) (start_state False 1) (take 5 one_worker)) (\<lambda>_. True)" by code_simp
  then show ?thesis unfolding pushing_state_def by (intro run_the) simp_all
qed

end
