(* ===== verification/Schedule_Results.thy ===== *)
theory Schedule_Results
  imports Schedule_Runs
begin

text \<open>
  What the scheduler promises, for every interleaving of the workers: each step runs at most once
  and after its inputs; unless a step fails, the emergency branch for stalls is never taken, some
  worker can always go on while steps are left, and workers leave only when all steps have
  succeeded. The theory adds the control invariant (who is awake, who sleeps, what was counted) to
  the flow invariant of \<open>Scheduler\<close>, and ends with two runs that block for ever.
\<close>

section \<open>Awake and sleeping workers\<close>

fun productive :: "pc \<Rightarrow> bool" where
  "productive CheckDone1 = False"
| "productive CheckError1 = False"
| "productive LoadTokens = False"
| "productive CheckDone2 = False"
| "productive CheckError2 = False"
| "productive GoSleep = False"
| "productive StallCheck = False"
| "productive StallStore = False"
| "productive StallNotify = False"
| "productive StallLeave = False"
| "productive WaitEnter = False"
| "productive Blocked = False"
| "productive Wake = False"
| "productive Exited = False"
| "productive _ = True"

definition awake :: "pc \<Rightarrow> bool" where
  "awake p \<longleftrightarrow> productive p \<or> p = CheckDone1 \<or> p = Exited"

fun stalling :: "pc \<Rightarrow> bool" where
  "stalling StallCheck = True"
| "stalling StallStore = True"
| "stalling StallNotify = True"
| "stalling StallLeave = True"
| "stalling _ = False"

fun sleepy :: "pc \<Rightarrow> bool" where
  "sleepy WaitEnter = True"
| "sleepy Blocked = True"
| "sleepy Wake = True"
| "sleepy p = stalling p"

fun stopping :: "pc \<Rightarrow> bool" where
  "stopping StopCompleted = True"
| "stopping StopTokens = True"
| "stopping StopNotify = True"
| "stopping _ = False"

text \<open>Workers whose step has ended but is not yet counted in \<open>completed_count\<close>.\<close>

fun uncounted :: "pc \<Rightarrow> nat" where
  "uncounted (Complete v) = 1"
| "uncounted (SetError v) = 1"
| "uncounted FailCount = 1"
| "uncounted _ = 0"

fun ends :: "event \<Rightarrow> bool" where
  "ends (Start v) = False"
| "ends _ = True"

definition ended :: "event list \<Rightarrow> nat" where
  "ended es = length (filter ends es)"

lemma ended_simps [simp]: "ended [] = 0" "ended (es @ [e]) = ended es + (if ends e then 1 else 0)"
  by (simp_all add: ended_def)

definition failed :: "sched \<Rightarrow> bool" where
  "failed s \<longleftrightarrow> (\<exists>v. Failure v \<in> set (history s))"

section \<open>One step\<close>

lemma publish_mem: "(v, False) \<in> set (publish r e) \<longleftrightarrow> (v, False) \<in> set r \<and> v \<noteq> e"
  by (induction r) (auto simp: publish_def)

lemma worker_step_cases [consumes 1, case_names loc succ fail notify]:
  assumes "worker_step c s p s0 q"
  obtains (loc) "local_step c s p = Some (s0, q)"
  | (succ) v where "p = Processing v" "s0 = s\<lparr>history := history s @ [Success v]\<rparr>" "q = Complete v"
  | (fail) v where "p = Processing v" "s0 = s\<lparr>history := history s @ [Failure v]\<rparr>" "q = SetError v"
  | (notify) es lst where "p = PushNotify es lst" "s0 = s" "q = Release es lst"
  using assms by (auto simp: worker_step_def)

lemma productive_step:
  assumes "worker_step c s p s0 q" "productive p"
  shows "productive q \<or> p = Dequeue \<and> q = CheckDone1 \<and> s0 = s \<and> (\<forall>v r. ready_queue s \<noteq> (v, True) # r)"
  using assms(1)
proof (cases rule: worker_step_cases)
  case loc
  then show ?thesis
    using assms(2-)
    by (cases "(c, s, p)" rule: local_step.cases) (auto split: list.splits bool.splits prod.splits if_splits)
qed (use assms(2-) in \<open>auto\<close>)

lemma unpublished_step:
  assumes "worker_step c s p s0 q" "(v, False) \<in> set (ready_queue s0)"
  shows "(v, False) \<in> set (ready_queue s) \<and> (\<forall>es lst. p \<noteq> PushPublish v es lst) \<or> (\<exists>es lst. q = PushPublish v es lst)"
  using assms(1)
proof (cases rule: worker_step_cases)
  case loc
  then show ?thesis
    using assms(2-)
    by (cases "(c, s, p)" rule: local_step.cases) (auto simp: publish_mem enqueue_def split: list.splits bool.splits prod.splits if_splits)
qed (use assms(2-) in \<open>auto\<close>)

lemma queue_step:
  assumes "worker_step c s p s0 q" "ready_queue s0 \<noteq> []" "ready_queue s = []"
  shows "productive q"
  using assms(1)
proof (cases rule: worker_step_cases)
  case loc
  then show ?thesis
    using assms(2-)
    by (cases "(c, s, p)" rule: local_step.cases) (auto simp: publish_def split: list.splits bool.splits prod.splits if_splits)
qed (use assms(2-) in \<open>auto\<close>)

lemma completed_step:
  assumes "worker_step c s p s0 q" "completed_count s0 \<noteq> completed_count s"
  shows "productive q"
  using assms(1)
proof (cases rule: worker_step_cases)
  case loc
  then show ?thesis
    using assms(2-)
    by (cases "(c, s, p)" rule: local_step.cases) (auto split: list.splits bool.splits prod.splits if_splits)
qed (use assms(2-) in \<open>auto\<close>)

lemma awake_step:
  assumes "worker_step c s p s0 q" "awake p" "completed_count s = total_nodes c"
  shows "awake q"
  using assms productive_step [OF assms(1)] by (auto simp: awake_def worker_step_def)

lemma sleeping_step:
  assumes "worker_step c s p s0 q" "of_bool (sleepy p) \<le> sleeping_threads s"
  shows "sleeping_threads s0 + of_bool (sleepy p) = sleeping_threads s + of_bool (sleepy q)"
  using assms(1)
proof (cases rule: worker_step_cases)
  case loc
  then show ?thesis
    using assms(2-)
    by (cases "(c, s, p)" rule: local_step.cases) (auto split: list.splits bool.splits prod.splits if_splits)
qed (use assms(2-) in \<open>auto\<close>)

lemma error_step:
  assumes "worker_step c s p s0 q"
  shows "error_occurred s0 \<longleftrightarrow> error_occurred s \<or> (\<exists>v. p = SetError v)"
    "Failure v \<in> set (history s0) \<longleftrightarrow> Failure v \<in> set (history s) \<or> q = SetError v"
proof -
  have "(error_occurred s0 \<longleftrightarrow> error_occurred s \<or> (\<exists>v. p = SetError v)) \<and>
      (Failure v \<in> set (history s0) \<longleftrightarrow> Failure v \<in> set (history s) \<or> q = SetError v)"
    using assms
  proof (cases rule: worker_step_cases)
    case loc
    then show ?thesis
      by (cases "(c, s, p)" rule: local_step.cases) (auto split: list.splits bool.splits prod.splits if_splits)
  qed auto
  then show "error_occurred s0 \<longleftrightarrow> error_occurred s \<or> (\<exists>v. p = SetError v)"
    "Failure v \<in> set (history s0) \<longleftrightarrow> Failure v \<in> set (history s) \<or> q = SetError v" by simp_all
qed

lemma stopping_step:
  assumes "worker_step c s p s0 q" "stopping q"
  shows "stopping p \<or> \<not> cfg_keep_going c \<and> (\<exists>v. p = SetError v)"
  using assms(1)
proof (cases rule: worker_step_cases)
  case loc
  then show ?thesis
    using assms(2-)
    by (cases "(c, s, p)" rule: local_step.cases) (auto split: list.splits bool.splits prod.splits if_splits)
qed (use assms(2-) in \<open>auto\<close>)

lemma ended_step:
  assumes "worker_step c s p s0 q" "\<not> stopping p" "\<not> stopping q"
  shows "completed_count s0 + uncounted q + ended (history s) = completed_count s + uncounted p + ended (history s0)"
  using assms(1)
proof (cases rule: worker_step_cases)
  case loc
  then show ?thesis
    using assms(2-)
    by (cases "(c, s, p)" rule: local_step.cases) (auto split: list.splits bool.splits prod.splits if_splits)
qed (use assms(2-) in \<open>auto\<close>)

section \<open>The control invariant\<close>

definition awake_inv :: "sched_config \<Rightarrow> sched \<Rightarrow> bool" where
  "awake_inv c s \<longleftrightarrow>
     (\<forall>v. (v, False) \<in> set (ready_queue s) \<longrightarrow> (\<exists>es lst. PushPublish v es lst \<in> set (pcs s))) \<and>
     (ready_queue s \<noteq> [] \<longrightarrow> (\<exists>p \<in> set (pcs s). productive p)) \<and>
     (completed_count s = total_nodes c \<longrightarrow> pcs s \<noteq> [] \<longrightarrow> (\<exists>p \<in> set (pcs s). awake p)) \<and>
     sleeping_threads s = over s (\<lambda>p. of_bool (sleepy p)) \<and>
     length (pcs s) \<le> cfg_threads c"

definition error_inv :: "sched_config \<Rightarrow> sched \<Rightarrow> bool" where
  "error_inv c s \<longleftrightarrow> (error_occurred s \<longrightarrow> failed s) \<and>
     (failed s \<longrightarrow> error_occurred s \<or> (\<exists>v. SetError v \<in> set (pcs s))) \<and>
     (\<forall>v. SetError v \<in> set (pcs s) \<longrightarrow> failed s) \<and>
     (\<forall>p \<in> set (pcs s). stopping p \<longrightarrow> failed s \<and> \<not> cfg_keep_going c)"

definition count_inv :: "sched_config \<Rightarrow> sched \<Rightarrow> bool" where
  "count_inv c s \<longleftrightarrow> (\<not> failed s \<or> cfg_keep_going c \<longrightarrow>
     completed_count s + over s uncounted = source_nodes (cfg_graph c) + ended (history s))"

lemma moves_new: "moves s s' w q \<Longrightarrow> q \<in> set (pcs s')"
  by (metis moves_len nth_mem)

lemma moves_stays:
  assumes "moves s s' w q" "p \<in> set (pcs s)" "p \<noteq> Blocked" "p \<noteq> pcs s ! w"
  shows "p \<in> set (pcs s')"
proof -
  obtain i where i: "i < length (pcs s)" "pcs s ! i = p" using assms(2) by (auto simp: in_set_conv_nth)
  then have "i \<noteq> w" using assms(4) by auto
  with moves_other [OF assms(1) i(1)] i assms(3) have "pcs s' ! i = p" by auto
  then show ?thesis using moves_len [OF assms(1)] i(1) by (metis nth_mem)
qed

lemma moves_exists:
  assumes "moves s s' w q" "p \<in> set (pcs s)" "P p" "\<not> P Blocked" "P (pcs s ! w) \<Longrightarrow> P q"
  shows "\<exists>p \<in> set (pcs s'). P p"
proof (cases "p = pcs s ! w")
  case True
  then show ?thesis using assms(3,5) moves_new [OF assms(1)] by blast
next
  case False
  then show ?thesis using moves_stays [OF assms(1,2)] assms(3,4) by blast
qed

lemma awake_inv_step:
  assumes "awake_inv c s" "moves s s' w q" "worker_step c s (pcs s ! w) s0 q" "same_shared s' s0"
  shows "awake_inv c s'"
proof -
  let ?p = "pcs s ! w"
  note st = assms(3)
  have same: "ready_queue s' = ready_queue s0" "completed_count s' = completed_count s0"
    "sleeping_threads s' = sleeping_threads s0"
    using assms(4) by (auto simp: same_shared_def)
  have w: "w < length (pcs s)" "length (pcs s') = length (pcs s)" using moves_len [OF assms(2)] by auto
  have inv: "(v, False) \<in> set (ready_queue s) \<Longrightarrow> \<exists>es lst. PushPublish v es lst \<in> set (pcs s)"
    "ready_queue s \<noteq> [] \<Longrightarrow> \<exists>p \<in> set (pcs s). productive p"
    "completed_count s = total_nodes c \<Longrightarrow> \<exists>p \<in> set (pcs s). awake p"
    "sleeping_threads s = over s (\<lambda>p. of_bool (sleepy p))" "length (pcs s) \<le> cfg_threads c" for v
    using assms(1) w by (auto simp: awake_inv_def)
  have pub: "\<exists>es lst. PushPublish v es lst \<in> set (pcs s')" if v: "(v, False) \<in> set (ready_queue s')" for v
    using unpublished_step [OF st v [unfolded same]]
  proof
    assume v: "(v, False) \<in> set (ready_queue s) \<and> (\<forall>es lst. ?p \<noteq> PushPublish v es lst)"
    then obtain es lst where "PushPublish v es lst \<in> set (pcs s)" using inv(1) by blast
    then have "PushPublish v es lst \<in> set (pcs s')" using v by (intro moves_stays [OF assms(2)]) (simp_all, metis)
    then show ?thesis by blast
  qed (use moves_new [OF assms(2)] in blast)
  have prod: "\<exists>p \<in> set (pcs s'). productive p" if q: "ready_queue s' \<noteq> []"
  proof (cases "ready_queue s = []")
    case True
    then show ?thesis using queue_step [OF st q [unfolded same]] moves_new [OF assms(2)] by blast
  next
    case False
    then obtain p where p: "p \<in> set (pcs s)" "productive p" using inv(2) by blast
    show ?thesis
    proof (cases "productive ?p \<longrightarrow> productive q")
      case True
      then show ?thesis using moves_exists [where P = productive, OF assms(2) p] by auto
    next
      case no: False
      with productive_step [OF st] have head: "s0 = s" "\<forall>v r. ready_queue s \<noteq> (v, True) # r" "?p = Dequeue" by auto
      then obtain v r where "ready_queue s = (v, False) # r"
        using False by (metis (full_types) list.exhaust surj_pair)
      then have "(v, False) \<in> set (ready_queue s')" using same head by simp
      then obtain es lst where "PushPublish v es lst \<in> set (pcs s')" using pub by blast
      then show ?thesis by (intro bexI) auto
    qed
  qed
  have aw: "\<exists>p \<in> set (pcs s'). awake p" if q: "completed_count s' = total_nodes c"
  proof (cases "completed_count s = completed_count s0")
    case True
    then have t: "completed_count s = total_nodes c" using q same by simp
    then obtain p where "p \<in> set (pcs s)" "awake p" using inv(3) by blast
    then show ?thesis 
      using moves_exists [where P = awake, OF assms(2)] awake_step [OF st _ t] by (auto simp: awake_def)
  next
    case False
    then have "awake q" using completed_step [OF st] by (auto simp: awake_def)
    then show ?thesis using moves_new [OF assms(2)] by blast
  qed
  have "of_bool (sleepy ?p) \<le> sleeping_threads s"
    using over_ge [OF w(1), of "\<lambda>p. of_bool (sleepy p)"] inv(4) by simp
  from sleeping_step [OF st this] have "sleeping_threads s' = over s' (\<lambda>p. of_bool (sleepy p))"
    using shiftsD [OF moves_shifts [OF assms(2)], of "\<lambda>p. of_bool (sleepy p)"] inv(4) same by simp
  then show ?thesis using pub prod aw inv(5) w(2) by (auto simp: awake_inv_def)
qed

lemma error_inv_step:
  assumes "error_inv c s" "moves s s' w q" "worker_step c s (pcs s ! w) s0 q" "same_shared s' s0"
  shows "error_inv c s'"
proof -
  let ?p = "pcs s ! w"
  note st = assms(3)
  have w: "?p \<in> set (pcs s)" using moves_len [OF assms(2)] by simp
  have same: "error_occurred s' = error_occurred s0" "history s' = history s0"
    using assms(4) by (auto simp: same_shared_def)
  have f: "failed s' \<longleftrightarrow> failed s \<or> (\<exists>v. q = SetError v)"
    using error_step(2) [OF st] same by (auto simp: failed_def)
  have e: "error_occurred s' \<longleftrightarrow> error_occurred s \<or> (\<exists>v. ?p = SetError v)"
    using error_step(1) [OF st] same by simp
  have inv: "error_occurred s \<Longrightarrow> failed s" "SetError v \<in> set (pcs s) \<Longrightarrow> failed s"
    "failed s \<Longrightarrow> error_occurred s \<or> (\<exists>v. SetError v \<in> set (pcs s))"
    "p \<in> set (pcs s) \<Longrightarrow> stopping p \<Longrightarrow> failed s \<and> \<not> cfg_keep_going c" for v p
    using assms(1) by (auto simp: error_inv_def)
  have 1: "error_occurred s' \<longrightarrow> failed s'" using e f inv(1,2) w by metis
  have 2: "failed s' \<longrightarrow> error_occurred s' \<or> (\<exists>v. SetError v \<in> set (pcs s'))"
  proof
    assume "failed s'"
    then consider "\<exists>v. q = SetError v" | "error_occurred s" | v where "SetError v \<in> set (pcs s)"
      using f inv(3) by blast
    then show "error_occurred s' \<or> (\<exists>v. SetError v \<in> set (pcs s'))"
    proof cases
      case (3 v)
      then show ?thesis using moves_stays [OF assms(2) 3] e by (cases "SetError v = ?p") (metis, blast)
    qed (use e moves_new [OF assms(2)] in blast)+
  qed
  have 3: "failed s'" if "SetError v \<in> set (pcs s')" for v
    using moves_mem [OF assms(2) that] f inv(2) by auto
  have 4: "failed s' \<and> \<not> cfg_keep_going c" if p: "p \<in> set (pcs s')" "stopping p" for p
    using moves_mem [OF assms(2) p(1)]
  proof (elim disjE)
    assume "p = q"
    then show ?thesis using stopping_step [OF st] p(2) inv(2,4) w f by metis
  qed (use p(2) inv(4) f in auto)
  show ?thesis using 1 2 3 4 by (auto simp: error_inv_def)
qed

lemma count_inv_step:
  assumes "count_inv c s" "error_inv c s" "moves s s' w q" "worker_step c s (pcs s ! w) s0 q" "same_shared s' s0"
  shows "count_inv c s'"
  unfolding count_inv_def
proof
  let ?p = "pcs s ! w"
  note st = assms(4)
  assume ok: "\<not> failed s' \<or> cfg_keep_going c"
  have e': "error_inv c s'" by (rule error_inv_step [OF assms(2-5)])
  have w: "?p \<in> set (pcs s)" using moves_len [OF assms(3)] by simp
  have same: "completed_count s' = completed_count s0" "history s' = history s0"
    using assms(5) by (auto simp: same_shared_def)
  have f: "failed s \<Longrightarrow> failed s'" using error_step(2) [OF st] same by (auto simp: failed_def)
  have "\<not> stopping ?p" using assms(2) w ok f unfolding error_inv_def by blast
  moreover have "\<not> stopping q" using e' moves_new [OF assms(3)] ok unfolding error_inv_def by blast
  ultimately have "completed_count s0 + uncounted q + ended (history s) =
      completed_count s + uncounted ?p + ended (history s0)"
    by (rule ended_step [OF st])
  moreover have "completed_count s + over s uncounted = source_nodes (cfg_graph c) + ended (history s)"
    using assms(1) ok f by (auto simp: count_inv_def)
  moreover have "over s' uncounted + uncounted ?p = over s uncounted + uncounted q"
    by (rule moves_over [OF assms(3)]) simp
  ultimately show "completed_count s' + over s' uncounted = source_nodes (cfg_graph c) + ended (history s')"
    using same by simp
qed

lemma control_reachable:
  assumes "sched_reachable c s"
  shows "awake_inv c s \<and> error_inv c s \<and> count_inv c s"
  using assms
proof (induction rule: sched_reachable.induct)
  case (start order workers)
  have "order \<noteq> [] \<Longrightarrow> workers \<noteq> 0"
  proof
    assume "order \<noteq> []" "workers = 0"
    then obtain v where "v \<in> set (initially_ready (cfg_graph c))" 
      using mset_eq_setD [OF start(1)] by (metis list.set_intros(1) neq_Nil_conv)
    then have "v < length (nodes_m (cfg_graph c))" "produced (cfg_graph c) v" by (auto simp: initially_ready_def)
    then have "length (filter (\<lambda>v. \<not> produced (cfg_graph c) v) [0..<length (nodes_m (cfg_graph c))]) <
        length [0..<length (nodes_m (cfg_graph c))]"
      by (intro length_filter_less [of v]) auto
    then show False using start(3) \<open>workers = 0\<close> by (simp add: source_nodes_def total_nodes_def)
  qed
  then show ?case
    using start(2,3)
    by (auto simp: awake_inv_def error_inv_def count_inv_def over_init failed_def awake_def)
next
  case (step s s')
  obtain w q s0 where "moves s s' w q" "worker_step c s (pcs s ! w) s0 q" "same_shared s' s0"
    using step.hyps(2) by (rule sched_step_worker)
  then show ?case using step.IH awake_inv_step error_inv_step count_inv_step by blast
qed

section \<open>Nobody stalls\<close>

lemma no_failure_step:
  assumes "worker_step c s p s0 q" "same_shared s' s0" "\<not> failed s'"
  shows "\<not> failed s"
  using assms error_step(2) [OF assms(1)] by (auto simp: failed_def same_shared_def)

text \<open>With the queue empty and nobody productive, every step has succeeded: a step that has not,
  and whose producers all have, would be queued, held, running or done.\<close>

lemma all_done:
  assumes "flow_inv c s" "good_graph c" "acyclic (edge_rel (cfg_graph c))" "\<not> failed s"
    and "ready_queue s = []" "\<And>p. p \<in> set (pcs s) \<Longrightarrow> \<not> productive p"
  shows "produced_nodes (cfg_graph c) \<subseteq> succeeded s"
proof
  let ?g = "cfg_graph c"
  have zero: "over s f = 0" if "\<And>p. \<not> productive p \<Longrightarrow> f p = 0" for f
    using that assms(6) by (simp add: over_def sum_list_eq_0_iff)
  have none: "over s (\<lambda>p. count_list (todo ?g p) v) = 0" "over s (\<lambda>p. count_list (holding p) v) = 0"
    "over s (\<lambda>p. count_list (processing p) v) = 0" for v
    by (rule zero, erule contrapos_np, case_tac p; simp)+
  have "edge_rel ?g \<subseteq> {..<length (nodes_m ?g)} \<times> {..<length (nodes_m ?g)}"
    using assms(2) by (auto simp: edge_rel_def good_graph_def edges_in_range_def)
  then have "finite (edge_rel ?g)" by (rule finite_subset) simp
  then have wf: "wf (edge_rel ?g)" using assms(3) by (rule finite_acyclic_wf)
  fix v assume "v \<in> produced_nodes ?g"
  then show "v \<in> succeeded s"
    using wf
  proof (induction v rule: wf_induct_rule [OF wf, case_names less])
    case (less v)
    have v: "v < total_nodes c" using less(2) by (auto simp: produced_nodes_def total_nodes_def)
    have "open_edges ?g (succeeded s) v = 0"
      using less by (auto simp: open_edges_zero produced_nodes_def edge_rel_def)
    then have "in_degrees s ! v = 0" using assms(1) v none by (simp add: flow_inv_def degrees_ok_def)
    then have "count_list (history s) (Start v) = 1"
      using assms(1,5) less(2) none by (auto simp: flow_inv_def tokens_ok_def)
    moreover have "count_list (history s) (Failure v) = 0"
      using assms(4) by (auto simp: failed_def count_list_0_iff)
    ultimately have "count_list (history s) (Success v) = 1"
      using assms(1) none by (auto simp: flow_inv_def starts_ok_def)
    then show ?case unfolding succeeded_def by (metis count_list_0_iff mem_Collect_eq zero_neq_one)
  qed
qed

lemma ended_card:
  assumes "\<And>v. count_list es (Success v) \<le> 1" "\<And>v. Failure v \<notin> set es"
  shows "ended es = card {v. Success v \<in> set es}"
  using assms
proof (induction es)
  case (Cons e es)
  have le: "count_list es (Success v) \<le> 1" for v using Cons.prems(1) [of v] by (auto split: if_splits)
  have fin: "finite {v. Success v \<in> set es}"
    by (rule finite_imageD [of Success, OF finite_subset [of _ "set es"]]) (auto simp: inj_on_def)
  have IH: "ended es = card {v. Success v \<in> set es}" using Cons le by auto
  show ?case
  proof (cases e)
    case (Success v)
    then have "count_list es (Success v) = 0" using Cons.prems(1) [of v] by simp
    then have "v \<notin> {v. Success v \<in> set es}" by (simp add: count_list_0_iff)
    moreover have "{w. Success w \<in> set (e # es)} = insert v {v. Success v \<in> set es}" using Success by auto
    ultimately show ?thesis using IH fin Success by (simp add: ended_def)
  next
    case (Start v)
    then show ?thesis using IH by (simp add: ended_def)
  next
    case (Failure v)
    then show ?thesis using Cons.prems(2) [of v] by simp
  qed
qed (simp add: ended_def)

lemma source_count: "source_nodes g + card (produced_nodes g) = length (nodes_m g)"
proof -
  have "card (produced_nodes g) = length (filter (produced g) [0..<length (nodes_m g)])"
    by (subst distinct_card [symmetric]) (auto simp: produced_nodes_def intro: arg_cong [where f = card])
  then show ?thesis
    using sum_length_filter_compl [of "produced g" "[0..<length (nodes_m g)]"] by (simp add: source_nodes_def)
qed

lemma success_once:
  assumes "flow_inv c s"
  shows "count_list (history s) (Success v) \<le> 1" "succeeded s \<subseteq> produced_nodes (cfg_graph c)"
proof -
  have n: "count_list (history s) (Success v) \<le> count_list (history s) (Start v)" for v
    using assms by (auto simp: flow_inv_def starts_ok_def)
  have "Start v \<in> set (history s) \<Longrightarrow> v \<in> produced_nodes (cfg_graph c)" for v
    using assms by (auto simp: flow_inv_def nodes_known_def)
  moreover have "Success v \<in> set (history s) \<Longrightarrow> Start v \<in> set (history s)" for v
    using n [of v] by (metis count_list_0_iff le_zero_eq)
  ultimately show "succeeded s \<subseteq> produced_nodes (cfg_graph c)" by (auto simp: succeeded_def)
  show "count_list (history s) (Success v) \<le> 1"
  proof (cases "v \<in> produced_nodes (cfg_graph c)")
    case True
    then have "count_list (history s) (Start v) \<le> 1"
      using tokens_one [of c s v] assms by (auto simp: flow_inv_def)
    then show ?thesis using n [of v] by simp
  next
    case False
    then have "Start v \<notin> set (history s)" using assms by (auto simp: flow_inv_def nodes_known_def)
    then show ?thesis using n [of v] by (simp add: count_list_0_iff)
  qed
qed

lemma completed_iff:
  assumes "flow_inv c s" "count_inv c s" "\<not> failed s"
  shows "completed_count s + over s uncounted = source_nodes (cfg_graph c) + card (succeeded s)"
    "completed_count s + over s uncounted = total_nodes c \<longleftrightarrow> succeeded s = produced_nodes (cfg_graph c)"
proof -
  let ?P = "produced_nodes (cfg_graph c)"
  have "ended (history s) = card (succeeded s)"
    unfolding succeeded_def using success_once(1) [OF assms(1)] assms(3) by (intro ended_card) (auto simp: failed_def)
  then show *: "completed_count s + over s uncounted = source_nodes (cfg_graph c) + card (succeeded s)"
    using assms(2,3) by (simp add: count_inv_def)
  have "finite ?P" by (simp add: produced_nodes_def)
  then have "card (succeeded s) = card ?P \<longleftrightarrow> succeeded s = ?P"
    using success_once(2) [OF assms(1)] card_subset_eq by metis
  then show "completed_count s + over s uncounted = total_nodes c \<longleftrightarrow> succeeded s = ?P"
    using * source_count [of "cfg_graph c"] by (auto simp: total_nodes_def)
qed

lemma stall_entry:
  assumes "worker_step c s p s0 q" "stalling q" "\<not> stalling p"
  shows "p = GoSleep \<and> sleeping_threads s + 1 = cfg_threads c"
  using assms(1)
proof (cases rule: worker_step_cases)
  case loc
  then show ?thesis
    using assms(2-)
    by (cases "(c, s, p)" rule: local_step.cases) (auto split: list.splits bool.splits prod.splits if_splits)
qed (use assms(2-) in \<open>auto\<close>)

lemma sleepy_idle: "sleepy p \<Longrightarrow> \<not> productive p \<and> \<not> awake p"
  by (cases p) (auto simp: awake_def)

lemma sum_list_of_bool: "(\<Sum>x \<leftarrow> xs. of_bool (P x)) = length (filter P xs)"
  by (induction xs) auto

lemma only_one_awake:
  assumes "awake_inv c s" "w < length (pcs s)" "\<not> sleepy (pcs s ! w)" "sleeping_threads s + 1 = cfg_threads c"
    and "p \<in> set (pcs s)"
  shows "sleepy p \<or> p = pcs s ! w"
proof (rule ccontr)
  assume p: "\<not> (sleepy p \<or> p = pcs s ! w)"
  let ?ns = "filter (\<lambda>p. \<not> sleepy p) (pcs s)"
  have "over s (\<lambda>p. of_bool (sleepy p)) = length (filter sleepy (pcs s))"
    unfolding over_def by (rule sum_list_of_bool)
  then have "length ?ns \<le> 1"
    using sum_length_filter_compl [of sleepy "pcs s"] assms(1,4) by (simp add: awake_inv_def)
  moreover have "p \<in> set ?ns" "pcs s ! w \<in> set ?ns" using p assms(2,3,5) by auto
  ultimately show False using p by (cases ?ns) auto
qed

lemma nobody_stalls:
  assumes "sched_reachable c s" "good_graph c" "acyclic (edge_rel (cfg_graph c))" "\<not> failed s"
  shows "\<forall>p \<in> set (pcs s). \<not> stalling p"
  using assms(1,4)
proof (induction rule: sched_reachable.induct)
  case (step s s')
  obtain w q s0 where m: "moves s s' w q" and st: "worker_step c s (pcs s ! w) s0 q" and sh: "same_shared s' s0"
    using step.hyps(2) by (rule sched_step_worker)
  have nf: "\<not> failed s" by (rule no_failure_step [OF st sh step.prems])
  then have IH: "\<forall>p \<in> set (pcs s). \<not> stalling p" by (rule step.IH)
  have w: "w < length (pcs s)" using moves_len [OF m] by simp
  have inv: "flow_inv c s" "awake_inv c s" "count_inv c s"
    using flow_reachable control_reachable step.hyps(1) assms(2) by blast+
  have "\<not> stalling q"
  proof
    assume "stalling q"
    then have q: "pcs s ! w = GoSleep" "sleeping_threads s + 1 = cfg_threads c"
      using stall_entry [OF st] IH w by auto
    have others: "sleepy p \<or> p = GoSleep" if "p \<in> set (pcs s)" for p
      using only_one_awake [OF inv(2) w _ q(2) that] q(1) by auto
    have idle: "\<not> productive p" "\<not> awake p" if "p \<in> set (pcs s)" for p
      using others [OF that] sleepy_idle [of p] by (auto simp: awake_def)
    then have "ready_queue s = []" using inv(2) unfolding awake_inv_def by blast
    then have "produced_nodes (cfg_graph c) \<subseteq> succeeded s"
      by (rule all_done [OF inv(1) assms(2,3) nf]) (rule idle)
    then have "succeeded s = produced_nodes (cfg_graph c)" using success_once(2) [OF inv(1)] by blast
    moreover have "over s uncounted = 0"
    proof -
      have "uncounted p = 0" if "\<not> productive p" for p using that by (cases p) auto
      then show ?thesis using idle(1) by (simp add: over_def sum_list_eq_0_iff)
    qed
    ultimately have "completed_count s = total_nodes c" using completed_iff(2) [OF inv(1,3) nf] by simp
    moreover have "pcs s \<noteq> []" using w by auto
    ultimately show False using inv(2) idle(2) unfolding awake_inv_def by blast
  qed
  then show ?case using moves_mem [OF m] IH by (metis stalling.simps)
qed simp

section \<open>Leaving\<close>

lemma completed_mono:
  assumes "worker_step c s p s0 q" "\<not> stopping p"
  shows "completed_count s \<le> completed_count s0"
  using assms(1)
proof (cases rule: worker_step_cases)
  case loc
  then show ?thesis
    using assms(2-)
    by (cases "(c, s, p)" rule: local_step.cases) (auto split: list.splits bool.splits prod.splits if_splits)
qed (use assms(2-) in \<open>auto\<close>)

lemma exit_step:
  assumes "worker_step c s p s0 Exited" "\<not> stalling p"
  shows "completed_count s = total_nodes c \<and> completed_count s0 = completed_count s \<or> error_occurred s"
  using assms(1)
proof (cases rule: worker_step_cases)
  case loc
  then show ?thesis
    using assms(2-)
    by (cases "(c, s, p)" rule: local_step.cases) (auto split: list.splits bool.splits prod.splits if_splits)
qed (use assms(2-) in \<open>auto\<close>)

lemma completed_le:
  assumes "flow_inv c s" "count_inv c s" "\<not> failed s"
  shows "completed_count s \<le> total_nodes c"
proof -
  have "finite (produced_nodes (cfg_graph c))" by (simp add: produced_nodes_def)
  then have "card (succeeded s) \<le> card (produced_nodes (cfg_graph c))"
    using success_once(2) [OF assms(1)] by (rule card_mono)
  then show ?thesis
    using completed_iff(1) [OF assms] source_count [of "cfg_graph c"] by (simp add: total_nodes_def)
qed

lemma exited_completed:
  assumes "sched_reachable c s" "good_graph c" "acyclic (edge_rel (cfg_graph c))" "\<not> failed s"
    and "Exited \<in> set (pcs s) \<or> pcs s = []"
  shows "completed_count s = total_nodes c"
  using assms(1,4,5)
proof (induction rule: sched_reachable.induct)
  case (start order workers)
  then show ?case by auto
next
  case (step s s')
  obtain w q s0 where m: "moves s s' w q" and st: "worker_step c s (pcs s ! w) s0 q" and sh: "same_shared s' s0"
    using step.hyps(2) by (rule sched_step_worker)
  have nf: "\<not> failed s" by (rule no_failure_step [OF st sh step.prems(1)])
  have w: "pcs s ! w \<in> set (pcs s)" "pcs s' \<noteq> []" using moves_len [OF m] by (auto simp flip: length_greater_0_conv)
  have inv: "flow_inv c s'" "count_inv c s'" "error_inv c s"
    using flow_reachable control_reachable sched_reachable.step [OF step.hyps(1,2)] step.hyps(1) assms(2) by blast+
  have same: "completed_count s' = completed_count s0" using sh by (simp add: same_shared_def)
  have "Exited \<in> set (pcs s')" using step.prems(2) w(2) by blast
  then consider "q = Exited" | "Exited \<in> set (pcs s)" using moves_mem [OF m] by fastforce
  then show ?case
  proof cases
    case 1
    have "\<not> stalling (pcs s ! w)" using nobody_stalls [OF step.hyps(1) assms(2,3) nf] w(1) by blast
    moreover have "\<not> error_occurred s" using inv(3) nf by (simp add: error_inv_def)
    ultimately show ?thesis using exit_step [OF st [unfolded 1]] same by simp
  next
    case 2
    have "\<not> stopping (pcs s ! w)" using inv(3) nf w(1) by (auto simp: error_inv_def)
    then show ?thesis
      using completed_mono [OF st] step.IH [OF nf] 2 completed_le [OF inv(1,2) step.prems(1)] same by simp
  qed
qed

lemma productive_moves:
  assumes "w < length (pcs s)" "productive (pcs s ! w)"
  shows "\<exists>s'. sched_step c s s' \<and> pcs s' ! w \<noteq> pcs s ! w"
proof (cases "local_step c s (pcs s ! w)")
  case (Some r)
  obtain s0 q where r: "r = (s0, q)" by (cases r)
  with Some have "sched_step c s (set_pc s0 w q)" using assms(1) by (auto intro: sched_step.local)
  moreover have "length (pcs s0) = length (pcs s)" using local_step_pcs Some r by fastforce
  moreover have "q \<noteq> pcs s ! w"
    using Some r assms(2)
    by (cases "(c, s, pcs s ! w)" rule: local_step.cases) (auto split: list.splits bool.splits prod.splits if_splits)
  ultimately show ?thesis using assms(1) by (auto simp: set_pc_def)
next
  case None
  then consider v where "pcs s ! w = Processing v" | es lst where "pcs s ! w = PushNotify es lst"
    using assms(2) by (cases "(c, s, pcs s ! w)" rule: local_step.cases) (auto split: list.splits bool.splits prod.splits)
  then show ?thesis
  proof cases
    case (1 v)
    let ?s = "set_pc (s\<lparr>history := history s @ [Success v]\<rparr>) w (Complete v)"
    have "sched_step c s ?s" by (rule sched_step.process_ok [OF assms(1) 1])
    moreover have "pcs ?s ! w \<noteq> pcs s ! w" using 1 assms(1) by (simp add: set_pc_def)
    ultimately show ?thesis by blast
  next
    case (2 es lst)
    show ?thesis
    proof (cases "Blocked \<in> set (pcs s)")
      case True
      then obtain w' where "w' < length (pcs s)" "pcs s ! w' = Blocked" by (auto simp: in_set_conv_nth)
      then have "sched_step c s (set_pc (set_pc s w' WaitEnter) w (Release es lst))"
        by (rule sched_step.notify_one [OF assms(1) 2])
      moreover have "pcs (set_pc (set_pc s w' WaitEnter) w (Release es lst)) ! w \<noteq> pcs s ! w"
        using 2 assms(1) by (simp add: set_pc_def)
      ultimately show ?thesis by blast
    next
      case False
      then have "sched_step c s (set_pc s w (Release es lst))" by (rule sched_step.notify_none [OF assms(1) 2])
      moreover have "pcs (set_pc s w (Release es lst)) ! w \<noteq> pcs s ! w" using 2 assms(1) by (simp add: set_pc_def)
      ultimately show ?thesis by blast
    qed
  qed
qed

text \<open>The end of \<open>execute\<close>, after all workers have been joined.\<close>

definition execute_result :: "sched_config \<Rightarrow> sched \<Rightarrow> unit result" where
  "execute_result c s =
     (if error_occurred s then unexpected ''Build Failed''
      else if completed_count s \<noteq> total_nodes c
      then unexpected ''Build stalled: Concurrency or scheduling bug detected.''
      else expected ())"

lemma runs_once:
  assumes "sched_reachable c s" "good_graph c"
  shows "count_list (history s) (Start v) \<le> 1 \<and>
    count_list (history s) (Success v) + count_list (history s) (Failure v) \<le> count_list (history s) (Start v) \<and>
    (Start v \<in> set (history s) \<longrightarrow> v < total_nodes c \<and> produced (cfg_graph c) v)"
proof -
  have inv: "flow_inv c s" by (rule flow_reachable [OF assms])
  then have known: "Start v \<in> set (history s) \<Longrightarrow> v \<in> produced_nodes (cfg_graph c)"
    by (auto simp: flow_inv_def nodes_known_def)
  have "count_list (history s) (Start v) \<le> 1"
    using tokens_one [of c s v] inv known by (cases "Start v \<in> set (history s)") (auto simp: flow_inv_def count_list_0_iff)
  then show ?thesis
    using inv known by (auto simp: flow_inv_def starts_ok_def produced_nodes_def total_nodes_def)
qed

lemma final_result:
  assumes "sched_reachable c s" "good_graph c" "acyclic (edge_rel (cfg_graph c))"
    and "set (pcs s) \<subseteq> {Exited}"
  shows "execute_result c s =
      (if \<exists>v. Failure v \<in> set (history s) then Inl ''Build Failed'' else Inr ()) \<and>
    (execute_result c s = Inr () \<longleftrightarrow> (\<forall>v. Failure v \<notin> set (history s)) \<and>
      (\<forall>v < total_nodes c. produced (cfg_graph c) v \<longrightarrow> Success v \<in> set (history s)))"
proof -
  have inv: "flow_inv c s" "error_inv c s" "count_inv c s"
    using flow_reachable control_reachable assms(1,2) by blast+
  have e: "error_occurred s \<longleftrightarrow> failed s" using inv(2) assms(4) by (auto simp: error_inv_def)
  have fin: "completed_count s = total_nodes c \<and> succeeded s = produced_nodes (cfg_graph c)" if "\<not> failed s"
  proof -
    have "Exited \<in> set (pcs s) \<or> pcs s = []" using assms(4) by (cases "pcs s") auto
    then have "completed_count s = total_nodes c" by (rule exited_completed [OF assms(1-3) that])
    moreover have "over s uncounted = 0" using assms(4) by (auto simp: over_def sum_list_eq_0_iff)
    ultimately show ?thesis using completed_iff(2) [OF inv(1,3) that] by simp
  qed
  show ?thesis
  proof (cases "failed s")
    case True
    then show ?thesis using e by (auto simp: execute_result_def failed_def)
  next
    case False
    then have "Success v \<in> set (history s)" if "v < total_nodes c" "produced (cfg_graph c) v" for v
      using fin [OF False] that by (auto simp: succeeded_def produced_nodes_def total_nodes_def)
    then show ?thesis using e fin [OF False] False by (auto simp: execute_result_def failed_def)
  qed
qed

section \<open>Properties\<close>

text \<open>C3: Every step runs at most once, and only steps run. In every interleaving a node is started
  at most once, it is a node that a step produces, and its successes and failures are at most its
  starts.\<close>

theorem steps_run_once:
  assumes "sched_reachable c s" "good_graph c"
  shows "count_list (history s) (Start v) \<le> 1 \<and>
    count_list (history s) (Success v) + count_list (history s) (Failure v) \<le> count_list (history s) (Start v) \<and>
    (Start v \<in> set (history s) \<longrightarrow> v < total_nodes c \<and> produced (cfg_graph c) v)"
  by (rule runs_once [OF assms])

lemma steps_run_once_witness:
  "count_list (history finished_state) (Start 2) \<le> 1 \<and> Start 2 \<in> set (history finished_state) \<and>
    produced two_steps 2"
  using steps_run_once [OF finished_reachable two_steps_good, of 2] by (simp add: finished_history)

text \<open>C2: Dependencies come first. In every interleaving, when a step starts, every step that produces
  one of its inputs has already ended with success.\<close>

theorem inputs_before_step:
  assumes "sched_reachable c s" "good_graph c"
    and "i < length (history s)" "history s ! i = Start v"
    and "u < total_nodes c" "produced (cfg_graph c) u" "v \<in> set (succs (cfg_graph c) u)"
  shows "Success u \<in> set (take i (history s))"
  using flow_reachable [OF assms(1,2)] assms(3-)
  by (auto simp: flow_inv_def inputs_first_def produced_nodes_def total_nodes_def)

lemma inputs_before_step_witness: "Success 1 \<in> set (take 2 (history finished_state))"
  by (rule inputs_before_step [OF finished_reachable two_steps_good, where v = 2])
    (simp_all add: finished_history two_steps_edges [simplified])

text \<open>C12: The ready queue never overflows. Whenever a worker is about to enqueue a node, the queue holds
  fewer entries than its capacity, so the result of \<open>enqueue\<close> may be ignored, as the release build
  does, and the assertion of the debug build holds.\<close>

theorem ready_queue_never_full:
  assumes "sched_reachable c s" "good_graph c" "w < length (pcs s)" "pcs s ! w = PushEnq v es lst"
  shows "enqueue (bit_ceil (total_nodes c)) (ready_queue s) v = ready_queue s @ [(v, False)]"
  using queue_has_room [OF _ _ assms(3,4)] flow_reachable [OF assms(1,2)]
  by (auto simp: flow_inv_def enqueue_def)

lemma ready_queue_never_full_witness:
  "enqueue (bit_ceil 3) (ready_queue pushing_state) 2 = [(2, False)]"
  using ready_queue_never_full [OF pushing_reachable two_steps_good, of 0 2 "[]" False]
  by (simp add: pushing_values)

text \<open>C11: No stall is ever diagnosed. On an acyclic graph, as long as no step has failed, no worker
  reaches the branch that declares a stall, for every number of workers and every interleaving.\<close>

theorem stall_branch_unreachable:
  assumes "sched_reachable c s" "good_graph c" "acyclic (edge_rel (cfg_graph c))"
    and "\<forall>v. Failure v \<notin> set (history s)"
  shows "set (pcs s) \<inter> {StallCheck, StallStore, StallNotify, StallLeave} = {}"
  using nobody_stalls [OF assms(1-3)] assms(4) by (fastforce simp: failed_def)

lemma stall_branch_unreachable_witness:
  "set (pcs finished_state) \<inter> {StallCheck, StallStore, StallNotify, StallLeave} = {}"
  by (rule stall_branch_unreachable [OF finished_reachable two_steps_good])
    (simp_all add: two_steps_acyclic finished_history)

text \<open>C10: Progress. On an acyclic graph, while no step has failed and some step has not yet succeeded,
  there is a worker that is on its way to work (it neither sleeps nor leaves) and that can take its
  next move.\<close>

theorem scheduler_progress:
  assumes "sched_reachable c s" "good_graph c" "acyclic (edge_rel (cfg_graph c))"
    and "\<forall>v. Failure v \<notin> set (history s)"
    and "v < total_nodes c" "produced (cfg_graph c) v" "Success v \<notin> set (history s)"
  shows "\<exists>w < length (pcs s). productive (pcs s ! w) \<and> (\<exists>s'. sched_step c s s' \<and> pcs s' ! w \<noteq> pcs s ! w)"
proof -
  have inv: "flow_inv c s" "awake_inv c s" using flow_reachable control_reachable assms(1,2) by blast+
  have "\<exists>p \<in> set (pcs s). productive p"
  proof (rule ccontr)
    assume n: "\<not> (\<exists>p \<in> set (pcs s). productive p)"
    then have "ready_queue s = []" using inv(2) by (auto simp: awake_inv_def)
    then have "produced_nodes (cfg_graph c) \<subseteq> succeeded s"
      using n assms(4) by (intro all_done [OF inv(1) assms(2,3)]) (auto simp: failed_def)
    then show False using assms(5-7) by (auto simp: produced_nodes_def succeeded_def total_nodes_def)
  qed
  then obtain w where w: "w < length (pcs s)" "productive (pcs s ! w)" by (auto simp: in_set_conv_nth)
  moreover obtain s' where "sched_step c s s'" "pcs s' ! w \<noteq> pcs s ! w"
    using productive_moves [OF w] by blast
  ultimately show ?thesis by blast
qed

lemma scheduler_progress_witness:
  "\<exists>s'. sched_step (config_of False 1) pushing_state s' \<and> pcs s' ! 0 \<noteq> pcs pushing_state ! 0"
  using scheduler_progress [OF pushing_reachable two_steps_good, of 2] 
  by (auto simp: two_steps_acyclic pushing_values two_steps_edges)

text \<open>C4: The verdict. On an acyclic graph, when all workers have left, the build reports success if and
  only if every step has succeeded and none has failed, it reports a failed build if and only if a
  step failed, and it never reports a stall.\<close>

theorem execute_verdict:
  assumes "sched_reachable c s" "good_graph c" "acyclic (edge_rel (cfg_graph c))"
    and "set (pcs s) \<subseteq> {Exited}"
  shows "execute_result c s =
      (if \<exists>v. Failure v \<in> set (history s) then Inl ''Build Failed'' else Inr ()) \<and>
    (execute_result c s = Inr () \<longleftrightarrow> (\<forall>v. Failure v \<notin> set (history s)) \<and>
      (\<forall>v < total_nodes c. produced (cfg_graph c) v \<longrightarrow> Success v \<in> set (history s)))"
  by (rule final_result [OF assms])

lemma execute_verdict_witness:
  "execute_result (config_of False 1) finished_state = Inr () \<and> pcs finished_state = [Exited]"
  using execute_verdict [OF finished_reachable two_steps_good]
  by (simp add: two_steps_acyclic finished_history)

section \<open>Runs that never end\<close>

lemma hung_step:
  assumes "hung s" "sched_step c s s'"
  shows "hung s'"
  using assms(2)
proof cases
  case (local w s0 q)
  have w: "pcs s ! w \<in> set (pcs s)" using local by simp
  then have "pcs s ! w = Blocked \<or> pcs s ! w = WaitEnter \<or> pcs s ! w = Exited"
    using assms(1) by (auto simp: hung_def list_all_iff)
  then have q: "s0 = s" "q = Blocked \<or> q = WaitEnter" using local assms(1) by (auto simp: hung_def)
  then have "q \<in> set (pcs s')" using local by (auto simp: set_pc_def set_update_memI)
  moreover have "p \<in> set (pcs s') \<Longrightarrow> p = q \<or> p \<in> set (pcs s)" for p
    using local q set_update_subset_insert [of "pcs s" w q] by (auto simp: set_pc_def)
  ultimately show ?thesis
    using assms(1) q local by (auto simp: hung_def list_all_iff list_ex_iff set_pc_def)
next
  case (process_ok w v)
  then have "Processing v \<in> set (pcs s)" by (metis nth_mem)
  with assms(1) show ?thesis by (auto simp: hung_def list_all_iff)
next
  case (process_fail w v)
  then have "Processing v \<in> set (pcs s)" by (metis nth_mem)
  with assms(1) show ?thesis by (auto simp: hung_def list_all_iff)
next
  case (notify_none w es lst)
  then have "PushNotify es lst \<in> set (pcs s)" by (metis nth_mem)
  with assms(1) show ?thesis by (auto simp: hung_def list_all_iff)
next
  case (notify_one w es lst w')
  then have "PushNotify es lst \<in> set (pcs s)" by (metis nth_mem)
  with assms(1) show ?thesis by (auto simp: hung_def list_all_iff)
qed

lemma hung_forever:
  assumes "(sched_step c)\<^sup>*\<^sup>* s s'" "hung s"
  shows "\<not> set (pcs s') \<subseteq> {Exited}"
proof -
  from assms have "hung s'" by (induction rule: rtranclp_induct) (auto intro: hung_step)
  then show ?thesis by (auto simp: hung_def list_ex_iff)
qed

text \<open>From here on, some worker stays unfinished, so that joining the workers never returns.\<close>

definition never_joins :: "sched_config \<Rightarrow> sched \<Rightarrow> bool" where
  "never_joins c s \<longleftrightarrow> (\<forall>s'. (sched_step c)\<^sup>*\<^sup>* s s' \<longrightarrow> \<not> set (pcs s') \<subseteq> {Exited})"

text \<open>C40: A lost wake-up. There is an interleaving of three workers in which all steps succeed and
  nevertheless a worker waits for ever, so that the join in \<open>execute\<close> never returns: a task is taken
  between its publication and the \<open>fetch_add\<close> that announces it, and that \<open>fetch_add\<close> wraps the
  maximum stored at the end of the build to 0.\<close>

theorem success_can_hang:
  "\<exists>s. sched_reachable (config_of False 3) s \<and> (\<forall>v. Failure v \<notin> set (history s)) \<and>
     Success 1 \<in> set (history s) \<and> Success 2 \<in> set (history s) \<and>
     never_joins (config_of False 3) s"
proof -
  have r: "returns (run (config_of False 3) (start_state False 3) lost_wakeup)
      (\<lambda>s. hung s \<and> history s = [Start 1, Success 1, Start 2, Success 2])"
    by code_simp
  then obtain s where s: "run (config_of False 3) (start_state False 3) lost_wakeup = Some s" "hung s"
    "history s = [Start 1, Success 1, Start 2, Success 2]"
    by (auto simp: returns_def)
  have "sched_reachable (config_of False 3) s" by (rule run_reachable [OF s(1) start_reachable]) simp
  moreover have "never_joins (config_of False 3) s" using s(2) hung_forever by (auto simp: never_joins_def)
  ultimately show ?thesis using s by auto
qed

text \<open>A hang under \<open>--keep-going\<close>. With two workers, when the first step fails and another step
  depends on it, the failing worker leaves because of the error, the other worker is asleep, and
  nobody wakes it: the build never returns.\<close>

theorem keep_going_can_hang:
  "\<exists>s. sched_reachable (config_of True 2) s \<and> history s = [Start 1, Failure 1] \<and>
     never_joins (config_of True 2) s"
proof -
  have "returns (run (config_of True 2) (start_state True 2) keep_going_failure)
      (\<lambda>s. hung s \<and> history s = [Start 1, Failure 1])"
    by code_simp
  then obtain s where s: "run (config_of True 2) (start_state True 2) keep_going_failure = Some s" "hung s"
    "history s = [Start 1, Failure 1]"
    by (auto simp: returns_def)
  have "sched_reachable (config_of True 2) s" by (rule run_reachable [OF s(1) start_reachable]) simp
  moreover have "never_joins (config_of True 2) s" using s(2) hung_forever by (auto simp: never_joins_def)
  ultimately show ?thesis using s by auto
qed

end
