(* ===== verification/Parallel_Order.thy ===== *)
theory Parallel_Order
  imports Schedule_Results Incremental
begin

text \<open>
  The link between the workers (Scheduler.thy) and whole builds (Rebuild.thy, Incremental.thy): the
  order in which the workers of a successful build finish the steps is one in which a single worker
  could have processed them.
\<close>

section \<open>Orders\<close>

definition source_list :: "build_graph \<Rightarrow> nat list" where
  "source_list g = filter (\<lambda>v. \<not> produced g v) [0..<length (nodes_m g)]"

fun started_node :: "event \<Rightarrow> nat option" where
  "started_node (Start v) = Some v"
| "started_node _ = None"

fun completed_node :: "event \<Rightarrow> nat option" where
  "completed_node (Success v) = Some v"
| "completed_node _ = None"

abbreviation start_order :: "event list \<Rightarrow> nat list" where "start_order \<equiv> List.map_filter started_node"
abbreviation completion_order :: "event list \<Rightarrow> nat list" where "completion_order \<equiv> List.map_filter completed_node"

lemma started_iff [simp]: "started_node e = Some v \<longleftrightarrow> e = Start v" by (cases e) auto

lemma completed_iff_event [simp]: "completed_node e = Some v \<longleftrightarrow> e = Success v" by (cases e) auto

lemma mem_map_filter: "v \<in> set (List.map_filter f es) \<longleftrightarrow> (\<exists>e \<in> set es. f e = Some v)"
  by (induction es) (auto simp: List.map_filter_simps split: option.split)

lemma map_filter_split:
  "List.map_filter f es = xs @ v # ys \<Longrightarrow> \<exists>before e rest. es = before @ e # rest \<and> f e = Some v \<and> List.map_filter f before = xs"
proof (induction es arbitrary: xs)
  case (Cons e es)
  show ?case
  proof (cases "f e")
    case None
    with Cons obtain before e' rest where "es = before @ e' # rest" "f e' = Some v" "List.map_filter f before = xs"
      by (auto simp: List.map_filter_simps)
    with None show ?thesis by (intro exI [of _ "e # before"]) (auto simp: List.map_filter_simps)
  next
    case (Some x)
    show ?thesis
    proof (cases xs)
      case Nil
      with Some Cons.prems have "f e = Some v" by (simp add: List.map_filter_simps)
      with Nil show ?thesis by (intro exI [of _ "[]"]) (auto simp: List.map_filter_simps)
    next
      case (Cons y xs')
      with Some Cons.prems have "List.map_filter f es = xs' @ v # ys" "y = x" by (simp_all add: List.map_filter_simps)
      with Cons.IH obtain before e' rest where "es = before @ e' # rest" "f e' = Some v" "List.map_filter f before = xs'" by blast
      with Some Cons \<open>y = x\<close> show ?thesis by (intro exI [of _ "e # before"]) (auto simp: List.map_filter_simps)
    qed
  qed
qed (simp add: List.map_filter_simps)

lemma distinct_map_filter:
  assumes "\<And>v. count_list es (E v) \<le> 1" "\<And>e v. f e = Some v \<longleftrightarrow> e = E v"
  shows "distinct (List.map_filter f es)"
  using assms(1)
proof (induction es)
  case (Cons e es)
  have "count_list es (E v) \<le> 1" for v using Cons.prems [of v] by (auto split: if_splits)
  then have IH: "distinct (List.map_filter f es)" by (rule Cons.IH)
  show ?case
  proof (cases "f e")
    case (Some v)
    then have e: "e = E v" using assms(2) by blast
    with Cons.prems [of v] have "count_list es (E v) = 0" by simp
    then have "v \<notin> set (List.map_filter f es)" using assms(2) by (auto simp: mem_map_filter count_list_0_iff)
    with IH Some show ?thesis by (simp add: List.map_filter_simps)
  qed (simp add: List.map_filter_simps IH)
qed (simp add: List.map_filter_simps)

lemma split_behind: "as @ bs = xs @ v # ys \<Longrightarrow> v \<notin> set as \<Longrightarrow> \<exists>zs. xs = as @ zs \<and> bs = zs @ v # ys"
proof (induction as arbitrary: xs)
  case (Cons a as)
  then obtain xs' where "xs = a # xs'" by (cases xs) auto
  with Cons show ?case by auto
qed simp

lemma topologicalI:
  assumes "distinct order" "set order = {..<length (nodes_m g)}"
    and "\<And>xs v ys u. order = xs @ v # ys \<Longrightarrow> u < length (nodes_m g) \<Longrightarrow> v \<in> set (succs g u) \<Longrightarrow> u \<in> set xs"
  shows "is_topological g order"
  unfolding is_topological_def
proof (intro conjI allI impI assms(1,2))
  fix i j assume ij: "i < length order" "j < length order" "order ! j \<in> set (succs g (order ! i))"
  have "order ! i < length (nodes_m g)" using ij(1) assms(2) nth_mem by blast
  from assms(3) [OF id_take_nth_drop [OF ij(2)] this ij(3)] obtain k where "k < j" "order ! k = order ! i"
    using ij(2) by (auto simp: in_set_conv_nth)
  with assms(1) ij show "i < j" by (metis nth_eq_iff_index_eq order.strict_trans)
qed

section \<open>Histories\<close>

text \<open>Every prefix of a history is the history of a state that was reached before.\<close>

lemma history_step:
  assumes "sched_step c s s'"
  shows "history s' = history s \<or> (\<exists>e. history s' = history s @ [e])"
proof -
  obtain w q s0 where m: "worker_step c s (pcs s ! w) s0 q" "same_shared s' s0" by (rule sched_step_worker [OF assms])
  have "local_step c s p = Some (s0, q) \<Longrightarrow> history s0 = history s \<or> (\<exists>e. history s0 = history s @ [e])" for p
    by (cases "(c, s, p)" rule: local_step.cases) (auto split: list.splits bool.splits prod.splits)
  with m show ?thesis by (auto simp: worker_step_def same_shared_def)
qed

lemma history_prefix:
  "sched_reachable c s \<Longrightarrow> history s = before @ rest \<Longrightarrow> \<exists>s0. sched_reachable c s0 \<and> history s0 = before"
proof (induction arbitrary: before rest rule: sched_reachable.induct)
  case (start order workers)
  then have "before = []" by (simp add: sched_init_def)
  with sched_reachable.start [OF start.hyps] show ?case by (intro exI [of _ "sched_init c order workers"]) (simp add: sched_init_def)
next
  case (step s s')
  show ?case
  proof (cases "rest = []")
    case True
    with step show ?thesis by (auto intro: sched_reachable.step)
  next
    case False
    then obtain rest' e where rest: "rest = rest' @ [e]" by (metis rev_exhaust)
    from history_step [OF step.hyps(2)] step.prems rest have "history s = before @ rest' \<or> history s = before @ rest' @ [e]" by auto
    then show ?thesis using step.IH by blast
  qed
qed

lemma start_before_success:
  assumes "sched_reachable c s" "good_graph c" "history s = before @ Success v # rest"
  shows "Start v \<in> set before"
proof -
  have "history s = (before @ [Success v]) @ rest" using assms(3) by simp
  from history_prefix [OF assms(1) this] obtain s0 where s0: "sched_reachable c s0" "history s0 = before @ [Success v]" by blast
  from flow_reachable [OF s0(1) assms(2)] have "starts_ok s0" by (simp add: flow_inv_def)
  then have "count_list (history s0) (Start v) = count_list (history s0) (Success v) + count_list (history s0) (Failure v) +
      over s0 (\<lambda>p. count_list (processing p) v)" unfolding starts_ok_def by blast
  then have "count_list before (Start v) \<noteq> 0" by (simp add: s0(2))
  then show ?thesis by (simp add: count_list_0_iff)
qed

lemma inputs_before_start:
  assumes "sched_reachable c s" "good_graph c" "history s = before @ Start v # rest"
    and "u \<in> produced_nodes (cfg_graph c)" "v \<in> set (succs (cfg_graph c) u)"
  shows "Success u \<in> set before"
proof -
  have "inputs_first c (history s)" using flow_reachable [OF assms(1,2)] by (simp add: flow_inv_def)
  moreover have "history s ! length before = Start v" "length before < length (history s)" by (simp_all add: assms(3))
  ultimately have "Success u \<in> set (take (length before) (history s))" using assms(4,5) unfolding inputs_first_def by blast
  then show ?thesis by (simp add: assms(3))
qed

lemma order_topological:
  assumes "good_graph c" "distinct order" "set order = produced_nodes (cfg_graph c)"
    and "\<And>xs v ys u. order = xs @ v # ys \<Longrightarrow> u \<in> produced_nodes (cfg_graph c) \<Longrightarrow> v \<in> set (succs (cfg_graph c) u) \<Longrightarrow> u \<in> set xs"
  shows "is_topological (cfg_graph c) (source_list (cfg_graph c) @ order)"
proof (rule topologicalI)
  let ?g = "cfg_graph c"
  have sources: "set (source_list ?g) = {v. v < length (nodes_m ?g) \<and> \<not> produced ?g v}" by (auto simp: source_list_def)
  have "distinct (source_list ?g)" by (simp add: source_list_def)
  moreover have "set (source_list ?g) \<inter> set order = {}" unfolding sources assms(3) by (auto simp: produced_nodes_def)
  ultimately show "distinct (source_list ?g @ order)" using assms(2) by simp
  show "set (source_list ?g @ order) = {..<length (nodes_m ?g)}"
    unfolding set_append sources assms(3) produced_nodes_def by blast
  fix xs v ys u
  assume split: "source_list ?g @ order = xs @ v # ys" and u: "u < length (nodes_m ?g)" "v \<in> set (succs ?g u)"
  have v: "produced ?g v" using assms(1) u by (auto simp: good_graph_def sources_have_no_inputs_def)
  then have "v \<notin> set (source_list ?g)" by (simp add: sources)
  with split have "\<exists>zs. xs = source_list ?g @ zs \<and> order = zs @ v # ys" by (rule split_behind)
  then obtain zs where zs: "xs = source_list ?g @ zs" "order = zs @ v # ys" by blast
  show "u \<in> set xs"
  proof (cases "produced ?g u")
    case True
    with assms(4) [OF zs(2) _ u(2)] u(1) zs(1) show ?thesis by (simp add: produced_nodes_def)
  next
    case False
    with u(1) zs(1) sources show ?thesis by simp
  qed
qed

text \<open>C9: A parallel build follows an order of a sequential one. When all workers have left after a
  build that succeeded, in any interleaving, the order in which the steps were started, and the order
  in which they were finished, each behind the source files, hold every node exactly once and
  respect all dependencies. So what is shown of the builds of one worker, who may process the nodes
  in any such order, covers the orders in which several workers process them.\<close>

theorem parallel_order_topological:
  assumes "sched_reachable c s" "good_graph c" "acyclic (edge_rel (cfg_graph c))"
    and "set (pcs s) \<subseteq> {Exited}" "execute_result c s = Inr ()"
  shows "is_topological (cfg_graph c) (source_list (cfg_graph c) @ start_order (history s)) \<and>
    is_topological (cfg_graph c) (source_list (cfg_graph c) @ completion_order (history s))"
proof -
  let ?P = "produced_nodes (cfg_graph c)"
  have runs: "count_list (history s) (Start v) \<le> 1" "count_list (history s) (Success v) \<le> 1"
    "Success v \<in> set (history s) \<Longrightarrow> Start v \<in> set (history s)" "Start v \<in> set (history s) \<Longrightarrow> v \<in> ?P" for v
    using runs_once [OF assms(1,2), of v] count_list_0_iff [of "history s" "Success v"] count_list_0_iff [of "history s" "Start v"]
    by (auto simp: produced_nodes_def total_nodes_def)
  have success: "v \<in> ?P \<Longrightarrow> Success v \<in> set (history s)" for v
    using final_result [OF assms(1-4)] assms(5) by (simp add: produced_nodes_def total_nodes_def)
  have "is_topological (cfg_graph c) (source_list (cfg_graph c) @ start_order (history s))"
  proof (rule order_topological [OF assms(2)])
    show "distinct (start_order (history s))" by (rule distinct_map_filter [where E = Start]) (rule runs(1), simp)
    show "set (start_order (history s)) = ?P" using runs(3,4) success by (auto simp: mem_map_filter)
    fix xs v ys u assume "start_order (history s) = xs @ v # ys" and u: "u \<in> ?P" "v \<in> set (succs (cfg_graph c) u)"
    then obtain before rest where h: "history s = before @ Start v # rest" "start_order before = xs"
      using map_filter_split [of started_node "history s" xs v ys] by auto
    then obtain b1 b2 where "before = b1 @ Success u # b2" using inputs_before_start [OF assms(1,2) h(1) u] split_list by metis
    with start_before_success [OF assms(1,2), of b1 u "b2 @ Start v # rest"] h show "u \<in> set xs" by (auto simp: mem_map_filter)
  qed
  moreover have "is_topological (cfg_graph c) (source_list (cfg_graph c) @ completion_order (history s))"
  proof (rule order_topological [OF assms(2)])
    show "distinct (completion_order (history s))" by (rule distinct_map_filter [where E = Success]) (rule runs(2), simp)
    show "set (completion_order (history s)) = ?P" using runs(3,4) success by (auto simp: mem_map_filter)
    fix xs v ys u assume "completion_order (history s) = xs @ v # ys" and u: "u \<in> ?P" "v \<in> set (succs (cfg_graph c) u)"
    then obtain before rest where h: "history s = before @ Success v # rest" "completion_order before = xs"
      using map_filter_split [of completed_node "history s" xs v ys] by auto
    obtain b1 b2 where "before = b1 @ Start v # b2" using start_before_success [OF assms(1,2) h(1)] split_list by metis
    with inputs_before_start [OF assms(1,2), of b1 v "b2 @ Success v # rest", OF _ u] h show "u \<in> set xs"
      by (auto simp: mem_map_filter)
  qed
  ultimately show ?thesis by (rule conjI)
qed

lemma parallel_order_topological_witness:
  "is_topological two_steps (source_list two_steps @ [1, 2]) \<and> start_order (history finished_state) = [1, 2]"
proof -
  have "start_order (history finished_state) = [1, 2]" by (simp add: finished_history List.map_filter_simps)
  moreover have "execute_result (config_of False 1) finished_state = Inr ()"
    using final_result [OF finished_reachable two_steps_good] by (simp add: two_steps_acyclic finished_history)
  ultimately show ?thesis
    using parallel_order_topological [OF finished_reachable two_steps_good] two_steps_acyclic finished_history(2) by simp
qed

end
