(* ===== verification/Work_Estimate.thy ===== *)
theory Work_Estimate
  imports Sorted_Range Scheduler Command_Line "HOL-Library.Product_Lexorder"
begin

text \<open>
  \<open>WorkEstimate\<close> (src/work_estimate.cpp), the constructor of \<open>Executor\<close>, and the order in which
  \<open>execute\<close> queues the first tasks (src/executor.cpp).
\<close>

section \<open>The estimates\<close>

text \<open>An entry: the path and the text behind the pipe, compared as a pair.\<close>

type_synonym estimates = "(string \<times> string) list"

definition estimate_line :: "string \<Rightarrow> estimates" where
  "estimate_line line =
     (if line = [] then []
      else case find_char (CHR ''|'') line of
             None \<Rightarrow> []
           | Some pipe_pos \<Rightarrow> [(substr line 0 pipe_pos, substr_from line (pipe_pos + 1))])"

function estimate_lines :: "string \<Rightarrow> estimates" where
  "estimate_lines content =
     (if content = [] then []
      else case find_char LF content of
             None \<Rightarrow> estimate_line content
           | Some e \<Rightarrow> estimate_line (substr content 0 e) @ estimate_lines (substr_from content (e + 1)))"
  by pat_completeness auto
termination by (relation "measure length") (auto simp: substr_from_def)

declare estimate_lines.simps [simp del]

text \<open>\<open>WorkEstimate::WorkEstimate\<close>: a file that cannot be mapped leaves no estimates.\<close>

definition new_work_estimate :: "disk \<Rightarrow> string \<Rightarrow> estimates" where
  "new_work_estimate d path_to_estimates =
     (case mapped d path_to_estimates of Inl what \<Rightarrow> [] | Inr content \<Rightarrow> sort (estimate_lines content))"

definition getWorkEstimate :: "estimates \<Rightarrow> string \<Rightarrow> nat" where
  "getWorkEstimate estimates p =
     (case found_at fst p estimates of
        Some (_, str) \<Rightarrow> (case from_chars str of Some val \<Rightarrow> val | None \<Rightarrow> 0)
      | None \<Rightarrow> 0)"

section \<open>The constructor of the executor\<close>

record Executor =
  ex_builder :: COBBuilder
  ex_config :: ExecutorConfig
  ex_estimator :: estimates

text \<open>The body of the constructor names \<open>config\<close>, which there is the parameter, whose strings have been
  moved into the member. \<open>moved_from\<close> is what the move leaves of a string.\<close>

definition new_executor :: "(string \<Rightarrow> string) \<Rightarrow> disk \<Rightarrow> COBBuilder \<Rightarrow> ExecutorConfig \<Rightarrow> Executor" where
  "new_executor moved_from d b config =
     \<lparr>ex_builder = b, ex_config = config, ex_estimator = new_work_estimate d (moved_from (estimates_file config))\<rparr>"

section \<open>The first tasks\<close>

definition task_estimate :: "build_graph \<Rightarrow> estimates \<Rightarrow> nat \<Rightarrow> nat" where
  "task_estimate g est i =
     (case step_id (nodes_m g ! i) of
        None \<Rightarrow> 0
      | Some sid \<Rightarrow> getWorkEstimate est (output_path (steps_m g ! sid)))"

text \<open>The order of tasks with the same estimate, which the source leaves to the library, is that of the
  nodes here.\<close>

definition initial_tasks :: "build_graph \<Rightarrow> estimates \<Rightarrow> nat list" where
  "initial_tasks g est = sort_key (\<lambda>i. - int (task_estimate g est i)) (initially_ready g)"

section \<open>Lookup\<close>

lemma sorted_fst: "sorted (xs :: (string \<times> string) list) \<Longrightarrow> sorted (map fst xs)"
  by (induction xs) (auto simp: less_eq_prod_def order.order_iff_strict)

lemma find_sorted_min:
  assumes "sorted (xs :: (string \<times> string) list)" "List.find (\<lambda>x. fst x = p) xs = Some (q, v)"
  shows "q = p \<and> (p, v) \<in> set xs \<and> (\<forall>v'. (p, v') \<in> set xs \<longrightarrow> v \<le> v')"
  using assms
proof (induction xs)
  case (Cons x xs)
  then show ?case
    by (cases "fst x = p") (auto simp: less_eq_prod_def dest: order.strict_implies_not_eq)
qed simp

text \<open>The estimate of a path. Whatever the estimates file holds, a path without an entry, and any path
  if the file cannot be mapped, has the estimate 0; otherwise the estimate is the number at the start
  of the value, or 0 if there is none that fits, of the entry of the path with the least value in
  the order of strings.\<close>

theorem getWorkEstimate_entry:
  "getWorkEstimate (new_work_estimate d f) p =
     (case mapped d f of
        Inl what \<Rightarrow> 0
      | Inr content \<Rightarrow>
          let vs = {v. (p, v) \<in> set (estimate_lines content)}
          in if vs = {} then 0 else case from_chars (Min vs) of Some val \<Rightarrow> val | None \<Rightarrow> 0)"
proof (cases "mapped d f")
  case (Inr content)
  let ?es = "sort (estimate_lines content)" and ?vs = "{v. (p, v) \<in> set (estimate_lines content)}"
  have sorted: "sorted ?es" by simp
  have find: "found_at fst p ?es = List.find (\<lambda>x. fst x = p) ?es"
    by (rule found_at_first [OF sorted_fst [OF sorted]])
  have "finite ?vs" by (rule finite_subset [of _ "snd ` set (estimate_lines content)"]) force+
  show ?thesis
  proof (cases "List.find (\<lambda>x. fst x = p) ?es")
    case None
    then have "?vs = {}" by (auto simp: find_None_iff)
    with None Inr find show ?thesis by (simp add: getWorkEstimate_def new_work_estimate_def)
  next
    case (Some e)
    obtain q v where e: "e = (q, v)" by fastforce
    from find_sorted_min [OF sorted Some [unfolded e]]
    have v: "v \<in> ?vs" "\<forall>v' \<in> ?vs. v \<le> v'" by auto
    with \<open>finite ?vs\<close> have "Min ?vs = v" by (intro Min_eqI) auto
    with v(1) Inr find Some e show ?thesis
      by (auto simp: getWorkEstimate_def new_work_estimate_def Let_def)
  qed
qed (simp add: getWorkEstimate_def new_work_estimate_def found_at_simps)

text \<open>The estimates of the command line are never used. The constructor of Executor opens the
  estimates file by the name it has just moved out of its parameter. Where a move leaves an empty
  string, as in the common libraries, and no file has the empty name, every estimate is 0, whatever
  file --estimates names and whatever it holds.\<close>

theorem estimates_never_loaded:
  assumes "moved_from (estimates_file config) = []" "files_of d [] = None"
  shows "getWorkEstimate (ex_estimator (new_executor moved_from d b config)) p = 0"
  using assms by (simp add: new_executor_def new_work_estimate_def mapped_def getWorkEstimate_def found_at_simps)

definition estimates_disk :: disk where
  "estimates_disk = link_disk\<lparr>files_of := [''catalyst.estimates'' \<mapsto> ''app|150'']\<rparr>"

lemma estimates_disk_read: "getWorkEstimate (new_work_estimate estimates_disk ''catalyst.estimates'') ''app'' = 150"
proof -
  have "mapped estimates_disk ''catalyst.estimates'' = Inr ''app|150''"
    by (simp add: mapped_def estimates_disk_def link_disk_def)
  moreover have "estimate_lines ''app|150'' = [(''app'', ''150'')]" by code_simp
  moreover have "from_chars (decimal 150 @ []) = Some 150" by (rule from_chars_decimal) simp_all
  moreover have "decimal 150 = ''150''" by code_simp
  ultimately show ?thesis by (simp add: new_work_estimate_def getWorkEstimate_def found_at_simps)
qed

lemma estimates_never_loaded_witness:
  "getWorkEstimate (ex_estimator (new_executor (\<lambda>_. []) estimates_disk (new_builder 4) (args_config default_args)))
     ''app'' = 0 \<and>
   getWorkEstimate (new_work_estimate estimates_disk ''catalyst.estimates'') ''app'' = 150"
proof
  show "getWorkEstimate (ex_estimator (new_executor (\<lambda>_. []) estimates_disk (new_builder 4) (args_config default_args)))
     ''app'' = 0"
    by (rule estimates_never_loaded) (simp_all add: estimates_disk_def)
qed (rule estimates_disk_read)

text \<open>The first tasks are the nodes that are ready at the start, each once, and no task comes before one with
  a greater estimate.\<close>

theorem initial_tasks_order:
  "mset (initial_tasks g est) = mset (initially_ready g) \<and>
   sorted_wrt (\<lambda>i j. task_estimate g est j \<le> task_estimate g est i) (initial_tasks g est)"
proof -
  have "sorted (map (\<lambda>i. - int (task_estimate g est i)) (initial_tasks g est))"
    unfolding initial_tasks_def by (rule sorted_sort_key)
  then show ?thesis by (simp add: initial_tasks_def sorted_map)
qed

end
