(* ===== verification/Execute.thy ===== *)
theory Execute
  imports Parallel_Order Build_Report Work_Estimate
begin

text \<open>
  \<open>Executor::execute\<close> (src/executor.cpp) up to the start of the workers: the empty graph, the cycle
  check, the tools and flags, \<open>ExecuteContext\<close>, the first tasks, the caches of modification times, the
  log file and the name for the last message. It connects the parts: what it hands to the scheduler
  and to the steps is what the properties of Schedule_Results.thy, Parallel_Order.thy and Rebuild.thy
  ask for.
\<close>

section \<open>The start of a build\<close>

record execution =
  en_sched :: sched_config
  en_order :: "nat list"
  en_tools :: ToolchainFlags
  en_ctx :: step_ctx
  en_progress_size :: nat
  en_log :: bool
  en_final_output :: string

datatype begun = Ended "unit result" | Begun execution

definition start_progress :: "ExecutorConfig \<Rightarrow> bool" where
  "start_progress cfg \<longleftrightarrow> \<not> silent cfg \<or> build_log_file cfg \<noteq> []"

text \<open>The parameters: the number of processors, the capacity the build gives the progress queue, and
  whether the log file can be opened.\<close>

definition execute_begin ::
  "(string \<Rightarrow> u64) \<Rightarrow> nat \<Rightarrow> nat \<Rightarrow> (string \<Rightarrow> bool) \<Rightarrow> world \<Rightarrow> Executor \<Rightarrow> begun option" where
  "execute_begin h hardware progress_queue_sz log_opens w ex =
     (let g = m_graph (ex_builder ex); cfg = ex_config ex
      in if nodes_m g = [] then Some (Ended (expected ()))
         else do { cyc \<leftarrow> cycle_check topoSort g;
              (case cyc of
                 Some e \<Rightarrow> Some (Ended (unexpected e))
               | None \<Rightarrow>
                   let thread_count = resolveThreadCount hardware (jobs cfg)
                   in if build_log_file cfg \<noteq> [] \<and> \<not> log_opens (build_log_file cfg)
                      then Some (Ended (unexpected (''Failed to open build log file: '' @ build_log_file cfg)))
                      else Some (Begun
                        \<lparr>en_sched = \<lparr>cfg_graph = g, cfg_keep_going = keep_going cfg, cfg_threads = thread_count\<rparr>,
                         en_order = initial_tasks g (ex_estimator ex),
                         en_tools = toolchain_of (ex_builder ex),
                         en_ctx = fresh_ctx h cfg thread_count g w,
                         en_progress_size = (if start_progress cfg then progress_queue_sz else 1),
                         en_log = (build_log_file cfg \<noteq> []),
                         en_final_output = final_output_name (silent cfg) g\<rparr>)) })"

text \<open>The loop that starts the workers stops early when everything has been completed by then; how far
  it gets depends on the workers that run already.\<close>

definition workers_started :: "execution \<Rightarrow> nat \<Rightarrow> bool" where
  "workers_started en workers \<longleftrightarrow> workers \<le> cfg_threads (en_sched en) \<and>
     (workers = 0 \<longleftrightarrow> source_nodes (cfg_graph (en_sched en)) = total_nodes (en_sched en))"

lemma sort_key_falling: "sorted (rev (map f (sort_key (\<lambda>i. - int (f i)) xs)))"
proof -
  have "sorted (map (\<lambda>i. - int (f i)) (sort_key (\<lambda>i. - int (f i)) xs))" by (rule sorted_sort_key)
  then have "sorted_wrt (\<lambda>a b. f b \<le> f a) (sort_key (\<lambda>i. - int (f i)) xs)" by (simp add: sorted_map)
  then show ?thesis by (simp add: rev_map sorted_map sorted_wrt_rev)
qed

section \<open>Properties\<close>

text \<open>What the workers get, in terms of the builder and the configuration.\<close>

lemma begun_build:
  assumes g: "graph_ok h g" "world_ok w"
    and en: "en = \<lparr>en_sched = \<lparr>cfg_graph = g, cfg_keep_going = keep_going cfg, cfg_threads = resolveThreadCount hardware (jobs cfg)\<rparr>,
      en_order = initial_tasks g est, en_tools = tools, en_ctx = fresh_ctx h cfg (resolveThreadCount hardware (jobs cfg)) g w,
      en_progress_size = psize, en_log = has_log, en_final_output = name\<rparr>"
  shows "good_graph (en_sched en) \<and> 0 < cfg_threads (en_sched en) \<and>
    (\<forall>workers. workers_started en workers \<longrightarrow> sched_reachable (en_sched en) (sched_init (en_sched en) (en_order en) workers)) \<and>
    set (en_order en) = set (initially_ready g) \<and> sorted (rev (map (task_estimate g est) (en_order en))) \<and>
    x_graph (en_ctx en) = g \<and> x_world (en_ctx en) = w \<and> coherent h w g (x_times (en_ctx en))"
proof -
  have E: "cfg_graph (en_sched en) = g" "en_order en = initial_tasks g est"
    "cfg_threads (en_sched en) = resolveThreadCount hardware (jobs cfg)"
    "en_ctx en = fresh_ctx h cfg (resolveThreadCount hardware (jobs cfg)) g w" by (simp_all add: en)
  have good: "good_graph (en_sched en)"
    unfolding good_graph_def E(1) using graph_ok_range [OF g(1)] graph_ok_sources [OF g(1)] by simp
  have reach: "sched_reachable (en_sched en) (sched_init (en_sched en) (en_order en) workers)"
    if "workers_started en workers" for workers
    by (rule sched_reachable.start) (use that in \<open>simp_all add: workers_started_def E initial_tasks_def\<close>)
  have falling: "sorted (rev (map (task_estimate g est) (en_order en)))"
    unfolding E(2) initial_tasks_def by (rule sort_key_falling)
  have times: "coherent h w g (x_times (en_ctx en))" "x_graph (en_ctx en) = g" "x_world (en_ctx en) = w"
    using new_node_times_coherent [OF graph_ok_range [OF g(1)] graph_ok_sources [OF g(1)] g(2)] by (simp_all add: E(4) fresh_ctx_def)
  have "set (en_order en) = set (initially_ready g)" by (simp add: E(2) initial_tasks_def)
  with good reach falling times show ?thesis using resolveThreadCount_pos by (simp add: E(3))
qed

text \<open>C14: A build starts in order. For every builder a parse can have built, and files of which those
  that exist have a time, execute gets to a decision, and which one is determined: an empty graph is a
  success without any action; otherwise a cyclic one is an error that names a node on a cycle;
  otherwise a log file that is asked for and cannot be opened is an error; and otherwise the build
  begins. Then the workers share that graph, their number is the resolved thread count and positive, the initial
  scheduler state is one the properties of the scheduler start from, for every number of workers the
  loop may start, the first tasks are the ready steps in falling order of their estimates, the caches of
  modification times agree with the files, and the log and the progress queue are those asked for.\<close>

theorem execute_begins:
  assumes "builder_ok h (ex_builder ex)" "world_ok w"
  shows "returns (execute_begin h hardware progress_queue_sz log_opens w ex) (\<lambda>r.
    let g = m_graph (ex_builder ex); cfg = ex_config ex
    in if nodes_m g = [] then r = Ended (Inr ())
       else if \<not> acyclic (edge_rel g) then
         \<exists>v < length (nodes_m g). (v, v) \<in> (edge_rel g)\<^sup>+ \<and> r = Ended (Inl (''Cycle detected in the build graph at: '' @ path (nodes_m g ! v)))
       else if build_log_file cfg \<noteq> [] \<and> \<not> log_opens (build_log_file cfg) then
         r = Ended (Inl (''Failed to open build log file: '' @ build_log_file cfg))
       else \<exists>en. r = Begun en \<and> cfg_graph (en_sched en) = g \<and> cfg_keep_going (en_sched en) = keep_going cfg \<and>
         cfg_threads (en_sched en) = resolveThreadCount hardware (jobs cfg) \<and> 0 < cfg_threads (en_sched en) \<and>
         good_graph (en_sched en) \<and>
         (\<forall>workers. workers_started en workers \<longrightarrow> sched_reachable (en_sched en) (sched_init (en_sched en) (en_order en) workers)) \<and>
         set (en_order en) = set (initially_ready g) \<and>
         sorted (rev (map (task_estimate g (ex_estimator ex)) (en_order en))) \<and>
         x_graph (en_ctx en) = g \<and> x_world (en_ctx en) = w \<and> coherent h w g (x_times (en_ctx en)) \<and>
         en_tools en = toolchain_of (ex_builder ex) \<and> (en_log en \<longleftrightarrow> build_log_file cfg \<noteq> []) \<and>
         en_progress_size en = (if silent cfg \<and> build_log_file cfg = [] then 1 else progress_queue_sz))"
proof -
  let ?g = "m_graph (ex_builder ex)" and ?cfg = "ex_config ex"
  have g: "graph_ok h ?g" using assms(1) by (simp add: builder_ok_def)
  obtain cyc where cyc: "cycle_check topoSort ?g = Some cyc" and ok: "case cyc of
      None \<Rightarrow> acyclic (edge_rel ?g)
    | Some e \<Rightarrow> (\<exists>v < length (nodes_m ?g). (v, v) \<in> (edge_rel ?g)\<^sup>+ \<and>
        e = ''Cycle detected in the build graph at: '' @ path (nodes_m ?g ! v))"
    using cycle_check_returns [OF g] by (rule returnsE)
  consider (empty) "nodes_m ?g = []" | (cyclic) e where "nodes_m ?g \<noteq> []" "cyc = Some e"
    | (log) "nodes_m ?g \<noteq> []" "cyc = None" "build_log_file ?cfg \<noteq> [] \<and> \<not> log_opens (build_log_file ?cfg)"
    | (begun) "nodes_m ?g \<noteq> []" "cyc = None" "\<not> (build_log_file ?cfg \<noteq> [] \<and> \<not> log_opens (build_log_file ?cfg))"
    by (cases cyc) auto
  then show ?thesis
  proof cases
    case empty
    then show ?thesis by (simp add: execute_begin_def returns_def)
  next
    case cyclic
    with ok have "\<not> acyclic (edge_rel ?g)" by (auto simp: acyclic_def)
    with cyclic cyc ok show ?thesis by (simp add: execute_begin_def returns_def Let_def)
  next
    case log
    with ok have "acyclic (edge_rel ?g)" by simp
    with log cyc show ?thesis by (simp add: execute_begin_def returns_def Let_def)
  next
    case begun
    with ok have "acyclic (edge_rel ?g)" by simp
    moreover define en where "en = \<lparr>en_sched = \<lparr>cfg_graph = ?g, cfg_keep_going = keep_going ?cfg, cfg_threads = resolveThreadCount hardware (jobs ?cfg)\<rparr>,
      en_order = initial_tasks ?g (ex_estimator ex), en_tools = toolchain_of (ex_builder ex),
      en_ctx = fresh_ctx h ?cfg (resolveThreadCount hardware (jobs ?cfg)) ?g w,
      en_progress_size = (if start_progress ?cfg then progress_queue_sz else 1),
      en_log = (build_log_file ?cfg \<noteq> []), en_final_output = final_output_name (silent ?cfg) ?g\<rparr>"
    moreover have "execute_begin h hardware progress_queue_sz log_opens w ex = Some (Begun en)"
      using begun cyc by (auto simp: execute_begin_def Let_def en_def)
    moreover note begun_build [OF g assms(2) en_def]
    moreover have "cfg_graph (en_sched en) = ?g" "cfg_keep_going (en_sched en) = keep_going ?cfg"
      "cfg_threads (en_sched en) = resolveThreadCount hardware (jobs ?cfg)" "en_tools en = toolchain_of (ex_builder ex)"
      "en_log en \<longleftrightarrow> build_log_file ?cfg \<noteq> []"
      "en_progress_size en = (if silent ?cfg \<and> build_log_file ?cfg = [] then 1 else progress_queue_sz)"
      by (auto simp: en_def start_progress_def)
    ultimately show ?thesis using begun unfolding returns_def Let_def by simp
  qed
qed

lemma execute_begins_witness:
  "\<exists>en. execute_begin (\<lambda>_. 7) 8 256 (\<lambda>_. True) edited
      \<lparr>ex_builder = cached_example, ex_config = plain_config False, ex_estimator = []\<rparr> = Some (Begun en) \<and>
    sched_reachable (en_sched en) (sched_init (en_sched en) (en_order en) 1)"
proof -
  let ?ex = "\<lparr>ex_builder = cached_example, ex_config = plain_config False, ex_estimator = []\<rparr>"
  have g: "cycle_check topoSort (m_graph cached_example) = Some None" "source_nodes (m_graph cached_example) = 2"
    "length (nodes_m (m_graph cached_example)) = 3" by code_simp+
  then have nodes: "nodes_m (m_graph cached_example) \<noteq> []" by auto
  with g(1) obtain en where en: "execute_begin (\<lambda>_. 7) 8 256 (\<lambda>_. True) edited ?ex = Some (Begun en)"
    "en_sched en = \<lparr>cfg_graph = m_graph cached_example, cfg_keep_going = False, cfg_threads = 1\<rparr>"
    by (simp add: execute_begin_def plain_config_def resolveThreadCount_def Let_def)
  have ok: "builder_ok (\<lambda>_. 7) (ex_builder ?ex)" using cached_example_ok(1) by (simp add: cacheable_def)
  from execute_begins [OF ok edited_ok, of 8 256 "\<lambda>_. True"] en(1)
  have "\<forall>workers. workers_started en workers \<longrightarrow> sched_reachable (en_sched en) (sched_init (en_sched en) (en_order en) workers)"
    unfolding returns_def Let_def by (auto split: if_splits)
  moreover have "workers_started en 1" by (simp add: workers_started_def en(2) g total_nodes_def)
  ultimately show ?thesis using en(1) by blast
qed

end
